(* ===== verification/Prelude.thy ===== *)
theory Prelude
  imports Main "HOL-Library.Word" "HOL-Library.Sublist"
begin

text \<open>
  Shared material: results of fallible Go code, the part of Go's standard packages
  \<^verbatim>\<open>strings\<close> and \<^verbatim>\<open>strconv\<close> that the modelled code calls, and the list lemmas the
  components share.

  A Go string is a sequence of bytes and is modelled as a \<open>string\<close>, whose
  characters are bytes. Case mapping and white space follow the ASCII part of the
  standard library; bytes from 128 on are left alone, so the model speaks about
  ASCII host names, rule texts and configuration keys.
\<close>

named_theorems go_strings \<open>facts about the string functions\<close>

section \<open>Results\<close>

text \<open>A Go call ends in a value, in an error value, or in a panic.\<close>

datatype ('e, 'a) outcome = Value 'a | Error 'e | Panic

fun bind_outcome :: "('e, 'a) outcome \<Rightarrow> ('a \<Rightarrow> ('e, 'b) outcome) \<Rightarrow> ('e, 'b) outcome" where
  "bind_outcome (Value a) f = f a"
| "bind_outcome (Error e) f = Error e"
| "bind_outcome Panic f = Panic"

lemma bind_outcome_eq_Value [simp]:
  "bind_outcome r f = Value b \<longleftrightarrow> (\<exists>a. r = Value a \<and> f a = Value b)"
  by (cases r) auto

section \<open>Strings\<close>

text \<open>\<^verbatim>\<open>strings.Split\<close> with a separator of one byte: never empty, keeps empty parts.\<close>

fun split_on :: "char \<Rightarrow> string \<Rightarrow> string list" where
  "split_on c [] = [[]]"
| "split_on c (x # xs) =
     (if x = c then [] # split_on c xs
      else (case split_on c xs of [] \<Rightarrow> [[x]] | y # ys \<Rightarrow> (x # y) # ys))"

text \<open>\<^verbatim>\<open>strings.Join\<close>.\<close>

fun join_with :: "string \<Rightarrow> string list \<Rightarrow> string" where
  "join_with sep [] = []"
| "join_with sep [s] = s"
| "join_with sep (s # t # ts) = s @ sep @ join_with sep (t # ts)"

lemma split_on_nonempty [simp]: "split_on c s \<noteq> []"
  by (induction s) (auto split: list.splits)

lemma join_with_Cons: "ts \<noteq> [] \<Longrightarrow> join_with sep (t # ts) = t @ sep @ join_with sep ts"
  by (cases ts) auto

lemma join_split_on [go_strings]: "join_with [c] (split_on c s) = s"
proof (induction s)
  case (Cons x xs)
  obtain y ys where *: "split_on c xs = y # ys"
    using split_on_nonempty by (meson neq_Nil_conv)
  with Cons show ?case
    by (cases ys) (auto simp: join_with_Cons)
qed simp

lemma split_on_no_sep [go_strings]: "c \<notin> set s \<Longrightarrow> split_on c s = [s]"
  by (induction s) auto

lemma split_on_append_sep [go_strings]:
  "c \<notin> set s \<Longrightarrow> split_on c (s @ c # t) = s # split_on c t"
  by (induction s) auto

lemma split_join [go_strings]:
  "ts \<noteq> [] \<Longrightarrow> (\<And>t. t \<in> set ts \<Longrightarrow> c \<notin> set t) \<Longrightarrow> split_on c (join_with [c] ts) = ts"
  by (induction "[c]" ts rule: join_with.induct) (auto simp: go_strings)

lemma set_join_with:
  "set (join_with sep ts) \<subseteq> set sep \<union> (\<Union>t\<in>set ts. set t)"
  by (induction sep ts rule: join_with.induct) auto

lemma split_on_parts: "t \<in> set (split_on c s) \<Longrightarrow> c \<notin> set t"
  by (induction s arbitrary: t) (auto split: list.splits if_splits)

text \<open>ASCII white space, as \<^verbatim>\<open>strings.TrimSpace\<close> removes it.\<close>

definition is_space :: "char \<Rightarrow> bool" where
  "is_space ch \<longleftrightarrow> ch \<in> {CHR 0x09, CHR 0x0A, CHR 0x0B, CHR 0x0C, CHR 0x0D, CHR '' ''}"

definition trim_by :: "(char \<Rightarrow> bool) \<Rightarrow> string \<Rightarrow> string" where
  "trim_by p s = rev (dropWhile p (rev (dropWhile p s)))"

definition trim_space :: "string \<Rightarrow> string" where
  "trim_space s = trim_by is_space s"

text \<open>\<^verbatim>\<open>strings.Trim\<close> with a cut set of single bytes, and \<^verbatim>\<open>strings.TrimRight\<close>.\<close>

definition trim_set :: "string \<Rightarrow> string \<Rightarrow> string" where
  "trim_set cs s = trim_by (\<lambda>ch. ch \<in> set cs) s"

definition trim_right :: "string \<Rightarrow> string \<Rightarrow> string" where
  "trim_right cs s = rev (dropWhile (\<lambda>ch. ch \<in> set cs) (rev s))"

lemma trim_by_id [go_strings]: "(\<And>ch. ch \<in> set s \<Longrightarrow> \<not> p ch) \<Longrightarrow> trim_by p s = s"
proof -
  assume a: "\<And>ch. ch \<in> set s \<Longrightarrow> \<not> p ch"
  then have d: "dropWhile p s = s" by (simp add: dropWhile_eq_self_iff)
  have "dropWhile p (rev s) = rev s"
    using a by (auto simp: dropWhile_eq_self_iff hd_rev)
  with d show ?thesis by (simp add: trim_by_def)
qed

lemma trim_by_nonempty_ends:
  "s \<noteq> [] \<Longrightarrow> \<not> p (hd s) \<Longrightarrow> \<not> p (last s) \<Longrightarrow> trim_by p s = s"
  by (simp add: trim_by_def dropWhile_eq_self_iff[THEN iffD2] hd_rev)

text \<open>\<^verbatim>\<open>strings.ToLower\<close> and \<^verbatim>\<open>strings.ToUpper\<close> on ASCII letters.\<close>

definition lower_char :: "char \<Rightarrow> char" where
  "lower_char ch = (let n = of_char ch :: nat in if 65 \<le> n \<and> n \<le> 90 then char_of (n + 32) else ch)"

definition upper_char :: "char \<Rightarrow> char" where
  "upper_char ch = (let n = of_char ch :: nat in if 97 \<le> n \<and> n \<le> 122 then char_of (n - 32) else ch)"

definition to_lower :: "string \<Rightarrow> string" where
  "to_lower s = map lower_char s"

definition to_upper :: "string \<Rightarrow> string" where
  "to_upper s = map upper_char s"

lemma lower_char_idem [simp]: "lower_char (lower_char ch) = lower_char ch"
  by (auto simp: lower_char_def Let_def)

lemma to_lower_idem [simp]: "to_lower (to_lower s) = to_lower s"
  by (simp add: to_lower_def)

lemma to_lower_Nil [simp]: "to_lower [] = []"
  by (simp add: to_lower_def)

lemma to_lower_append [simp]: "to_lower (s @ t) = to_lower s @ to_lower t"
  by (simp add: to_lower_def)

lemma length_to_lower [simp]: "length (to_lower s) = length s"
  by (simp add: to_lower_def)

text \<open>\<^verbatim>\<open>strings.HasPrefix\<close>, \<^verbatim>\<open>strings.HasSuffix\<close> and \<^verbatim>\<open>strings.Contains\<close>.\<close>

definition has_prefix :: "string \<Rightarrow> string \<Rightarrow> bool" where
  "has_prefix s p \<longleftrightarrow> prefix p s"

definition has_suffix :: "string \<Rightarrow> string \<Rightarrow> bool" where
  "has_suffix s p \<longleftrightarrow> suffix p s"

definition contains_str :: "string \<Rightarrow> string \<Rightarrow> bool" where
  "contains_str s p \<longleftrightarrow> sublist p s"

text \<open>\<^verbatim>\<open>strings.ReplaceAll\<close> of one byte by another.\<close>

definition replace_char :: "char \<Rightarrow> char \<Rightarrow> string \<Rightarrow> string" where
  "replace_char a b s = map (\<lambda>ch. if ch = a then b else ch) s"

section \<open>Decimal numbers\<close>

definition is_digit :: "char \<Rightarrow> bool" where
  "is_digit ch \<longleftrightarrow> 48 \<le> (of_char ch :: nat) \<and> (of_char ch :: nat) \<le> 57"

definition digit_val :: "char \<Rightarrow> nat" where
  "digit_val ch = (of_char ch :: nat) - 48"

definition digit_char :: "nat \<Rightarrow> char" where
  "digit_char d = char_of (48 + d)"

fun show_nat :: "nat \<Rightarrow> string" where
  "show_nat n = (if n < 10 then [digit_char n] else show_nat (n div 10) @ [digit_char (n mod 10)])"

declare show_nat.simps [simp del]

definition digits_val :: "string \<Rightarrow> nat" where
  "digits_val s = foldl (\<lambda>acc ch. acc * 10 + digit_val ch) 0 s"

text \<open>\<^verbatim>\<open>strconv.ParseUint(s, 10, bits)\<close>: the value, or \<open>None\<close> for the error (a syntax
  error, or a value that does not fit).\<close>

definition parse_uint :: "nat \<Rightarrow> string \<Rightarrow> nat option" where
  "parse_uint bits s =
     (if s = [] \<or> \<not> list_all is_digit s then None
      else if digits_val s < 2 ^ bits then Some (digits_val s) else None)"

text \<open>\<^verbatim>\<open>strconv.ParseInt(s, 10, bits)\<close>: an optional sign, then a magnitude that fits.\<close>

definition parse_int :: "nat \<Rightarrow> string \<Rightarrow> int option" where
  "parse_int bits s =
     (let neg = (case s of ch # _ \<Rightarrow> ch = CHR ''-'' | [] \<Rightarrow> False);
          body = (case s of ch # cs \<Rightarrow> if ch = CHR ''-'' \<or> ch = CHR ''+'' then cs else s | [] \<Rightarrow> [])
      in if body = [] \<or> \<not> list_all is_digit body then None
         else let v = digits_val body in
           if neg then (if v \<le> 2 ^ (bits - 1) then Some (- int v) else None)
           else (if v < 2 ^ (bits - 1) then Some (int v) else None))"

lemma of_char_digit_char: "d < 10 \<Longrightarrow> (of_char (digit_char d) :: nat) = 48 + d"
  by (simp add: digit_char_def)

lemma is_digit_digit_char [simp]: "d < 10 \<Longrightarrow> is_digit (digit_char d)"
  by (simp add: is_digit_def of_char_digit_char)

lemma digit_val_digit_char [simp]: "d < 10 \<Longrightarrow> digit_val (digit_char d) = d"
  by (simp add: digit_val_def of_char_digit_char)

lemma show_nat_nonempty [simp]: "show_nat n \<noteq> []"
  by (subst show_nat.simps) simp

lemma show_nat_digits: "list_all is_digit (show_nat n)"
proof (induction n rule: show_nat.induct)
  case (1 n)
  then show ?case by (subst show_nat.simps) auto
qed

lemma digits_val_show_nat [simp]: "digits_val (show_nat n) = n"
proof (induction n rule: show_nat.induct)
  case (1 n)
  show ?case
  proof (cases "n < 10")
    case True
    then show ?thesis by (subst show_nat.simps) (simp add: digits_val_def)
  next
    case False
    then have "digits_val (show_nat n) = digits_val (show_nat (n div 10)) * 10 + n mod 10"
      by (subst show_nat.simps) (simp add: digits_val_def)
    then show ?thesis using "1.IH" False by simp
  qed
qed

lemma parse_uint_show_nat [simp]: "n < 2 ^ bits \<Longrightarrow> parse_uint bits (show_nat n) = Some n"
  by (simp add: parse_uint_def show_nat_digits)

lemma parse_uint_bound: "parse_uint bits s = Some n \<Longrightarrow> n < 2 ^ bits"
  by (auto simp: parse_uint_def split: if_splits)

lemma digit_not_other:
  assumes "ch \<in> set (show_nat n)"
  shows "is_digit ch"
  using assms show_nat_digits by (auto simp: list_all_iff)

section \<open>Runs with fuel\<close>

text \<open>A Go function whose loop or recursion may not end takes fuel: it is done with a value,
  it panics, or the fuel ran out.\<close>

datatype 'a run = Done 'a | Crash | Fuel

fun bind_run :: "'a run \<Rightarrow> ('a \<Rightarrow> 'b run) \<Rightarrow> 'b run" where
  "bind_run (Done x) f = f x"
| "bind_run Crash f = Crash"
| "bind_run Fuel f = Fuel"

definition le_run :: "'a run \<Rightarrow> 'a run \<Rightarrow> bool" where
  "le_run r r' \<longleftrightarrow> r = Fuel \<or> r = r'"

lemma le_run_refl [simp, intro]: "le_run r r"
  by (simp add: le_run_def)

lemma le_run_trans: "le_run a b \<Longrightarrow> le_run b c \<Longrightarrow> le_run a c"
  by (auto simp: le_run_def)

lemma bind_run_mono [intro]:
  "le_run r r' \<Longrightarrow> (\<And>x. le_run (f x) (g x)) \<Longrightarrow> le_run (bind_run r f) (bind_run r' g)"
  unfolding le_run_def by (cases r) (auto, metis)

lemma bind_run_Done_eq: "bind_run r f = Done y \<longleftrightarrow> (\<exists>x. r = Done x \<and> f x = Done y)"
  by (cases r) auto

definition ends :: "'a run \<Rightarrow> bool" where
  "ends r \<longleftrightarrow> r \<noteq> Fuel"

lemma ends_simps [simp]: "ends (Done x)" "ends Crash" "\<not> ends Fuel"
  by (simp_all add: ends_def)

lemma bind_run_ends [intro]:
  "ends r \<Longrightarrow> (\<And>x. r = Done x \<Longrightarrow> ends (f x)) \<Longrightarrow> ends (bind_run r f)"
  by (cases r) auto

section \<open>Lists\<close>

lemma find_SomeD: "List.find p xs = Some x \<Longrightarrow> x \<in> set xs \<and> p x"
  by (induction xs) (auto split: if_splits)

lemma find_None: "List.find p xs = None \<longleftrightarrow> (\<forall>x\<in>set xs. \<not> p x)"
  by (induction xs) auto

section \<open>Words\<close>

lemma unat_succ: "\<not> (i::'w::len word) + 1 < i \<Longrightarrow> unat (i + 1) = Suc (unat i)"
  by (simp add: not_less unat_plus_simple)

lemma succ_le_of_less: "(i::'w::len word) < j \<Longrightarrow> i + 1 \<le> j"
  by (rule inc_le)

lemma succ_gt_of_less: "(i::'w::len word) < j \<Longrightarrow> i < i + 1"
  using inc_less_eq_triv_imp [of i] by (fastforce simp: not_le [symmetric])

end
