(* ===== verification/Netip.thy ===== *)
theory Netip
  imports Prelude "HOL-Library.Char_ord" "HOL-Library.List_Lexorder"
begin

unbundle bit_operations_syntax

text \<open>
  The part of Go's \<^verbatim>\<open>net/netip\<close> that the modelled code calls: addresses, their
  predicates, prefixes, and the parsers of their texts. \<open>NoAddr\<close> is the zero
  \<^verbatim>\<open>netip.Addr{}\<close>, an IPv6 address carries its zone.
\<close>

datatype addr = NoAddr | V4 "32 word" | V6 "128 word" string

definition IsValid :: "addr \<Rightarrow> bool" where
  "IsValid ip \<longleftrightarrow> ip \<noteq> NoAddr"

definition Is4 :: "addr \<Rightarrow> bool" where
  "Is4 ip = (case ip of V4 _ \<Rightarrow> True | _ \<Rightarrow> False)"

definition Is6 :: "addr \<Rightarrow> bool" where
  "Is6 ip = (case ip of V6 _ _ \<Rightarrow> True | _ \<Rightarrow> False)"

definition Is4In6 :: "addr \<Rightarrow> bool" where
  "Is4In6 ip = (case ip of V6 w _ \<Rightarrow> drop_bit 32 w = 0xffff | _ \<Rightarrow> False)"

definition Unmap :: "addr \<Rightarrow> addr" where
  "Unmap ip = (case ip of V6 w z \<Rightarrow> if Is4In6 ip then V4 (ucast w) else ip | _ \<Rightarrow> ip)"

definition WithoutZone :: "addr \<Rightarrow> addr" where
  "WithoutZone ip = (case ip of V6 w z \<Rightarrow> V6 w '''' | _ \<Rightarrow> ip)"

lemma Unmap_idem [simp]: "Unmap (Unmap ip) = Unmap ip"
  by (auto simp: Unmap_def Is4In6_def split: addr.splits)

lemma Unmap_valid [simp]: "Unmap ip = NoAddr \<longleftrightarrow> ip = NoAddr"
  by (auto simp: Unmap_def split: addr.splits)

lemma IsValid_simps [simp]: "\<not> IsValid NoAddr" "IsValid (V4 w)" "IsValid (V6 v z)"
  by (simp_all add: IsValid_def)

section \<open>Bytes\<close>

text \<open>\<^verbatim>\<open>AsSlice\<close>: the bytes of an address, the most significant first.\<close>

definition word_bytes :: "nat \<Rightarrow> 'w::len word \<Rightarrow> 8 word list" where
  "word_bytes n w = map (\<lambda>i. ucast (drop_bit (8 * i) w)) (rev [0..<n])"

definition AsSlice :: "addr \<Rightarrow> 8 word list" where
  "AsSlice ip = (case ip of NoAddr \<Rightarrow> [] | V4 w \<Rightarrow> word_bytes 4 w | V6 w _ \<Rightarrow> word_bytes 16 w)"

lemma length_word_bytes [simp]: "length (word_bytes n w) = n"
  by (simp add: word_bytes_def)

lemma length_AsSlice: "length (AsSlice ip) = (case ip of NoAddr \<Rightarrow> 0 | V4 _ \<Rightarrow> 4 | V6 _ _ \<Rightarrow> 16)"
  by (auto simp: AsSlice_def split: addr.splits)

section \<open>Predicates\<close>

text \<open>The predicates look at the IPv4 address inside a mapped address.\<close>

definition IsPrivate :: "addr \<Rightarrow> bool" where
  "IsPrivate ip =
     (case Unmap ip of
        NoAddr \<Rightarrow> False
      | V4 w \<Rightarrow> drop_bit 24 w = 10 \<or> drop_bit 20 w = 0xac1 \<or> drop_bit 16 w = 0xc0a8
      | V6 w _ \<Rightarrow> drop_bit 121 w = 0x7e)"

definition IsUnspecified :: "addr \<Rightarrow> bool" where
  "IsUnspecified ip \<longleftrightarrow> ip = V4 0 \<or> ip = V6 0 ''''"

definition IsLoopback :: "addr \<Rightarrow> bool" where
  "IsLoopback ip =
     (case Unmap ip of NoAddr \<Rightarrow> False | V4 w \<Rightarrow> drop_bit 24 w = 127 | V6 w _ \<Rightarrow> w = 1)"

definition IsMulticast :: "addr \<Rightarrow> bool" where
  "IsMulticast ip =
     (case Unmap ip of NoAddr \<Rightarrow> False | V4 w \<Rightarrow> drop_bit 28 w = 0xe | V6 w _ \<Rightarrow> drop_bit 120 w = 0xff)"

definition IsLinkLocalUnicast :: "addr \<Rightarrow> bool" where
  "IsLinkLocalUnicast ip =
     (case Unmap ip of NoAddr \<Rightarrow> False | V4 w \<Rightarrow> drop_bit 16 w = 0xa9fe | V6 w _ \<Rightarrow> drop_bit 118 w = 0x3fa)"

section \<open>Prefixes\<close>

record prefix =
  prefix_addr :: addr
  prefix_bits :: nat

definition prefix_contains :: "prefix \<Rightarrow> addr \<Rightarrow> bool" where
  "prefix_contains p ip =
     (case (prefix_addr p, ip) of
        (V4 a, V4 b) \<Rightarrow> prefix_bits p \<le> 32 \<and> drop_bit (32 - prefix_bits p) (a XOR b) = 0
      | (V6 a _, V6 b z) \<Rightarrow> z = '''' \<and> prefix_bits p \<le> 128 \<and> drop_bit (128 - prefix_bits p) (a XOR b) = 0
      | _ \<Rightarrow> False)"

lemma prefix_contains_self:
  "prefix_addr p = V4 a \<Longrightarrow> prefix_bits p \<le> 32 \<Longrightarrow> prefix_contains p (V4 a)"
  by (simp add: prefix_contains_def)

section \<open>The order of addresses\<close>

text \<open>\<^verbatim>\<open>Addr.Compare\<close>: by bit length, then by value, then by zone.\<close>

instantiation addr :: linorder
begin

fun less_addr :: "addr \<Rightarrow> addr \<Rightarrow> bool" where
  "less_addr NoAddr b \<longleftrightarrow> b \<noteq> NoAddr"
| "less_addr (V4 x) (V4 y) \<longleftrightarrow> x < y"
| "less_addr (V4 x) (V6 y z) \<longleftrightarrow> True"
| "less_addr (V6 x z) (V6 y z') \<longleftrightarrow> x < y \<or> x = y \<and> z < z'"
| "less_addr a b \<longleftrightarrow> False"

definition less_eq_addr :: "addr \<Rightarrow> addr \<Rightarrow> bool" where
  "less_eq_addr a b \<longleftrightarrow> a = b \<or> a < b"

instance
proof
  fix a b c :: addr
  have irrefl: "\<not> a < a" for a :: addr by (cases a) auto
  have trans: "a < c" if "a < b" "b < c" for a b c :: addr
    using that by (cases a; cases b; cases c) auto
  show "a < b \<longleftrightarrow> a \<le> b \<and> \<not> b \<le> a"
    using irrefl trans by (metis less_eq_addr_def)
  show "a \<le> a" by (simp add: less_eq_addr_def)
  show "a \<le> b \<Longrightarrow> b \<le> c \<Longrightarrow> a \<le> c" using trans by (metis less_eq_addr_def)
  show "a \<le> b \<Longrightarrow> b \<le> a \<Longrightarrow> a = b" using irrefl trans by (metis less_eq_addr_def)
  show "a \<le> b \<or> b \<le> a" by (cases a; cases b) (auto simp: less_eq_addr_def)
qed

end

text \<open>\<^verbatim>\<open>Addr.Next\<close> and \<^verbatim>\<open>Addr.Prev\<close>: invalid after the last and before the first address.\<close>

definition Next :: "addr \<Rightarrow> addr" where
  "Next a = (case a of NoAddr \<Rightarrow> NoAddr
     | V4 w \<Rightarrow> if w = - 1 then NoAddr else V4 (w + 1)
     | V6 w z \<Rightarrow> if w = - 1 then NoAddr else V6 (w + 1) z)"

definition Prev :: "addr \<Rightarrow> addr" where
  "Prev a = (case a of NoAddr \<Rightarrow> NoAddr
     | V4 w \<Rightarrow> if w = 0 then NoAddr else V4 (w - 1)
     | V6 w z \<Rightarrow> if w = 0 then NoAddr else V6 (w - 1) z)"

text \<open>\<^verbatim>\<open>Prefix.IsValid\<close>, and the address of \<^verbatim>\<open>Prefix.Masked\<close>, whose host bits are cleared.\<close>

definition prefix_valid :: "prefix \<Rightarrow> bool" where
  "prefix_valid p =
     (case prefix_addr p of NoAddr \<Rightarrow> False | V4 w \<Rightarrow> prefix_bits p \<le> 32 | V6 w z \<Rightarrow> prefix_bits p \<le> 128)"

definition masked_addr :: "prefix \<Rightarrow> addr" where
  "masked_addr p =
     (if \<not> prefix_valid p then NoAddr
      else case prefix_addr p of NoAddr \<Rightarrow> NoAddr
        | V4 w \<Rightarrow> V4 (push_bit (32 - prefix_bits p) (drop_bit (32 - prefix_bits p) w))
        | V6 w z \<Rightarrow> V6 (push_bit (128 - prefix_bits p) (drop_bit (128 - prefix_bits p) w)) '''')"

text \<open>Addresses by number: \<open>addr_at six n\<close> is the \<open>n\<close>-th IPv4 or IPv6 address.\<close>

definition addr_bits :: "bool \<Rightarrow> nat" where
  "addr_bits six = (if six then 128 else 32)"

definition addr_at :: "bool \<Rightarrow> nat \<Rightarrow> addr" where
  "addr_at six n = (if six then V6 (word_of_nat n) '''' else V4 (word_of_nat n))"

lemma addr_at_eq_iff:
  "m < 2 ^ addr_bits six \<Longrightarrow> n < 2 ^ addr_bits six \<Longrightarrow> addr_at six m = addr_at six n \<longleftrightarrow> m = n"
  by (cases six) (simp_all add: addr_at_def addr_bits_def word_of_nat_eq_iff take_bit_nat_eq_self)

lemma word_of_nat_less_iff':
  "m < 2 ^ LENGTH('w::len) \<Longrightarrow> n < 2 ^ LENGTH('w) \<Longrightarrow> (word_of_nat m :: 'w word) < word_of_nat n \<longleftrightarrow> m < n"
  by (simp only: word_less_nat_alt unsigned_of_nat take_bit_nat_eq_self of_nat_id)

lemma addr_at_less_iff:
  "m < 2 ^ addr_bits six \<Longrightarrow> n < 2 ^ addr_bits six \<Longrightarrow> addr_at six m < addr_at six n \<longleftrightarrow> m < n"
  using word_of_nat_less_iff' [where 'w = 32, of m n] word_of_nat_less_iff' [where 'w = 128, of m n]
  by (cases six) (simp_all add: addr_at_def addr_bits_def)

lemma word_of_nat_Suc_nonzero:
  assumes "Suc n < 2 ^ LENGTH('w::len)"
  shows "(word_of_nat (Suc n) :: 'w word) \<noteq> 0"
proof -
  have "unat (word_of_nat (Suc n) :: 'w word) = Suc n"
    using assms by (simp only: unsigned_of_nat take_bit_nat_eq_self of_nat_id)
  then show ?thesis by (metis nat.distinct(1) unsigned_0)
qed

lemma word_of_nat_neq_max:
  assumes "Suc n < 2 ^ LENGTH('w::len)"
  shows "(word_of_nat n :: 'w word) \<noteq> - 1"
proof
  assume "(word_of_nat n :: 'w word) = - 1"
  then have "(word_of_nat (Suc n) :: 'w word) = 0" by simp
  with word_of_nat_Suc_nonzero [OF assms] show False by simp
qed

lemma Next_addr_at [simp]:
  assumes "Suc n < 2 ^ addr_bits six"
  shows "Next (addr_at six n) = addr_at six (Suc n)"
proof (cases six)
  case True
  with assms have "(word_of_nat n :: 128 word) \<noteq> - 1" by (intro word_of_nat_neq_max) (simp add: addr_bits_def)
  with True show ?thesis by (simp add: Next_def addr_at_def add.commute)
next
  case False
  with assms have "(word_of_nat n :: 32 word) \<noteq> - 1" by (intro word_of_nat_neq_max) (simp add: addr_bits_def)
  with False show ?thesis by (simp add: Next_def addr_at_def add.commute)
qed

lemma Next_addr_at_last: "Next (addr_at six (2 ^ addr_bits six - 1)) = NoAddr"
  by (simp add: Next_def addr_at_def addr_bits_def)

lemma Prev_addr_at [simp]:
  assumes "Suc n < 2 ^ addr_bits six"
  shows "Prev (addr_at six (Suc n)) = addr_at six n"
proof (cases six)
  case True
  with assms have "(word_of_nat (Suc n) :: 128 word) \<noteq> 0" by (intro word_of_nat_Suc_nonzero) (simp add: addr_bits_def)
  with True show ?thesis by (simp add: Prev_def addr_at_def)
next
  case False
  with assms have "(word_of_nat (Suc n) :: 32 word) \<noteq> 0" by (intro word_of_nat_Suc_nonzero) (simp add: addr_bits_def)
  with False show ?thesis by (simp add: Prev_def addr_at_def)
qed

lemma IsValid_addr_at [simp]: "IsValid (addr_at six n)"
  by (simp add: IsValid_def addr_at_def)

section \<open>Parsing\<close>

definition hex_val :: "char \<Rightarrow> nat option" where
  "hex_val ch = (let n = of_char ch :: nat in
     if 48 \<le> n \<and> n \<le> 57 then Some (n - 48)
     else if 97 \<le> n \<and> n \<le> 102 then Some (n - 87)
     else if 65 \<le> n \<and> n \<le> 70 then Some (n - 55)
     else None)"

text \<open>One field of a dotted IPv4 text: one to three digits, no leading zero, at most 255.\<close>

definition parse_octet :: "string \<Rightarrow> nat option" where
  "parse_octet s =
     (if s = [] \<or> length s > 3 \<or> \<not> list_all is_digit s then None
      else if length s > 1 \<and> hd s = CHR ''0'' then None
      else if digits_val s > 255 then None else Some (digits_val s))"

fun all_some :: "'a option list \<Rightarrow> 'a list option" where
  "all_some [] = Some []"
| "all_some (None # xs) = None"
| "all_some (Some x # xs) = (case all_some xs of None \<Rightarrow> None | Some ys \<Rightarrow> Some (x # ys))"

definition parse_v4_fields :: "string \<Rightarrow> nat list option" where
  "parse_v4_fields s =
     (let fields = split_on CHR ''.'' s in
      if length fields = 4 then all_some (map parse_octet fields) else None)"

definition from_base :: "nat \<Rightarrow> nat list \<Rightarrow> nat" where
  "from_base b ds = foldl (\<lambda>acc d. acc * b + d) 0 ds"

text \<open>The loop of \<^verbatim>\<open>parseIPv6\<close>: groups read so far (16 bits each) and the index of the
  ellipsis, if one was read. At most eight groups are read.\<close>

fun parse_v6_groups :: "nat \<Rightarrow> string \<Rightarrow> nat list \<Rightarrow> nat option \<Rightarrow> (nat list \<times> nat option) option" where
  "parse_v6_groups 0 s gs ell = (if s = [] then Some (gs, ell) else None)"
| "parse_v6_groups (Suc n) s gs ell =
     (let ds = takeWhile (\<lambda>ch. hex_val ch \<noteq> None) s;
          rest = dropWhile (\<lambda>ch. hex_val ch \<noteq> None) s
      in if ds = [] \<or> length ds > 4 then None
         else case rest of
           [] \<Rightarrow> Some (gs @ [from_base 16 (map (the o hex_val) ds)], ell)
         | ch # rest' \<Rightarrow>
             if ch = CHR ''.'' then
               (if (ell = None \<and> length gs \<noteq> 6) \<or> length gs > 6 then None
                else case parse_v4_fields s of
                       Some [a, b, c, d] \<Rightarrow> Some (gs @ [a * 256 + b, c * 256 + d], ell)
                     | _ \<Rightarrow> None)
             else if ch \<noteq> CHR '':'' \<or> rest' = [] then None
             else
               let gs' = gs @ [from_base 16 (map (the o hex_val) ds)] in
               if hd rest' = CHR '':'' then
                 (if ell \<noteq> None then None
                  else if tl rest' = [] then Some (gs', Some (length gs'))
                  else parse_v6_groups n (tl rest') gs' (Some (length gs')))
               else parse_v6_groups n rest' gs' ell)"

definition parse_v6 :: "string \<Rightarrow> addr option" where
  "parse_v6 s0 =
     (let s = takeWhile (\<lambda>ch. ch \<noteq> CHR ''%'') s0;
          zoned = CHR ''%'' \<in> set s0;
          zone = drop (length s + 1) s0;
          start = (case s of
                     a # b # r \<Rightarrow> if a = CHR '':'' \<and> b = CHR '':'' then (r, Some 0) else (s, None)
                   | _ \<Rightarrow> (s, None))
      in if zoned \<and> zone = [] then None
         else if start = ([], Some 0) then Some (V6 0 zone)
         else case parse_v6_groups 8 (fst start) [] (snd start) of
                None \<Rightarrow> None
              | Some (gs, None) \<Rightarrow>
                  if length gs = 8 then Some (V6 (word_of_nat (from_base 65536 gs)) zone) else None
              | Some (gs, Some e) \<Rightarrow>
                  if length gs \<ge> 8 then None
                  else Some (V6 (word_of_nat (from_base 65536
                         (take e gs @ replicate (8 - length gs) 0 @ drop e gs))) zone))"

definition ParseAddr :: "string \<Rightarrow> addr option" where
  "ParseAddr s =
     (case List.find (\<lambda>ch. ch \<in> {CHR ''.'', CHR '':'', CHR ''%''}) s of
        None \<Rightarrow> None
      | Some ch \<Rightarrow>
          if ch = CHR ''.'' then
            (case parse_v4_fields s of
               Some [a, b, c, d] \<Rightarrow> Some (V4 (word_of_nat (from_base 256 [a, b, c, d])))
             | _ \<Rightarrow> None)
          else if ch = CHR '':'' then parse_v6 s
          else None)"

definition ParsePrefix :: "string \<Rightarrow> prefix option" where
  "ParsePrefix s =
     (if CHR ''/'' \<notin> set s then None
      else
        let bitsStr = rev (takeWhile (\<lambda>ch. ch \<noteq> CHR ''/'') (rev s));
            ipStr = take (length s - length bitsStr - 1) s
        in case ParseAddr ipStr of
             None \<Rightarrow> None
           | Some ip \<Rightarrow>
               if (case ip of V6 _ z \<Rightarrow> z \<noteq> '''' | _ \<Rightarrow> False) then None
               else if bitsStr = [] \<or> \<not> list_all is_digit bitsStr
                  \<or> (length bitsStr > 1 \<and> hd bitsStr = CHR ''0'') then None
               else let bits = digits_val bitsStr in
                 if bits > (case ip of V4 _ \<Rightarrow> 32 | _ \<Rightarrow> 128) then None
                 else Some \<lparr>prefix_addr = ip, prefix_bits = bits\<rparr>)"

lemma all_some_map_Some [simp]: "all_some (map Some xs) = Some xs"
  by (induction xs) auto

section \<open>Printing\<close>

text \<open>\<^verbatim>\<open>String\<close>: a dotted IPv4 address; the groups of an IPv6 address in hexadecimal, the first
  of the longest runs of at least two zero groups replaced by two colons.\<close>

fun show_hex :: "nat \<Rightarrow> string" where
  "show_hex n = (let d = [if n mod 16 < 10 then char_of (48 + n mod 16) else char_of (87 + n mod 16)] in
     if n < 16 then d else show_hex (n div 16) @ d)"

declare show_hex.simps [simp del]

definition v6_groups :: "128 word \<Rightarrow> nat list" where
  "v6_groups w = map (\<lambda>i. unat (ucast (drop_bit (16 * i) w) :: 16 word)) (rev [0..<8])"

definition zero_run :: "nat list \<Rightarrow> nat \<Rightarrow> nat" where
  "zero_run gs i = length (takeWhile (\<lambda>g. g = 0) (drop i gs))"

definition longest_zeros :: "nat list \<Rightarrow> (nat \<times> nat) option" where
  "longest_zeros gs = foldl (\<lambda>acc i. let l = zero_run gs i in
     if l \<ge> 2 \<and> (case acc of None \<Rightarrow> True | Some (a, b) \<Rightarrow> l > b - a) then Some (i, i + l) else acc) None [0..<8]"

definition v4_String :: "32 word \<Rightarrow> string" where
  "v4_String w = join_with ''.'' (map (\<lambda>b. show_nat (unat b)) (word_bytes 4 w))"

definition addr_String :: "addr \<Rightarrow> string" where
  "addr_String ip =
     (case ip of
        NoAddr \<Rightarrow> ''invalid IP''
      | V4 w \<Rightarrow> v4_String w
      | V6 w z \<Rightarrow>
          (if Is4In6 ip then ''::ffff:'' @ v4_String (ucast w)
           else let gs = v6_groups w in
             case longest_zeros gs of
               None \<Rightarrow> join_with '':'' (map show_hex gs)
             | Some (a, b) \<Rightarrow> join_with '':'' (map show_hex (take a gs)) @ ''::'' @ join_with '':'' (map show_hex (drop b gs)))
          @ (if z = '''' then '''' else ''%'' @ z))"

text \<open>\<^verbatim>\<open>net.ParseIP\<close> gives an address exactly for the texts of addresses without a zone.\<close>

definition is_ip_text :: "string \<Rightarrow> bool" where
  "is_ip_text s \<longleftrightarrow> (case ParseAddr s of None \<Rightarrow> False | Some ip \<Rightarrow> WithoutZone ip = ip)"

end
