(* ===== verification/Metadata.thy ===== *)
theory Metadata
  imports Netip
begin

text \<open>
  The connection metadata of \<^verbatim>\<open>constant/metadata.go\<close>, with the enumerations of that
  file, of \<^verbatim>\<open>constant/dns.go\<close> and of \<^verbatim>\<open>constant/rule.go\<close>. An enumeration is a datatype of the
  declared constants. The fields \<^verbatim>\<open>RawSrcAddr\<close> and \<^verbatim>\<open>RawDstAddr\<close>, which hold the
  sockets' own address values, are left out; a list that may be nil is an option.
\<close>

datatype NetWork = TCP | UDP | ALLNet | InvalidNet

datatype Type = HTTP | HTTPS | SOCKS4 | SOCKS5 | SHADOWSOCKS | SNELL | VMESS | VLESS | REDIR
  | TPROXY | TROJAN | TUNNEL | TUN | TUIC | HYSTERIA2 | ANYTLS | MIERU | SUDOKU | TRUSTTUNNEL | INNER

datatype AddrType = AtypIPv4 | AtypDomainName | AtypIPv6

datatype DNSMode = DNSNormal | DNSFakeIP | DNSMapping | DNSHosts

fun AddrType_String :: "AddrType \<Rightarrow> string" where
  "AddrType_String AtypIPv4 = ''IPv4''"
| "AddrType_String AtypDomainName = ''DomainName''"
| "AddrType_String AtypIPv6 = ''IPv6''"

fun NetWork_String :: "NetWork \<Rightarrow> string" where
  "NetWork_String TCP = ''tcp''"
| "NetWork_String UDP = ''udp''"
| "NetWork_String ALLNet = ''all''"
| "NetWork_String InvalidNet = ''invalid''"

fun Type_String :: "Type \<Rightarrow> string" where
  "Type_String HTTP = ''HTTP''"
| "Type_String HTTPS = ''HTTPS''"
| "Type_String SOCKS4 = ''Socks4''"
| "Type_String SOCKS5 = ''Socks5''"
| "Type_String SHADOWSOCKS = ''ShadowSocks''"
| "Type_String SNELL = ''Snell''"
| "Type_String VMESS = ''Vmess''"
| "Type_String VLESS = ''Vless''"
| "Type_String REDIR = ''Redir''"
| "Type_String TPROXY = ''TProxy''"
| "Type_String TROJAN = ''Trojan''"
| "Type_String TUNNEL = ''Tunnel''"
| "Type_String TUN = ''Tun''"
| "Type_String TUIC = ''Tuic''"
| "Type_String HYSTERIA2 = ''Hysteria2''"
| "Type_String ANYTLS = ''AnyTLS''"
| "Type_String MIERU = ''Mieru''"
| "Type_String SUDOKU = ''Sudoku''"
| "Type_String TRUSTTUNNEL = ''TrustTunnel''"
| "Type_String INNER = ''Inner''"

definition ParseType :: "string \<Rightarrow> Type option" where
  "ParseType t = map_of
     [(''HTTP'', HTTP), (''HTTPS'', HTTPS), (''SOCKS4'', SOCKS4), (''SOCKS5'', SOCKS5),
      (''SHADOWSOCKS'', SHADOWSOCKS), (''SNELL'', SNELL), (''VMESS'', VMESS), (''VLESS'', VLESS),
      (''REDIR'', REDIR), (''TPROXY'', TPROXY), (''TROJAN'', TROJAN), (''TUNNEL'', TUNNEL),
      (''TUN'', TUN), (''TUIC'', TUIC), (''HYSTERIA2'', HYSTERIA2), (''ANYTLS'', ANYTLS),
      (''MIERU'', MIERU), (''SUDOKU'', SUDOKU), (''TRUSTTUNNEL'', TRUSTTUNNEL), (''INNER'', INNER)] t"

fun DNSMode_String :: "DNSMode \<Rightarrow> string" where
  "DNSMode_String DNSNormal = ''normal''"
| "DNSMode_String DNSFakeIP = ''fake-ip''"
| "DNSMode_String DNSMapping = ''redir-host''"
| "DNSMode_String DNSHosts = ''hosts''"

text \<open>\<^verbatim>\<open>DNSModeMapping\<close> and \<^verbatim>\<open>UnmarshalText\<close>; hosts mode has no text.\<close>

definition DNSModeMapping :: "string \<Rightarrow> DNSMode option" where
  "DNSModeMapping = map_of (map (\<lambda>m. (DNSMode_String m, m)) [DNSNormal, DNSFakeIP, DNSMapping])"

definition DNSMode_UnmarshalText :: "string \<Rightarrow> DNSMode option" where
  "DNSMode_UnmarshalText t = DNSModeMapping (to_lower t)"

record Metadata =
  NetWork :: NetWork
  Type :: Type
  SrcIP :: addr
  DstIP :: addr
  SrcGeoIP :: "string list option"
  DstGeoIP :: "string list option"
  SrcIPASN :: string
  DstIPASN :: string
  SrcPort :: "16 word"
  DstPort :: "16 word"
  InIP :: addr
  InPort :: "16 word"
  InName :: string
  InUser :: string
  Host :: string
  DNSMode :: DNSMode
  Uid :: "32 word"
  Process :: string
  ProcessPath :: string
  SpecialProxy :: string
  SpecialRules :: string
  RemoteDst :: string
  DSCP :: "8 word"
  SniffHost :: string

text \<open>The zero value \<^verbatim>\<open>Metadata{}\<close>.\<close>

definition zeroMetadata :: Metadata where
  "zeroMetadata = \<lparr>NetWork = TCP, Type = HTTP, SrcIP = NoAddr, DstIP = NoAddr, SrcGeoIP = None,
     DstGeoIP = None, SrcIPASN = '''', DstIPASN = '''', SrcPort = 0, DstPort = 0, InIP = NoAddr,
     InPort = 0, InName = '''', InUser = '''', Host = '''', DNSMode = DNSNormal, Uid = 0,
     Process = '''', ProcessPath = '''', SpecialProxy = '''', SpecialRules = '''',
     RemoteDst = '''', DSCP = 0, SniffHost = ''''\<rparr>"

definition SourceAddrPort :: "Metadata \<Rightarrow> addr \<times> 16 word" where
  "SourceAddrPort m = (Unmap (SrcIP m), SrcPort m)"

definition SourceValid :: "Metadata \<Rightarrow> bool" where
  "SourceValid m \<longleftrightarrow> SrcPort m \<noteq> 0 \<and> IsValid (SrcIP m)"

definition AddrType :: "Metadata \<Rightarrow> AddrType" where
  "AddrType m =
     (if Host m \<noteq> '''' \<or> \<not> IsValid (DstIP m) then AtypDomainName
      else if Is4 (DstIP m) then AtypIPv4 else AtypIPv6)"

definition Resolved :: "Metadata \<Rightarrow> bool" where
  "Resolved m = IsValid (DstIP m)"

definition RuleHost :: "Metadata \<Rightarrow> string" where
  "RuleHost m = (if length (SniffHost m) = 0 then Host m else SniffHost m)"

definition Pure :: "Metadata \<Rightarrow> Metadata" where
  "Pure m =
     (if (DNSMode m = DNSMapping \<or> DNSMode m = DNSHosts) \<and> IsValid (DstIP m)
      then m\<lparr>Host := ''''\<rparr> else m)"

definition AddrPort :: "Metadata \<Rightarrow> addr \<times> 16 word" where
  "AddrPort m = (Unmap (DstIP m), DstPort m)"

definition UDPAddr :: "Metadata \<Rightarrow> (addr \<times> 16 word) option" where
  "UDPAddr m = (if NetWork m \<noteq> UDP \<or> \<not> IsValid (DstIP m) then None else Some (AddrPort m))"

definition Valid :: "Metadata \<Rightarrow> bool" where
  "Valid m \<longleftrightarrow> Host m \<noteq> '''' \<or> IsValid (DstIP m)"

text \<open>\<^verbatim>\<open>net.SplitHostPort\<close>: the last colon separates the port; a host with colons stands in
  brackets.\<close>

definition SplitHostPort :: "string \<Rightarrow> (string \<times> string) option" where
  "SplitHostPort hp =
     (if CHR '':'' \<notin> set hp then None
      else
        let port = rev (takeWhile (\<lambda>ch. ch \<noteq> CHR '':'') (rev hp));
            before = take (length hp - length port - 1) hp
        in if hp \<noteq> '''' \<and> hd hp = CHR ''['' then
             (if before \<noteq> '''' \<and> last before = CHR '']''
              then let host = tl (butlast before) in
                if CHR ''['' \<in> set host \<or> CHR '']'' \<in> set host \<or> CHR ''['' \<in> set port \<or> CHR '']'' \<in> set port
                then None else Some (host, port)
              else None)
           else if CHR '':'' \<in> set before then None
           else if CHR ''['' \<in> set hp \<or> CHR '']'' \<in> set hp then None
           else Some (before, port))"

definition SetRemoteAddress :: "Metadata \<Rightarrow> string \<Rightarrow> Metadata option" where
  "SetRemoteAddress m rawAddress =
     (case SplitHostPort rawAddress of
        None \<Rightarrow> None
      | Some (host, port) \<Rightarrow>
          let uint16Port = (case parse_uint 16 port of Some p \<Rightarrow> word_of_nat p | None \<Rightarrow> 0);
              m = (case ParseAddr host of
                     None \<Rightarrow> m\<lparr>Host := host, DstIP := NoAddr\<rparr>
                   | Some ip \<Rightarrow> m\<lparr>Host := '''', DstIP := Unmap ip\<rparr>)
          in Some (m\<lparr>DstPort := uint16Port\<rparr>))"

definition SwapSrcDst :: "Metadata \<Rightarrow> Metadata" where
  "SwapSrcDst m = m\<lparr>SrcIP := DstIP m, DstIP := SrcIP m, SrcPort := DstPort m, DstPort := SrcPort m,
     SrcIPASN := DstIPASN m, DstIPASN := SrcIPASN m, SrcGeoIP := DstGeoIP m, DstGeoIP := SrcGeoIP m\<rparr>"

section \<open>Rule types\<close>

datatype RuleType = RTDomain | RTDomainSuffix | RTDomainKeyword | RTDomainRegex | RTDomainWildcard
  | RTGEOSITE | RTGEOIP | RTSrcGEOIP | RTIPASN | RTSrcIPASN | RTIPCIDR | RTSrcIPCIDR | RTIPSuffix
  | RTSrcIPSuffix | RTSrcPort | RTDstPort | RTInPort | RTDSCP | RTInUser | RTInName | RTInType
  | RTProcessName | RTProcessPath | RTProcessNameRegex | RTProcessPathRegex | RTProcessNameWildcard
  | RTProcessPathWildcard | RTRuleSet | RTNetwork | RTUid | RTSubRules | RTMATCH | RTAND | RTOR | RTNOT

fun RuleType_String :: "RuleType \<Rightarrow> string" where
  "RuleType_String RTDomain = ''Domain''"
| "RuleType_String RTDomainSuffix = ''DomainSuffix''"
| "RuleType_String RTDomainKeyword = ''DomainKeyword''"
| "RuleType_String RTDomainRegex = ''DomainRegex''"
| "RuleType_String RTDomainWildcard = ''DomainWildcard''"
| "RuleType_String RTGEOSITE = ''GeoSite''"
| "RuleType_String RTGEOIP = ''GeoIP''"
| "RuleType_String RTSrcGEOIP = ''SrcGeoIP''"
| "RuleType_String RTIPASN = ''IPASN''"
| "RuleType_String RTSrcIPASN = ''SrcIPASN''"
| "RuleType_String RTIPCIDR = ''IPCIDR''"
| "RuleType_String RTSrcIPCIDR = ''SrcIPCIDR''"
| "RuleType_String RTIPSuffix = ''IPSuffix''"
| "RuleType_String RTSrcIPSuffix = ''SrcIPSuffix''"
| "RuleType_String RTSrcPort = ''SrcPort''"
| "RuleType_String RTDstPort = ''DstPort''"
| "RuleType_String RTInPort = ''InPort''"
| "RuleType_String RTInUser = ''InUser''"
| "RuleType_String RTInName = ''InName''"
| "RuleType_String RTInType = ''InType''"
| "RuleType_String RTProcessName = ''ProcessName''"
| "RuleType_String RTProcessPath = ''ProcessPath''"
| "RuleType_String RTProcessNameRegex = ''ProcessNameRegex''"
| "RuleType_String RTProcessPathRegex = ''ProcessPathRegex''"
| "RuleType_String RTProcessNameWildcard = ''ProcessNameWildcard''"
| "RuleType_String RTProcessPathWildcard = ''ProcessPathWildcard''"
| "RuleType_String RTMATCH = ''Match''"
| "RuleType_String RTRuleSet = ''RuleSet''"
| "RuleType_String RTNetwork = ''Network''"
| "RuleType_String RTDSCP = ''DSCP''"
| "RuleType_String RTUid = ''Uid''"
| "RuleType_String RTSubRules = ''SubRules''"
| "RuleType_String RTAND = ''AND''"
| "RuleType_String RTOR = ''OR''"
| "RuleType_String RTNOT = ''NOT''"

section \<open>Properties\<close>

lemma SwapSrcDst_SwapSrcDst [simp]: "SwapSrcDst (SwapSrcDst m) = m"
  by (simp add: SwapSrcDst_def)

lemma SwapSrcDst_fields [simp]:
  "SrcIP (SwapSrcDst m) = DstIP m" "DstIP (SwapSrcDst m) = SrcIP m"
  "Host (SwapSrcDst m) = Host m" "RuleHost (SwapSrcDst m) = RuleHost m"
  by (simp_all add: SwapSrcDst_def RuleHost_def)

lemma Pure_idem [simp]: "Pure (Pure m) = Pure m"
  by (simp add: Pure_def)

text \<open>The inbound types can be read back from their names: the name \<^verbatim>\<open>Type.String\<close> gives,
  in upper case as the IN-TYPE rule writes it, is parsed to the same type, and two types
  never share a name.
\<close>

theorem ParseType_String:
  "ParseType (to_upper (Type_String t)) = Some t \<and> (Type_String t = Type_String t' \<longleftrightarrow> t = t')"
proof -
  have "ParseType (to_upper (Type_String t)) = Some t" for t
    by (induct t; code_simp)
  then show ?thesis by (metis option.inject)
qed

text \<open>Setting a remote address never leaves a stale destination: the host is kept exactly
  when it is no IP text, and then the IP is cleared; the type of address, the target of
  dialling and the validity follow from it.
\<close>

theorem SetRemoteAddress_target:
  assumes "SetRemoteAddress m raw = Some m'" "SplitHostPort raw = Some (host, port)" "host \<noteq> ''''"
  shows "(case ParseAddr host of
            None \<Rightarrow> Host m' = host \<and> DstIP m' = NoAddr \<and> AddrType m' = AtypDomainName
          | Some ip \<Rightarrow> Host m' = '''' \<and> DstIP m' = Unmap ip \<and> AddrPort m' = (Unmap ip, DstPort m'))
       \<and> unat (DstPort m') = (case parse_uint 16 port of Some p \<Rightarrow> p | None \<Rightarrow> 0)"
  using assms parse_uint_bound [of 16 port]
  by (auto simp: SetRemoteAddress_def Let_def AddrType_def AddrPort_def unat_of_nat take_bit_nat_eq_self_iff
      split: option.splits)

lemma SetRemoteAddress_target_witness:
  "Host (the (SetRemoteAddress zeroMetadata ''a.io:443'')) = ''a.io''
   \<and> DstIP (the (SetRemoteAddress zeroMetadata ''a.io:443'')) = NoAddr"
proof -
  have s: "SplitHostPort ''a.io:443'' = Some (''a.io'', ''443'')" by code_simp
  have p: "ParseAddr ''a.io'' = None" by code_simp
  have "SetRemoteAddress zeroMetadata ''a.io:443'' \<noteq> None"
    by (simp add: SetRemoteAddress_def s p)
  then obtain m' where m': "SetRemoteAddress zeroMetadata ''a.io:443'' = Some m'" by blast
  show ?thesis using SetRemoteAddress_target [OF m' s] p m' by simp
qed

end
