(* ===== verification/Ranges.thy ===== *)
theory Ranges
  imports Prelude
begin

text \<open>
  Integer ranges: \<^verbatim>\<open>common/utils/range.go\<close> and \<^verbatim>\<open>common/utils/ranges.go\<close>. A
  \<open>range\<close> is the struct \<^verbatim>\<open>Range[T]\<close>, an \<open>IntRanges\<close> value is a list of them. The
  type parameter \<^verbatim>\<open>T\<close> is instantiated in the program with unsigned integers, which are
  words of their width here; the parse function is a parameter, as in the source.
  \<^verbatim>\<open>sort.Slice\<close> is not stable; the stable sort of the model is one of its results, and
  the lemmas about \<open>Merge\<close> do not depend on the order of equal keys.
\<close>

record 'a range =
  range_start :: 'a
  range_end :: 'a

definition NewRange :: "'a::linorder \<Rightarrow> 'a \<Rightarrow> 'a range" where
  "NewRange s e =
     (if s > e then \<lparr>range_start = e, range_end = s\<rparr> else \<lparr>range_start = s, range_end = e\<rparr>)"

definition Contains :: "'a::linorder range \<Rightarrow> 'a \<Rightarrow> bool" where
  "Contains r t \<longleftrightarrow> t \<ge> range_start r \<and> t \<le> range_end r"

definition LeftContains :: "'a::linorder range \<Rightarrow> 'a \<Rightarrow> bool" where
  "LeftContains r t \<longleftrightarrow> t \<ge> range_start r \<and> t < range_end r"

definition RightContains :: "'a::linorder range \<Rightarrow> 'a \<Rightarrow> bool" where
  "RightContains r t \<longleftrightarrow> t > range_start r \<and> t \<le> range_end r"

text \<open>\<^verbatim>\<open>fmt.Sprintf("%v", x)\<close> of an unsigned integer is its decimal form.\<close>

definition show_word :: "'w::len word \<Rightarrow> string" where
  "show_word x = show_nat (unat x)"

definition RangeString :: "'w::len word range \<Rightarrow> string" where
  "RangeString r =
     (if range_start r = range_end r then show_word (range_start r)
      else show_word (range_start r) @ ''-'' @ show_word (range_end r))"

text \<open>\<^verbatim>\<open>parseUnsigned[T]\<close>: parse 64 bits, then the Go conversion \<^verbatim>\<open>T(val)\<close>, which keeps
  the low bits.\<close>

definition parseUnsigned :: "string \<Rightarrow> 'w::len word option" where
  "parseUnsigned s = (case parse_uint 64 s of Some val \<Rightarrow> Some (word_of_nat val) | None \<Rightarrow> None)"

definition newIntRange :: "(string \<Rightarrow> 'a option) \<Rightarrow> string \<Rightarrow> string + ('a::{linorder,zero}) range" where
  "newIntRange parseFn s0 =
     (let s = trim_space s0 in
      if length s = 0 then Inr (NewRange 0 0)
      else
        let status = split_on CHR ''-'' s in
        case parseFn (trim_set ''[ ]'' (hd status)) of
          None \<Rightarrow> Inl (''invalid range: '' @ s)
        | Some start \<Rightarrow>
            if length status = 1 then Inr (NewRange start start)
            else if length status = 2 then
              (case parseFn (trim_set ''[ ]'' (status ! 1)) of
                 None \<Rightarrow> Inl (''invalid range: '' @ s)
               | Some e \<Rightarrow> Inr (NewRange start e))
            else Inl (''invalid range: '' @ s))"

fun newIntRangesFromList ::
  "(string \<Rightarrow> 'a option) \<Rightarrow> string list \<Rightarrow> string + ('a::{linorder,zero}) range list" where
  "newIntRangesFromList parseFn [] = Inr []"
| "newIntRangesFromList parseFn (s # list) =
     (if s = [] then newIntRangesFromList parseFn list
      else case newIntRange parseFn s of
             Inl err \<Rightarrow> Inl err
           | Inr r \<Rightarrow> (case newIntRangesFromList parseFn list of
                         Inl err \<Rightarrow> Inl err
                       | Inr rs \<Rightarrow> Inr (r # rs)))"

definition newIntRanges ::
  "(string \<Rightarrow> 'a option) \<Rightarrow> string \<Rightarrow> string + ('a::{linorder,zero}) range list" where
  "newIntRanges parseFn expected0 =
     (let expected = trim_space expected0 in
      if length expected = 0 \<or> expected = ''*'' then Inr []
      else
        let expected' = replace_char CHR '','' CHR ''/'' expected;
            list = split_on CHR ''/'' expected'
        in if length list > 28
           then Inl ''intRanges error, too many ranges to use, maximum support 28 ranges''
           else newIntRangesFromList parseFn list)"

definition NewUnsignedRanges :: "string \<Rightarrow> string + 'w::len word range list" where
  "NewUnsignedRanges expected = newIntRanges parseUnsigned expected"

definition NewUnsignedRangesFromList :: "string list \<Rightarrow> string + 'w::len word range list" where
  "NewUnsignedRangesFromList list = newIntRangesFromList parseUnsigned list"

definition Check :: "'a::linorder range list \<Rightarrow> 'a \<Rightarrow> bool" where
  "Check ranges status \<longleftrightarrow> (length ranges = 0 \<or> list_ex (\<lambda>segment. Contains segment status) ranges)"

definition RangesString :: "'w::len word range list \<Rightarrow> string" where
  "RangesString ranges =
     (if length ranges = 0 then ''*'' else join_with ''/'' (map RangeString ranges))"

text \<open>\<^verbatim>\<open>Range\<close> calls \<open>f\<close> on every member; \<open>f\<close> works on the caller's state and says
  whether to go on. The result is the state and whether the loop ran to its end.\<close>

function range_loop ::
  "('w::len word \<Rightarrow> 's \<Rightarrow> 's \<times> bool) \<Rightarrow> 'w word range \<Rightarrow> 'w word \<Rightarrow> 's \<Rightarrow> 's \<times> bool" where
  "range_loop f r i s =
     (if i \<le> range_end r \<and> i \<ge> range_start r then
        (let (s', cont) = f i s in
         if \<not> cont then (s', False)
         else if i + 1 < i then (s', True)
         else range_loop f r (i + 1) s')
      else (s, True))"
  by pat_completeness auto
termination
  by (relation "measure (\<lambda>(f, r, i, s). Suc (unat (range_end r)) - unat i)")
    (auto simp: unat_succ word_le_nat_alt)

declare range_loop.simps [simp del]

fun Range_iter ::
  "('w::len word \<Rightarrow> 's \<Rightarrow> 's \<times> bool) \<Rightarrow> 'w word range list \<Rightarrow> 's \<Rightarrow> 's" where
  "Range_iter f [] s = s"
| "Range_iter f (r # rs) s =
     (let (s', cont) = range_loop f r (range_start r) s in
      if cont then Range_iter f rs s' else s')"

fun merge_go :: "'w::len word range \<Rightarrow> 'w word range list \<Rightarrow> 'w word range list" where
  "merge_go cur [] = [cur]"
| "merge_go cur (r # rs) =
     (if range_end cur + 1 > range_end cur \<and> range_start r > range_end cur + 1
      then cur # merge_go r rs
      else if range_end r > range_end cur
      then merge_go (cur\<lparr>range_end := range_end r\<rparr>) rs
      else merge_go cur rs)"

definition Merge :: "'w::len word range list \<Rightarrow> 'w word range list" where
  "Merge ranges =
     (if length ranges = 0 then []
      else case sort_key range_start ranges of
             [] \<Rightarrow> []
           | r # rs \<Rightarrow> merge_go r rs)"

section \<open>Properties of ranges\<close>

definition range_ok :: "'a::linorder range \<Rightarrow> bool" where
  "range_ok r \<longleftrightarrow> range_start r \<le> range_end r"

lemma NewRange_ok [simp]: "range_ok (NewRange s e)"
  by (auto simp: NewRange_def range_ok_def)

lemma newIntRange_ok: "newIntRange f s = Inr r \<Longrightarrow> range_ok r"
  by (auto simp: newIntRange_def Let_def split: if_splits option.splits)

lemma newIntRangesFromList_ok:
  "newIntRangesFromList f l = Inr rs \<Longrightarrow> list_all range_ok rs"
  by (induction l arbitrary: rs) (auto split: if_splits sum.splits dest: newIntRange_ok)

lemma newIntRanges_ok: "newIntRanges f s = Inr rs \<Longrightarrow> list_all range_ok rs"
  by (auto simp: newIntRanges_def Let_def split: if_splits dest: newIntRangesFromList_ok)

subsection \<open>Merge\<close>

fun separated :: "'w::len word range list \<Rightarrow> bool" where
  "separated [] \<longleftrightarrow> True"
| "separated [r] \<longleftrightarrow> True"
| "separated (r # r' # rs) \<longleftrightarrow>
     range_end r < range_end r + 1 \<and> range_end r + 1 < range_start r' \<and> separated (r' # rs)"

lemma merge_go_start: "\<exists>r rs. merge_go cur l = r # rs \<and> range_start r = range_start cur"
  by (induction cur l rule: merge_go.induct) auto

lemma merge_go_separated: "separated (merge_go cur l)"
proof (induction cur l rule: merge_go.induct)
  case (2 cur r rs)
  obtain r' rs' where "merge_go r rs = r' # rs'" "range_start r' = range_start r"
    using merge_go_start by blast
  with 2 show ?case by auto
qed simp

lemma range_union:
  fixes s :: "'w::len word"
  assumes "s \<le> s'" "\<not> (e + 1 > e \<and> s' > e + 1)" "s' \<le> e'" "s \<le> e"
  shows "(s \<le> x \<and> x \<le> e \<or> s' \<le> x \<and> x \<le> e') \<longleftrightarrow> s \<le> x \<and> x \<le> max e e'"
proof -
  have "s' \<le> x" if "e < x"
    using assms(2) succ_le_of_less [OF that] succ_gt_of_less [OF that] by (meson leI order_trans)
  then show ?thesis using assms(1,3,4) by (auto simp: max_def not_le intro: order_trans)
qed

lemma merge_go_member:
  "sorted (map range_start (cur # l)) \<Longrightarrow> list_all range_ok (cur # l) \<Longrightarrow>
   list_ex (\<lambda>r. Contains r x) (merge_go cur l) \<longleftrightarrow> list_ex (\<lambda>r. Contains r x) (cur # l)"
proof (induction cur l rule: merge_go.induct)
  case (2 cur r rs)
  show ?case
  proof (cases "range_end cur + 1 > range_end cur \<and> range_start r > range_end cur + 1")
    case True
    with 2 show ?thesis by auto
  next
    case False
    have u: "Contains cur x \<or> Contains r x \<longleftrightarrow>
        range_start cur \<le> x \<and> x \<le> max (range_end cur) (range_end r)"
      using range_union [OF _ False, of "range_start cur" "range_end r" x] "2.prems"
      by (auto simp: Contains_def range_ok_def)
    show ?thesis
    proof (cases "range_end r > range_end cur")
      case True
      have "list_ex (\<lambda>r. Contains r x) (merge_go (cur\<lparr>range_end := range_end r\<rparr>) rs) \<longleftrightarrow>
          list_ex (\<lambda>r. Contains r x) (cur\<lparr>range_end := range_end r\<rparr> # rs)"
        using "2.IH"(2) [OF False True] "2.prems" True by (auto simp: range_ok_def)
      moreover have "max (range_end cur) (range_end r) = range_end r" using True by simp
      ultimately show ?thesis using u True False by (auto simp: Contains_def)
    next
      case ge: False
      have "list_ex (\<lambda>r. Contains r x) (merge_go cur rs) \<longleftrightarrow> list_ex (\<lambda>r. Contains r x) (cur # rs)"
        using "2.IH"(3) [OF False ge] "2.prems" by auto
      with u ge False show ?thesis by (auto simp: Contains_def max_def)
    qed
  qed
qed simp

lemma list_ex_sort_key: "list_ex p (sort_key f l) \<longleftrightarrow> list_ex p l"
  by (simp add: list_ex_iff)

lemma sort_key_Nil: "sort_key f l = [] \<longleftrightarrow> l = []"
  by (metis length_0_conv length_sort)

lemma merge_go_ok: "list_all range_ok (cur # l) \<Longrightarrow> list_all range_ok (merge_go cur l)"
  by (induction cur l rule: merge_go.induct) (auto simp: range_ok_def)

lemma sorted_ranges:
  assumes "list_all range_ok rs" and "sort_key range_start rs = r # l"
  shows "sorted (map range_start (r # l))" and "list_all range_ok (r # l)"
    and "list_ex p (r # l) \<longleftrightarrow> list_ex p rs"
  using assms by (metis sorted_sort_key, metis (no_types) list_all_iff set_sort,
      metis list_ex_sort_key)

text \<open>Merging any list of well-formed ranges keeps what \<^verbatim>\<open>Check\<close> accepts, for every
  value of the width, and leaves well-formed ranges in ascending order with a gap
  between neighbours, so that no two of them could be merged further; the two
  overflow tests on \<^verbatim>\<open>End()+1\<close> are what makes this hold at the largest value.
\<close>

theorem Merge_correct:
  assumes "list_all range_ok rs"
  shows "(\<forall>x. Check (Merge rs) x = Check rs x) \<and> separated (Merge rs) \<and> list_all range_ok (Merge rs)"
proof (cases "sort_key range_start rs")
  case Nil
  then show ?thesis by (simp add: Merge_def sort_key_Nil)
next
  case (Cons r l)
  have m: "Merge rs = merge_go r l" using Cons by (auto simp: Merge_def)
  note sr = sorted_ranges [OF assms Cons]
  have "list_ex (\<lambda>r. Contains r x) (merge_go r l) = list_ex (\<lambda>r. Contains r x) rs" for x
    using merge_go_member [OF sr(1,2)] sr(3) by blast
  moreover have "merge_go r l \<noteq> []" "rs \<noteq> []" using merge_go_start [of r l] Cons by auto
  ultimately show ?thesis
    using merge_go_ok [OF sr(2)] by (simp add: m Check_def merge_go_separated)
qed

theorem Merge_correct_witness:
  "list_all range_ok [NewRange 250 (255::8 word), NewRange 3 7, NewRange 8 9] \<and>
   Merge [NewRange 250 (255::8 word), NewRange 3 7, NewRange 8 9] = [NewRange 3 9, NewRange 250 255] \<and>
   separated (Merge [NewRange 250 (255::8 word), NewRange 3 7, NewRange 8 9])"
proof -
  have h: "list_all range_ok [NewRange 250 (255::8 word), NewRange 3 7, NewRange 8 9]" by simp
  show ?thesis
    using h Merge_correct [OF h] by (simp add: Merge_def NewRange_def)
qed

subsection \<open>Printing and parsing\<close>

lemma digit_chars [simp]:
  "\<not> is_digit CHR ''/''" "\<not> is_digit CHR ''-''" "\<not> is_digit CHR '',''" "\<not> is_digit CHR ''*''"
  "\<not> is_digit CHR '' ''" "\<not> is_digit CHR ''[''" "\<not> is_digit CHR '']''"
  by (simp_all add: is_digit_def)

lemma digit_not_space: "is_digit ch \<Longrightarrow> \<not> is_space ch"
  by (auto simp: is_digit_def is_space_def)

lemma show_word_chars: "ch \<in> set (show_word x) \<Longrightarrow> is_digit ch"
  by (simp add: show_word_def digit_not_other)

lemma RangeString_chars: "ch \<in> set (RangeString r) \<Longrightarrow> is_digit ch \<or> ch = CHR ''-''"
  by (auto simp: RangeString_def show_word_chars split: if_splits)

lemma trim_show_word [simp]: "trim_set ''[ ]'' (show_word x) = show_word x"
  unfolding trim_set_def by (rule trim_by_id) (auto dest: show_word_chars)

lemma parseUnsigned_show_word [simp]:
  "LENGTH('w) \<le> 64 \<Longrightarrow> parseUnsigned (show_word (x :: 'w::len word)) = Some x"
proof -
  assume "LENGTH('w) \<le> 64"
  then have "(2::nat) ^ LENGTH('w) \<le> 2 ^ 64" by (intro power_increasing) auto
  then have "unat x < 2 ^ 64" using unsigned_less [of x] by (meson less_le_trans)
  then show ?thesis by (simp add: parseUnsigned_def show_word_def)
qed

lemma show_word_nonempty [simp]: "show_word x \<noteq> []" "[] \<noteq> show_word x"
  by (simp_all add: show_word_def not_sym)

lemma RangeString_nonempty [simp]: "RangeString r \<noteq> []" "[] \<noteq> RangeString r"
  by (simp_all add: RangeString_def)

lemma split_show_word:
  fixes x y :: "'w::len word"
  shows
  "split_on CHR ''-'' (show_word x) = [show_word x]"
  "split_on CHR ''-'' (show_word x @ CHR ''-'' # show_word y) = [show_word x, show_word y]"
proof -
  have "CHR ''-'' \<notin> set (show_word z)" for z :: "'w word"
    using show_word_chars [of "CHR ''-''" z] by auto
  then show "split_on CHR ''-'' (show_word x) = [show_word x]"
    "split_on CHR ''-'' (show_word x @ CHR ''-'' # show_word y) = [show_word x, show_word y]"
    by (simp_all add: go_strings)
qed

lemma trim_RangeString [simp]: "trim_space (RangeString r) = RangeString r"
  unfolding trim_space_def
  by (rule trim_by_id) (auto dest!: RangeString_chars dest: digit_not_space simp: is_space_def)

lemma newIntRange_RangeString:
  assumes "LENGTH('w) \<le> 64" and "range_ok (r :: 'w::len word range)"
  shows "newIntRange parseUnsigned (RangeString r) = Inr r"
proof -
  obtain s e where r: "r = \<lparr>range_start = s, range_end = e\<rparr>" by (cases r)
  have nr: "NewRange s e = r" "\<And>x::'w word. NewRange x x = \<lparr>range_start = x, range_end = x\<rparr>"
    using assms(2) by (auto simp: r NewRange_def range_ok_def)
  show ?thesis
    using assms(1) nr unfolding newIntRange_def Let_def trim_RangeString
    by (simp add: r RangeString_def split_show_word)
qed

lemma newIntRangesFromList_print:
  "LENGTH('w) \<le> 64 \<Longrightarrow> list_all range_ok (rs :: 'w::len word range list) \<Longrightarrow>
   newIntRangesFromList parseUnsigned (map RangeString rs) = Inr rs"
  by (induction rs) (simp_all add: newIntRange_RangeString)

lemma RangesString_chars:
  assumes "rs \<noteq> []" "ch \<in> set (RangesString rs)"
  shows "is_digit ch \<or> ch = CHR ''-'' \<or> ch = CHR ''/''"
  using assms set_join_with [of "''/''" "map RangeString rs"] RangeString_chars
  by (fastforce simp: RangesString_def)

text \<open>Round trip: the text \<^verbatim>\<open>IntRanges.String\<close> prints for at most 28 well-formed ranges
  over a type of at most 64 bits is parsed back by \<^verbatim>\<open>NewUnsignedRanges\<close> to the same ranges,
  in the same order; the empty list is printed as a star.
\<close>

theorem parse_RangesString:
  assumes "LENGTH('w) \<le> 64" and "list_all range_ok (rs :: 'w::len word range list)"
    and "length rs \<le> 28"
  shows "NewUnsignedRanges (RangesString rs) = Inr rs"
proof (cases "rs = []")
  case True
  then show ?thesis
    by (simp add: RangesString_def NewUnsignedRanges_def newIntRanges_def Let_def trim_space_def
        trim_by_def is_space_def)
next
  case False
  let ?s = "RangesString rs"
  have ch: "is_digit c \<or> c = CHR ''-'' \<or> c = CHR ''/''" if "c \<in> set ?s" for c
    using RangesString_chars [OF False that] .
  have t: "trim_space ?s = ?s"
    unfolding trim_space_def by (rule trim_by_id) (auto dest!: ch dest: digit_not_space simp: is_space_def)
  have r: "replace_char CHR '','' CHR ''/'' ?s = ?s"
    unfolding replace_char_def by (rule map_idI) (auto dest!: ch)
  have star: "?s \<noteq> ''*''" using ch [of "CHR ''*''"] by auto
  have sp: "split_on CHR ''/'' ?s = map RangeString rs"
    using False by (auto simp: RangesString_def intro!: split_join dest!: RangeString_chars)
  have "?s \<noteq> []"
  proof
    assume "?s = []"
    with sp have "map RangeString rs = [[]]" by simp
    then show False by auto
  qed
  then show ?thesis
    using assms star newIntRangesFromList_print
    by (simp add: NewUnsignedRanges_def newIntRanges_def Let_def t r sp)
qed

theorem parse_RangesString_witness:
  "NewUnsignedRanges (RangesString [NewRange 200 (200::16 word), NewRange 400 499]) =
   Inr [NewRange 200 (200::16 word), NewRange 400 499]"
  by (rule parse_RangesString) simp_all

subsection \<open>Iteration\<close>

definition members :: "'w::len word range \<Rightarrow> 'w word list" where
  "members r = map word_of_nat [unat (range_start r)..<Suc (unat (range_end r))]"

fun visit :: "('a \<Rightarrow> 's \<Rightarrow> 's \<times> bool) \<Rightarrow> 'a list \<Rightarrow> 's \<Rightarrow> 's \<times> bool" where
  "visit f [] s = (s, True)"
| "visit f (x # xs) s = (let (s', cont) = f x s in if cont then visit f xs s' else (s', False))"

lemma visit_append:
  "visit f (xs @ ys) s = (let (s', cont) = visit f xs s in if cont then visit f ys s' else (s', False))"
  by (induction f xs s rule: visit.induct) (auto simp: Let_def split: prod.splits)

lemma range_loop_visit:
  "range_start r \<le> i \<Longrightarrow>
   range_loop f r i s = visit f (map word_of_nat [unat i..<Suc (unat (range_end r))]) s"
proof (induction f r i s rule: range_loop.induct)
  case (1 f r i s)
  show ?case
  proof (cases "i \<le> range_end r")
    case False
    then show ?thesis
      by (subst range_loop.simps) (auto simp: word_le_nat_alt not_le)
  next
    case True
    then have l: "[unat i..<Suc (unat (range_end r))] = unat i # [Suc (unat i)..<Suc (unat (range_end r))]"
      by (simp add: upt_conv_Cons word_le_nat_alt del: upt_Suc)
    obtain s' c where fis: "f i s = (s', c)" by force
    have wrap: "range_end r = i" if "i + 1 < i"
      using that True inc_less_eq_triv_imp [of i] by (metis antisym order_less_imp_le word_order.extremum)
    have "range_start r \<le> i + 1" if "\<not> i + 1 < i"
      using that "1.prems" by (meson leI order_trans)
    then show ?thesis
      using "1.IH" [OF _ fis [symmetric]] True "1.prems" fis wrap
      by (subst range_loop.simps) (auto simp: l unat_succ simp del: upt_Suc)
  qed
qed

text \<open>\<^verbatim>\<open>IntRanges.Range\<close> calls its function on exactly the members of the ranges, in
  order, and stops at the first call that says so: it is the fold with early exit
  over the list of members. The loop ends for every range, also for one that reaches
  the largest value of the type, where the counter would wrap.
\<close>

theorem Range_iter_visit: "Range_iter f rs s = fst (visit f (concat (map members rs)) s)"
  by (induction f rs s rule: Range_iter.induct)
    (auto simp: range_loop_visit members_def visit_append Let_def simp del: upt_Suc split: prod.splits)

lemma members_set: "x \<in> set (members r) \<longleftrightarrow> Contains r x"
proof
  assume "x \<in> set (members r)"
  then obtain n where n: "x = word_of_nat n" "unat (range_start r) \<le> n" "n \<le> unat (range_end r)"
    by (auto simp: members_def simp del: upt_Suc)
  then have "unat x = n" by (simp add: le_unat_uoi)
  with n show "Contains r x" by (simp add: Contains_def word_le_nat_alt)
next
  assume "Contains r x"
  then have "unat x \<in> set [unat (range_start r)..<Suc (unat (range_end r))]"
    by (simp add: Contains_def word_le_nat_alt less_Suc_eq_le del: upt_Suc)
  then show "x \<in> set (members r)"
    unfolding members_def set_map by (rule rev_image_eqI) simp
qed

end
