(* ===== verification/Wildcard.thy ===== *)
theory Wildcard
  imports Prelude
begin

text \<open>
  The wildcard matcher of \<^verbatim>\<open>component/wildcard/wildcard.go\<close>. The labels and \<^verbatim>\<open>goto\<close>s of
  \<^verbatim>\<open>matchByString\<close> are the recursive calls of \<open>match_loop\<close> and \<open>check_pattern\<close>; the
  variable \<^verbatim>\<open>star\<close>, which is -1 or an index, is an option. \<open>glob\<close> is the specification:
  the textbook recursion on the pattern, which tries every extent of a star.
\<close>

function check_pattern :: "string \<Rightarrow> nat \<Rightarrow> bool" where
  "check_pattern pattern patternIndex =
     (if patternIndex < length pattern \<and> pattern ! patternIndex = CHR ''*''
      then check_pattern pattern (patternIndex + 1)
      else patternIndex = length pattern)"
  by pat_completeness auto
termination
  by (relation "measure (\<lambda>(p, i). length p - i)") auto

declare check_pattern.simps [simp del]

function match_loop :: "string \<Rightarrow> string \<Rightarrow> nat \<Rightarrow> nat \<Rightarrow> nat \<Rightarrow> nat option \<Rightarrow> bool" where
  "match_loop pattern s patternIndex sIndex lastStar star =
     (if sIndex \<ge> length s then check_pattern pattern patternIndex
      else if patternIndex \<ge> length pattern then
        (case star of
           Some st \<Rightarrow> match_loop pattern s (st + 1) (lastStar + 1) (lastStar + 1) star
         | None \<Rightarrow> False)
      else if pattern ! patternIndex = CHR ''?'' then
        match_loop pattern s (patternIndex + 1) (sIndex + 1) lastStar star
      else if pattern ! patternIndex = CHR ''*'' then
        match_loop pattern s (patternIndex + 1) sIndex sIndex (Some patternIndex)
      else if pattern ! patternIndex \<noteq> s ! sIndex then
        (case star of
           Some st \<Rightarrow> match_loop pattern s (st + 1) (lastStar + 1) (lastStar + 1) star
         | None \<Rightarrow> False)
      else match_loop pattern s (patternIndex + 1) (sIndex + 1) lastStar star)"
  by pat_completeness auto

text \<open>The loop ends from every state: the text index is in range or not, the star is behind
  the pattern index or not, then the star, the last restart and the pattern index grow.\<close>

termination
  by (relation "measures
       [\<lambda>(p, s, pi, si, ls, star). if si < length s then 1 else 0,
        \<lambda>(p, s, pi, si, ls, star). case star of Some st \<Rightarrow> if st < pi then 0 else 1 | None \<Rightarrow> 0,
        \<lambda>(p, s, pi, si, ls, star). case star of Some st \<Rightarrow> length p - st | None \<Rightarrow> length p + 1,
        \<lambda>(p, s, pi, si, ls, star). length s - ls,
        \<lambda>(p, s, pi, si, ls, star). length p - pi]")
    (auto split: option.splits if_splits)

declare match_loop.simps [simp del]

definition matchByString :: "string \<Rightarrow> string \<Rightarrow> bool" where
  "matchByString pattern s = match_loop pattern s 0 0 0 None"

definition Wildcard_Match :: "string \<Rightarrow> string \<Rightarrow> bool" where
  "Wildcard_Match pattern s =
     (if pattern = '''' then s = pattern
      else if pattern = ''*'' \<or> s = pattern then True
      else matchByString pattern s)"

section \<open>The specification and its laws\<close>

fun glob :: "string \<Rightarrow> string \<Rightarrow> bool" where
  "glob [] s = (s = [])"
| "glob (c # p) [] = (c = CHR ''*'' \<and> glob p [])"
| "glob (c # p) (x # xs) =
     (if c = CHR ''*'' then glob p (x # xs) \<or> glob (c # p) xs
      else (c = CHR ''?'' \<or> c = x) \<and> glob p xs)"

definition fits :: "char \<Rightarrow> char \<Rightarrow> bool" where
  "fits c x \<longleftrightarrow> c = CHR ''?'' \<or> c = x"

lemma glob_self [simp]: "glob p p"
proof (induction p)
  case (Cons c p)
  have "glob (CHR ''*'' # p) p" if "glob p p"
    using that by (cases p) auto
  then show ?case using Cons by auto
qed simp

lemma glob_star_suffix: "glob (CHR ''*'' # p) t \<Longrightarrow> glob (CHR ''*'' # p) (u @ t)"
  by (induction u) auto

lemma glob_star_all [simp]: "glob [CHR ''*''] s"
  by (induction s) auto

lemma glob_star_iff: "glob (CHR ''*'' # p) s \<longleftrightarrow> glob p s \<or> (s \<noteq> [] \<and> glob (CHR ''*'' # p) (tl s))"
  by (cases s) auto

lemma glob_star_ex: "glob (CHR ''*'' # p) s \<longleftrightarrow> (\<exists>k \<le> length s. glob p (drop k s))"
proof (induction s)
  case (Cons x xs)
  have "(\<exists>k \<le> length (x # xs). glob p (drop k (x # xs)))
      \<longleftrightarrow> glob p (x # xs) \<or> (\<exists>k \<le> length xs. glob p (drop k xs))" (is "?L = ?R")
  proof
    assume ?L
    then obtain k where "k \<le> length (x # xs)" "glob p (drop k (x # xs))" by blast
    then show ?R by (cases k) auto
  next
    assume ?R
    then show ?L by (metis Suc_le_mono drop0 drop_Suc_Cons le0 length_Cons)
  qed
  with Cons show ?case by simp
qed simp

lemma glob_prefix:
  "CHR ''*'' \<notin> set q \<Longrightarrow>
   glob (q @ r) s \<longleftrightarrow> length q \<le> length s \<and> list_all2 fits q (take (length q) s) \<and> glob r (drop (length q) s)"
proof (induction q arbitrary: s)
  case (Cons c q)
  then show ?case by (cases s) (auto simp: fits_def)
qed simp

lemma check_pattern_glob: "pi \<le> length p \<Longrightarrow> check_pattern p pi \<longleftrightarrow> glob (drop pi p) []"
proof (induction p pi rule: check_pattern.induct)
  case (1 p pi)
  show ?case
  proof (cases "pi < length p")
    case True
    then have "drop pi p = p ! pi # drop (Suc pi) p" by (simp add: Cons_nth_drop_Suc)
    with 1 True show ?thesis by (subst check_pattern.simps) auto
  next
    case False
    with 1 show ?thesis by (subst check_pattern.simps) auto
  qed
qed

section \<open>The loop implements the specification\<close>

text \<open>The text between the restart point and the text index has been matched by the star-free
  pattern between the last star (or the start) and the pattern index.\<close>

definition pat_start :: "nat option \<Rightarrow> nat" where
  "pat_start star = (case star of None \<Rightarrow> 0 | Some st \<Rightarrow> st + 1)"

definition seg :: "nat \<Rightarrow> nat \<Rightarrow> 'a list \<Rightarrow> 'a list" where
  "seg i j xs = take (j - i) (drop i xs)"

definition loop_inv :: "string \<Rightarrow> string \<Rightarrow> nat \<Rightarrow> nat \<Rightarrow> nat \<Rightarrow> nat option \<Rightarrow> bool" where
  "loop_inv p s pi si ls star \<longleftrightarrow>
     pat_start star \<le> pi \<and> pi \<le> length p \<and> ls \<le> si \<and> si \<le> length s \<and>
     si - ls = pi - pat_start star \<and>
     (case star of None \<Rightarrow> ls = 0 | Some st \<Rightarrow> st < length p \<and> p ! st = CHR ''*'') \<and>
     CHR ''*'' \<notin> set (seg (pat_start star) pi p) \<and>
     list_all2 fits (seg (pat_start star) pi p) (seg ls si s)"

definition loop_val :: "string \<Rightarrow> string \<Rightarrow> nat \<Rightarrow> nat option \<Rightarrow> bool" where
  "loop_val p s ls star =
     (case star of None \<Rightarrow> glob p s | Some st \<Rightarrow> glob (drop st p) (drop ls s))"

lemma seg_self [simp]: "seg i i xs = []"
  by (simp add: seg_def)

lemma seg_Suc: "i \<le> j \<Longrightarrow> j < length xs \<Longrightarrow> seg i (Suc j) xs = seg i j xs @ [xs ! j]"
  by (simp add: seg_def Suc_diff_le take_Suc_conv_app_nth)

lemma seg_drop: "i \<le> j \<Longrightarrow> j \<le> length xs \<Longrightarrow> drop i xs = seg i j xs @ drop j xs"
  unfolding seg_def by (metis append_take_drop_id drop_drop le_add_diff_inverse2)

lemma length_seg [simp]: "i \<le> j \<Longrightarrow> j \<le> length xs \<Longrightarrow> length (seg i j xs) = j - i"
  by (simp add: seg_def)

lemma inv_glob:
  assumes "loop_inv p s pi si ls star"
  shows "glob (drop (pat_start star) p) (drop k s) \<longleftrightarrow>
     si - ls \<le> length s - k \<and> list_all2 fits (seg (pat_start star) pi p) (take (si - ls) (drop k s)) \<and>
     glob (drop pi p) (drop (k + (si - ls)) s)"
  using assms seg_drop [of "pat_start star" pi p]
  by (auto simp: loop_inv_def glob_prefix add.commute)

lemma inv_glob_here:
  assumes "loop_inv p s pi si ls star"
  shows "glob (drop (pat_start star) p) (drop ls s) \<longleftrightarrow> glob (drop pi p) (drop si s)"
proof -
  have "take (si - ls) (drop ls s) = seg ls si s" by (simp add: seg_def)
  moreover have "ls + (si - ls) = si" "si - ls \<le> length s - ls" using assms by (auto simp: loop_inv_def)
  ultimately show ?thesis using inv_glob [OF assms, of ls] assms by (simp add: loop_inv_def)
qed

lemma val_star:
  assumes "loop_inv p s pi si ls (Some st)"
  shows "loop_val p s ls (Some st) \<longleftrightarrow> (\<exists>k \<le> length s. ls \<le> k \<and> glob (drop (st + 1) p) (drop k s))"
proof -
  have "drop st p = CHR ''*'' # drop (st + 1) p" and l: "ls \<le> length s"
    using assms by (auto simp: loop_inv_def simp flip: Cons_nth_drop_Suc)
  then have "loop_val p s ls (Some st) \<longleftrightarrow> (\<exists>k \<le> length s - ls. glob (drop (st + 1) p) (drop (ls + k) s))"
    by (simp add: loop_val_def glob_star_ex add.commute)
  also have "\<dots> \<longleftrightarrow> (\<exists>k \<le> length s. ls \<le> k \<and> glob (drop (st + 1) p) (drop k s))"
  proof
    assume "\<exists>k \<le> length s - ls. glob (drop (st + 1) p) (drop (ls + k) s)"
    then obtain k where "k \<le> length s - ls" "glob (drop (st + 1) p) (drop (ls + k) s)" by blast
    with l show "\<exists>k \<le> length s. ls \<le> k \<and> glob (drop (st + 1) p) (drop k s)"
      by (intro exI [of _ "ls + k"]) auto
  next
    assume "\<exists>k \<le> length s. ls \<le> k \<and> glob (drop (st + 1) p) (drop k s)"
    then obtain k where "k \<le> length s" "ls \<le> k" "glob (drop (st + 1) p) (drop k s)" by blast
    then show "\<exists>k \<le> length s - ls. glob (drop (st + 1) p) (drop (ls + k) s)"
      by (intro exI [of _ "k - ls"]) auto
  qed
  finally show ?thesis .
qed

lemma val_restart:
  assumes "loop_inv p s pi si ls star" "si < length s" "\<not> glob (drop (pat_start star) p) (drop ls s)"
  shows "loop_val p s ls star = (case star of None \<Rightarrow> False | Some st \<Rightarrow> loop_val p s (ls + 1) star)"
proof (cases star)
  case None
  with assms show ?thesis by (simp add: loop_val_def loop_inv_def pat_start_def)
next
  case (Some st)
  have "drop st p = CHR ''*'' # drop (st + 1) p" "ls < length s"
    using assms Some by (auto simp: loop_inv_def simp flip: Cons_nth_drop_Suc)
  moreover have "tl (drop ls s) = drop (Suc ls) s" by (simp add: drop_Suc tl_drop)
  ultimately show ?thesis
    using Some assms(3) glob_star_iff [of "drop (Suc st) p" "drop ls s"]
    by (simp add: loop_val_def pat_start_def)
qed

lemma val_commit:
  assumes inv: "loop_inv p s pi si ls star" and st: "pi < length p" "p ! pi = CHR ''*''"
  shows "loop_val p s ls star = glob (drop pi p) (drop si s)"
proof (cases star)
  case None
  then show ?thesis using inv_glob_here [OF inv] inv by (simp add: loop_val_def pat_start_def loop_inv_def)
next
  case (Some i)
  have d: "drop pi p = CHR ''*'' # drop (Suc pi) p" using st by (simp add: Cons_nth_drop_Suc [symmetric])
  have "loop_val p s ls star" if g: "glob (drop pi p) (drop si s)"
    using that inv_glob_here [OF inv] inv Some val_star [of p s pi si ls i]
    by (auto simp: pat_start_def loop_inv_def)
  moreover have "glob (drop pi p) (drop si s)" if v: "loop_val p s ls star"
  proof -
    obtain k where k: "ls \<le> k" "k \<le> length s" "glob (drop (pat_start star) p) (drop k s)"
      using v val_star [OF inv [unfolded Some]] unfolding Some by (auto simp: pat_start_def)
    then have "glob (drop pi p) (drop (k + (si - ls)) s)" using inv_glob [OF inv] by blast
    moreover have "drop si s = seg si (k + (si - ls)) s @ drop (k + (si - ls)) s"
    proof -
      have "k + (si - ls) \<le> length s" "si \<le> k + (si - ls)"
        using k inv_glob [OF inv, of k] inv by (auto simp: loop_inv_def)
      then show ?thesis by (rule seg_drop [rotated])
    qed
    ultimately show ?thesis using d glob_star_suffix by metis
  qed
  ultimately show ?thesis by blast
qed

lemma val_end:
  assumes inv: "loop_inv p s pi si ls star" and e: "si = length s"
  shows "loop_val p s ls star = glob (drop pi p) []"
proof (cases star)
  case None
  then show ?thesis using inv_glob_here [OF inv] inv e by (simp add: loop_val_def pat_start_def loop_inv_def)
next
  case (Some i)
  have "loop_val p s ls star" if "glob (drop pi p) []"
    using that inv_glob_here [OF inv] inv Some e val_star [of p s pi si ls i]
    by (auto simp: pat_start_def loop_inv_def)
  moreover have "glob (drop pi p) []" if v: "loop_val p s ls star"
  proof -
    obtain k where k: "ls \<le> k" "k \<le> length s" "glob (drop (pat_start star) p) (drop k s)"
      using v val_star [OF inv [unfolded Some]] unfolding Some by (auto simp: pat_start_def)
    then have "glob (drop pi p) (drop (k + (si - ls)) s)" "k + (si - ls) \<ge> length s"
      using inv_glob [OF inv] inv e by (auto simp: loop_inv_def)
    then show ?thesis by simp
  qed
  ultimately show ?thesis by blast
qed

lemma inv_match:
  assumes "loop_inv p s pi si ls star" "si < length s" "pi < length p"
    "p ! pi \<noteq> CHR ''*''" "fits (p ! pi) (s ! si)"
  shows "loop_inv p s (pi + 1) (si + 1) ls star"
  using assms by (auto simp: loop_inv_def seg_Suc list_all2_appendI)

lemma inv_star:
  "loop_inv p s pi si ls star \<Longrightarrow> pi < length p \<Longrightarrow> p ! pi = CHR ''*'' \<Longrightarrow>
   loop_inv p s (pi + 1) si si (Some pi)"
  by (auto simp: loop_inv_def pat_start_def)

lemma inv_restart:
  "loop_inv p s pi si ls (Some st) \<Longrightarrow> si < length s \<Longrightarrow> loop_inv p s (st + 1) (ls + 1) (ls + 1) (Some st)"
  by (auto simp: loop_inv_def pat_start_def)

lemma match_loop_glob:
  "loop_inv p s pi si ls star \<Longrightarrow> match_loop p s pi si ls star = loop_val p s ls star"
proof (induction p s pi si ls star rule: match_loop.induct)
  case (1 p s pi si ls star)
  note inv = "1.prems"
  have here: "glob (drop (pat_start star) p) (drop ls s) = glob (drop pi p) (drop si s)"
    by (rule inv_glob_here [OF inv])
  have bounds: "si \<le> length s" "pi \<le> length p" using inv by (auto simp: loop_inv_def)
  consider (end_of_text) "si = length s"
    | (pattern_out) "si < length s" "pi = length p"
    | (star) "si < length s" "pi < length p" "p ! pi = CHR ''*''"
    | (fit) "si < length s" "pi < length p" "p ! pi \<noteq> CHR ''*''" "fits (p ! pi) (s ! si)"
    | (mismatch) "si < length s" "pi < length p" "p ! pi \<noteq> CHR ''*''" "\<not> fits (p ! pi) (s ! si)"
    using bounds by fastforce
  then show ?case
  proof cases
    case end_of_text
    with bounds show ?thesis
      by (subst match_loop.simps) (simp add: check_pattern_glob val_end [OF inv])
  next
    case pattern_out
    have "\<not> glob (drop pi p) (drop si s)" using pattern_out by simp
    then have "loop_val p s ls star = (case star of None \<Rightarrow> False | Some st \<Rightarrow> loop_val p s (ls + 1) star)"
      using val_restart [OF inv] here pattern_out by simp
    then show ?thesis
      using pattern_out inv "1.IH"(1) inv_restart
      by (subst match_loop.simps) (auto split: option.splits)
  next
    case star
    with "1.IH"(3) inv_star [OF inv] val_commit [OF inv] show ?thesis
      by (subst match_loop.simps) (simp add: loop_val_def)
  next
    case fit
    with "1.IH"(2,5) inv_match [OF inv] show ?thesis
      by (subst match_loop.simps) (auto simp: fits_def)
  next
    case mismatch
    then have "drop pi p = p ! pi # drop (Suc pi) p" "drop si s = s ! si # drop (Suc si) s"
      by (simp_all add: Cons_nth_drop_Suc)
    then have "\<not> glob (drop pi p) (drop si s)" using mismatch by (simp add: fits_def)
    then have "loop_val p s ls star = (case star of None \<Rightarrow> False | Some st \<Rightarrow> loop_val p s (ls + 1) star)"
      using val_restart [OF inv] here mismatch by simp
    then show ?thesis
      using mismatch inv "1.IH"(4) inv_restart
      by (subst match_loop.simps) (auto simp: fits_def split: option.splits)
  qed
qed

text \<open>C40. \<^verbatim>\<open>wildcard.Match\<close> decides the glob relation of its documentation, a star for any
  number of bytes and a question mark for exactly one, for every pattern and text: the
  loop that goes back to the last star only finds every match, and it terminates.
\<close>

theorem Wildcard_Match_glob: "Wildcard_Match pattern s \<longleftrightarrow> glob pattern s"
proof -
  have "loop_inv pattern s 0 0 0 None" by (simp add: loop_inv_def pat_start_def)
  then have "matchByString pattern s = glob pattern s"
    by (simp add: matchByString_def match_loop_glob loop_val_def)
  then show ?thesis by (auto simp: Wildcard_Match_def)
qed

end
