(* ===== verification/RuleMatch.thy ===== *)
theory RuleMatch
  imports Metadata Ranges Wildcard
begin

text \<open>
  Rule matching: the rule structs of \<^verbatim>\<open>rules/common\<close>, \<^verbatim>\<open>rules/logic\<close>, \<^verbatim>\<open>rules/provider\<close> and
  \<^verbatim>\<open>rules/wrapper\<close> with their \<^verbatim>\<open>Match\<close> methods. A \<open>rule\<close> has one constructor per
  struct, in the order of the struct's fields. What the rules ask of other components is
  a record \<open>env\<close>: the compiled regular expressions, the geo databases, the rule providers
  and the sub-rule lists. Matching works on an \<open>mstate\<close>: the metadata, which rules
  change in place, the two flags of the tunnel's helper closures, and the counters of the
  rule wrappers, found by the number of the wrapper. The times of the last hit and miss
  are not modelled.

  A rule may refer to a sub-rule list or to a rule provider by name, and these may refer
  back, so \<open>Match\<close> takes fuel; its result is a \<open>run\<close> of the prelude.
\<close>

section \<open>Rules, environment, state\<close>

datatype rule =
    Domain string string
  | DomainSuffix string string
  | DomainKeyword string string
  | DomainRegex string string
  | DomainWildcard string string
  | GEOSITE string string
  | GEOIP string string bool bool
  | ASN string string bool bool
  | IPCIDR prefix string bool bool
  | IPSuffix "8 word list" nat string string bool bool
  | PortRule string string RuleType "16 word range list"
  | DSCPRule "8 word range list" string string
  | NetworkRule NetWork string
  | ProcessRule string string RuleType
  | UidRule "32 word range list" string string
  | InUserRule "string list" string string
  | InNameRule "string list" string string
  | InTypeRule "Type list" string string
  | MatchRule string
  | RuleSet string string bool bool
  | Logic string string RuleType "rule list"
  | Wrapper nat rule

datatype provider =
    Classical "rule list"
  | DomainBehavior "(string \<Rightarrow> bool) option"
  | IPCIDRBehavior "(addr \<Rightarrow> bool) option"

record env =
  regexMatch :: "string \<Rightarrow> string \<Rightarrow> bool"
  geodataMode :: bool
  geoIPMatcher :: "string \<Rightarrow> (addr \<Rightarrow> bool) option"
  lookupCode :: "8 word list \<Rightarrow> string list"
  lookupASN :: "8 word list \<Rightarrow> string \<times> string"
  geoSiteMatcher :: "string \<Rightarrow> (string \<Rightarrow> bool) option"
  isFakeBroadcastIP :: "addr \<Rightarrow> bool"
  ruleProviders :: "string \<Rightarrow> provider option"
  subRules :: "string \<Rightarrow> rule list"

record mstate =
  md :: Metadata
  resolved :: bool
  attemptProcessLookup :: bool
  disabled :: "nat \<Rightarrow> bool"
  hitCount :: "nat \<Rightarrow> 64 word"
  missCount :: "nat \<Rightarrow> 64 word"

text \<open>The helper's closures. The check of pass rules follows a chain of proxies, which may not end: then its
  result is \<open>None\<close>.\<close>

record helper =
  ResolveIP :: "(mstate \<Rightarrow> mstate) option"
  FindProcess :: "(mstate \<Rightarrow> mstate) option"
  CheckPassRule :: "(mstate \<Rightarrow> string \<Rightarrow> bool option) option"

type_synonym matched = "((bool \<times> string) \<times> mstate) run"

definition call :: "(mstate \<Rightarrow> mstate) option \<Rightarrow> mstate \<Rightarrow> mstate" where
  "call f st = (case f of None \<Rightarrow> st | Some g \<Rightarrow> g st)"

fun rule_adapter :: "rule \<Rightarrow> string" where
  "rule_adapter (Domain d a) = a"
| "rule_adapter (DomainSuffix d a) = a"
| "rule_adapter (DomainKeyword d a) = a"
| "rule_adapter (DomainRegex d a) = a"
| "rule_adapter (DomainWildcard d a) = a"
| "rule_adapter (GEOSITE c a) = a"
| "rule_adapter (GEOIP c a n s) = a"
| "rule_adapter (ASN c a n s) = a"
| "rule_adapter (IPCIDR p a s n) = a"
| "rule_adapter (IPSuffix b bits p a s n) = a"
| "rule_adapter (PortRule a p t rs) = a"
| "rule_adapter (DSCPRule rs p a) = a"
| "rule_adapter (NetworkRule n a) = a"
| "rule_adapter (ProcessRule p a t) = a"
| "rule_adapter (UidRule rs p a) = a"
| "rule_adapter (InUserRule us a p) = a"
| "rule_adapter (InNameRule us a p) = a"
| "rule_adapter (InTypeRule us a p) = a"
| "rule_adapter (MatchRule a) = a"
| "rule_adapter (RuleSet n a s nr) = a"
| "rule_adapter (Logic p a t rs) = a"
| "rule_adapter (Wrapper i r) = rule_adapter r"

fun rule_type :: "rule \<Rightarrow> RuleType" where
  "rule_type (Domain d a) = RTDomain"
| "rule_type (DomainSuffix d a) = RTDomainSuffix"
| "rule_type (DomainKeyword d a) = RTDomainKeyword"
| "rule_type (DomainRegex d a) = RTDomainRegex"
| "rule_type (DomainWildcard d a) = RTDomainWildcard"
| "rule_type (GEOSITE c a) = RTGEOSITE"
| "rule_type (GEOIP c a n s) = (if s then RTSrcGEOIP else RTGEOIP)"
| "rule_type (ASN c a n s) = (if s then RTSrcIPASN else RTIPASN)"
| "rule_type (IPCIDR p a s n) = (if s then RTSrcIPCIDR else RTIPCIDR)"
| "rule_type (IPSuffix b bits p a s n) = (if s then RTSrcIPSuffix else RTIPSuffix)"
| "rule_type (PortRule a p t rs) = t"
| "rule_type (DSCPRule rs p a) = RTDSCP"
| "rule_type (NetworkRule n a) = RTNetwork"
| "rule_type (ProcessRule p a t) = t"
| "rule_type (UidRule rs p a) = RTUid"
| "rule_type (InUserRule us a p) = RTInUser"
| "rule_type (InNameRule us a p) = RTInName"
| "rule_type (InTypeRule us a p) = RTInType"
| "rule_type (MatchRule a) = RTMATCH"
| "rule_type (RuleSet n a s nr) = RTRuleSet"
| "rule_type (Logic p a t rs) = t"
| "rule_type (Wrapper i r) = rule_type r"

section \<open>Match of the simple rules\<close>

text \<open>The prologue of the IP rules: resolve the destination unless told otherwise.\<close>

definition resolve_for :: "helper \<Rightarrow> bool \<Rightarrow> bool \<Rightarrow> mstate \<Rightarrow> mstate" where
  "resolve_for h noResolveIP isSourceIP st =
     (if \<not> noResolveIP \<and> \<not> isSourceIP then call (ResolveIP h) st else st)"

definition rule_ip :: "bool \<Rightarrow> mstate \<Rightarrow> addr" where
  "rule_ip isSourceIP st = (if isSourceIP then SrcIP (md st) else DstIP (md st))"

definition isLan :: "env \<Rightarrow> addr \<Rightarrow> bool" where
  "isLan env ip \<longleftrightarrow> IsPrivate ip \<or> IsUnspecified ip \<or> IsLoopback ip \<or> IsMulticast ip
     \<or> IsLinkLocalUnicast ip \<or> isFakeBroadcastIP env ip"

definition nil_list :: "'a list option \<Rightarrow> 'a list" where
  "nil_list x = (case x of None \<Rightarrow> [] | Some l \<Rightarrow> l)"

definition geo_codes :: "bool \<Rightarrow> mstate \<Rightarrow> string list option" where
  "geo_codes isSourceIP st = (if isSourceIP then SrcGeoIP (md st) else DstGeoIP (md st))"

definition set_geo_codes :: "bool \<Rightarrow> string list \<Rightarrow> mstate \<Rightarrow> mstate" where
  "set_geo_codes isSourceIP codes st =
     (if isSourceIP then st\<lparr>md := (md st)\<lparr>SrcGeoIP := Some codes\<rparr>\<rparr>
      else st\<lparr>md := (md st)\<lparr>DstGeoIP := Some codes\<rparr>\<rparr>)"

definition match_GEOIP ::
  "env \<Rightarrow> helper \<Rightarrow> string \<Rightarrow> string \<Rightarrow> bool \<Rightarrow> bool \<Rightarrow> mstate \<Rightarrow> (bool \<times> string) \<times> mstate" where
  "match_GEOIP env h country adapter noResolveIP isSourceIP st0 =
     (let st = resolve_for h noResolveIP isSourceIP st0;
          ip = rule_ip isSourceIP st
      in if \<not> IsValid ip then ((False, ''''), st)
         else if country = ''lan'' then ((isLan env ip, adapter), st)
         else if geodataMode env then
           (if country \<in> set (nil_list (geo_codes isSourceIP st)) then ((True, adapter), st)
            else case geoIPMatcher env country of
                   None \<Rightarrow> ((False, ''''), st)
                 | Some matcher \<Rightarrow>
                     if matcher ip
                     then ((True, adapter),
                       set_geo_codes isSourceIP (nil_list (geo_codes isSourceIP st) @ [country]) st)
                     else ((False, adapter), st))
         else case geo_codes isSourceIP st of
                Some codes \<Rightarrow> ((country \<in> set codes, adapter), st)
              | None \<Rightarrow>
                  let codes = lookupCode env (AsSlice ip);
                      st = set_geo_codes isSourceIP codes st
                  in if country \<in> set codes then ((True, adapter), st) else ((False, ''''), st))"

definition match_ASN ::
  "env \<Rightarrow> helper \<Rightarrow> string \<Rightarrow> string \<Rightarrow> bool \<Rightarrow> bool \<Rightarrow> mstate \<Rightarrow> (bool \<times> string) \<times> mstate" where
  "match_ASN env h asnum adapter noResolveIP isSourceIP st0 =
     (let st = resolve_for h noResolveIP isSourceIP st0;
          ip = rule_ip isSourceIP st
      in if \<not> IsValid ip then ((False, ''''), st)
         else
           let (asn, aso) = lookupASN env (AsSlice ip);
               st = (if isSourceIP then st\<lparr>md := (md st)\<lparr>SrcIPASN := asn @ '' '' @ aso\<rparr>\<rparr>
                     else st\<lparr>md := (md st)\<lparr>DstIPASN := asn @ '' '' @ aso\<rparr>\<rparr>)
           in ((asnum = asn, adapter), st))"

definition match_IPCIDR ::
  "helper \<Rightarrow> prefix \<Rightarrow> string \<Rightarrow> bool \<Rightarrow> bool \<Rightarrow> mstate \<Rightarrow> (bool \<times> string) \<times> mstate" where
  "match_IPCIDR h ipnet adapter isSourceIP noResolveIP st0 =
     (let st = resolve_for h noResolveIP isSourceIP st0;
          ip = rule_ip isSourceIP st
      in ((IsValid ip \<and> prefix_contains ipnet (WithoutZone ip), adapter), st))"

text \<open>The loop over whole bytes from \<^verbatim>\<open>i = bits / 8\<close> down to 1, then the byte before them,
  whose index is -1 when the suffix covers all bytes.\<close>

fun ipsuffix_loop :: "8 word list \<Rightarrow> 8 word list \<Rightarrow> nat \<Rightarrow> bool" where
  "ipsuffix_loop ipBytes mIPBytes 0 = True"
| "ipsuffix_loop ipBytes mIPBytes (Suc i) =
     (if ipBytes ! (length mIPBytes - Suc i) \<noteq> mIPBytes ! (length mIPBytes - Suc i) then False
      else ipsuffix_loop ipBytes mIPBytes i)"

definition match_IPSuffix ::
  "helper \<Rightarrow> 8 word list \<Rightarrow> nat \<Rightarrow> string \<Rightarrow> bool \<Rightarrow> bool \<Rightarrow> mstate \<Rightarrow> matched" where
  "match_IPSuffix h ipBytes bits adapter isSourceIP noResolveIP st0 =
     (let st = resolve_for h noResolveIP isSourceIP st0;
          ip = rule_ip isSourceIP st;
          mIPBytes = AsSlice ip;
          size = length mIPBytes
      in if length ipBytes \<noteq> size then Done ((False, ''''), st)
         else if \<not> ipsuffix_loop ipBytes mIPBytes (bits div 8) then Done ((False, ''''), st)
         else if size < bits div 8 + 1 then Crash
         else
           let j = size - bits div 8 - 1 in
           if push_bit (8 - bits mod 8) (ipBytes ! j) \<noteq> push_bit (8 - bits mod 8) (mIPBytes ! j)
           then Done ((False, ''''), st)
           else Done ((True, adapter), st))"

definition match_Port :: "string \<Rightarrow> RuleType \<Rightarrow> 16 word range list \<Rightarrow> Metadata \<Rightarrow> bool \<times> string" where
  "match_Port adapter ruleType portRanges m =
     (let targetPort = (if ruleType = RTInPort then InPort m
                        else if ruleType = RTSrcPort then SrcPort m else DstPort m)
      in (Check portRanges targetPort, adapter))"

definition match_Process ::
  "env \<Rightarrow> helper \<Rightarrow> string \<Rightarrow> string \<Rightarrow> RuleType \<Rightarrow> mstate \<Rightarrow> (bool \<times> string) \<times> mstate" where
  "match_Process env h pattern adapter ruleType st0 =
     (let st = call (FindProcess h) st0;
          target = (if ruleType \<in> {RTProcessName, RTProcessNameRegex, RTProcessNameWildcard}
                    then Process (md st) else ProcessPath (md st))
      in if ruleType \<in> {RTProcessNameRegex, RTProcessPathRegex}
         then ((regexMatch env pattern target, adapter), st)
         else if ruleType \<in> {RTProcessNameWildcard, RTProcessPathWildcard}
         then ((Wildcard_Match (to_lower pattern) (to_lower target), adapter), st)
         else ((to_lower target = to_lower pattern, adapter), st))"

definition match_Uid :: "helper \<Rightarrow> 32 word range list \<Rightarrow> string \<Rightarrow> mstate \<Rightarrow> (bool \<times> string) \<times> mstate" where
  "match_Uid h uids adapter st0 =
     (let st = call (FindProcess h) st0 in
      if Uid (md st) \<noteq> 0 \<and> Check uids (Uid (md st)) then ((True, adapter), st)
      else ((False, ''''), st))"

definition match_names :: "string list \<Rightarrow> string \<Rightarrow> string \<Rightarrow> bool \<times> string" where
  "match_names names adapter x = (if x \<in> set names then (True, adapter) else (False, ''''))"

definition match_InType :: "Type list \<Rightarrow> string \<Rightarrow> Metadata \<Rightarrow> bool \<times> string" where
  "match_InType types adapter m = (if Type m \<in> set types then (True, adapter) else (False, ''''))"

definition GEOSITE_MatchDomain :: "env \<Rightarrow> string \<Rightarrow> string \<Rightarrow> bool" where
  "GEOSITE_MatchDomain env country domain =
     (if length domain = 0 then False
      else case geoSiteMatcher env country of None \<Rightarrow> False | Some matcher \<Rightarrow> matcher domain)"

section \<open>Match of the rules that ask other rules\<close>

text \<open>The loops over rules, with the \<^verbatim>\<open>Match\<close> they call as an argument.\<close>

type_synonym matcher = "rule \<Rightarrow> mstate \<Rightarrow> matched"

primrec or_loop :: "matcher \<Rightarrow> rule list \<Rightarrow> mstate \<Rightarrow> (bool \<times> mstate) run" where
  "or_loop match [] st = Done (False, st)"
| "or_loop match (r # rs) st =
     bind_run (match r st) (\<lambda>((m, a), st). if m then Done (True, st) else or_loop match rs st)"

primrec and_loop :: "matcher \<Rightarrow> rule list \<Rightarrow> mstate \<Rightarrow> (bool \<times> mstate) run" where
  "and_loop match [] st = Done (True, st)"
| "and_loop match (r # rs) st =
     bind_run (match r st) (\<lambda>((m, a), st). if \<not> m then Done (False, st) else and_loop match rs st)"

definition is_pass_rule :: "helper \<Rightarrow> mstate \<Rightarrow> string \<Rightarrow> bool option" where
  "is_pass_rule h st a =
     (if a = ''PASS-RULE'' then Some True
      else case CheckPassRule h of None \<Rightarrow> Some False | Some check \<Rightarrow> check st a)"

primrec sub_loop :: "matcher \<Rightarrow> (string \<Rightarrow> mstate \<Rightarrow> matched) \<Rightarrow> helper \<Rightarrow> rule list \<Rightarrow> mstate \<Rightarrow> matched" where
  "sub_loop match subs h [] st = Done ((False, ''''), st)"
| "sub_loop match subs h (r # rs) st =
     bind_run (match r st) (\<lambda>((m, a), st).
       if \<not> m then sub_loop match subs h rs st
       else bind_run
         (if rule_type r = RTSubRules then subs (rule_adapter r) st else Done ((m, a), st))
         (\<lambda>((m, a), st).
           if m then
             (case is_pass_rule h st a of
                None \<Rightarrow> Fuel
              | Some pass \<Rightarrow> if pass then sub_loop match subs h rs st else Done ((m, a), st))
           else Done ((m, a), st)))"

definition match_provider ::
  "(helper \<Rightarrow> matcher) \<Rightarrow> helper \<Rightarrow> provider \<Rightarrow> mstate \<Rightarrow> (bool \<times> mstate) run" where
  "match_provider match h p st =
     (case p of
        Classical rules \<Rightarrow> or_loop (match h) rules st
      | DomainBehavior domainSet \<Rightarrow>
          Done ((case domainSet of None \<Rightarrow> False | Some has \<Rightarrow> has (RuleHost (md st))), st)
      | IPCIDRBehavior cidrSet \<Rightarrow>
          let st = call (ResolveIP h) st
          in Done ((case cidrSet of None \<Rightarrow> False | Some contains \<Rightarrow> contains (DstIP (md st))), st))"

definition swap_md :: "mstate \<Rightarrow> mstate" where
  "swap_md st = st\<lparr>md := SwapSrcDst (md st)\<rparr>"

definition match_RuleSet ::
  "(helper \<Rightarrow> matcher) \<Rightarrow> env \<Rightarrow> helper \<Rightarrow> string \<Rightarrow> string \<Rightarrow> bool \<Rightarrow> bool \<Rightarrow> mstate \<Rightarrow> matched" where
  "match_RuleSet match env h name adapter isSrc noResolveIP st =
     (case ruleProviders env name of
        None \<Rightarrow> Done ((False, ''''), st)
      | Some p \<Rightarrow>
          if isSrc then
            bind_run (match_provider match (h\<lparr>ResolveIP := None\<rparr>) p (swap_md st))
              (\<lambda>(m, st). Done ((m, adapter), swap_md st))
          else if noResolveIP then
            bind_run (match_provider match (h\<lparr>ResolveIP := None\<rparr>) p st)
              (\<lambda>(m, st). Done ((m, adapter), st))
          else bind_run (match_provider match h p st) (\<lambda>(m, st). Done ((m, adapter), st)))"

definition match_Logic ::
  "matcher \<Rightarrow> (string \<Rightarrow> mstate \<Rightarrow> matched) \<Rightarrow> string \<Rightarrow> RuleType \<Rightarrow> rule list \<Rightarrow> mstate \<Rightarrow> matched" where
  "match_Logic match subs adapter ruleType rules st =
     (if ruleType = RTSubRules then
        (case rules of
           [] \<Rightarrow> Crash
         | r # _ \<Rightarrow> bind_run (match r st) (\<lambda>((m, a), st).
             if m then subs adapter st else Done ((False, ''''), st)))
      else if ruleType = RTNOT then
        (case rules of
           [] \<Rightarrow> Crash
         | r # _ \<Rightarrow> bind_run (match r st) (\<lambda>((m, a), st).
             if \<not> m then Done ((True, adapter), st) else Done ((False, ''''), st)))
      else if ruleType = RTOR then
        bind_run (or_loop match rules st) (\<lambda>(m, st).
          if m then Done ((True, adapter), st) else Done ((False, ''''), st))
      else if ruleType = RTAND then
        bind_run (and_loop match rules st) (\<lambda>(m, st). Done ((m, adapter), st))
      else Done ((False, ''''), st))"

definition Hit :: "nat \<Rightarrow> mstate \<Rightarrow> mstate" where
  "Hit i st = st\<lparr>hitCount := (hitCount st)(i := hitCount st i + 1)\<rparr>"

definition Miss :: "nat \<Rightarrow> mstate \<Rightarrow> mstate" where
  "Miss i st = st\<lparr>missCount := (missCount st)(i := missCount st i + 1)\<rparr>"

definition match_Wrapper :: "matcher \<Rightarrow> nat \<Rightarrow> rule \<Rightarrow> mstate \<Rightarrow> matched" where
  "match_Wrapper match i r st =
     (if disabled st i then Done ((False, ''''), st)
      else bind_run (match r st) (\<lambda>((ok, adapter), st).
        Done ((ok, adapter), if ok then Hit i st else Miss i st)))"

text \<open>The rules that ask no other rule.\<close>

fun match_simple :: "env \<Rightarrow> helper \<Rightarrow> rule \<Rightarrow> mstate \<Rightarrow> matched" where
  "match_simple env h (Domain domain adapter) st = Done ((RuleHost (md st) = domain, adapter), st)"
| "match_simple env h (DomainSuffix sfx adapter) st =
     Done ((has_suffix (RuleHost (md st)) (''.'' @ sfx) \<or> RuleHost (md st) = sfx, adapter), st)"
| "match_simple env h (DomainKeyword keyword adapter) st =
     Done ((contains_str (RuleHost (md st)) keyword, adapter), st)"
| "match_simple env h (DomainRegex regex adapter) st =
     Done ((regexMatch env regex (RuleHost (md st)), adapter), st)"
| "match_simple env h (DomainWildcard pattern adapter) st =
     Done ((Wildcard_Match pattern (Host (md st)), adapter), st)"
| "match_simple env h (GEOSITE country adapter) st =
     Done ((GEOSITE_MatchDomain env country (RuleHost (md st)), adapter), st)"
| "match_simple env h (GEOIP country adapter nores src) st =
     Done (match_GEOIP env h country adapter nores src st)"
| "match_simple env h (ASN asnum adapter nores src) st =
     Done (match_ASN env h asnum adapter nores src st)"
| "match_simple env h (IPCIDR ipnet adapter src nores) st =
     Done (match_IPCIDR h ipnet adapter src nores st)"
| "match_simple env h (IPSuffix ipBytes bits payload adapter src nores) st =
     match_IPSuffix h ipBytes bits adapter src nores st"
| "match_simple env h (PortRule adapter port ruleType portRanges) st =
     Done (match_Port adapter ruleType portRanges (md st), st)"
| "match_simple env h (DSCPRule ranges payload adapter) st =
     Done ((Check ranges (DSCP (md st)), adapter), st)"
| "match_simple env h (NetworkRule network adapter) st =
     Done ((network = NetWork (md st), adapter), st)"
| "match_simple env h (ProcessRule pattern adapter ruleType) st =
     Done (match_Process env h pattern adapter ruleType st)"
| "match_simple env h (UidRule uids oUid adapter) st = Done (match_Uid h uids adapter st)"
| "match_simple env h (InUserRule users adapter payload) st =
     Done (match_names users adapter (InUser (md st)), st)"
| "match_simple env h (InNameRule names adapter payload) st =
     Done (match_names names adapter (InName (md st)), st)"
| "match_simple env h (InTypeRule types adapter payload) st =
     Done (match_InType types adapter (md st), st)"
| "match_simple env h (MatchRule adapter) st = Done ((True, adapter), st)"
| "match_simple env h (RuleSet name adapter isSrc nores) st = Done ((False, ''''), st)"
| "match_simple env h (Logic payload adapter ruleType rules) st = Done ((False, ''''), st)"
| "match_simple env h (Wrapper i r) st = Done ((False, ''''), st)"

fun Match :: "nat \<Rightarrow> env \<Rightarrow> helper \<Rightarrow> rule \<Rightarrow> mstate \<Rightarrow> matched"
  and matchSubRules :: "nat \<Rightarrow> env \<Rightarrow> helper \<Rightarrow> string \<Rightarrow> mstate \<Rightarrow> matched" where
  "Match 0 env h r st = Fuel"
| "Match (Suc n) env h r st =
     (case r of
        RuleSet name adapter isSrc nores \<Rightarrow>
          match_RuleSet (\<lambda>h r st. Match n env h r st) env h name adapter isSrc nores st
      | Logic payload adapter ruleType rules \<Rightarrow>
          match_Logic (\<lambda>r st. Match n env h r st) (\<lambda>s st. matchSubRules n env h s st)
            adapter ruleType rules st
      | Wrapper i r \<Rightarrow> match_Wrapper (\<lambda>r st. Match n env h r st) i r st
      | _ \<Rightarrow> match_simple env h r st)"
| "matchSubRules 0 env h name st = Fuel"
| "matchSubRules (Suc n) env h name st =
     sub_loop (\<lambda>r st. Match n env h r st) (\<lambda>s st. matchSubRules n env h s st) h (subRules env name) st"

end
