(* ===== verification/RuleParse.thy ===== *)
theory RuleParse
  imports RuleMatch
begin

text \<open>
  From the text of a rule to the rule: \<^verbatim>\<open>rules/common/base.go\<close> and the constructors
  beside it, \<^verbatim>\<open>rules/logic/logic.go\<close>, \<^verbatim>\<open>rules/parser.go\<close>, and the loop over a
  configuration's rules in \<^verbatim>\<open>config/config.go\<close>.

  The regular expression package, the geo databases and the platform are the fields of
  \<open>parse_env\<close>; each load gives an error or nothing.
\<close>

record parse_env =
  CompileRegex :: "string \<Rightarrow> string option"
  InitGeoIP :: "string option"
  LoadGeoIP :: "string \<Rightarrow> string option"
  InitASN :: "string option"
  InitGeoSite :: "string option"
  LoadGeoSite :: "string \<Rightarrow> string option"
  parseGeodataMode :: bool
  GOOS :: string

section \<open>Rule texts\<close>

definition trimArr :: "string list \<Rightarrow> string list" where
  "trimArr arr = map (trim_set '' '') arr"

definition ParseParams :: "string list \<Rightarrow> bool \<times> bool" where
  "ParseParams params =
     (let isSrc = ''src'' \<in> set params
      in (isSrc, if isSrc then True else ''no-resolve'' \<in> set params))"

text \<open>The result is type, payload, target and parameters.\<close>

definition ParseRulePayload :: "string \<Rightarrow> bool \<Rightarrow> string \<times> string \<times> string \<times> string list" where
  "ParseRulePayload ruleRaw needTarget =
     (let item = trimArr (split_on CHR '','' ruleRaw);
          tp = to_upper (hd item)
      in if length item > 1 then
           if tp = ''MATCH'' then (tp, '''', item ! 1, [])
           else if tp \<in> {''NOT'', ''OR'', ''AND'', ''SUB-RULE'', ''DOMAIN-REGEX'', ''PROCESS-NAME-REGEX'', ''PROCESS-PATH-REGEX''} then
             if needTarget then (tp, join_with '','' (tl (butlast item)), last item, [])
             else (tp, join_with '','' (tl item), '''', [])
           else if length item > 2 then
             if needTarget then (tp, item ! 1, item ! 2, drop 3 item)
             else (tp, item ! 1, '''', drop 2 item)
           else (tp, item ! 1, '''', [])
         else (tp, '''', '''', []))"

section \<open>Constructors\<close>

type_synonym parsed = "string + rule"

definition NewDomain :: "string \<Rightarrow> string \<Rightarrow> rule" where
  "NewDomain domain adapter = Domain (to_lower domain) adapter"

definition NewDomainSuffix :: "string \<Rightarrow> string \<Rightarrow> rule" where
  "NewDomainSuffix sfx adapter = DomainSuffix (to_lower sfx) adapter"

definition NewDomainKeyword :: "string \<Rightarrow> string \<Rightarrow> rule" where
  "NewDomainKeyword keyword adapter = DomainKeyword (to_lower keyword) adapter"

definition or_error :: "string option \<Rightarrow> rule \<Rightarrow> parsed" where
  "or_error err r = (case err of Some e \<Rightarrow> Inl e | None \<Rightarrow> Inr r)"

definition NewDomainRegex :: "parse_env \<Rightarrow> string \<Rightarrow> string \<Rightarrow> parsed" where
  "NewDomainRegex pe regex adapter = or_error (CompileRegex pe regex) (DomainRegex regex adapter)"

definition NewDomainWildcard :: "string \<Rightarrow> string \<Rightarrow> parsed" where
  "NewDomainWildcard pattern adapter = Inr (DomainWildcard (to_lower pattern) adapter)"

definition NewGEOSITE :: "parse_env \<Rightarrow> string \<Rightarrow> string \<Rightarrow> parsed" where
  "NewGEOSITE pe country adapter =
     (case InitGeoSite pe of Some e \<Rightarrow> Inl e
      | None \<Rightarrow> or_error (LoadGeoSite pe country) (GEOSITE country adapter))"

definition NewGEOIP :: "parse_env \<Rightarrow> string \<Rightarrow> string \<Rightarrow> bool \<Rightarrow> bool \<Rightarrow> parsed" where
  "NewGEOIP pe country0 adapter isSrc noResolveIP =
     (let country = to_lower country0;
          geoip = GEOIP country adapter noResolveIP isSrc
      in if country = ''lan'' then Inr geoip
         else case InitGeoIP pe of
           Some e \<Rightarrow> Inl e
         | None \<Rightarrow> if parseGeodataMode pe then or_error (LoadGeoIP pe country) geoip else Inr geoip)"

definition NewIPASN :: "parse_env \<Rightarrow> string \<Rightarrow> string \<Rightarrow> bool \<Rightarrow> bool \<Rightarrow> parsed" where
  "NewIPASN pe asnum adapter isSrc noResolveIP = or_error (InitASN pe) (ASN asnum adapter noResolveIP isSrc)"

definition errPayload :: string where "errPayload = ''payloadRule error''"

definition NewIPCIDR :: "string \<Rightarrow> string \<Rightarrow> bool \<Rightarrow> bool \<Rightarrow> parsed" where
  "NewIPCIDR s adapter isSrc noResolveIP =
     (case ParsePrefix s of None \<Rightarrow> Inl errPayload | Some ipnet \<Rightarrow> Inr (IPCIDR ipnet adapter isSrc noResolveIP))"

definition NewIPSuffix :: "string \<Rightarrow> string \<Rightarrow> bool \<Rightarrow> bool \<Rightarrow> parsed" where
  "NewIPSuffix payload adapter isSrc noResolveIP =
     (case ParsePrefix payload of
        None \<Rightarrow> Inl errPayload
      | Some ipnet \<Rightarrow> Inr (IPSuffix (AsSlice (prefix_addr ipnet)) (prefix_bits ipnet) payload adapter isSrc noResolveIP))"

definition NewPort :: "string \<Rightarrow> string \<Rightarrow> RuleType \<Rightarrow> parsed" where
  "NewPort port adapter ruleType =
     (case NewUnsignedRanges port of
        Inl err \<Rightarrow> Inl (errPayload @ '', '' @ err)
      | Inr portRanges \<Rightarrow>
          if length portRanges = 0 then Inl errPayload else Inr (PortRule adapter port ruleType portRanges))"

definition NewDSCP :: "string \<Rightarrow> string \<Rightarrow> parsed" where
  "NewDSCP dscp adapter =
     (case NewUnsignedRanges dscp of
        Inl err \<Rightarrow> Inl (''parse DSCP rule fail: '' @ err)
      | Inr ranges \<Rightarrow>
          if list_ex (\<lambda>r. range_end r > 63) ranges then Inl ''DSCP couldn't be negative or exceed 63''
          else Inr (DSCPRule ranges dscp adapter))"

definition NewProcess :: "parse_env \<Rightarrow> string \<Rightarrow> string \<Rightarrow> RuleType \<Rightarrow> parsed" where
  "NewProcess pe pattern adapter ruleType =
     (if ruleType \<in> {RTProcessNameRegex, RTProcessPathRegex}
      then or_error (CompileRegex pe pattern) (ProcessRule pattern adapter ruleType)
      else Inr (ProcessRule pattern adapter ruleType))"

definition NewNetworkType :: "string \<Rightarrow> string \<Rightarrow> parsed" where
  "NewNetworkType network adapter =
     (if to_upper network = ''TCP'' then Inr (NetworkRule TCP adapter)
      else if to_upper network = ''UDP'' then Inr (NetworkRule UDP adapter)
      else Inl ''unsupported network type, only TCP/UDP'')"

definition NewUid :: "parse_env \<Rightarrow> string \<Rightarrow> string \<Rightarrow> parsed" where
  "NewUid pe oUid adapter =
     (if \<not> (GOOS pe = ''linux'' \<or> GOOS pe = ''android'') then Inl ''uid rule not support this platform''
      else case NewUnsignedRanges oUid of
        Inl err \<Rightarrow> Inl (errPayload @ '', '' @ err)
      | Inr uidRange \<Rightarrow> if length uidRange = 0 then Inl errPayload else Inr (UidRule uidRange oUid adapter))"

text \<open>The parts of a payload between slashes, trimmed; an empty one is an error.\<close>

definition slash_parts :: "string \<Rightarrow> string \<Rightarrow> string + string list" where
  "slash_parts what payload =
     (let parts = map trim_space (split_on CHR ''/'' payload)
      in if [] \<in> set parts then Inl (what @ '' couldn't be empty'') else Inr parts)"

definition NewInUser :: "string \<Rightarrow> string \<Rightarrow> parsed" where
  "NewInUser iUsers adapter =
     (case slash_parts ''in user'' iUsers of Inl e \<Rightarrow> Inl e | Inr users \<Rightarrow> Inr (InUserRule users adapter iUsers))"

definition NewInName :: "string \<Rightarrow> string \<Rightarrow> parsed" where
  "NewInName iNames adapter =
     (case slash_parts ''in name'' iNames of Inl e \<Rightarrow> Inl e | Inr names \<Rightarrow> Inr (InNameRule names adapter iNames))"

fun parseInTypes :: "string list \<Rightarrow> string + Type list" where
  "parseInTypes [] = Inr []"
| "parseInTypes (tp # tps) =
     (let utp = to_upper tp in
      case (if utp = ''SOCKS'' then Some [SOCKS4, SOCKS5] else map_option (\<lambda>t. [t]) (ParseType utp)) of
        None \<Rightarrow> Inl (''unknown type: '' @ utp)
      | Some ts \<Rightarrow> (case parseInTypes tps of Inl e \<Rightarrow> Inl e | Inr res \<Rightarrow> Inr (ts @ res)))"

definition NewInType :: "string \<Rightarrow> string \<Rightarrow> parsed" where
  "NewInType iTypes adapter =
     (case slash_parts ''in type'' iTypes of
        Inl e \<Rightarrow> Inl e
      | Inr types \<Rightarrow>
          (case parseInTypes types of
             Inl e \<Rightarrow> Inl e
           | Inr tps \<Rightarrow> Inr (InTypeRule tps adapter (to_upper iTypes))))"

definition NewMatch :: "string \<Rightarrow> rule" where
  "NewMatch adapter = MatchRule adapter"

definition NewRuleSet :: "string \<Rightarrow> string \<Rightarrow> bool \<Rightarrow> bool \<Rightarrow> parsed" where
  "NewRuleSet name adapter isSrc noResolveIP = Inr (RuleSet name adapter isSrc noResolveIP)"

section \<open>Logic payloads\<close>

text \<open>A range is the pair of the indices of an opening and its closing parenthesis.\<close>

definition containRange :: "nat \<times> nat \<Rightarrow> nat \<Rightarrow> nat \<Rightarrow> bool" where
  "containRange r preStart preEnd \<longleftrightarrow> preStart < fst r \<and> preEnd > snd r"

fun format_loop :: "string \<Rightarrow> nat \<Rightarrow> nat list \<Rightarrow> (nat \<times> nat) list \<Rightarrow> string + (nat \<times> nat) list" where
  "format_loop [] i stack subRanges =
     (if stack \<noteq> [] then Inl ''format error is missing )'' else Inr subRanges)"
| "format_loop (c # cs) i stack subRanges =
     (if c = CHR ''('' then format_loop cs (i + 1) (i # stack) subRanges
      else if c = CHR '')'' then
        (case stack of
           [] \<Rightarrow> Inl ''missing '(' ''
         | start # stack \<Rightarrow> format_loop cs (i + 1) stack (subRanges @ [(start, i)]))
      else format_loop cs (i + 1) stack subRanges)"

definition format :: "string \<Rightarrow> string + (nat \<times> nat) list" where
  "format payload =
     (case format_loop payload 0 [] [] of Inl e \<Rightarrow> Inl e | Inr rs \<Rightarrow> Inr (sort_key fst rs))"

fun findSubRuleRange :: "nat \<Rightarrow> (nat \<times> nat) list \<Rightarrow> (nat \<times> nat) list \<Rightarrow> (nat \<times> nat) list" where
  "findSubRuleRange payloadLen [] subRuleRange = subRuleRange"
| "findSubRuleRange payloadLen (rr # ruleRanges) subRuleRange =
     (if fst rr = 0 \<and> snd rr + 1 = payloadLen then findSubRuleRange payloadLen ruleRanges subRuleRange
      else if list_ex (\<lambda>r. containRange rr (fst r) (snd r)) subRuleRange
      then findSubRuleRange payloadLen ruleRanges subRuleRange
      else findSubRuleRange payloadLen ruleRanges (subRuleRange @ [rr]))"

text \<open>The texts of the rules in a payload.\<close>

definition sub_payloads :: "string \<Rightarrow> string + string list" where
  "sub_payloads payload =
     (if \<not> has_prefix payload ''('' \<or> \<not> has_suffix payload '')'' then Inl ''payload format error''
      else case format payload of
        Inl e \<Rightarrow> Inl e
      | Inr subAllRanges \<Rightarrow>
          Inr (map (\<lambda>r. take (snd r - (fst r + 1)) (drop (fst r + 1) payload))
            (findSubRuleRange (length payload) subAllRanges [])))"

fun parse_all :: "('a \<Rightarrow> 'e + 'b) \<Rightarrow> 'a list \<Rightarrow> 'e + 'b list" where
  "parse_all f [] = Inr []"
| "parse_all f (x # xs) =
     (case f x of
        Inl e \<Rightarrow> Inl e
      | Inr y \<Rightarrow> (case parse_all f xs of Inl e \<Rightarrow> Inl e | Inr ys \<Rightarrow> Inr (y # ys)))"

lemma parse_all_cong [fundef_cong]:
  "xs = ys \<Longrightarrow> (\<And>x. x \<in> set ys \<Longrightarrow> f x = g x) \<Longrightarrow> parse_all f xs = parse_all g ys"
  by (induction ys arbitrary: xs) (auto split: sum.splits)

text \<open>What a rule inside a logic rule may be, and its call of the parser \<open>f\<close>.\<close>

definition payloadToRule :: "(string \<Rightarrow> string \<Rightarrow> string \<Rightarrow> string list \<Rightarrow> parsed) \<Rightarrow> string \<Rightarrow> parsed" where
  "payloadToRule f subPayload =
     (case ParseRulePayload subPayload False of (tp, payload, target, param) \<Rightarrow>
        if tp = ''MATCH'' \<or> tp = ''SUB-RULE'' then
          Inl (''unsupported rule type ['' @ tp @ ''] on logic rule'')
        else if tp = '''' then Inl (''['' @ subPayload @ ''] format is error'')
        else f tp payload target param)"

definition parsePayload :: "(string \<Rightarrow> string \<Rightarrow> string \<Rightarrow> string list \<Rightarrow> parsed) \<Rightarrow> string \<Rightarrow> string + rule list" where
  "parsePayload f payload =
     (case sub_payloads payload of Inl e \<Rightarrow> Inl e | Inr subs \<Rightarrow> parse_all (payloadToRule f) subs)"

definition NewLogic :: "RuleType \<Rightarrow> string \<Rightarrow> string \<Rightarrow> string + rule list \<Rightarrow> parsed" where
  "NewLogic ruleType payload adapter rules =
     (case rules of
        Inl e \<Rightarrow> Inl e
      | Inr rules \<Rightarrow>
          if ruleType = RTSubRules \<and> length rules \<noteq> 1 then Inl ''Sub-Rule rule must contain one rule''
          else if ruleType = RTNOT \<and> length rules \<noteq> 1 then Inl ''not rule must contain one rule''
          else Inr (Logic payload adapter ruleType rules))"

lemma payloadToRule_cong [fundef_cong]:
  assumes "x = y"
    and "\<And>tp payload target param. ParseRulePayload y False = (tp, payload, target, param) \<Longrightarrow>
      tp \<noteq> ''SUB-RULE'' \<Longrightarrow> f tp payload target param = g tp payload target param"
  shows "payloadToRule f x = payloadToRule g y"
  using assms by (auto simp: payloadToRule_def split: prod.split)

lemma parsePayload_cong [fundef_cong]:
  assumes "p = q"
    and "\<And>subs x. sub_payloads q = Inr subs \<Longrightarrow> x \<in> set subs \<Longrightarrow> payloadToRule f x = payloadToRule g x"
  shows "parsePayload f p = parsePayload g q"
  using assms by (auto simp: parsePayload_def split: sum.split intro!: parse_all_cong)

lemma length_trim_by: "length (trim_by p s) \<le> length s"
  by (simp add: trim_by_def) (metis length_dropWhile_le length_rev le_trans)

lemma length_join_le:
  "(\<And>t. length (f t) \<le> length t) \<Longrightarrow> length (join_with sep (map f ts)) \<le> length (join_with sep ts)"
  by (induction sep ts rule: join_with.induct) (auto intro: add_mono)

lemma length_join_tl: "length (join_with sep (tl ts)) \<le> length (join_with sep ts)"
  by (cases ts; cases "tl ts") auto

lemma length_join_nth: "i < length ts \<Longrightarrow> length (ts ! i) \<le> length (join_with sep ts)"
proof (induction sep ts arbitrary: i rule: join_with.induct)
  case (3 sep s t ts)
  show ?case
  proof (cases i)
    case (Suc j)
    with 3 have "length ((t # ts) ! j) \<le> length (join_with sep (t # ts))" by simp
    with Suc show ?thesis by simp
  qed simp
qed auto

lemma length_trimArr_join: "length (join_with [c] (trimArr (split_on c s))) \<le> length s"
  using length_join_le [of "trim_set '' ''" "[c]" "split_on c s"] length_trim_by
  by (simp add: trimArr_def trim_set_def join_split_on)

lemma length_ParseRulePayload:
  assumes "ParseRulePayload s False = (tp, payload, target, params)"
  shows "length payload \<le> length s"
proof -
  let ?item = "trimArr (split_on CHR '','' s)"
  have "payload \<in> {'''', join_with '','' (tl ?item), ?item ! 1} \<and> (payload = ?item ! 1 \<longrightarrow> length ?item > 1 \<or> payload = '''')"
    using assms by (auto simp: ParseRulePayload_def Let_def split: if_splits)
  then show ?thesis
    using length_join_tl [of "'',''" ?item] length_join_nth [of 1 ?item "'',''"] length_trimArr_join [of "CHR '',''" s]
    by auto
qed

lemma length_sub_payloads:
  assumes "sub_payloads p = Inr subs" "x \<in> set subs"
  shows "length x < length p"
proof -
  have "p \<noteq> []" using assms(1) by (auto simp: sub_payloads_def has_prefix_def split: if_splits)
  moreover obtain r where "x = take (snd r - (fst r + 1)) (drop (fst r + 1) p)"
    using assms by (auto simp: sub_payloads_def split: if_splits sum.splits)
  then have "length x \<le> length p - (fst r + 1)" by simp
  ultimately show ?thesis by (cases p) auto
qed

section \<open>The parser\<close>

text \<open>A rule inside a logic rule has a shorter payload; the payload of a SUB-RULE is parsed with
  two parentheses more, and no SUB-RULE is inside another.\<close>

function ParseRule :: "parse_env \<Rightarrow> string \<Rightarrow> string \<Rightarrow> string \<Rightarrow> string list \<Rightarrow> parsed" where
  "ParseRule pe tp payload target params =
     (let isSrc = fst (ParseParams params); noResolve = snd (ParseParams params) in
      if tp \<noteq> ''MATCH'' \<and> payload = '''' then Inl (''missing subsequent parameters: '' @ tp)
      else if tp = ''DOMAIN'' then Inr (NewDomain payload target)
      else if tp = ''DOMAIN-SUFFIX'' then Inr (NewDomainSuffix payload target)
      else if tp = ''DOMAIN-KEYWORD'' then Inr (NewDomainKeyword payload target)
      else if tp = ''DOMAIN-REGEX'' then NewDomainRegex pe payload target
      else if tp = ''DOMAIN-WILDCARD'' then NewDomainWildcard payload target
      else if tp = ''GEOSITE'' then NewGEOSITE pe payload target
      else if tp = ''GEOIP'' then NewGEOIP pe payload target isSrc noResolve
      else if tp = ''SRC-GEOIP'' then NewGEOIP pe payload target True True
      else if tp = ''IP-ASN'' then NewIPASN pe payload target isSrc noResolve
      else if tp = ''SRC-IP-ASN'' then NewIPASN pe payload target True True
      else if tp = ''IP-CIDR'' \<or> tp = ''IP-CIDR6'' then NewIPCIDR payload target isSrc noResolve
      else if tp = ''SRC-IP-CIDR'' then NewIPCIDR payload target True True
      else if tp = ''IP-SUFFIX'' then NewIPSuffix payload target isSrc noResolve
      else if tp = ''SRC-IP-SUFFIX'' then NewIPSuffix payload target True True
      else if tp = ''SRC-PORT'' then NewPort payload target RTSrcPort
      else if tp = ''DST-PORT'' then NewPort payload target RTDstPort
      else if tp = ''IN-PORT'' then NewPort payload target RTInPort
      else if tp = ''DSCP'' then NewDSCP payload target
      else if tp = ''PROCESS-NAME'' then NewProcess pe payload target RTProcessName
      else if tp = ''PROCESS-PATH'' then NewProcess pe payload target RTProcessPath
      else if tp = ''PROCESS-NAME-REGEX'' then NewProcess pe payload target RTProcessNameRegex
      else if tp = ''PROCESS-PATH-REGEX'' then NewProcess pe payload target RTProcessPathRegex
      else if tp = ''PROCESS-NAME-WILDCARD'' then NewProcess pe payload target RTProcessNameWildcard
      else if tp = ''PROCESS-PATH-WILDCARD'' then NewProcess pe payload target RTProcessPathWildcard
      else if tp = ''NETWORK'' then NewNetworkType payload target
      else if tp = ''UID'' then NewUid pe payload target
      else if tp = ''IN-TYPE'' then NewInType payload target
      else if tp = ''IN-USER'' then NewInUser payload target
      else if tp = ''IN-NAME'' then NewInName payload target
      else if tp = ''SUB-RULE'' then
        NewLogic RTSubRules payload target (parsePayload (ParseRule pe) (''('' @ payload @ '')''))
      else if tp = ''AND'' then NewLogic RTAND payload target (parsePayload (ParseRule pe) payload)
      else if tp = ''OR'' then NewLogic RTOR payload target (parsePayload (ParseRule pe) payload)
      else if tp = ''NOT'' then NewLogic RTNOT payload target (parsePayload (ParseRule pe) payload)
      else if tp = ''RULE-SET'' then NewRuleSet payload target isSrc noResolve
      else if tp = ''MATCH'' then Inr (NewMatch target)
      else Inl (''unsupported rule type: '' @ tp))"
  by pat_completeness auto

termination
  by (relation "measure (\<lambda>(pe, tp, payload, target, params). length payload + (if tp = ''SUB-RULE'' then 3 else 0))")
    (auto dest!: length_sub_payloads length_ParseRulePayload)

declare ParseRule.simps [simp del]

fun ProviderNames :: "rule \<Rightarrow> string list" where
  "ProviderNames (RuleSet name a s n) = [name]"
| "ProviderNames (Logic p a t rs) = concat (map ProviderNames rs)"
| "ProviderNames (Wrapper i r) = ProviderNames r"
| "ProviderNames _ = []"

section \<open>The rules of a configuration\<close>

text \<open>The maps give the proxies, the rule providers and the sub-rule lists by name.\<close>

definition line_error :: "string \<Rightarrow> nat \<Rightarrow> string \<Rightarrow> string \<Rightarrow> string + rule" where
  "line_error fmt idx line msg = Inl (fmt @ ''['' @ show_nat idx @ ''] ['' @ line @ ''] error: '' @ msg)"

definition parseLine :: "parse_env \<Rightarrow> (string \<Rightarrow> bool) \<Rightarrow> (string \<Rightarrow> bool) \<Rightarrow> (string \<Rightarrow> bool) \<Rightarrow> string \<Rightarrow> nat \<Rightarrow> string \<Rightarrow> parsed" where
  "parseLine pe proxies providers subs fmt idx line =
     (case ParseRulePayload line True of (tp, payload, target, params) \<Rightarrow>
        if target = '''' then line_error fmt idx line ''format invalid''
        else if \<not> proxies target \<and> tp \<noteq> ''SUB-RULE'' then
          line_error fmt idx line (''proxy ['' @ target @ ''] not found'')
        else if \<not> proxies target \<and> \<not> subs target then
          line_error fmt idx line (''sub-rule ['' @ target @ ''] not found'')
        else case ParseRule pe tp payload target params of
          Inl e \<Rightarrow> line_error fmt idx line e
        | Inr r \<Rightarrow>
            (case List.find (\<lambda>name. \<not> providers name) (ProviderNames r) of
               Some name \<Rightarrow> line_error fmt idx line (''rule set ['' @ name @ ''] not found'')
             | None \<Rightarrow> Inr (if fmt = ''rules'' then Wrapper idx r else r)))"

fun parseRules :: "parse_env \<Rightarrow> (string \<Rightarrow> bool) \<Rightarrow> (string \<Rightarrow> bool) \<Rightarrow> (string \<Rightarrow> bool) \<Rightarrow> string \<Rightarrow> nat \<Rightarrow> string list \<Rightarrow> string + rule list" where
  "parseRules pe proxies providers subs fmt idx [] = Inr []"
| "parseRules pe proxies providers subs fmt idx (line # lines) =
     (case parseLine pe proxies providers subs fmt idx line of
        Inl e \<Rightarrow> Inl e
      | Inr r \<Rightarrow>
          (case parseRules pe proxies providers subs fmt (idx + 1) lines of
             Inl e \<Rightarrow> Inl e
           | Inr rs \<Rightarrow> Inr (r # rs)))"

text \<open>\<^verbatim>\<open>parseSubRules\<close> before its check for circular references; the entries are in the
  order of the iteration over the map.\<close>

fun parseSubRules :: "parse_env \<Rightarrow> (string \<Rightarrow> bool) \<Rightarrow> (string \<Rightarrow> bool) \<Rightarrow> (string \<Rightarrow> bool) \<Rightarrow> (string \<times> string list) list \<Rightarrow>
    string + (string \<times> rule list) list" where
  "parseSubRules pe proxies providers subs [] = Inr []"
| "parseSubRules pe proxies providers subs ((name, rawRules) # rest) =
     (if name = '''' then Inl ''sub-rule name is empty''
      else case parseRules pe proxies providers subs (''sub-rules['' @ name @ '']'') 0 rawRules of
        Inl e \<Rightarrow> Inl e
      | Inr rules \<Rightarrow>
          (case parseSubRules pe proxies providers subs rest of
             Inl e \<Rightarrow> Inl e
           | Inr rs \<Rightarrow> Inr ((name, rules) # rs)))"

section \<open>What a parsed rule is\<close>

text \<open>NOT and SUB-RULE have a rule to ask, and the suffix of an IP-SUFFIX is shorter than the
  address.\<close>

fun logic_ok :: "rule \<Rightarrow> bool" where
  "logic_ok (Logic p a t rs) = ((t = RTNOT \<or> t = RTSubRules \<longrightarrow> rs \<noteq> []) \<and> list_all logic_ok rs)"
| "logic_ok (Wrapper i r) = logic_ok r"
| "logic_ok _ = True"

fun suffix_ok :: "rule \<Rightarrow> bool" where
  "suffix_ok (Logic p a t rs) = list_all suffix_ok rs"
| "suffix_ok (Wrapper i r) = suffix_ok r"
| "suffix_ok (IPSuffix b bits p a s n) = (bits < 8 * length b)"
| "suffix_ok _ = True"

lemma parse_all_set: "parse_all f xs = Inr ys \<Longrightarrow> y \<in> set ys \<Longrightarrow> \<exists>x\<in>set xs. f x = Inr y"
  by (induction xs arbitrary: ys) (auto split: sum.splits)

lemma parsePayload_set:
  assumes "parsePayload f p = Inr rs" "r \<in> set rs"
  obtains subs x tp payload target param where "sub_payloads p = Inr subs" "x \<in> set subs"
    "ParseRulePayload x False = (tp, payload, target, param)" "f tp payload target param = Inr r"
    "tp \<noteq> ''MATCH''" "tp \<noteq> ''SUB-RULE''"
proof -
  obtain subs x where s: "sub_payloads p = Inr subs" "x \<in> set subs" "payloadToRule f x = Inr r"
    using assms parse_all_set by (fastforce simp: parsePayload_def split: sum.splits)
  obtain tp payload target param where q: "ParseRulePayload x False = (tp, payload, target, param)"
    by (cases "ParseRulePayload x False") auto
  with s show thesis using that by (auto simp: payloadToRule_def split: if_splits)
qed

text \<open>The constructors of rules that hold no other rule.\<close>

lemmas simple_constructors =
  NewDomain_def NewDomainSuffix_def NewDomainKeyword_def NewDomainRegex_def NewDomainWildcard_def
  NewGEOSITE_def NewGEOIP_def NewIPASN_def NewIPCIDR_def NewIPSuffix_def NewPort_def NewDSCP_def
  NewProcess_def NewNetworkType_def NewUid_def NewInUser_def NewInName_def NewInType_def NewMatch_def
  NewRuleSet_def or_error_def

definition flat :: "rule \<Rightarrow> bool" where
  "flat r = (case r of Logic p a t rs \<Rightarrow> False | Wrapper i r \<Rightarrow> False | _ \<Rightarrow> True)"

definition logic_type :: "string \<Rightarrow> RuleType option" where
  "logic_type tp = (if tp = ''AND'' then Some RTAND else if tp = ''OR'' then Some RTOR
     else if tp = ''NOT'' then Some RTNOT else if tp = ''SUB-RULE'' then Some RTSubRules else None)"

definition logic_text :: "string \<Rightarrow> string \<Rightarrow> string" where
  "logic_text tp payload = (if tp = ''SUB-RULE'' then ''('' @ payload @ '')'' else payload)"

lemma ParseRule_logic:
  "logic_type tp = Some t \<Longrightarrow> payload \<noteq> '''' \<Longrightarrow>
   ParseRule pe tp payload target params = NewLogic t payload target (parsePayload (ParseRule pe) (logic_text tp payload))"
  by (subst ParseRule.simps) (auto simp: logic_type_def logic_text_def split: if_splits)

definition flat_res :: "parsed \<Rightarrow> bool" where
  "flat_res res \<longleftrightarrow> (\<forall>r. res = Inr r \<longrightarrow> flat r)"

lemma flat_res_if: "(c \<Longrightarrow> flat_res a) \<Longrightarrow> (\<not> c \<Longrightarrow> flat_res b) \<Longrightarrow> flat_res (if c then a else b)"
  by simp

lemma flat_res_constructors:
  "flat_res (Inl e)" "flat_res (Inr (NewDomain d a))" "flat_res (Inr (NewDomainSuffix d a))"
  "flat_res (Inr (NewDomainKeyword d a))" "flat_res (NewDomainRegex pe d a)" "flat_res (NewDomainWildcard d a)"
  "flat_res (NewGEOSITE pe d a)" "flat_res (NewGEOIP pe d a x y)" "flat_res (NewIPASN pe d a x y)"
  "flat_res (NewIPCIDR d a x y)" "flat_res (NewIPSuffix d a x y)" "flat_res (NewPort d a t)" "flat_res (NewDSCP d a)"
  "flat_res (NewProcess pe d a t)" "flat_res (NewNetworkType d a)" "flat_res (NewUid pe d a)" "flat_res (NewInUser d a)"
  "flat_res (NewInName d a)" "flat_res (NewInType d a)" "flat_res (NewRuleSet d a x y)" "flat_res (Inr (NewMatch a))"
  by (simp_all add: flat_res_def flat_def simple_constructors Let_def split: option.split sum.split)

lemma ParseRule_flat_res: "logic_type tp = None \<Longrightarrow> flat_res (ParseRule pe tp payload target params)"
  unfolding ParseRule.simps [of pe tp payload target params] Let_def
  by (intro flat_res_if flat_res_constructors) (simp_all add: logic_type_def)

lemma ParseRule_flat:
  "ParseRule pe tp payload target params = Inr r \<Longrightarrow> logic_type tp = None \<Longrightarrow> flat r"
  using ParseRule_flat_res by (simp add: flat_res_def)

lemma ParseRule_nonempty:
  "ParseRule pe tp payload target params = Inr r \<Longrightarrow> logic_type tp = Some t \<Longrightarrow> payload \<noteq> ''''"
  by (subst (asm) ParseRule.simps) (auto simp: logic_type_def split: if_splits)

text \<open>Induction over a parsed rule: it holds no other rule, or it is a logic rule over rules
  that have been parsed themselves.\<close>

lemma ParseRule_induct [consumes 1, case_names flat logic]:
  assumes "ParseRule pe tp payload target params = Inr r"
    and flat: "\<And>tp payload target params r. ParseRule pe tp payload target params = Inr r \<Longrightarrow> flat r \<Longrightarrow> P r"
    and logic: "\<And>t payload target rs. (\<And>x. x \<in> set rs \<Longrightarrow> P x) \<Longrightarrow>
      (t = RTNOT \<or> t = RTSubRules \<Longrightarrow> length rs = 1) \<Longrightarrow> P (Logic payload target t rs)"
  shows "P r"
  using assms(1)
proof (induction "length payload + (if tp = ''SUB-RULE'' then 3 else 0)" arbitrary: tp payload target params r rule: less_induct)
  case less
  show ?case
  proof (cases "logic_type tp")
    case None
    with less.prems flat ParseRule_flat show ?thesis by blast
  next
    case (Some t)
    have "NewLogic t payload target (parsePayload (ParseRule pe) (logic_text tp payload)) = Inr r"
      using less.prems ParseRule_logic [OF Some] ParseRule_nonempty [OF less.prems Some] by simp
    then obtain rs where rs: "parsePayload (ParseRule pe) (logic_text tp payload) = Inr rs" "r = Logic payload target t rs"
      "t = RTNOT \<or> t = RTSubRules \<Longrightarrow> length rs = 1"
      by (auto simp: NewLogic_def split: sum.splits if_splits)
    have "P x" if x: "x \<in> set rs" for x
    proof -
      obtain subs y tp' payload' target' param' where y: "sub_payloads (logic_text tp payload) = Inr subs" "y \<in> set subs"
        "ParseRulePayload y False = (tp', payload', target', param')" "ParseRule pe tp' payload' target' param' = Inr x"
        "tp' \<noteq> ''SUB-RULE''"
        by (rule parsePayload_set [OF rs(1) x])
      have "length payload' < length (logic_text tp payload)"
        using length_sub_payloads [OF y(1,2)] length_ParseRulePayload [OF y(3)] by simp
      then have "length payload' + (if tp' = ''SUB-RULE'' then 3 else 0) < length payload + (if tp = ''SUB-RULE'' then 3 else 0)"
        using y(5) by (simp add: logic_text_def split: if_splits)
      from less.hyps [OF this y(4)] show ?thesis .
    qed
    with logic rs(2,3) show ?thesis by blast
  qed
qed

lemma ParseRule_logic_ok: "ParseRule pe tp payload target params = Inr r \<Longrightarrow> logic_ok r"
proof (induction rule: ParseRule_induct)
  case (flat tp payload target params r)
  then show ?case by (cases r) (auto simp: flat_def)
next
  case (logic t payload target rs)
  then show ?case by (auto simp: list_all_iff)
qed

lemma parseLine_logic_ok: "parseLine pe proxies providers subs fmt idx line = Inr r \<Longrightarrow> logic_ok r"
  by (auto simp: parseLine_def line_error_def Let_def dest: ParseRule_logic_ok split: prod.splits sum.splits option.splits if_splits)

lemma parseRules_logic_ok:
  "parseRules pe proxies providers subs fmt idx lines = Inr rs \<Longrightarrow> r \<in> set rs \<Longrightarrow> logic_ok r"
  by (induction lines arbitrary: idx rs) (auto split: sum.splits dest: parseLine_logic_ok)

text \<open>The rules of a classical rule provider, from the lines of its file: a line that is no rule
  is skipped (\<^verbatim>\<open>rules/provider/classical_strategy.go\<close>).\<close>

definition classical_payloadToRule :: "parse_env \<Rightarrow> string \<Rightarrow> parsed" where
  "classical_payloadToRule pe line =
     (case ParseRulePayload line False of (tp, payload, target, params) \<Rightarrow>
        if tp \<in> {''MATCH'', ''RULE-SET'', ''SUB-RULE''}
        then Inl (''unsupported rule type on classical rule-set: '' @ tp)
        else ParseRule pe tp payload target params)"

definition classical_Insert :: "parse_env \<Rightarrow> string \<Rightarrow> rule list \<Rightarrow> rule list" where
  "classical_Insert pe line rules =
     (case classical_payloadToRule pe line of Inl e \<Rightarrow> rules | Inr r \<Rightarrow> rules @ [r])"

definition classical_load :: "parse_env \<Rightarrow> string list \<Rightarrow> rule list" where
  "classical_load pe lines = fold (classical_Insert pe) lines []"

lemma classical_load_logic_ok:
  assumes "r \<in> set (classical_load pe lines)"
  shows "logic_ok r"
proof -
  have "\<forall>r\<in>set (fold (classical_Insert pe) lines rs). logic_ok r" if "\<forall>r\<in>set rs. logic_ok r" for rs
    using that
  proof (induction lines arbitrary: rs)
    case (Cons line lines)
    have "\<forall>r\<in>set (classical_Insert pe line rs). logic_ok r"
      using Cons.prems by (auto simp: classical_Insert_def classical_payloadToRule_def dest: ParseRule_logic_ok
          split: sum.splits prod.splits if_splits)
    from Cons.IH [OF this] show ?case by simp
  qed simp
  from this [of "[]"] assms show ?thesis by (simp add: classical_load_def)
qed

end
