(* ===== verification/RuleLaws.thy ===== *)
theory RuleLaws
  imports RuleMatch
begin

text \<open>
  Laws of rule matching: more fuel never changes an answer; matching ends when the
  references between sub-rule lists and rule providers are well-founded, which
  \<^verbatim>\<open>verifySubRule\<close> of \<^verbatim>\<open>config/config.go\<close> establishes for the sub-rules of a configuration;
  what matching may change in the metadata; what the rules accept.
\<close>

section \<open>Fuel\<close>

declare Match.simps(2) [simp del] matchSubRules.simps(2) [simp del]

lemma or_loop_mono:
  "(\<And>r st. le_run (m r st) (m' r st)) \<Longrightarrow> le_run (or_loop m rs st) (or_loop m' rs st)"
  by (induction rs arbitrary: st) (auto simp: split: prod.splits intro!: bind_run_mono)

lemma and_loop_mono:
  "(\<And>r st. le_run (m r st) (m' r st)) \<Longrightarrow> le_run (and_loop m rs st) (and_loop m' rs st)"
  by (induction rs arbitrary: st) (auto split: prod.splits intro!: bind_run_mono)

lemma sub_loop_mono:
  "(\<And>r st. le_run (m r st) (m' r st)) \<Longrightarrow> (\<And>s st. le_run (u s st) (u' s st)) \<Longrightarrow>
   le_run (sub_loop m u h rs st) (sub_loop m' u' h rs st)"
  by (induction rs arbitrary: st) (auto split: prod.splits option.splits intro!: bind_run_mono)

lemma match_provider_mono:
  "(\<And>h r st. le_run (m h r st) (m' h r st)) \<Longrightarrow> le_run (match_provider m h p st) (match_provider m' h p st)"
  by (auto simp: match_provider_def intro!: or_loop_mono split: provider.splits)

lemma match_RuleSet_mono:
  "(\<And>h r st. le_run (m h r st) (m' h r st)) \<Longrightarrow>
   le_run (match_RuleSet m env h name a s nr st) (match_RuleSet m' env h name a s nr st)"
  by (auto simp: match_RuleSet_def split: option.splits intro!: bind_run_mono match_provider_mono)

lemma match_Logic_mono:
  "(\<And>r st. le_run (m r st) (m' r st)) \<Longrightarrow> (\<And>s st. le_run (u s st) (u' s st)) \<Longrightarrow>
   le_run (match_Logic m u a t rs st) (match_Logic m' u' a t rs st)"
  unfolding match_Logic_def
  by (auto split: list.splits prod.splits intro!: bind_run_mono or_loop_mono and_loop_mono)

lemma match_Wrapper_mono:
  "(\<And>r st. le_run (m r st) (m' r st)) \<Longrightarrow> le_run (match_Wrapper m i r st) (match_Wrapper m' i r st)"
  by (auto simp: match_Wrapper_def intro!: bind_run_mono)

lemma fuel_step:
  "le_run (Match n env h r st) (Match (Suc n) env h r st)"
  "le_run (matchSubRules n env h s st) (matchSubRules (Suc n) env h s st)"
proof (induction n arbitrary: h r s st)
  case 0
  show "le_run (Match 0 env h r st) (Match (Suc 0) env h r st)"
    "le_run (matchSubRules 0 env h s st) (matchSubRules (Suc 0) env h s st)" for h r s st
    by (simp_all add: le_run_def)
next
  case (Suc n)
  show "le_run (Match (Suc n) env h r st) (Match (Suc (Suc n)) env h r st)" for h r st
    unfolding Match.simps(2) [of "Suc n"] Match.simps(2) [of n env h r st]
    using Suc match_RuleSet_mono match_Logic_mono match_Wrapper_mono
    by (cases r) (simp_all del: Match.simps matchSubRules.simps)
  show "le_run (matchSubRules (Suc n) env h s st) (matchSubRules (Suc (Suc n)) env h s st)" for h s st
    unfolding matchSubRules.simps(2) [of "Suc n"] matchSubRules.simps(2) [of n env h s st]
    using Suc by (intro sub_loop_mono)
qed

lemma fuel_mono:
  assumes "n \<le> k"
  shows "le_run (Match n env h r st) (Match k env h r st)"
    "le_run (matchSubRules n env h s st) (matchSubRules k env h s st)"
  using assms by (induction rule: dec_induct) (auto intro: le_run_trans fuel_step)

lemma fuel_enough:
  "ends (Match n env h r st) \<Longrightarrow> n \<le> k \<Longrightarrow> Match k env h r st = Match n env h r st"
  "ends (matchSubRules n env h s st) \<Longrightarrow> n \<le> k \<Longrightarrow> matchSubRules k env h s st = matchSubRules n env h s st"
  using fuel_mono [of n k] unfolding le_run_def ends_def by metis+

section \<open>References between rules\<close>

datatype ref = SubRef string | ProviderRef string

fun rule_refs :: "rule \<Rightarrow> ref list" where
  "rule_refs (RuleSet name a s nr) = [ProviderRef name]"
| "rule_refs (Logic p a t rs) = (if t = RTSubRules then [SubRef a] else []) @ concat (map rule_refs rs)"
| "rule_refs (Wrapper i r) = rule_refs r"
| "rule_refs (Domain d a) = []"
| "rule_refs (DomainSuffix d a) = []"
| "rule_refs (DomainKeyword d a) = []"
| "rule_refs (DomainRegex d a) = []"
| "rule_refs (DomainWildcard d a) = []"
| "rule_refs (GEOSITE c a) = []"
| "rule_refs (GEOIP c a n s) = []"
| "rule_refs (ASN c a n s) = []"
| "rule_refs (IPCIDR p a s n) = []"
| "rule_refs (IPSuffix b bits p a s n) = []"
| "rule_refs (PortRule a p t rg) = []"
| "rule_refs (DSCPRule rg p a) = []"
| "rule_refs (NetworkRule n a) = []"
| "rule_refs (ProcessRule p a t) = []"
| "rule_refs (UidRule rg p a) = []"
| "rule_refs (InUserRule us a p) = []"
| "rule_refs (InNameRule us a p) = []"
| "rule_refs (InTypeRule us a p) = []"
| "rule_refs (MatchRule a) = []"

definition sub_refs :: "rule \<Rightarrow> ref list" where
  "sub_refs r = (if rule_type r = RTSubRules then [SubRef (rule_adapter r)] else []) @ rule_refs r"

fun ref_body :: "env \<Rightarrow> ref \<Rightarrow> ref list" where
  "ref_body env (SubRef s) = concat (map sub_refs (subRules env s))"
| "ref_body env (ProviderRef p) =
     (case ruleProviders env p of Some (Classical rs) \<Rightarrow> concat (map rule_refs rs) | _ \<Rightarrow> [])"

definition ref_rel :: "env \<Rightarrow> (ref \<times> ref) set" where
  "ref_rel env = {(y, x). y \<in> set (ref_body env x)}"

text \<open>The helper's check of pass rules returns.\<close>

definition checks_end :: "helper \<Rightarrow> bool" where
  "checks_end h \<longleftrightarrow> (\<forall>check st a. CheckPassRule h = Some check \<longrightarrow> check st a \<noteq> None)"

lemma checks_end_is_pass_rule: "checks_end h \<Longrightarrow> is_pass_rule h st a \<noteq> None"
  by (auto simp: checks_end_def is_pass_rule_def split: option.split)

lemma checks_end_ResolveIP [simp]: "checks_end (h\<lparr>ResolveIP := f\<rparr>) = checks_end h"
  by (simp add: checks_end_def)

definition halts :: "env \<Rightarrow> rule \<Rightarrow> bool" where
  "halts env r \<longleftrightarrow> (\<exists>n. \<forall>h st. checks_end h \<longrightarrow> ends (Match n env h r st))"

definition ref_halts :: "env \<Rightarrow> ref \<Rightarrow> bool" where
  "ref_halts env x \<longleftrightarrow>
     (case x of
        SubRef s \<Rightarrow> \<exists>n. \<forall>h st. checks_end h \<longrightarrow> ends (matchSubRules n env h s st)
      | ProviderRef p \<Rightarrow> \<exists>n. \<forall>h st k. checks_end h \<longrightarrow> n \<le> k \<longrightarrow>
          (case ruleProviders env p of None \<Rightarrow> True
           | Some pr \<Rightarrow> ends (match_provider (\<lambda>h r st. Match k env h r st) h pr st)))"

lemma halts_all:
  assumes "\<And>r. r \<in> set rs \<Longrightarrow> halts env r"
  shows "\<exists>n. \<forall>k\<ge>n. \<forall>r\<in>set rs. \<forall>h st. checks_end h \<longrightarrow> ends (Match k env h r st)"
  using assms
proof (induction rs)
  case (Cons r rs)
  then obtain n where n: "\<forall>k\<ge>n. \<forall>r\<in>set rs. \<forall>h st. checks_end h \<longrightarrow> ends (Match k env h r st)" by auto
  have "halts env r" using Cons.prems by simp
  then obtain m where m: "\<forall>h st. checks_end h \<longrightarrow> ends (Match m env h r st)" unfolding halts_def ..
  have "ends (Match k env h r st)" if "k \<ge> m" "checks_end h" for k h st
    using m fuel_enough(1) [OF _ that(1)] that(2) by metis
  with n show ?case by (intro exI [of _ "max n m"]) auto
qed simp

lemma or_loop_ends: "(\<And>r st. r \<in> set rs \<Longrightarrow> ends (m r st)) \<Longrightarrow> ends (or_loop m rs st)"
  by (induction rs arbitrary: st) (auto split: prod.splits)

lemma and_loop_ends: "(\<And>r st. r \<in> set rs \<Longrightarrow> ends (m r st)) \<Longrightarrow> ends (and_loop m rs st)"
  by (induction rs arbitrary: st) (auto split: prod.splits)

lemma sub_loop_ends:
  "(\<And>r st. r \<in> set rs \<Longrightarrow> ends (m r st)) \<Longrightarrow>
   (\<And>r st. r \<in> set rs \<Longrightarrow> rule_type r = RTSubRules \<Longrightarrow> ends (u (rule_adapter r) st)) \<Longrightarrow>
   checks_end h \<Longrightarrow> ends (sub_loop m u h rs st)"
proof (induction rs arbitrary: st)
  case (Cons r rs)
  have rest: "ends (sub_loop m u h rs st)" for st using Cons by simp
  have pass: "is_pass_rule h st a \<noteq> None" for st a using Cons.prems(3) by (rule checks_end_is_pass_rule)
  have "ends (if rule_type r = RTSubRules then u (rule_adapter r) st else Done x)" for st x
    using Cons.prems by simp
  with rest Cons.prems show ?case
    by (auto split: prod.splits option.splits simp: pass intro!: bind_run_ends simp del: bind_run.simps)
qed simp

lemma match_IPSuffix_ends [simp]: "ends (match_IPSuffix h b bits a s nr st)"
  by (simp add: match_IPSuffix_def Let_def)

lemma match_simple_ends [simp]: "ends (match_simple env h r st)"
  by (cases r) simp_all

lemma ref_halts_sub:
  assumes "ref_halts env (SubRef s)"
  obtains n where "\<And>k h st. n \<le> k \<Longrightarrow> checks_end h \<Longrightarrow> ends (matchSubRules k env h s st)"
proof -
  from assms obtain n where n: "\<forall>h st. checks_end h \<longrightarrow> ends (matchSubRules n env h s st)" by (auto simp: ref_halts_def)
  have "ends (matchSubRules k env h s st)" if "n \<le> k" "checks_end h" for k h st
    using n fuel_enough(2) [OF _ that(1)] that(2) by metis
  then show ?thesis by (rule that)
qed

text \<open>A rule ends when what it refers to ends.\<close>

lemma rule_halts: "(\<And>x. x \<in> set (rule_refs r) \<Longrightarrow> ref_halts env x) \<Longrightarrow> halts env r"
proof (induction r rule: rule_refs.induct)
  case (1 name a s nr)
  then have "ref_halts env (ProviderRef name)" by simp
  then obtain n where n: "\<And>h st. checks_end h \<Longrightarrow> (case ruleProviders env name of None \<Rightarrow> True
      | Some pr \<Rightarrow> ends (match_provider (\<lambda>h r st. Match n env h r st) h pr st))"
    unfolding ref_halts_def by auto
  have "ends (Match (Suc n) env h (RuleSet name a s nr) st)" if "checks_end h" for h st
    using n that by (cases "ruleProviders env name") (auto simp: Match.simps(2) match_RuleSet_def)
  then show ?case unfolding halts_def by blast
next
  case (2 p a t rs)
  then have "halts env r" if "r \<in> set rs" for r using that by auto
  then obtain n where n: "\<And>k r h st. checks_end h \<Longrightarrow> k \<ge> n \<Longrightarrow> r \<in> set rs \<Longrightarrow> ends (Match k env h r st)"
    using halts_all by metis
  obtain m where m: "\<And>k h st. checks_end h \<Longrightarrow> m \<le> k \<Longrightarrow> t = RTSubRules \<Longrightarrow> ends (matchSubRules k env h a st)"
  proof (cases "t = RTSubRules")
    case True
    with "2.prems" have "ref_halts env (SubRef a)" by simp
    then obtain m where "\<And>k h st. m \<le> k \<Longrightarrow> checks_end h \<Longrightarrow> ends (matchSubRules k env h a st)" by (rule ref_halts_sub) blast
    then show ?thesis using that by blast
  qed (use that in blast)
  let ?k = "max n m"
  have e: "ends (Match ?k env h r st)" if "checks_end h" "r \<in> set rs" for r h st using n that by simp
  have u: "ends (matchSubRules ?k env h a st)" if "checks_end h" "t = RTSubRules" for h st using m that by simp
  have "ends (Match (Suc ?k) env h (Logic p a t rs) st)" if "checks_end h" for h st
    using e [OF that] u [OF that] or_loop_ends [of rs "Match ?k env h"] and_loop_ends [of rs "Match ?k env h"]
    by (auto simp: Match.simps(2) match_Logic_def split: list.splits prod.splits)
  then show ?case unfolding halts_def by blast
next
  case (3 i r)
  then have "halts env r" by simp
  then obtain n where "\<forall>h st. checks_end h \<longrightarrow> ends (Match n env h r st)" unfolding halts_def ..
  then have "ends (Match (Suc n) env h (Wrapper i r) st)" if "checks_end h" for h st
    using that
    by (auto simp: Match.simps(2) match_Wrapper_def split: prod.splits)
  then show ?case unfolding halts_def by blast
qed (auto simp: halts_def Match.simps(2) intro!: exI [of _ "Suc 0"])

lemma refs_halt:
  assumes "x \<in> Wellfounded.acc (ref_rel env)"
  shows "ref_halts env x"
  using assms
proof (induction x rule: acc.induct)
  case (accI x)
  have sub: "ref_halts env y" if "y \<in> set (ref_body env x)" for y
    using accI that by (simp add: ref_rel_def)
  show ?case
  proof (cases x)
    case (SubRef s)
    have "halts env r" if "r \<in> set (subRules env s)" for r
      using sub that SubRef by (intro rule_halts) (auto simp: sub_refs_def)
    then obtain n where n: "\<And>k r h st. checks_end h \<Longrightarrow> k \<ge> n \<Longrightarrow> r \<in> set (subRules env s) \<Longrightarrow> ends (Match k env h r st)"
      using halts_all by metis
    have "\<exists>m. \<forall>k\<ge>m. \<forall>r\<in>set rs. rule_type r = RTSubRules \<longrightarrow>
        (\<forall>h st. checks_end h \<longrightarrow> ends (matchSubRules k env h (rule_adapter r) st))"
      if "set rs \<subseteq> set (subRules env s)" for rs
      using that
    proof (induction rs)
      case (Cons r rs)
      then obtain m where m: "\<forall>k\<ge>m. \<forall>r\<in>set rs. rule_type r = RTSubRules \<longrightarrow>
          (\<forall>h st. checks_end h \<longrightarrow> ends (matchSubRules k env h (rule_adapter r) st))" by auto
      show ?case
      proof (cases "rule_type r = RTSubRules")
        case True
        have "ref_halts env (SubRef (rule_adapter r))"
          using sub SubRef Cons.prems True by (auto simp: sub_refs_def)
        then obtain m' where "\<And>k h st. m' \<le> k \<Longrightarrow> checks_end h \<Longrightarrow> ends (matchSubRules k env h (rule_adapter r) st)"
          by (rule ref_halts_sub) blast
        with m show ?thesis by (intro exI [of _ "max m m'"]) auto
      qed (use m in auto)
    qed simp
    then obtain m where m: "\<And>k r h st. checks_end h \<Longrightarrow> k \<ge> m \<Longrightarrow> r \<in> set (subRules env s) \<Longrightarrow> rule_type r = RTSubRules \<Longrightarrow>
        ends (matchSubRules k env h (rule_adapter r) st)" by blast
    have "ends (matchSubRules (Suc (max n m)) env h s st)" if "checks_end h" for h st
      unfolding matchSubRules.simps(2) using n m that by (intro sub_loop_ends) auto
    with SubRef show ?thesis unfolding ref_halts_def by auto
  next
    case (ProviderRef p)
    show ?thesis
    proof (cases "\<exists>rs. ruleProviders env p = Some (Classical rs)")
      case True
      then obtain rs where rs: "ruleProviders env p = Some (Classical rs)" by blast
      have "halts env r" if "r \<in> set rs" for r
        using sub that ProviderRef rs by (intro rule_halts) auto
      then obtain n where n: "\<And>k r h st. checks_end h \<Longrightarrow> k \<ge> n \<Longrightarrow> r \<in> set rs \<Longrightarrow> ends (Match k env h r st)"
        using halts_all by metis
      then show ?thesis
        using rs ProviderRef unfolding ref_halts_def
        by (auto simp: match_provider_def intro!: exI [of _ n] or_loop_ends)
    next
      case False
      then show ?thesis
        using ProviderRef unfolding ref_halts_def
        by (auto simp: match_provider_def Let_def split: option.splits provider.splits)
    qed
  qed
qed

section \<open>The check of the sub-rules\<close>

lemma fewer_keys:
  assumes "map_of subs a = Some b" "a \<notin> set arr"
  shows "length (filter (\<lambda>kv. fst kv \<noteq> a \<and> fst kv \<notin> set arr) subs)
    < length (filter (\<lambda>kv. fst kv \<notin> set arr) subs)"
proof -
  have "(a, b) \<in> set subs" using assms(1) by (rule map_of_SomeD)
  then show ?thesis using assms(2)
  proof (induction subs)
    case (Cons x xs)
    have "length (filter (\<lambda>kv. fst kv \<noteq> a \<and> fst kv \<notin> set arr) xs)
      \<le> length (filter (\<lambda>kv. fst kv \<notin> set arr) xs)" by (induction xs) auto
    with Cons show ?case by (auto simp: less_Suc_eq_le)
  qed simp
qed

text \<open>
  \<^verbatim>\<open>verifySubRuleCircularReferences\<close> of \<^verbatim>\<open>config/config.go\<close>: the loop over the rules of one
  list, with the names on the way to it. The result is the error, if there is one.
\<close>

datatype sub_error = SubNotFound string | SubCircular "string list"

function verify_loop :: "(string \<times> rule list) list \<Rightarrow> string list \<Rightarrow> rule list \<Rightarrow> sub_error option" where
  "verify_loop subs arr [] = None"
| "verify_loop subs arr (r # rs) =
     (if rule_type r = RTSubRules then
        (case map_of subs (rule_adapter r) of
           None \<Rightarrow> Some (SubNotFound (rule_adapter r))
         | Some body \<Rightarrow>
             if rule_adapter r \<in> set arr then Some (SubCircular (arr @ [rule_adapter r]))
             else case verify_loop subs (arr @ [rule_adapter r]) body of
                    Some e \<Rightarrow> Some e
                  | None \<Rightarrow> verify_loop subs arr rs)
      else verify_loop subs arr rs)"
  by pat_completeness auto

termination
  by (relation "measures [\<lambda>(subs, arr, rs). length (filter (\<lambda>kv. fst kv \<notin> set arr) subs),
      \<lambda>(subs, arr, rs). length rs]") (auto simp: fewer_keys)

definition verifySubRule :: "(string \<times> rule list) list \<Rightarrow> sub_error option" where
  "verifySubRule subs =
     (case List.find (\<lambda>kv. verify_loop subs [fst kv] (snd kv) \<noteq> None) subs of
        None \<Rightarrow> None
      | Some kv \<Rightarrow> verify_loop subs [fst kv] (snd kv))"

text \<open>What the rule parser guarantees: inside a logic rule there is no sub-rule.\<close>

definition sub_flat :: "rule \<Rightarrow> bool" where
  "sub_flat r \<longleftrightarrow> list_all (\<lambda>x. case x of
     SubRef s \<Rightarrow> rule_type r = RTSubRules \<and> s = rule_adapter r | ProviderRef _ \<Rightarrow> True) (rule_refs r)"

definition sub_lookup :: "(string \<times> rule list) list \<Rightarrow> string \<Rightarrow> rule list" where
  "sub_lookup subs s = (case map_of subs s of None \<Rightarrow> [] | Some rs \<Rightarrow> rs)"

definition checked_refs :: "(string \<times> rule list) list \<Rightarrow> env \<Rightarrow> bool" where
  "checked_refs subs env \<longleftrightarrow> subRules env = sub_lookup subs
     \<and> (\<forall>s. \<forall>r\<in>set (subRules env s). sub_flat r)
     \<and> (\<forall>p. ref_body env (ProviderRef p) = [])"

lemma provider_acc: "checked_refs subs env \<Longrightarrow> ProviderRef p \<in> Wellfounded.acc (ref_rel env)"
  by (rule accI) (simp add: ref_rel_def checked_refs_def del: ref_body.simps)

lemma list_acc:
  assumes c: "checked_refs subs env"
    and sub: "\<And>r. r \<in> set (subRules env s) \<Longrightarrow> rule_type r = RTSubRules \<Longrightarrow>
    SubRef (rule_adapter r) \<in> Wellfounded.acc (ref_rel env)"
  shows "SubRef s \<in> Wellfounded.acc (ref_rel env)"
proof (rule accI)
  fix y assume "(y, SubRef s) \<in> ref_rel env"
  then obtain r where r: "r \<in> set (subRules env s)" "y \<in> set (sub_refs r)"
    by (auto simp: ref_rel_def)
  show "y \<in> Wellfounded.acc (ref_rel env)"
  proof (cases y)
    case (SubRef s')
    have "sub_flat r" using c r(1) by (simp add: checked_refs_def)
    with r SubRef have "rule_type r = RTSubRules" "s' = rule_adapter r"
      by (auto simp: sub_refs_def sub_flat_def list_all_iff split: if_splits)
    with sub r SubRef show ?thesis by simp
  qed (simp add: provider_acc [OF c])
qed

lemma checked_env: "checked_refs subs env \<Longrightarrow> subRules env s = sub_lookup subs s"
  unfolding checked_refs_def by metis

lemma verify_acc:
  "verify_loop sb arr rs = None \<Longrightarrow> checked_refs sb env \<Longrightarrow> r \<in> set rs \<Longrightarrow> rule_type r = RTSubRules \<Longrightarrow>
   SubRef (rule_adapter r) \<in> Wellfounded.acc (ref_rel env)"
proof (induction sb arr rs arbitrary: r rule: verify_loop.induct)
  case (2 sb arr q rs)
  show ?case
  proof (cases "rule_type q = RTSubRules")
    case True
    from "2.prems"(1) True obtain body where b1: "map_of sb (rule_adapter q) = Some body"
      by (cases "map_of sb (rule_adapter q)") simp_all
    with "2.prems"(1) True have b2: "rule_adapter q \<notin> set arr" by (simp split: if_splits)
    with "2.prems"(1) True b1 have b3: "verify_loop sb (arr @ [rule_adapter q]) body = None"
      by (cases "verify_loop sb (arr @ [rule_adapter q]) body") simp_all
    with "2.prems"(1) True b1 b2 have b4: "verify_loop sb arr rs = None" by simp
    note b = b1 b2 b3 b4
    have "subRules env (rule_adapter q) = body"
      using b(1) checked_env [OF "2.prems"(2)] by (simp add: sub_lookup_def)
    then have q: "SubRef (rule_adapter q) \<in> Wellfounded.acc (ref_rel env)"
      using "2.IH"(1) [OF True b(1,2,3) "2.prems"(2)] list_acc [OF "2.prems"(2), of "rule_adapter q"] by metis
    show ?thesis
    proof (cases "r = q")
      case False
      then have "r \<in> set rs" using "2.prems"(3) by simp
      then show ?thesis using "2.IH"(2) [OF True b(1,2,3,4) "2.prems"(2)] "2.prems"(4) by metis
    next
      case True
      with q show ?thesis by (simp only:)
    qed
  next
    case False
    then have "verify_loop sb arr rs = None" "r \<in> set rs"
      using "2.prems"(1,3,4) by (simp, metis set_ConsD)
    then show ?thesis using "2.IH"(3) [OF False] "2.prems"(2,4) by metis
  qed
qed simp

lemma sub_acc:
  assumes c: "checked_refs subs env" and "verifySubRule subs = None"
  shows "SubRef s \<in> Wellfounded.acc (ref_rel env)"
proof (rule list_acc [OF c])
  fix r assume r: "r \<in> set (subRules env s)" "rule_type r = RTSubRules"
  moreover have "subRules env s = sub_lookup subs s" by (rule checked_env [OF c])
  ultimately obtain body where b: "map_of subs s = Some body" "r \<in> set body"
    by (auto simp: sub_lookup_def split: option.splits)
  then have "(s, body) \<in> set subs" by (auto dest: map_of_SomeD)
  then have "verify_loop subs [s] body = None"
    using assms(2) by (auto simp: verifySubRule_def find_None split: option.splits dest: find_SomeD)
  with r b c verify_acc show "SubRef (rule_adapter r) \<in> Wellfounded.acc (ref_rel env)" by blast
qed

lemma all_halt:
  assumes c: "checked_refs subs env" and "verifySubRule subs = None"
  shows "halts env r"
proof (rule rule_halts)
  show "ref_halts env x" for x
    by (cases x) (auto intro: refs_halt sub_acc [OF assms] provider_acc [OF c])
qed

lemma enough_fuel:
  assumes "checked_refs subs env" and "verifySubRule subs = None"
  shows "\<exists>n. \<forall>k\<ge>n. \<forall>h st. checks_end h \<longrightarrow> Match k env h r st \<noteq> Fuel \<and> Match k env h r st = Match n env h r st"
proof -
  from all_halt [OF assms, of r] obtain n where n: "\<forall>h st. checks_end h \<longrightarrow> ends (Match n env h r st)"
    unfolding halts_def ..
  then show ?thesis using fuel_enough(1) [of n env _ r] unfolding ends_def by metis
qed

text \<open>C3. Rule matching terminates for every configuration that passes \<^verbatim>\<open>verifySubRule\<close>: with
  sub-rules only at the top of a list (the parser refuses them elsewhere) and rule
  providers whose own rules name no rule set, every rule has an amount of fuel that is
  enough for every connection and every helper whose check of pass rules returns, and from there on the
  answer does not depend on it.
\<close>

theorem Match_terminates:
  assumes "checked_refs subs env" and "verifySubRule subs = None"
  shows "\<exists>n. \<forall>k\<ge>n. \<forall>h st. checks_end h \<longrightarrow> Match k env h r st \<noteq> Fuel \<and> Match k env h r st = Match n env h r st"
  by (rule enough_fuel [OF assms])

definition empty_env :: env where
  "empty_env = \<lparr>regexMatch = \<lambda>_ _. False, geodataMode = False, geoIPMatcher = \<lambda>_. None,
     lookupCode = \<lambda>_. [], lookupASN = \<lambda>_. ('''', ''''), geoSiteMatcher = \<lambda>_. None,
     isFakeBroadcastIP = \<lambda>_. False, ruleProviders = \<lambda>_. None, subRules = \<lambda>_. []\<rparr>"

definition test_subs :: "(string \<times> rule list) list" where
  "test_subs =
     [(''a'', [Logic ''(NETWORK,tcp)'' ''b'' RTSubRules [NetworkRule TCP ''b''], MatchRule ''DIRECT'']),
      (''b'', [DomainSuffix ''org'' ''PROXY''])]"

definition test_env :: env where
  "test_env = empty_env\<lparr>subRules := sub_lookup test_subs\<rparr>"

lemma test_env_checked: "checked_refs test_subs test_env"
  by (auto simp: checked_refs_def test_env_def empty_env_def sub_lookup_def test_subs_def
      sub_flat_def split: if_splits)

lemma Match_terminates_witness:
  "\<exists>n. \<forall>st. Match n test_env \<lparr>ResolveIP = None, FindProcess = None, CheckPassRule = Some (\<lambda>st a. Some (a = ''b''))\<rparr>
     (Logic ''(NETWORK,tcp)'' ''a'' RTSubRules [NetworkRule TCP ''a'']) st \<noteq> Fuel"
proof -
  have "verifySubRule test_subs = None" by code_simp
  moreover have "checks_end \<lparr>ResolveIP = None, FindProcess = None, CheckPassRule = Some (\<lambda>st a. Some (a = ''b''))\<rparr>"
    by (simp add: checks_end_def)
  ultimately show ?thesis using Match_terminates [OF test_env_checked] by blast
qed

text \<open>A rule provider of the classical behaviour is checked by nothing of that kind: one
  whose first rule is a conjunction that asks the provider's own rule set is never
  answered, whatever the fuel, so the code recurses until its stack is exhausted.
\<close>

theorem self_referring_provider_diverges:
  assumes "ruleProviders env p = Some (Classical (Logic payload a RTAND (RuleSet p b False nr # rs) # rules))"
  shows "Match n env h (RuleSet p c False nr') st = Fuel"
proof (induction n arbitrary: h c nr' st rule: less_induct)
  case (less n)
  show ?case
  proof (cases n)
    case (Suc m)
    have inner: "Match m env h (Logic payload a RTAND (RuleSet p b False nr # rs)) st = Fuel" for h st
    proof (cases m)
      case (Suc k)
      then have "Match k env h (RuleSet p b False nr) st = Fuel" using less \<open>n = Suc m\<close> by simp
      then show ?thesis by (simp add: Suc Match.simps(2) match_Logic_def)
    qed simp
    then show ?thesis
      by (simp add: Suc Match.simps(2) match_RuleSet_def match_provider_def assms)
  qed simp
qed

lemma self_referring_provider_diverges_witness:
  "let env = empty_env\<lparr>ruleProviders := (\<lambda>p. if p = ''ads'' then Some (Classical
       [Logic ''((RULE-SET,ads),(NETWORK,tcp))'' '''' RTAND [RuleSet ''ads'' '''' False False, NetworkRule TCP '''']]) else None)\<rparr>
   in \<forall>h st. Match 1000 env h (RuleSet ''ads'' ''REJECT'' False False) st = Fuel"
  unfolding Let_def
  by (intro allI, rule self_referring_provider_diverges [where payload = "''((RULE-SET,ads),(NETWORK,tcp))''"
        and a = "''''" and b = "''''" and nr = False and rs = "[NetworkRule TCP '''']" and rules = "[]"]) simp

section \<open>What matching changes\<close>

text \<open>
  The frame of \<open>Match\<close>: a relation \<open>P\<close> between the state before and after that holds of
  the helper's calls and of the bookkeeping of the rules holds of every match. \<open>P0\<close> is
  the relation for matching without \<open>ResolveIP\<close>; it must not depend on the direction of
  the connection, because a source rule set matches with source and destination swapped.
\<close>

locale match_frame =
  fixes P0 P :: "mstate \<Rightarrow> mstate \<Rightarrow> bool"
  assumes P0_refl: "P0 st st" and P0_trans: "P0 a b \<Longrightarrow> P0 b c \<Longrightarrow> P0 a c"
    and P_trans: "P a b \<Longrightarrow> P b c \<Longrightarrow> P a c" and P0_P: "P0 a b \<Longrightarrow> P a b"
    and P0_swap: "P0 (swap_md a) b \<Longrightarrow> P0 a (swap_md b)"
    and P0_geo: "P0 st (set_geo_codes src codes st)"
    and P0_asn: "P0 st (st\<lparr>md := (md st)\<lparr>SrcIPASN := x\<rparr>\<rparr>)" "P0 st (st\<lparr>md := (md st)\<lparr>DstIPASN := x\<rparr>\<rparr>)"
    and P0_hit: "P0 st (Hit i st)" "P0 st (Miss i st)"
begin

definition fine :: "helper \<Rightarrow> (mstate \<Rightarrow> mstate \<Rightarrow> bool) \<Rightarrow> bool" where
  "fine h Q \<longleftrightarrow> (\<forall>f st. ResolveIP h = Some f \<longrightarrow> Q st (f st)) \<and> (\<forall>f st. FindProcess h = Some f \<longrightarrow> P0 st (f st))"

definition good :: "(mstate \<Rightarrow> mstate \<Rightarrow> bool) \<Rightarrow> bool" where
  "good Q \<longleftrightarrow> (\<forall>a b. P0 a b \<longrightarrow> Q a b) \<and> (\<forall>a b c. Q a b \<longrightarrow> Q b c \<longrightarrow> Q a c)"

lemma good_P0: "good P0" and good_P: "good P"
  using P0_trans P_trans P0_P unfolding good_def by blast+

definition keeps :: "(mstate \<Rightarrow> mstate \<Rightarrow> bool) \<Rightarrow> mstate \<Rightarrow> ('a \<times> mstate) run \<Rightarrow> bool" where
  "keeps Q st r \<longleftrightarrow> (\<forall>x st'. r = Done (x, st') \<longrightarrow> Q st st')"

lemma keeps_bind:
  assumes "good Q" "keeps Q st r" "\<And>x st'. r = Done (x, st') \<Longrightarrow> keeps Q st' (f (x, st'))"
  shows "keeps Q st (bind_run r f)"
  using assms unfolding keeps_def good_def by (fastforce simp: bind_run_Done_eq)

lemma keeps_Done: "Q st st' \<Longrightarrow> keeps Q st (Done (x, st'))"
  by (simp add: keeps_def)

lemma keeps_Fuel: "keeps Q st Fuel"
  by (simp add: keeps_def)

lemma good_refl: "good Q \<Longrightarrow> Q st st"
  using P0_refl by (simp add: good_def)

lemma or_loop_keeps:
  assumes "good Q" "\<And>r st. keeps Q st (m r st)"
  shows "keeps Q st (or_loop m rs st)"
proof (induction rs arbitrary: st)
  case Nil
  show ?case using assms(1) by (simp add: keeps_Done good_refl)
next
  case (Cons r rs)
  show ?case unfolding or_loop.simps
    by (rule keeps_bind [OF assms])
      (use Cons assms(1) in \<open>simp add: keeps_Done good_refl split: prod.split\<close>)
qed

lemma and_loop_keeps:
  assumes "good Q" "\<And>r st. keeps Q st (m r st)"
  shows "keeps Q st (and_loop m rs st)"
proof (induction rs arbitrary: st)
  case Nil
  show ?case using assms(1) by (simp add: keeps_Done good_refl)
next
  case (Cons r rs)
  show ?case unfolding and_loop.simps
    by (rule keeps_bind [OF assms])
      (use Cons assms(1) in \<open>simp add: keeps_Done good_refl split: prod.split\<close>)
qed

lemma sub_loop_keeps:
  assumes "good Q" "\<And>r st. keeps Q st (m r st)" "\<And>s st. keeps Q st (u s st)"
  shows "keeps Q st (sub_loop m u h rs st)"
proof (induction rs arbitrary: st)
  case Nil
  show ?case using assms(1) by (simp add: keeps_Done good_refl)
next
  case (Cons r rs)
  have second: "keeps Q st (if rule_type r = RTSubRules then u (rule_adapter r) st else Done (x, st))" for st x
    using assms by (simp add: keeps_Done good_refl)
  show ?case unfolding sub_loop.simps
  proof (rule keeps_bind [OF assms(1,2)])
    fix x :: "bool \<times> string" and st'
    obtain mm :: bool and a :: string where x: "x = (mm, a)" by (cases x)
    have inner: "keeps Q st' (bind_run (if rule_type r = RTSubRules then u (rule_adapter r) st' else Done ((mm, a), st'))
        (\<lambda>((mm, a), st). if mm then (case is_pass_rule h st a of None \<Rightarrow> Fuel
          | Some pass \<Rightarrow> if pass then sub_loop m u h rs st else Done ((mm, a), st)) else Done ((mm, a), st)))"
      by (rule keeps_bind [OF assms(1) second])
        (use Cons assms(1) in \<open>simp add: keeps_Done keeps_Fuel good_refl split: prod.split option.split\<close>)
    show "keeps Q st' ((\<lambda>((mm, a), st).
        if \<not> mm then sub_loop m u h rs st
        else bind_run (if rule_type r = RTSubRules then u (rule_adapter r) st else Done ((mm, a), st))
          (\<lambda>((mm, a), st). if mm then (case is_pass_rule h st a of None \<Rightarrow> Fuel
          | Some pass \<Rightarrow> if pass then sub_loop m u h rs st else Done ((mm, a), st)) else Done ((mm, a), st)))
        (x, st'))"
      using inner Cons.IH by (simp add: x)
  qed
qed

lemma call_resolve: "good Q \<Longrightarrow> fine h Q \<Longrightarrow> Q st (resolve_for h nr s st)"
  by (auto simp: resolve_for_def call_def fine_def good_refl split: option.splits)

lemma call_process: "good Q \<Longrightarrow> fine h Q \<Longrightarrow> Q st (call (FindProcess h) st)"
  by (auto simp: call_def fine_def good_def P0_refl split: option.splits)

lemma match_GEOIP_keeps:
  assumes "good Q" "fine h Q"
  shows "Q st (snd (match_GEOIP env h c a nr s st))"
proof -
  have r: "Q st (resolve_for h nr s st)" using assms by (rule call_resolve)
  have "Q (resolve_for h nr s st) (snd (match_GEOIP env h c a nr s st))"
    using assms(1) P0_geo good_refl [OF assms(1)]
    by (auto simp: match_GEOIP_def Let_def good_def split: option.splits)
  with r assms(1) show ?thesis unfolding good_def by blast
qed

lemma match_ASN_keeps:
  assumes "good Q" "fine h Q"
  shows "Q st (snd (match_ASN env h c a nr s st))"
proof -
  have r: "Q st (resolve_for h nr s st)" using assms by (rule call_resolve)
  have "Q (resolve_for h nr s st) (snd (match_ASN env h c a nr s st))"
    using assms(1) P0_asn good_refl [OF assms(1)]
    by (auto simp: match_ASN_def Let_def good_def split: prod.splits)
  with r assms(1) show ?thesis unfolding good_def by blast
qed

lemma keeps_Done_pair: "Q st (snd y) \<Longrightarrow> keeps Q st (Done y)"
  by (cases y) (simp add: keeps_def)

lemma match_simple_keeps:
  assumes "good Q" "fine h Q"
  shows "keeps Q st (match_simple env h r st)"
proof -
  have "keeps Q st (match_IPSuffix h b bits a s nr st)" for b bits a s nr
    using call_resolve [OF assms] by (simp add: match_IPSuffix_def Let_def keeps_def)
  moreover have "Q st (snd (match_Process env h p a t st))" "Q st (snd (match_Uid h u a st))"
    "Q st (snd (match_IPCIDR h pr a s nr st))" for p a t u pr s nr
    using call_process [OF assms] call_resolve [OF assms]
    by (simp_all add: match_Process_def match_Uid_def match_IPCIDR_def Let_def)
  ultimately show ?thesis
    using match_GEOIP_keeps [OF assms] match_ASN_keeps [OF assms] good_refl [OF assms(1)]
    by (cases r) (simp_all add: keeps_Done_pair)
qed

lemma match_provider_keeps:
  assumes "good Q" "fine h Q" "\<And>r st. keeps Q st (m h r st)"
  shows "keeps Q st (match_provider m h p st)"
proof -
  have "Q st (call (ResolveIP h) st)"
    using assms(1,2) by (auto simp: call_def fine_def good_refl split: option.splits)
  then show ?thesis
    using assms or_loop_keeps [OF assms(1), of "m h"] good_refl [OF assms(1)]
    by (auto simp: match_provider_def Let_def keeps_Done split: provider.splits)
qed

lemma fine_None: "fine h Q \<Longrightarrow> fine (h\<lparr>ResolveIP := None\<rparr>) Q'"
  by (simp add: fine_def)

lemma match_RuleSet_keeps:
  assumes q: "good Q" "fine h Q"
    and m: "\<And>r st. keeps Q st (m h r st)"
    and m0: "\<And>r st. keeps P0 st (m (h\<lparr>ResolveIP := None\<rparr>) r st)"
  shows "keeps Q st (match_RuleSet m env h name a s nr st)"
proof (cases "ruleProviders env name")
  case None
  then show ?thesis using q by (simp add: match_RuleSet_def keeps_Done good_refl)
next
  case (Some p)
  let ?h = "h\<lparr>ResolveIP := None\<rparr>"
  have p0: "keeps P0 st (match_provider m ?h p st)" for st
    using match_provider_keeps [of P0 ?h m st p, OF good_P0 fine_None [OF q(2)] m0] .
  have P0_Q: "P0 a b \<Longrightarrow> Q a b" for a b using q(1) by (simp add: good_def)
  have "keeps Q st (bind_run (match_provider m ?h p (swap_md st)) (\<lambda>(mm, st). Done ((mm, a), swap_md st)))"
    using p0 [of "swap_md st"] by (auto simp: keeps_def bind_run_Done_eq intro!: P0_Q P0_swap)
  moreover have "keeps Q st (bind_run (match_provider m ?h p st) (\<lambda>(mm, st). Done ((mm, a), st)))"
    using p0 [of st] by (auto simp: keeps_def bind_run_Done_eq intro!: P0_Q)
  moreover have "keeps Q st (bind_run (match_provider m h p st) (\<lambda>(mm, st). Done ((mm, a), st)))"
    using match_provider_keeps [of Q h m st p, OF q m] by (auto simp: keeps_def bind_run_Done_eq)
  ultimately show ?thesis by (simp add: match_RuleSet_def Some)
qed

lemma match_Logic_keeps:
  assumes q: "good Q" and m: "\<And>r st. keeps Q st (m r st)" "\<And>s st. keeps Q st (u s st)"
  shows "keeps Q st (match_Logic m u a t rs st)"
proof -
  have first: "keeps Q st (bind_run (m r st) (\<lambda>((mm, b), st). if c mm then f st else Done ((d, e), st)))"
    if "\<And>st. keeps Q st (f st)" for r c f d e
    by (rule keeps_bind [OF q m(1)]) (use that q in \<open>simp add: keeps_Done good_refl split: prod.split\<close>)
  have "keeps Q st (bind_run (or_loop m rs st) (\<lambda>(mm, st). if mm then Done ((True, a), st) else Done ((False, ''''), st)))"
    by (rule keeps_bind [OF q or_loop_keeps [OF q m(1)]]) (use q in \<open>simp add: keeps_Done good_refl\<close>)
  moreover have "keeps Q st (bind_run (and_loop m rs st) (\<lambda>(mm, st). Done ((mm, a), st)))"
    by (rule keeps_bind [OF q and_loop_keeps [OF q m(1)]]) (use q in \<open>simp add: keeps_Done good_refl\<close>)
  moreover have "keeps Q st (Done ((True, a), st))" for st using q by (simp add: keeps_Done good_refl)
  moreover have "keeps Q st (Crash :: matched)" by (simp add: keeps_def)
  ultimately show ?thesis
    using first [of "\<lambda>st. u a st" _ "\<lambda>mm. mm"] first [of "\<lambda>st. Done ((True, a), st)" _ Not] m(2)
    by (auto simp: match_Logic_def q keeps_Done good_refl split: list.splits)
qed

lemma match_Wrapper_keeps:
  assumes q: "good Q" and m: "\<And>r st. keeps Q st (m r st)"
  shows "keeps Q st (match_Wrapper m i r st)"
proof -
  have hit: "Q st (Hit i st)" "Q st (Miss i st)" for st using q P0_hit by (auto simp: good_def)
  have "keeps Q st (bind_run (m r st) (\<lambda>((ok, a), st). Done ((ok, a), if ok then Hit i st else Miss i st)))"
    by (rule keeps_bind [OF q m]) (simp add: keeps_Done hit split: prod.split)
  then show ?thesis using q by (simp add: match_Wrapper_def keeps_Done good_refl)
qed

lemma Match_keeps_both:
  "(good Q \<longrightarrow> fine h Q \<longrightarrow> keeps Q st (Match n env h r st)) \<and>
   (good Q \<longrightarrow> fine h Q \<longrightarrow> keeps Q st (matchSubRules n env h s st))"
proof (induction n arbitrary: Q h r s st)
  case 0
  show ?case by (simp add: keeps_def)
next
  case (Suc n)
  have m: "keeps Q st (Match n env h r st)" "keeps Q st (matchSubRules n env h s st)"
    if "good Q" "fine h Q" for Q h r s st using Suc that by blast+
  have "keeps Q st (Match (Suc n) env h r st)" if q: "good Q" "fine h Q"
    using match_simple_keeps [OF q, of st env r]
      match_RuleSet_keeps [of Q h "Match n env", OF q m(1) [OF q] m(1) [OF good_P0 fine_None [OF q(2)]]]
      match_Logic_keeps [of Q "Match n env h" "matchSubRules n env h", OF q(1) m [OF q]]
      match_Wrapper_keeps [of Q "Match n env h", OF q(1) m(1) [OF q]]
    by (cases r) (simp_all add: Match.simps(2) del: match_simple.simps)
  moreover have "keeps Q st (matchSubRules (Suc n) env h s st)" if q: "good Q" "fine h Q"
    using sub_loop_keeps [of Q "Match n env h" "matchSubRules n env h", OF q(1) m [OF q]]
    by (simp add: matchSubRules.simps(2))
  ultimately show ?case by blast
qed

lemma Match_frame:
  assumes "fine h P" "Match n env h r st = Done (x, st')"
  shows "P st st'"
  using Match_keeps_both [of P h st n env r] good_P assms unfolding keeps_def by blast

end
end
