(* ===== verification/RuleParseLaws.thy ===== *)
theory RuleParseLaws
  imports RuleParse RuleLaws
begin

text \<open>
  Parsing and matching together: a rule that was parsed never panics when it is matched,
  unless it is an IP-SUFFIX that covers the whole address; the rules of a configuration name
  proxies, sub-rule lists and providers that exist; and what some payloads are taken for.
\<close>

section \<open>Matching without a panic\<close>

definition calm :: "'a run \<Rightarrow> bool" where
  "calm r \<longleftrightarrow> r \<noteq> Crash"

lemma calm_simps [simp]: "calm (Done x)" "calm Fuel" "\<not> calm Crash"
  by (simp_all add: calm_def)

lemma bind_run_calm [intro]: "calm r \<Longrightarrow> (\<And>x. r = Done x \<Longrightarrow> calm (f x)) \<Longrightarrow> calm (bind_run r f)"
  by (cases r) auto

lemma or_loop_calm: "(\<And>r st. r \<in> set rs \<Longrightarrow> calm (m r st)) \<Longrightarrow> calm (or_loop m rs st)"
  by (induction rs arbitrary: st) (auto split: prod.splits)

lemma and_loop_calm: "(\<And>r st. r \<in> set rs \<Longrightarrow> calm (m r st)) \<Longrightarrow> calm (and_loop m rs st)"
  by (induction rs arbitrary: st) (auto split: prod.splits)

lemma sub_loop_calm:
  "(\<And>r st. r \<in> set rs \<Longrightarrow> calm (m r st)) \<Longrightarrow> (\<And>s st. calm (u s st)) \<Longrightarrow> calm (sub_loop m u h rs st)"
proof (induction rs arbitrary: st)
  case (Cons r rs)
  have rest: "calm (sub_loop m u h rs st)" for st using Cons by simp
  have inner: "calm (if rule_type r = RTSubRules then u (rule_adapter r) st else Done x)" for st x
    using Cons.prems(2) by simp
  have "calm (m r st)" using Cons.prems(1) by simp
  then show ?case by (auto intro!: bind_run_calm inner rest Cons.prems(2) split: prod.split option.split)
qed simp

definition rule_safe :: "rule \<Rightarrow> bool" where
  "rule_safe r \<longleftrightarrow> logic_ok r \<and> suffix_ok r"

definition env_safe :: "env \<Rightarrow> bool" where
  "env_safe env \<longleftrightarrow> (\<forall>name. \<forall>r\<in>set (subRules env name). rule_safe r)
     \<and> (\<forall>name rs. ruleProviders env name = Some (Classical rs) \<longrightarrow> (\<forall>r\<in>set rs. rule_safe r))"

lemma match_IPSuffix_calm: "bits < 8 * length b \<Longrightarrow> calm (match_IPSuffix h b bits a s nr st)"
  by (auto simp: match_IPSuffix_def Let_def)

lemma match_simple_calm: "suffix_ok r \<Longrightarrow> calm (match_simple env h r st)"
  by (cases r) (simp_all add: match_IPSuffix_calm)

lemma Match_calm:
  assumes env: "env_safe env"
  shows "rule_safe r \<Longrightarrow> calm (Match n env h r st)" "calm (matchSubRules n env h s st)"
proof (induction n arbitrary: r h st s)
  case 0
  show "calm (Match 0 env h r st)" "calm (matchSubRules 0 env h s st)" for r h st s by simp_all
next
  case (Suc n)
  show "calm (matchSubRules (Suc n) env h s st)" for h s st
    unfolding matchSubRules.simps(2)
    using env Suc by (intro sub_loop_calm) (auto simp: env_safe_def)
  show "calm (Match (Suc n) env h r st)" if r: "rule_safe r" for h r st
  proof (cases r)
    case (RuleSet name a s nr)
    have "calm (match_provider (\<lambda>h r st. Match n env h r st) h p st)" if "ruleProviders env name = Some p" for p h st
      using that env Suc.IH(1) by (cases p) (auto simp: match_provider_def env_safe_def Let_def intro!: or_loop_calm)
    then show ?thesis unfolding RuleSet Match.simps(2)
      by (auto simp: match_RuleSet_def split: option.splits prod.splits intro!: bind_run_calm)
  next
    case (Logic p a t rs)
    have sub: "calm (Match n env h x st)" if "x \<in> set rs" for x h st
      using that r Suc.IH(1) unfolding Logic by (auto simp: rule_safe_def list_all_iff)
    have ne: "rs \<noteq> []" if "t = RTNOT \<or> t = RTSubRules" using that r unfolding Logic by (simp add: rule_safe_def)
    show ?thesis unfolding Logic Match.simps(2) match_Logic_def
      using sub ne Suc.IH(2)
      by (auto split: list.splits prod.splits intro!: bind_run_calm or_loop_calm and_loop_calm)
  next
    case (Wrapper i r')
    with r have "rule_safe r'" by (simp add: rule_safe_def)
    with Suc.IH(1) show ?thesis unfolding Wrapper Match.simps(2)
      by (auto simp: match_Wrapper_def split: prod.splits intro!: bind_run_calm)
  qed (use r match_simple_calm in \<open>simp_all add: Match.simps(2) rule_safe_def match_IPSuffix_calm\<close>)
qed

lemma parseSubRules_set:
  "parseSubRules pe proxies providers subs entries = Inr srs \<Longrightarrow> (name, rs) \<in> set srs \<Longrightarrow>
   \<exists>fmt lines. parseRules pe proxies providers subs fmt 0 lines = Inr rs"
  by (induction entries arbitrary: srs) (fastforce split: if_splits sum.splits simp del: append.simps)+

text \<open>C8. Matching a configuration does not panic: if the rules, the sub-rule lists and the
  classical providers come from the parser and hold no IP-SUFFIX of the full length of an
  address, no connection makes a rule panic.\<close>

theorem parsed_rules_calm:
  assumes "parseRules pe proxies providers subs ''rules'' 0 lines = Inr rules"
    and "parseSubRules pe proxies providers subs entries = Inr srs"
    and "\<forall>name. subRules env name = (case map_of srs name of None \<Rightarrow> [] | Some rs \<Rightarrow> rs)"
    and "\<forall>name rs. ruleProviders env name = Some (Classical rs) \<longrightarrow> (\<exists>ls. rs = classical_load pe ls)"
    and "\<forall>r\<in>set rules. suffix_ok r" "\<forall>name. \<forall>r\<in>set (subRules env name). suffix_ok r"
    and "\<forall>name rs. ruleProviders env name = Some (Classical rs) \<longrightarrow> (\<forall>r\<in>set rs. suffix_ok r)"
    and "r \<in> set rules"
  shows "Match n env h r st \<noteq> Crash"
proof -
  have "logic_ok x" if "x \<in> set (subRules env name)" for x name
  proof -
    obtain rs where "map_of srs name = Some rs" "x \<in> set rs"
      using assms(3) [THEN spec, of name] \<open>x \<in> set (subRules env name)\<close>
      by (cases "map_of srs name") simp_all
    with parseSubRules_set [OF assms(2)] parseRules_logic_ok show ?thesis by (metis map_of_SomeD)
  qed
  then have "env_safe env"
    using assms(4,6,7) classical_load_logic_ok by (fastforce simp: env_safe_def rule_safe_def)
  moreover have "rule_safe r" using assms(5,8) parseRules_logic_ok [OF assms(1)] by (simp add: rule_safe_def)
  ultimately show ?thesis using Match_calm(1) by (simp add: calm_def)
qed

text \<open>A small configuration, with no regular expression, database or platform of interest.\<close>

definition plain_env :: parse_env where
  "plain_env = \<lparr>CompileRegex = (\<lambda>s. None), InitGeoIP = None, LoadGeoIP = (\<lambda>s. None), InitASN = None,
     InitGeoSite = None, LoadGeoSite = (\<lambda>s. None), parseGeodataMode = False, GOOS = ''linux''\<rparr>"

lemma parsed_rules_calm_witness:
  "\<forall>h st. Match 9 (empty_env\<lparr>ruleProviders := (\<lambda>p. if p = ''own'' then Some (Classical (classical_load plain_env [''DOMAIN,a.com''])) else None)\<rparr>)
     h (Wrapper 0 (Logic ''((RULE-SET,own),(NETWORK,tcp))'' ''DIRECT'' RTAND [RuleSet ''own'' '''' False False, NetworkRule TCP ''''])) st \<noteq> Crash"
proof (intro allI)
  fix h :: helper and st :: mstate
  let ?proxies = "\<lambda>p. p = ''DIRECT''" and ?providers = "\<lambda>p. p = ''own''" and ?subs = "\<lambda>s. False"
  let ?provs = "\<lambda>p. if p = ''own'' then Some (Classical (classical_load plain_env [''DOMAIN,a.com''])) else None"
  let ?r = "Wrapper 0 (Logic ''((RULE-SET,own),(NETWORK,tcp))'' ''DIRECT'' RTAND [RuleSet ''own'' '''' False False, NetworkRule TCP ''''])"
  have p: "parseRules plain_env ?proxies ?providers ?subs ''rules'' 0
    [''AND,((RULE-SET,own),(NETWORK,tcp)),DIRECT'', ''MATCH,DIRECT''] = Inr [?r, Wrapper 1 (MatchRule ''DIRECT'')]"
    by code_simp
  have ls: "classical_load plain_env [''DOMAIN,a.com''] = [Domain ''a.com'' '''']" by code_simp
  show "Match 9 (empty_env\<lparr>ruleProviders := ?provs\<rparr>) h ?r st \<noteq> Crash"
    by (rule parsed_rules_calm [OF p, of "[]" "[]"])
      (use ls in \<open>auto simp: empty_env_def split: if_splits intro!: exI [of _ "[''DOMAIN,a.com'']"]\<close>)
qed

section \<open>What a configuration refers to\<close>

definition for_target :: "string \<Rightarrow> string \<Rightarrow> parsed \<Rightarrow> bool" where
  "for_target tp target res \<longleftrightarrow> (\<forall>r. res = Inr r \<longrightarrow> rule_adapter r = target \<and> (rule_type r = RTSubRules \<longleftrightarrow> tp = ''SUB-RULE''))"

lemma for_target_if:
  "(c \<Longrightarrow> for_target tp t a) \<Longrightarrow> (\<not> c \<Longrightarrow> for_target tp t b) \<Longrightarrow> for_target tp t (if c then a else b)"
  by simp

lemma for_target_constructors:
  "for_target tp a (Inl e)"
  "tp \<noteq> ''SUB-RULE'' \<Longrightarrow> for_target tp a (Inr (NewDomain d a))"
  "tp \<noteq> ''SUB-RULE'' \<Longrightarrow> for_target tp a (Inr (NewDomainSuffix d a))"
  "tp \<noteq> ''SUB-RULE'' \<Longrightarrow> for_target tp a (Inr (NewDomainKeyword d a))"
  "tp \<noteq> ''SUB-RULE'' \<Longrightarrow> for_target tp a (NewDomainRegex pe d a)"
  "tp \<noteq> ''SUB-RULE'' \<Longrightarrow> for_target tp a (NewDomainWildcard d a)"
  "tp \<noteq> ''SUB-RULE'' \<Longrightarrow> for_target tp a (NewGEOSITE pe d a)"
  "tp \<noteq> ''SUB-RULE'' \<Longrightarrow> for_target tp a (NewGEOIP pe d a x y)"
  "tp \<noteq> ''SUB-RULE'' \<Longrightarrow> for_target tp a (NewIPASN pe d a x y)"
  "tp \<noteq> ''SUB-RULE'' \<Longrightarrow> for_target tp a (NewIPCIDR d a x y)"
  "tp \<noteq> ''SUB-RULE'' \<Longrightarrow> for_target tp a (NewIPSuffix d a x y)"
  "tp \<noteq> ''SUB-RULE'' \<Longrightarrow> t \<noteq> RTSubRules \<Longrightarrow> for_target tp a (NewPort d a t)"
  "tp \<noteq> ''SUB-RULE'' \<Longrightarrow> for_target tp a (NewDSCP d a)"
  "tp \<noteq> ''SUB-RULE'' \<Longrightarrow> t \<noteq> RTSubRules \<Longrightarrow> for_target tp a (NewProcess pe d a t)"
  "tp \<noteq> ''SUB-RULE'' \<Longrightarrow> for_target tp a (NewNetworkType d a)"
  "tp \<noteq> ''SUB-RULE'' \<Longrightarrow> for_target tp a (NewUid pe d a)"
  "tp \<noteq> ''SUB-RULE'' \<Longrightarrow> for_target tp a (NewInUser d a)"
  "tp \<noteq> ''SUB-RULE'' \<Longrightarrow> for_target tp a (NewInName d a)"
  "tp \<noteq> ''SUB-RULE'' \<Longrightarrow> for_target tp a (NewInType d a)"
  "tp \<noteq> ''SUB-RULE'' \<Longrightarrow> for_target tp a (NewRuleSet d a x y)"
  "tp \<noteq> ''SUB-RULE'' \<Longrightarrow> for_target tp a (Inr (NewMatch a))"
  "(t = RTSubRules \<longleftrightarrow> tp = ''SUB-RULE'') \<Longrightarrow> for_target tp a (NewLogic t p a rs)"
  by (auto simp: for_target_def simple_constructors NewLogic_def Let_def split: option.splits sum.splits if_splits)

lemma ParseRule_for_target: "for_target tp target (ParseRule pe tp payload target params)"
  unfolding ParseRule.simps [of pe tp payload target params] Let_def
  by (intro for_target_if for_target_constructors) (simp_all, auto)

lemma rule_type_Wrapper: "rule_adapter (Wrapper i r) = rule_adapter r" "rule_type (Wrapper i r) = rule_type r"
  by simp_all

lemma parseRules_set:
  "parseRules pe proxies providers subs fmt idx lines = Inr rs \<Longrightarrow> r \<in> set rs \<Longrightarrow>
   \<exists>i line. line \<in> set lines \<and> parseLine pe proxies providers subs fmt i line = Inr r"
  by (induction lines arbitrary: idx rs) (fastforce split: sum.splits)+

text \<open>C9. The rules of a configuration name what exists: the target of a rule is a proxy, or
  it is a sub-rule list and the rule a SUB-RULE; and every rule set that a rule asks, however
  deep in logic rules, has its provider.\<close>

theorem parseRules_closed:
  assumes "parseRules pe proxies providers subs fmt idx lines = Inr rules" and "r \<in> set rules"
  shows "(proxies (rule_adapter r) \<or> rule_type r = RTSubRules \<and> subs (rule_adapter r)) \<and>
    list_all providers (ProviderNames r)"
proof -
  obtain i line where "parseLine pe proxies providers subs fmt i line = Inr r"
    using parseRules_set [OF assms] by blast
  then obtain tp payload target params x where l: "\<not> (\<not> proxies target \<and> tp \<noteq> ''SUB-RULE'')" "\<not> (\<not> proxies target \<and> \<not> subs target)"
    "ParseRule pe tp payload target params = Inr x" "List.find (\<lambda>name. \<not> providers name) (ProviderNames x) = None" "r = Wrapper i x \<or> r = x"
    by (auto simp: parseLine_def line_error_def split: prod.splits if_splits sum.splits option.splits)
  with ParseRule_for_target [of tp target pe payload params] show ?thesis
    by (auto simp: for_target_def find_None_iff list_all_iff)
qed

lemma parseRules_closed_witness:
  "(\<lambda>p. p = ''DIRECT'') (rule_adapter (Wrapper 0 (RuleSet ''own'' ''DIRECT'' False False))) \<and> list_all (\<lambda>p. p = ''own'') [''own'']"
proof -
  have "parseRules plain_env (\<lambda>p. p = ''DIRECT'') (\<lambda>p. p = ''own'') (\<lambda>s. False) ''rules'' 0 [''RULE-SET,own,DIRECT''] =
    Inr [Wrapper 0 (RuleSet ''own'' ''DIRECT'' False False)]" by code_simp
  from parseRules_closed [OF this] show ?thesis by simp
qed

text \<open>A SUB-RULE whose target is a proxy and no sub-rule list passes the checks of the
  configuration, and it matches no connection.\<close>

theorem sub_rule_of_a_proxy_is_dead:
  "parseLine plain_env (\<lambda>p. p = ''DIRECT'') (\<lambda>p. False) (\<lambda>s. False) ''rules'' 0 ''SUB-RULE,(NETWORK,tcp),DIRECT'' =
     Inr (Wrapper 0 (Logic ''(NETWORK,tcp)'' ''DIRECT'' RTSubRules [NetworkRule TCP ''''])) \<and>
   Match 3 empty_env h (Logic ''(NETWORK,tcp)'' ''DIRECT'' RTSubRules [NetworkRule TCP '''']) st = Done ((False, ''''), st)"
proof
  show "parseLine plain_env (\<lambda>p. p = ''DIRECT'') (\<lambda>p. False) (\<lambda>s. False) ''rules'' 0 ''SUB-RULE,(NETWORK,tcp),DIRECT'' =
     Inr (Wrapper 0 (Logic ''(NETWORK,tcp)'' ''DIRECT'' RTSubRules [NetworkRule TCP '''']))"
    by code_simp
qed (simp add: numeral_3_eq_3 match_Logic_def empty_env_def)

section \<open>Payloads that are not what they seem\<close>

lemma ipsuffix_loop_same: "ipsuffix_loop b b n"
  by (induction n) simp_all

text \<open>An IP-SUFFIX with a suffix as long as the address is accepted, and matching it with an address
  that is equal in its other bytes reads the byte before the first one: the code panics.\<close>

theorem full_ip_suffix_crashes:
  assumes "IsValid (DstIP (md st)) \<and> AsSlice (DstIP (md st)) = [0, 0, 0, 1]"
  shows "\<exists>r. ParseRule pe ''IP-SUFFIX'' ''0.0.0.1/32'' target [''no-resolve''] = Inr r \<and> Match 1 env h r st = Crash"
proof -
  have "ParsePrefix ''0.0.0.1/32'' = Some \<lparr>prefix_addr = V4 1, prefix_bits = 32\<rparr>" by code_simp
  then have "ParseRule pe ''IP-SUFFIX'' ''0.0.0.1/32'' target [''no-resolve''] =
    Inr (IPSuffix (AsSlice (V4 1)) 32 ''0.0.0.1/32'' target False True)"
    by (subst ParseRule.simps) (simp add: NewIPSuffix_def ParseParams_def)
  moreover have "AsSlice (V4 1) = [0, 0, 0, 1]" by code_simp
  ultimately show ?thesis using assms
    by (auto simp: match_IPSuffix_def Let_def rule_ip_def resolve_for_def ipsuffix_loop_same)
qed

lemma full_ip_suffix_crashes_witness:
  "\<forall>h. \<exists>r. ParseRule plain_env ''IP-SUFFIX'' ''0.0.0.1/32'' ''DIRECT'' [''no-resolve''] = Inr r \<and>
     Match 1 empty_env h r \<lparr>md = zeroMetadata\<lparr>DstIP := V4 1\<rparr>, resolved = False, attemptProcessLookup = False,
       disabled = (\<lambda>i. False), hitCount = (\<lambda>i. 0), missCount = (\<lambda>i. 0)\<rparr> = Crash"
proof -
  have "AsSlice (V4 1) = [0, 0, 0, 1]" by code_simp
  then show ?thesis by (intro allI full_ip_suffix_crashes) (simp add: IsValid_def)
qed

text \<open>A logic rule needs two parentheses around its rules. With one, the rule is taken for the
  payload's own parentheses: the AND has no rules, is accepted, and matches every connection.\<close>

theorem and_of_nothing_matches:
  "ParseRule pe ''AND'' ''(DOMAIN,a.com)'' target [] = Inr (Logic ''(DOMAIN,a.com)'' target RTAND []) \<and>
   Match (Suc n) env h (Logic ''(DOMAIN,a.com)'' target RTAND []) st = Done ((True, target), st)"
proof -
  have "sub_payloads ''(DOMAIN,a.com)'' = Inr []" by code_simp
  then show ?thesis
    by (subst ParseRule.simps) (simp add: NewLogic_def parsePayload_def match_Logic_def)
qed

lemma NewUnsignedRanges_show_nat:
  assumes "n < 2 ^ 64"
  shows "NewUnsignedRanges (show_nat n) = Inr [NewRange (word_of_nat n) (word_of_nat n :: 'w::len word)]"
proof -
  define x where "x = (word_of_nat n :: 64 word)"
  have "unat x = n" using assms by (simp add: x_def unat_of_nat take_bit_nat_eq_self)
  then have s: "show_nat n = show_word x" by (simp add: show_word_def)
  have ch: "is_digit c" if "c \<in> set (show_nat n)" for c
    using that show_nat_digits [of n] by (auto simp: list_all_iff)
  have r: "replace_char CHR '','' CHR ''/'' (show_nat n) = show_nat n"
    unfolding replace_char_def by (rule map_idI) (auto dest!: ch)
  have t: "trim_space (show_nat n) = show_nat n"
    unfolding trim_space_def by (rule trim_by_id) (auto dest!: ch dest: digit_not_space simp: is_space_def)
  have star: "show_nat n \<noteq> ''*''" using ch [of "CHR ''*''"] by auto
  have sp: "split_on CHR ''/'' (show_nat n) = [show_nat n]"
    using ch [of "CHR ''/''"] by (intro split_on_no_sep) (auto simp: is_digit_def)
  have sp': "split_on CHR ''-'' (show_nat n) = [show_nat n]"
    using ch [of "CHR ''-''"] by (intro split_on_no_sep) (auto simp: is_digit_def)
  have p: "parseUnsigned (show_nat n) = Some (word_of_nat n :: 'w word)"
    using assms by (simp add: parseUnsigned_def)
  have tr: "trim_set ''[ ]'' (show_nat n) = show_nat n" using trim_show_word [of x] s by simp
  show ?thesis
    by (simp add: NewUnsignedRanges_def newIntRanges_def newIntRange_def Let_def t r star sp sp' p tr)
qed

text \<open>A number in a port or DSCP rule is read with 64 bits and cut to the width of the
  field: DST-PORT with 65536 more is the port itself, and DSCP with 256 more is accepted
  although the code means to reject what exceeds 63.\<close>

theorem numbers_are_cut:
  assumes "n < 2 ^ 16" "m \<le> 63"
  shows "NewPort (show_nat (n + 65536)) target RTDstPort =
      Inr (PortRule target (show_nat (n + 65536)) RTDstPort [NewRange (word_of_nat n) (word_of_nat n)]) \<and>
    NewDSCP (show_nat (m + 256)) target =
      Inr (DSCPRule [NewRange (word_of_nat m) (word_of_nat m)] (show_nat (m + 256)) target)"
proof -
  have n: "word_of_nat (n + 65536) = (word_of_nat n :: 16 word)" "word_of_nat (m + 256) = (word_of_nat m :: 8 word)"
    using word_of_nat_eq_0_iff [of 65536, where 'a = 16] by (simp_all only: of_nat_add) simp_all
  have e: "range_end (NewRange x x) = x" for x :: "'a::len word" by (simp add: NewRange_def)
  have m: "\<not> 63 < (word_of_nat m :: 8 word)"
    using assms(2) by (simp add: word_less_nat_alt unat_of_nat take_bit_nat_eq_self)
  have "n + 65536 < 2 ^ 64" "m + 256 < 2 ^ 64" using assms by simp_all
  with n show ?thesis unfolding NewPort_def NewDSCP_def
    by (simp add: NewUnsignedRanges_show_nat e m del: of_nat_add)
qed

lemma numbers_are_cut_witness:
  "NewPort ''65616'' ''DIRECT'' RTDstPort = Inr (PortRule ''DIRECT'' ''65616'' RTDstPort [NewRange 80 80]) \<and>
   NewDSCP ''256'' ''DIRECT'' = Inr (DSCPRule [NewRange 0 0] ''256'' ''DIRECT'')"
proof -
  have "show_nat (80 + 65536) = ''65616''" "show_nat (0 + 256) = ''256''"
    by (simp_all add: show_nat.simps digit_char_def) (code_simp+)
  with numbers_are_cut [of 80 0 "''DIRECT''"] show ?thesis by simp
qed

section \<open>The rules inside a logic payload\<close>

fun balanced :: "nat \<Rightarrow> string \<Rightarrow> bool" where
  "balanced d [] \<longleftrightarrow> d = 0"
| "balanced d (c # cs) \<longleftrightarrow>
     (if c = CHR ''('' then balanced (Suc d) cs
      else if c = CHR '')'' then 0 < d \<and> balanced (d - 1) cs
      else balanced d cs)"

definition paren :: "string \<Rightarrow> string" where
  "paren p = ''('' @ p @ '')''"

lemma length_paren [simp]: "length (paren p) = length p + 2"
  by (simp add: paren_def)

text \<open>A balanced text between \<open>i\<close> and its end leaves the stack as it was, and adds ranges
  that lie in it; with \<open>d\<close> open parentheses it also closes those.\<close>

lemma format_loop_balanced:
  assumes "balanced (length opened) s" "\<forall>a\<in>set opened. lo \<le> a \<and> a < i" "distinct opened" "lo \<le> i"
  shows "\<exists>rs. format_loop (s @ cs) i (opened @ stack) acc = format_loop cs (i + length s) stack (acc @ rs) \<and>
    (\<forall>r\<in>set rs. lo \<le> fst r \<and> snd r < i + length s \<and> fst r < snd r \<and> (fst r \<in> set opened \<or> i \<le> fst r)) \<and> distinct (map fst rs)"
  using assms
proof (induction s arbitrary: opened i acc)
  case (Cons c s)
  consider (op) "c = CHR ''(''" | (cl) "c = CHR '')''" | (other) "c \<noteq> CHR ''(''" "c \<noteq> CHR '')''" by blast
  then show ?case
  proof cases
    case op
    have "balanced (length (i # opened)) s" using Cons.prems op by simp
    from Cons.IH [OF this, of "Suc i" acc] Cons.prems obtain rs where
      "format_loop (s @ cs) (Suc i) ((i # opened) @ stack) acc = format_loop cs (Suc i + length s) stack (acc @ rs)"
      "\<forall>r\<in>set rs. lo \<le> fst r \<and> snd r < Suc i + length s \<and> fst r < snd r \<and> (fst r \<in> set (i # opened) \<or> Suc i \<le> fst r)"
      "distinct (map fst rs)"
      by fastforce
    with op show ?thesis by (intro exI [of _ rs]) auto
  next
    case cl
    with Cons.prems obtain a opened' where o: "opened = a # opened'" by (cases opened) auto
    have "balanced (length opened') s" using Cons.prems cl o by simp
    from Cons.IH [OF this, of "Suc i" "acc @ [(a, i)]"] Cons.prems o obtain rs where rs:
      "format_loop (s @ cs) (Suc i) (opened' @ stack) (acc @ [(a, i)]) = format_loop cs (Suc i + length s) stack (acc @ [(a, i)] @ rs)"
      "\<forall>r\<in>set rs. lo \<le> fst r \<and> snd r < Suc i + length s \<and> fst r < snd r \<and> (fst r \<in> set opened' \<or> Suc i \<le> fst r)"
      "distinct (map fst rs)"
      by fastforce
    moreover have "a \<notin> fst ` set rs" using rs(2) Cons.prems o by fastforce
    ultimately show ?thesis using cl o Cons.prems by (intro exI [of _ "(a, i) # rs"]) auto
  next
    case other
    have "balanced (length opened) s" using Cons.prems other by simp
    from Cons.IH [OF this, of "Suc i" acc] Cons.prems obtain rs where
      "format_loop (s @ cs) (Suc i) (opened @ stack) acc = format_loop cs (Suc i + length s) stack (acc @ rs)"
      "\<forall>r\<in>set rs. lo \<le> fst r \<and> snd r < Suc i + length s \<and> fst r < snd r \<and> (fst r \<in> set opened \<or> Suc i \<le> fst r)"
      "distinct (map fst rs)"
      by fastforce
    with other show ?thesis by (intro exI [of _ rs]) auto
  qed
qed (auto intro!: exI [of _ "[]"])

text \<open>The ranges of the groups of \<open>(p1),(p2),...\<close> from index \<open>i\<close> on.\<close>

fun group_ranges :: "nat \<Rightarrow> string list \<Rightarrow> (nat \<times> nat) list" where
  "group_ranges i [] = []"
| "group_ranges i (p # ps) = (i, i + length p + 1) # group_ranges (i + length p + 3) ps"

lemma group_ranges_bounds:
  "g \<in> set (group_ranges i ps) \<Longrightarrow> i \<le> fst g \<and> fst g < snd g \<and> snd g < i + length (join_with '','' (map paren ps))"
proof (induction ps arbitrary: i)
  case (Cons p ps)
  from Cons.IH [of "i + length p + 3"] Cons.prems show ?case by (cases ps) auto
qed simp

lemma group_ranges_sorted: "sorted (map fst (group_ranges i ps))"
  by (induction ps arbitrary: i) (auto dest: group_ranges_bounds)

definition inside :: "nat \<times> nat \<Rightarrow> nat \<times> nat \<Rightarrow> bool" where
  "inside r g \<longleftrightarrow> fst g < fst r \<and> snd r < snd g"

lemma group_ranges_apart:
  assumes "g \<in> set (group_ranges i ps)" "g' \<in> set (group_ranges i ps)"
  shows "\<not> inside g g'"
proof -
  have "g = g' \<or> snd g < fst g' \<or> snd g' < fst g" using assms
  proof (induction ps arbitrary: i)
    case (Cons p ps)
    have b: "i + length p + 3 \<le> fst h" if "h \<in> set (group_ranges (i + length p + 3) ps)" for h
      using group_ranges_bounds [OF that] by simp
    consider (both) "g \<in> set (group_ranges (i + length p + 3) ps)" "g' \<in> set (group_ranges (i + length p + 3) ps)"
      | (l) "g = (i, i + length p + 1)" "g' \<in> set (group_ranges (i + length p + 3) ps)"
      | (r) "g' = (i, i + length p + 1)" "g \<in> set (group_ranges (i + length p + 3) ps)" | (eq) "g = g'"
      using Cons.prems by (simp only: group_ranges.simps list.set insert_iff) blast
    then show ?case by cases (use Cons.IH b in fastforce)+
  qed simp
  with group_ranges_bounds [OF assms(1)] group_ranges_bounds [OF assms(2)] show ?thesis
    by (auto simp: inside_def)
qed

lemma format_loop_paren:
  assumes "balanced 0 p"
  shows "\<exists>rs. format_loop (paren p @ cs) i stack acc =
      format_loop cs (i + length p + 2) stack (acc @ rs @ [(i, i + length p + 1)]) \<and>
    (\<forall>r\<in>set rs. inside r (i, i + length p + 1) \<and> fst r < snd r) \<and> distinct (map fst rs)"
proof -
  obtain rs where rs: "format_loop (p @ '')'' @ cs) (Suc i) ([] @ i # stack) acc =
      format_loop ('')'' @ cs) (Suc i + length p) (i # stack) (acc @ rs)"
    "\<forall>r\<in>set rs. Suc i \<le> fst r \<and> snd r < Suc i + length p \<and> fst r < snd r \<and> (fst r \<in> set [] \<or> Suc i \<le> fst r)"
    "distinct (map fst rs)"
    using format_loop_balanced [of "[]" p "Suc i" "Suc i" "'')'' @ cs" "i # stack" acc] assms by auto
  from rs(1) have "format_loop (paren p @ cs) i stack acc = format_loop cs (i + length p + 2) stack (acc @ rs @ [(i, i + length p + 1)])"
    by (simp add: paren_def)
  with rs(2,3) show ?thesis by (intro exI [of _ rs]) (auto simp: inside_def)
qed

text \<open>The ranges that the groups of a payload give: the groups, in order, and what is inside
  one of them.\<close>

definition groups_found :: "nat \<Rightarrow> string list \<Rightarrow> (nat \<times> nat) list \<Rightarrow> bool" where
  "groups_found i ps rs \<longleftrightarrow>
     filter (\<lambda>r. r \<in> set (group_ranges i ps)) rs = group_ranges i ps \<and> distinct (map fst rs) \<and>
     (\<forall>r\<in>set rs. i \<le> fst r \<and> fst r < snd r \<and> snd r < i + length (join_with '','' (map paren ps))) \<and>
     (\<forall>r\<in>set rs. r \<in> set (group_ranges i ps) \<or> (\<exists>g\<in>set (group_ranges i ps). inside r g))"

lemma groups_found_Cons:
  assumes "\<forall>r\<in>set rs. inside r (i, i + length p + 1) \<and> fst r < snd r" "distinct (map fst rs)"
    and "groups_found (i + length p + 3) ps rs'" "ps \<noteq> []"
  shows "groups_found i (p # ps) (rs @ (i, i + length p + 1) # rs')"
proof -
  let ?g = "(i, i + length p + 1)" and ?G = "set (group_ranges (i + length p + 3) ps)"
  have b: "i + length p + 3 \<le> fst h" "fst h < snd h" if "h \<in> ?G" for h
    using group_ranges_bounds [OF that] by simp_all
  have b': "i + length p + 3 \<le> fst r" "fst r < snd r" if "r \<in> set rs'" for r
    using assms(3) that by (simp_all add: groups_found_def)
  have "filter (\<lambda>r. r = ?g \<or> r \<in> ?G) rs = []"
    using assms(1) b by (fastforce simp: inside_def filter_empty_conv)
  moreover have "filter (\<lambda>r. r = ?g \<or> r \<in> ?G) rs' = filter (\<lambda>r. r \<in> ?G) rs'"
    using b' by (intro filter_cong) fastforce+
  moreover have "distinct (map fst (rs @ ?g # rs'))"
    using assms b' by (fastforce simp: groups_found_def inside_def)
  moreover have "length (join_with '','' (map paren (p # ps))) = length p + 3 + length (join_with '','' (map paren ps))"
    using assms(4) by (cases ps) simp_all
  ultimately show ?thesis
    using assms b' unfolding groups_found_def by (fastforce simp: inside_def)
qed

lemma format_loop_groups:
  assumes "\<forall>p\<in>set ps. balanced 0 p"
  shows "\<exists>rs. format_loop (join_with '','' (map paren ps) @ cs) i stack acc =
      format_loop cs (i + length (join_with '','' (map paren ps))) stack (acc @ rs) \<and> groups_found i ps rs"
  using assms
proof (induction ps arbitrary: i acc)
  case (Cons p ps)
  show ?case
  proof (cases ps)
    case Nil
    from format_loop_paren [of p cs i stack acc] Cons.prems obtain rs where
      "format_loop (paren p @ cs) i stack acc = format_loop cs (i + length p + 2) stack (acc @ rs @ [(i, i + length p + 1)])"
      and rs: "\<forall>r\<in>set rs. inside r (i, i + length p + 1) \<and> fst r < snd r" "distinct (map fst rs)" by auto
    moreover have "groups_found i [p] (rs @ [(i, i + length p + 1)])"
      using rs by (fastforce simp: groups_found_def inside_def filter_empty_conv)
    ultimately show ?thesis using Nil by (intro exI [of _ "rs @ [(i, i + length p + 1)]"]) simp
  next
    case (Cons q qs)
    let ?t = "join_with '','' (map paren ps) @ cs"
    have e: "join_with '','' (map paren (p # ps)) @ cs = paren p @ '','' @ ?t" using Cons by simp
    from format_loop_paren [of p "'','' @ ?t" i stack acc] Cons.prems obtain rs where
      f: "format_loop (paren p @ '','' @ ?t) i stack acc = format_loop ('','' @ ?t) (i + length p + 2) stack (acc @ rs @ [(i, i + length p + 1)])"
      and rs: "\<forall>r\<in>set rs. inside r (i, i + length p + 1) \<and> fst r < snd r" "distinct (map fst rs)" by auto
    from Cons.IH [of "i + length p + 3" "acc @ rs @ [(i, i + length p + 1)]"] Cons.prems obtain rs' where
      f': "format_loop ?t (i + length p + 3) stack (acc @ rs @ [(i, i + length p + 1)]) =
        format_loop cs (i + length p + 3 + length (join_with '','' (map paren ps))) stack (acc @ rs @ [(i, i + length p + 1)] @ rs')"
      and rs': "groups_found (i + length p + 3) ps rs'" by auto
    have "format_loop (join_with '','' (map paren (p # ps)) @ cs) i stack acc =
      format_loop cs (i + length (join_with '','' (map paren (p # ps)))) stack (acc @ rs @ [(i, i + length p + 1)] @ rs')"
      unfolding e f using f' Cons by (simp add: eval_nat_numeral add.assoc)
    moreover have "groups_found i (p # ps) (rs @ [(i, i + length p + 1)] @ rs')"
      using groups_found_Cons [OF rs rs'] Cons by simp
    ultimately show ?thesis by (intro exI [of _ "rs @ [(i, i + length p + 1)] @ rs'"]) simp
  qed
qed (auto simp: groups_found_def intro!: exI [of _ "[]"])

text \<open>The outer ranges are the groups.\<close>

lemma findSubRuleRange_groups:
  assumes "sorted (map fst rs)" "distinct (map fst rs)" "set acc \<subseteq> G"
    and "\<forall>r\<in>set rs. r \<in> G \<or> (\<exists>g\<in>G. inside r g \<and> (g \<in> set acc \<or> g \<in> set rs))"
    and "\<forall>r\<in>set rs. \<not> (fst r = 0 \<and> snd r + 1 = n)" and "\<forall>g\<in>G. \<forall>g'\<in>G. \<not> inside g g'"
  shows "findSubRuleRange n rs acc = acc @ filter (\<lambda>r. r \<in> G) rs"
  using assms
proof (induction rs arbitrary: acc)
  case (Cons r rs)
  let ?in = "list_ex (\<lambda>a. containRange r (fst a) (snd a)) acc"
  have c: "?in \<longleftrightarrow> (\<exists>a\<in>set acc. inside r a)"
    by (auto simp: list_ex_iff containRange_def inside_def)
  have "?in \<longleftrightarrow> r \<notin> G"
  proof
    assume ?in then show "r \<notin> G" using c Cons.prems(3,6) by blast
  next
    assume "r \<notin> G"
    then obtain g where g: "g \<in> G" "inside r g" "g \<in> set acc \<or> g \<in> set (r # rs)" using Cons.prems(4) by auto
    have "g \<notin> set (r # rs)" using g(2) Cons.prems(1) by (fastforce simp: inside_def)
    with g c show ?in by blast
  qed
  moreover have "findSubRuleRange n rs acc = acc @ filter (\<lambda>r. r \<in> G) rs" if "r \<notin> G"
    using that Cons.prems by (intro Cons.IH) auto
  moreover have "findSubRuleRange n rs (acc @ [r]) = (acc @ [r]) @ filter (\<lambda>r. r \<in> G) rs" if "r \<in> G"
    using that Cons.prems by (intro Cons.IH) auto
  ultimately show ?case using Cons.prems(5) by auto
qed simp

lemma group_ranges_texts:
  "map (\<lambda>r. take (snd r - (fst r + 1)) (drop (fst r + 1) (pre @ join_with '','' (map paren ps) @ post)))
     (group_ranges (length pre) ps) = ps"
proof (induction ps arbitrary: pre)
  case (Cons p ps)
  show ?case
  proof (cases ps)
    case (Cons q qs)
    let ?pre = "pre @ paren p @ '',''"
    have t: "pre @ join_with '','' (map paren (p # ps)) @ post = ?pre @ join_with '','' (map paren ps) @ post"
      using Cons by simp
    have g: "group_ranges (length pre) (p # ps) = (length pre, length pre + length p + 1) # group_ranges (length ?pre) ps"
      by (simp add: eval_nat_numeral)
    have "take (length pre + length p + 1 - (length pre + 1)) (drop (length pre + 1) (?pre @ join_with '','' (map paren ps) @ post)) = p"
      by (simp add: paren_def)
    then show ?thesis
      by (subst t, subst g) (simp only: list.map fst_conv snd_conv Cons.IH [of ?pre])
  qed (simp add: paren_def)
qed simp

lemma sort_key_append_least: "\<forall>r\<in>set rs. f x < f r \<Longrightarrow> sort_key f (rs @ [x]) = x # sort_key f rs"
  by (induction rs) auto

text \<open>C10. The payload of a logic rule, \<open>((p1),(p2),...)\<close>, is taken apart into the texts
  \<open>p1\<close>, \<open>p2\<close>, ..., in order, however deep the parentheses in each are, as long as each is balanced.\<close>

theorem sub_payloads_groups:
  assumes "\<forall>p\<in>set ps. balanced 0 p"
  shows "sub_payloads (paren (join_with '','' (map paren ps))) = Inr ps"
proof -
  let ?b = "join_with '','' (map paren ps)" and ?G = "group_ranges 1 ps"
  let ?n = "length (paren ?b)" and ?out = "(0, length ?b + 1)"
  obtain rs where f: "format_loop (?b @ '')'') 1 [0] [] = format_loop '')'' (1 + length ?b) [0] rs" and rs: "groups_found 1 ps rs"
    using format_loop_groups [OF assms, of "'')''" 1 "[0]" "[]"] by auto
  have fl: "format_loop (paren ?b) 0 [] [] = Inr (rs @ [?out])"
    using f by (simp add: paren_def)
  define S where "S = sort_key fst rs"
  have "?out \<notin> set rs" "\<forall>r\<in>set rs. 0 < fst r" using rs by (auto simp: groups_found_def)
  then have fm: "format (paren ?b) = Inr (?out # S)"
    unfolding format_def fl S_def by (simp add: sort_key_append_least)
  have S: "sorted (map fst S)" "distinct (map fst S)" "set S = set rs"
    using rs by (simp_all add: S_def groups_found_def distinct_map)
  have "findSubRuleRange ?n S [] = [] @ filter (\<lambda>r. r \<in> set ?G) S"
  proof (rule findSubRuleRange_groups [OF S(1,2)])
    have G: "set ?G \<subseteq> set rs" using rs by (metis groups_found_def filter_is_subset)
    show "\<forall>r\<in>set S. r \<in> set ?G \<or> (\<exists>g\<in>set ?G. inside r g \<and> (g \<in> set [] \<or> g \<in> set S))"
      using rs G S(3) unfolding groups_found_def by blast
    show "\<forall>r\<in>set S. \<not> (fst r = 0 \<and> snd r + 1 = ?n)"
      using rs S(3) by (auto simp: groups_found_def)
    show "\<forall>g\<in>set ?G. \<forall>g'\<in>set ?G. \<not> inside g g'" using group_ranges_apart by blast
  qed simp
  moreover have "filter (\<lambda>r. r \<in> set ?G) S = ?G"
    using rs by (simp add: S_def filter_sort groups_found_def sorted_sort_id sort_key_id_if_sorted group_ranges_sorted)
  ultimately have found: "findSubRuleRange ?n (?out # S) [] = ?G" by simp
  have ends: "has_prefix (paren ?b) ''(''" "has_suffix (paren ?b) '')''"
    by (simp_all add: paren_def has_prefix_def has_suffix_def suffix_def)
  have "map (\<lambda>r. take (snd r - (fst r + 1)) (drop (fst r + 1) (paren ?b))) ?G = ps"
    using group_ranges_texts [of "''(''" ps "'')''"] by (simp add: paren_def)
  with ends fm found show ?thesis by (simp add: sub_payloads_def)
qed

lemma sub_payloads_groups_witness:
  "sub_payloads ''((DOMAIN,a.com),(OR,((NETWORK,tcp),(DST-PORT,53))))'' = Inr [''DOMAIN,a.com'', ''OR,((NETWORK,tcp),(DST-PORT,53))'']"
  using sub_payloads_groups [of "[''DOMAIN,a.com'', ''OR,((NETWORK,tcp),(DST-PORT,53))'']"]
  by (simp add: paren_def)

end
