(* ===== verification/Trie.thy ===== *)
theory Trie
  imports Prelude "HOL-Library.AList"
begin

text \<open>
  The domain trie of \<^verbatim>\<open>component/trie/node.go\<close> and \<^verbatim>\<open>component/trie/domain.go\<close>, which
  holds hosts, fake-ip filters and name-server policies. A \<open>node\<close> is the struct
  \<^verbatim>\<open>Node[T]\<close>: every node has one parent, so the pointers of the code are values here
  and an update of a descendant writes the path to it back. A Go map is an association
  list with distinct keys, in the order in which the code would range over it; \<open>None\<close>
  for \<^verbatim>\<open>data\<close> is the zero value of \<^verbatim>\<open>T\<close>. The specification of a trie is its
  \<open>entries\<close>, the partial function from reversed label lists to data.
\<close>

section \<open>Nodes\<close>

datatype 'a node = Node
  (childMap: "(string \<times> 'a node) list option")
  (childNode: "'a node option")
  (childStr: string)
  (inited: bool)
  (data: "'a option")

definition newNode :: "'a node" where
  "newNode = Node None None '''' False None"

definition getChild :: "'a node \<Rightarrow> string \<Rightarrow> 'a node option" where
  "getChild n s =
     (case childMap n of
        None \<Rightarrow> if childNode n \<noteq> None \<and> childStr n = s then childNode n else None
      | Some m \<Rightarrow> map_of m s)"

definition hasChild :: "'a node \<Rightarrow> string \<Rightarrow> bool" where
  "hasChild n s \<longleftrightarrow> getChild n s \<noteq> None"

definition addChild :: "'a node \<Rightarrow> string \<Rightarrow> 'a node \<Rightarrow> 'a node" where
  "addChild n s child =
     (case childMap n of
        None \<Rightarrow>
          (case childNode n of
             None \<Rightarrow> Node None (Some child) s (inited n) (data n)
           | Some c \<Rightarrow> Node (Some (AList.update s child [(childStr n, c)])) None '''' (inited n) (data n))
      | Some m \<Rightarrow> Node (Some (AList.update s child m)) (childNode n) (childStr n) (inited n) (data n))"

text \<open>Write a changed child back where \<open>getChild\<close> found it (in the code the parent points
  to the changed child already).\<close>

definition putChild :: "'a node \<Rightarrow> string \<Rightarrow> 'a node \<Rightarrow> 'a node" where
  "putChild n s child =
     (case childMap n of
        None \<Rightarrow> Node None (Some child) (childStr n) (inited n) (data n)
      | Some m \<Rightarrow> Node (Some (AList.update s child m)) (childNode n) (childStr n) (inited n) (data n))"

definition getOrNewChild :: "'a node \<Rightarrow> string \<Rightarrow> 'a node \<times> 'a node" where
  "getOrNewChild n s =
     (case getChild n s of
        Some node \<Rightarrow> (n, node)
      | None \<Rightarrow> (addChild n s newNode, newNode))"

definition isEmpty :: "'a node option \<Rightarrow> bool" where
  "isEmpty n = (case n of None \<Rightarrow> True | Some n \<Rightarrow> \<not> inited n)"

definition setData :: "'a node \<Rightarrow> 'a \<Rightarrow> 'a node" where
  "setData n d = Node (childMap n) (childNode n) (childStr n) True (Some d)"

definition getChildren :: "'a node \<Rightarrow> (string \<times> 'a node) list" where
  "getChildren n =
     (case childMap n of
        None \<Rightarrow> (case childNode n of Some c \<Rightarrow> [(childStr n, c)] | None \<Rightarrow> [])
      | Some m \<Rightarrow> m)"

lemma size_child_list: "(k, c) \<in> set m \<Longrightarrow> size c < Suc (size_list (size_prod (\<lambda>_. 0) size) m)"
  by (induction m) auto

text \<open>\<^verbatim>\<open>optimize\<close>: a map with one entry becomes the single child, an empty map is dropped,
  a larger map is copied. \<^verbatim>\<open>strClone\<close> copies a string and leaves its value.\<close>

definition strClone :: "string \<Rightarrow> string" where
  "strClone key = key"

function optimize :: "'a node \<Rightarrow> 'a node" where
  "optimize (Node None None cs i d) = Node None None (strClone cs) i d"
| "optimize (Node None (Some c) cs i d) = Node None (Some (optimize c)) (strClone cs) i d"
| "optimize (Node (Some []) cn cs i d) = Node None (map_option optimize cn) (strClone cs) i d"
| "optimize (Node (Some [(key, c)]) cn cs i d) = optimize (Node None (Some c) key i d)"
| "optimize (Node (Some (x # y # m)) cn cs i d) =
     Node (Some (map (\<lambda>(key, child). (strClone key, optimize child)) (x # y # m)))
       (map_option optimize cn) (strClone cs) i d"
  by pat_completeness auto
termination
by (relation "measure size") (auto dest: size_child_list)

section \<open>Domains\<close>

definition ValidAndSplitDomain :: "string \<Rightarrow> string list option" where
  "ValidAndSplitDomain domain =
     (if domain \<noteq> '''' \<and> last domain = CHR ''.'' then None
      else if domain \<noteq> '''' \<and> is_space (hd domain) then None
      else if domain \<noteq> '''' \<and> is_space (last domain) then None
      else
        let parts = split_on CHR ''.'' (to_lower domain) in
        if length parts = 1 then (if hd parts = '''' then None else Some parts)
        else if list_ex (\<lambda>part. part = '''') (tl parts) then None
        else Some parts)"

abbreviation (input) wildcard :: string where "wildcard \<equiv> ''*''"
abbreviation (input) dotWildcard :: string where "dotWildcard \<equiv> ''''"
abbreviation (input) complexWildcard :: string where "complexWildcard \<equiv> ''+''"

text \<open>\<^verbatim>\<open>insert\<close> walks the parts from the last to the first; the first argument is the
  list of parts still to walk, the next one at its head.\<close>

fun insert_walk :: "string list \<Rightarrow> 'a node \<Rightarrow> 'a \<Rightarrow> 'a node" where
  "insert_walk [] node d = setData node d"
| "insert_walk (part # parts) node d =
     (let (node', child) = getOrNewChild node part
      in putChild node' part (insert_walk parts child d))"

definition insert_parts :: "'a node \<Rightarrow> string list \<Rightarrow> 'a \<Rightarrow> 'a node" where
  "insert_parts root parts d = insert_walk (rev parts) root d"

text \<open>\<^verbatim>\<open>Insert\<close>: \<open>None\<close> is \<^verbatim>\<open>ErrInvalidDomain\<close>.\<close>

definition Trie_Insert :: "'a node \<Rightarrow> string \<Rightarrow> 'a \<Rightarrow> 'a node option" where
  "Trie_Insert root domain d =
     (case ValidAndSplitDomain domain of
        None \<Rightarrow> None
      | Some parts \<Rightarrow>
          if hd parts = complexWildcard then
            (let root = insert_parts root (tl parts) d
             in Some (insert_parts root (dotWildcard # tl parts) d))
          else Some (insert_parts root parts d))"

text \<open>\<^verbatim>\<open>search\<close>: the list holds the parts from the last to the first.\<close>

fun search :: "'a node \<Rightarrow> string list \<Rightarrow> 'a node option" where
  "search node [] = Some node"
| "search node (part # parts) =
     (let r1 = (case getChild node part of Some c \<Rightarrow> search c parts | None \<Rightarrow> None) in
      if \<not> isEmpty r1 then r1
      else
        let r2 = (case getChild node wildcard of Some c \<Rightarrow> search c parts | None \<Rightarrow> None) in
        if \<not> isEmpty r2 then r2 else getChild node dotWildcard)"

definition Trie_Search :: "'a node \<Rightarrow> string \<Rightarrow> 'a node option" where
  "Trie_Search root domain =
     (case ValidAndSplitDomain domain of
        None \<Rightarrow> None
      | Some parts \<Rightarrow>
          if hd parts = '''' then None
          else let n = search root (rev parts) in if isEmpty n then None else n)"

definition Trie_Optimize :: "'a node \<Rightarrow> 'a node" where
  "Trie_Optimize root = optimize root"

definition Trie_IsEmpty :: "'a node option \<Rightarrow> bool" where
  "Trie_IsEmpty root = (case root of None \<Rightarrow> True | Some root \<Rightarrow> length (getChildren root) = 0)"

definition joinDomain :: "string list \<Rightarrow> string" where
  "joinDomain items = join_with ''.'' items"

text \<open>\<^verbatim>\<open>Foreach\<close> and its helper: the callback works on the caller's state and says whether
  to go on.\<close>

function recursion :: "string list \<Rightarrow> (string \<times> 'a node) list \<Rightarrow>
    (string \<Rightarrow> 'a \<Rightarrow> 's \<Rightarrow> 's \<times> bool) \<Rightarrow> 's \<Rightarrow> 's \<times> bool" where
  "recursion items [] fn s = (s, True)"
| "recursion items ((key, child) # rest) fn s =
     (let newItems = key # items;
          (s, cont) =
            (if \<not> isEmpty (Some child) then
               (let domain = joinDomain newItems;
                    domain = (if hd domain = CHR ''.'' then complexWildcard @ domain else domain)
                in case data child of Some d \<Rightarrow> fn domain d s | None \<Rightarrow> (s, True))
             else (s, True))
      in if \<not> cont then (s, False)
         else let (s, cont) = recursion newItems (getChildren child) fn s
              in if \<not> cont then (s, False) else recursion items rest fn s)"
  by pat_completeness auto
termination
proof (relation "measure (\<lambda>(items, cs, fn, s). size_list (size_prod (\<lambda>_. 0) size) cs)", goal_cases)
  case (2 items key child rest fn s)
  then show ?case
    by (cases child) (auto simp: getChildren_def split: option.splits)
qed auto

fun Foreach_loop :: "(string \<times> 'a node) list \<Rightarrow> (string \<Rightarrow> 'a \<Rightarrow> 's \<Rightarrow> 's \<times> bool) \<Rightarrow> 's \<Rightarrow> 's" where
  "Foreach_loop [] fn s = s"
| "Foreach_loop ((key, child) # rest) fn s =
     (let (s, _) = recursion [key] (getChildren child) fn s;
          (s, cont) =
            (if \<not> isEmpty (Some child) then
               (case data child of Some d \<Rightarrow> fn (joinDomain [key]) d s | None \<Rightarrow> (s, True))
             else (s, True))
      in if \<not> cont then s else Foreach_loop rest fn s)"

definition Trie_Foreach :: "'a node \<Rightarrow> (string \<Rightarrow> 'a \<Rightarrow> 's \<Rightarrow> 's \<times> bool) \<Rightarrow> 's \<Rightarrow> 's" where
  "Trie_Foreach root fn s = Foreach_loop (getChildren root) fn s"

section \<open>The entries of a trie\<close>

text \<open>What a trie stores: the datum at the end of a path of labels, last label first.\<close>

fun entries :: "'a node \<Rightarrow> string list \<Rightarrow> 'a option" where
  "entries n [] = (if inited n then data n else None)"
| "entries n (p # ps) = (case getChild n p of None \<Rightarrow> None | Some c \<Rightarrow> entries c ps)"

lemma size_getChildren [termination_simp]: "(k, c) \<in> set (getChildren n) \<Longrightarrow> size c < size n"
  by (cases n) (auto simp: getChildren_def dest: size_child_list split: option.splits)

text \<open>Well-formedness: an initialised node has data, a node has a map or a single child and
  not both, the keys of a map are distinct.\<close>

function wf_node :: "'a node \<Rightarrow> bool" where
  "wf_node n \<longleftrightarrow> (inited n \<longrightarrow> data n \<noteq> None) \<and> (childMap n \<noteq> None \<longrightarrow> childNode n = None) \<and>
     distinct (map fst (getChildren n)) \<and> list_all (\<lambda>kc. wf_node (snd kc)) (getChildren n)"
  by pat_completeness auto
termination by (relation "measure size") (auto simp: size_getChildren)

declare wf_node.simps [simp del]

lemma getChild_map_of: "getChild n s = map_of (getChildren n) s"
  by (auto simp: getChild_def getChildren_def split: option.splits)

lemma wf_child: "wf_node n \<Longrightarrow> getChild n s = Some c \<Longrightarrow> wf_node c"
  by (subst (asm) wf_node.simps) (auto simp: getChild_map_of list_all_iff dest: map_of_SomeD)

lemma wf_inited: "wf_node n \<Longrightarrow> inited n \<Longrightarrow> \<exists>d. data n = Some d"
  by (subst (asm) wf_node.simps) auto

lemma newNode_wf [simp]: "wf_node newNode"
  by (subst wf_node.simps) (simp add: newNode_def getChildren_def)

lemma entries_newNode [simp]: "entries newNode = Map.empty"
proof
  show "entries newNode ps = None" for ps :: "string list"
    by (cases ps) (auto simp: newNode_def getChild_def)
qed

lemma setData_fields [simp]:
  "getChild (setData n d) s = getChild n s" "getChildren (setData n d) = getChildren n"
  "inited (setData n d)" "data (setData n d) = Some d"
  "childMap (setData n d) = childMap n" "childNode (setData n d) = childNode n"
  by (simp_all add: setData_def getChild_def getChildren_def cong: option.case_cong)

lemma getChild_put:
  assumes "getOrNewChild n s = (n', c)"
  shows "getChild (putChild n' s x) t = (if t = s then Some x else getChild n t)"
  using assms
  by (auto simp: getOrNewChild_def putChild_def addChild_def getChild_def update_conv'
      split: option.splits if_splits)

lemma put_fields:
  assumes "getOrNewChild n s = (n', c)"
  shows "inited (putChild n' s x) = inited n" "data (putChild n' s x) = data n"
  using assms
  by (auto simp: getOrNewChild_def putChild_def addChild_def split: option.splits if_splits)

lemma entries_child:
  "getOrNewChild n s = (n', c) \<Longrightarrow> entries c ps = entries n (s # ps)"
  by (auto simp: getOrNewChild_def split: option.splits)

lemma entries_insert_walk [simp]: "entries (insert_walk ps n d) = (entries n)(ps \<mapsto> d)"
proof (induction ps n d rule: insert_walk.induct)
  case (1 n d)
  show ?case
  proof
    show "entries (insert_walk [] n d) qs = ((entries n)([] \<mapsto> d)) qs" for qs
      by (cases qs) auto
  qed
next
  case (2 part parts n d)
  obtain n' c where g: "getOrNewChild n part = (n', c)" by fastforce
  show ?case
  proof
    show "entries (insert_walk (part # parts) n d) qs = ((entries n)(part # parts \<mapsto> d)) qs" for qs
      using 2 [OF g [symmetric] refl] g
      by (cases qs) (auto simp: getChild_put [OF g] put_fields [OF g] entries_child [OF g])
  qed
qed

lemma wf_getOrNewChild:
  assumes "wf_node n" "getOrNewChild n s = (n', c)"
  shows "wf_node c"
  using assms by (auto simp: getOrNewChild_def wf_child split: option.splits)

lemma list_all_update:
  "list_all (\<lambda>kc. P (snd kc)) m \<Longrightarrow> P x \<Longrightarrow> list_all (\<lambda>kc. P (snd kc)) (AList.update s x m)"
  by (induction m) auto

lemma wf_putChild:
  assumes "wf_node n" "getOrNewChild n s = (n', c)" "wf_node x"
  shows "wf_node (putChild n' s x)"
proof -
  have n: "inited n \<longrightarrow> data n \<noteq> None" "childMap n \<noteq> None \<longrightarrow> childNode n = None"
    "distinct (map fst (getChildren n))" "list_all (\<lambda>kc. wf_node (snd kc)) (getChildren n)"
    using assms(1) by (subst (asm) wf_node.simps, simp)+
  show ?thesis
    using n assms(2,3)
    by (subst wf_node.simps)
      (auto simp: getOrNewChild_def putChild_def addChild_def getChildren_def getChild_def
        distinct_update list_all_update split: option.splits if_splits)
qed

lemma wf_insert_walk: "wf_node n \<Longrightarrow> wf_node (insert_walk ps n d)"
proof (induction ps n d rule: insert_walk.induct)
  case (1 n d)
  then show ?case
    by (subst wf_node.simps, subst (asm) wf_node.simps) auto
next
  case (2 part parts n d)
  obtain n' c where g: "getOrNewChild n part = (n', c)" by fastforce
  with 2 show ?case by (auto simp: wf_putChild wf_getOrNewChild)
qed

section \<open>Search\<close>

text \<open>The priorities of the code on the entries: the label itself, then the wildcard for one
  label, then the dot wildcard for the rest.\<close>

fun best :: "(string list \<Rightarrow> 'a option) \<Rightarrow> string list \<Rightarrow> 'a option" where
  "best e [] = e []"
| "best e (p # ps) =
     (case best (\<lambda>qs. e (p # qs)) ps of
        Some d \<Rightarrow> Some d
      | None \<Rightarrow> (case best (\<lambda>qs. e (wildcard # qs)) ps of
                   Some d \<Rightarrow> Some d
                 | None \<Rightarrow> e [dotWildcard]))"

definition found :: "'a node option \<Rightarrow> 'a option" where
  "found r = (case r of None \<Rightarrow> None | Some n \<Rightarrow> entries n [])"

lemma best_empty [simp]: "best (\<lambda>qs. None) ps = None"
  by (induction ps) auto

lemma search_wf: "wf_node n \<Longrightarrow> search n ps = Some c \<Longrightarrow> wf_node c"
proof (induction n ps arbitrary: c rule: search.induct)
  case (2 n p ps)
  then show ?case by (auto simp: Let_def wf_child split: if_splits option.splits)
qed simp

lemma found_None: "(\<And>c. r = Some c \<Longrightarrow> wf_node c) \<Longrightarrow> found r = None \<longleftrightarrow> isEmpty r"
  using wf_inited by (fastforce simp: found_def isEmpty_def split: option.splits)

lemma entries_at_child: "(\<lambda>qs. entries n (p # qs)) = (case getChild n p of None \<Rightarrow> Map.empty | Some c \<Rightarrow> entries c)"
  by (auto split: option.splits)

lemma found_child: "found (getChild n p) = entries n [p]"
  by (auto simp: found_def split: option.splits)

lemma search_best: "wf_node n \<Longrightarrow> found (search n ps) = best (entries n) ps"
proof (induction ps arbitrary: n)
  case Nil
  then show ?case by (simp add: found_def)
next
  case (Cons p ps)
  define r where "r q = (case getChild n q of Some c \<Rightarrow> search c ps | None \<Rightarrow> None)" for q
  have f: "found (r q) = best (\<lambda>qs. entries n (q # qs)) ps" for q
    using Cons unfolding entries_at_child r_def
    by (cases "getChild n q") (auto simp: found_def [of None] wf_child)
  have w: "isEmpty (r q) \<longleftrightarrow> found (r q) = None" for q
    using Cons.prems unfolding r_def
    by (intro found_None [symmetric]) (auto dest: search_wf wf_child split: option.splits)
  have "search n (p # ps) = (if \<not> isEmpty (r p) then r p
      else if \<not> isEmpty (r wildcard) then r wildcard else getChild n dotWildcard)"
    by (simp add: r_def Let_def)
  then show ?case by (auto simp: f w found_child split: option.splits)
qed

section \<open>Optimize\<close>

lemma wf_simps:
  "wf_node (Node None None cs i d) \<longleftrightarrow> (i \<longrightarrow> d \<noteq> None)"
  "wf_node (Node None (Some c) cs i d) \<longleftrightarrow> (i \<longrightarrow> d \<noteq> None) \<and> wf_node c"
  "wf_node (Node (Some m) cn cs i d) \<longleftrightarrow>
     (i \<longrightarrow> d \<noteq> None) \<and> cn = None \<and> distinct (map fst m) \<and> list_all (\<lambda>kc. wf_node (snd kc)) m"
  by (subst wf_node.simps; auto simp: getChildren_def)+

lemma entries_cong:
  assumes "inited n = inited n'" "data n = data n'"
    and c: "\<And>s. map_option entries (getChild n s) = map_option entries (getChild n' s)"
  shows "entries n = entries n'"
proof
  show "entries n ps = entries n' ps" for ps
  proof (cases ps)
    case (Cons q qs)
    then show ?thesis using c [of q] by (auto split: option.splits)
  qed (use assms in simp)
qed

lemma map_of_optimize:
  "map_of (map (\<lambda>(key, child). (strClone key, f child)) m) s = map_option f (map_of m s)"
  by (induction m) (auto simp: strClone_def)

lemma map_fst_optimize:
  "map fst (map (\<lambda>(key, child). (strClone key, f child)) m) = map fst m"
  by (induction m) (auto simp: strClone_def)

lemma list_all_optimize:
  "(\<And>k c. (k, c) \<in> set m \<Longrightarrow> P (f c)) \<Longrightarrow>
   list_all (\<lambda>kc. P (snd kc)) (map (\<lambda>(key, child). (strClone key, f child)) m)"
  by (auto simp: list_all_iff)

lemma optimize_fields [simp]: "inited (optimize n) = inited n" "data (optimize n) = data n"
  by (induction n rule: optimize.induct) auto

lemma optimize_ok: "wf_node n \<Longrightarrow> entries (optimize n) = entries n \<and> wf_node (optimize n)"
proof (induction n rule: optimize.induct)
  case (1 cs i d)
  then show ?case by (simp add: strClone_def)
next
  case (2 c cs i d)
  then show ?case
    by (intro conjI entries_cong) (auto simp: wf_simps getChild_def strClone_def)
next
  case (3 cn cs i d)
  then show ?case
    by (intro conjI entries_cong) (auto simp: wf_simps getChild_def strClone_def)
next
  case (4 key c cn cs i d)
  have "entries (Node (Some [(key, c)]) cn cs i d) = entries (Node None (Some c) key i d)"
    by (rule entries_cong) (auto simp: getChild_def)
  with 4 show ?case by (simp add: wf_simps)
next
  case (5 x y m cn cs i d)
  let ?m = "x # y # m"
  have ih: "entries (optimize c) = entries c \<and> wf_node (optimize c)" if "(k, c) \<in> set ?m" for k c
    using 5 that by (fastforce simp: wf_simps list_all_iff)
  have "i \<longrightarrow> d \<noteq> None" "cn = None" "distinct (map fst ?m)"
    using "5.prems" unfolding wf_simps by auto
  then have "wf_node (optimize (Node (Some ?m) cn cs i d))"
    using ih unfolding optimize.simps wf_simps map_fst_optimize
    by (intro conjI list_all_optimize) auto
  moreover have "entries (optimize (Node (Some ?m) cn cs i d)) = entries (Node (Some ?m) cn cs i d)"
  proof (rule entries_cong)
    fix s
    have "map_option entries (map_option optimize (map_of ?m s)) = map_option entries (map_of ?m s)"
      using ih by (cases "map_of ?m s") (auto dest!: map_of_SomeD simp del: map_of.simps)
    then show "map_option entries (getChild (optimize (Node (Some ?m) cn cs i d)) s) =
        map_option entries (getChild (Node (Some ?m) cn cs i d) s)"
      unfolding getChild_def optimize.simps node.sel option.case map_of_optimize by simp
  qed simp_all
  ultimately show ?case by blast
qed

section \<open>Rules and what they match\<close>

text \<open>The reversed label lists that \<^verbatim>\<open>Insert\<close> stores for a domain.\<close>

definition paths_of :: "string \<Rightarrow> string list list" where
  "paths_of domain =
     (case ValidAndSplitDomain domain of
        None \<Rightarrow> []
      | Some parts \<Rightarrow>
          if hd parts = complexWildcard then [rev (tl parts), rev (dotWildcard # tl parts)]
          else [rev parts])"

text \<open>A stored path against the reversed labels of a host: an empty label stands for one or
  more further labels, a star for exactly one.\<close>

fun path_match :: "string list \<Rightarrow> string list \<Rightarrow> bool" where
  "path_match [] ps \<longleftrightarrow> ps = []"
| "path_match (q # qs) [] \<longleftrightarrow> False"
| "path_match (q # qs) (p # ps) \<longleftrightarrow>
     q = dotWildcard \<and> qs = [] \<or> (q = p \<or> q = wildcard) \<and> path_match qs ps"

definition domain_match :: "string \<Rightarrow> string list \<Rightarrow> bool" where
  "domain_match domain parts \<longleftrightarrow> list_ex (\<lambda>q. path_match q (rev parts)) (paths_of domain)"

text \<open>Inserting a list of rules into an empty trie; a rejected domain changes nothing.\<close>

definition insert_rule :: "'a node \<Rightarrow> string \<times> 'a \<Rightarrow> 'a node" where
  "insert_rule root r = (case Trie_Insert root (fst r) (snd r) of Some root' \<Rightarrow> root' | None \<Rightarrow> root)"

definition build :: "(string \<times> 'a) list \<Rightarrow> 'a node" where
  "build rules = foldl insert_rule newNode rules"

definition rule_map :: "(string \<times> 'a) list \<Rightarrow> string list \<Rightarrow> 'a option" where
  "rule_map rules ps = map_option snd (List.find (\<lambda>r. ps \<in> set (paths_of (fst r))) (rev rules))"

lemma insert_rule_entries:
  "entries (insert_rule root r) = (\<lambda>ps. if ps \<in> set (paths_of (fst r)) then Some (snd r) else entries root ps)"
  by (auto simp: insert_rule_def Trie_Insert_def paths_of_def insert_parts_def Let_def
      fun_eq_iff split: option.splits)

lemma insert_rule_wf: "wf_node root \<Longrightarrow> wf_node (insert_rule root r)"
  by (auto simp: insert_rule_def Trie_Insert_def insert_parts_def Let_def wf_insert_walk
      split: option.splits)

lemma build_wf: "wf_node (build rules)"
  unfolding build_def by (induction rules rule: rev_induct) (auto simp: insert_rule_wf)

lemma build_entries: "entries (build rules) = rule_map rules"
  unfolding build_def rule_map_def
  by (induction rules rule: rev_induct) (auto simp: insert_rule_entries fun_eq_iff)

lemma best_SomeD: "best e ps = Some d \<Longrightarrow> \<exists>q. path_match q ps \<and> e q = Some d"
proof (induction ps arbitrary: e)
  case Nil
  then show ?case by (intro exI [of _ "[]"]) auto
next
  case (Cons p ps)
  then consider (a) "best (\<lambda>qs. e (p # qs)) ps = Some d"
    | (b) "best (\<lambda>qs. e (wildcard # qs)) ps = Some d" | (c) "e [dotWildcard] = Some d"
    by (auto split: option.splits)
  then show ?case
  proof cases
    case a
    with Cons.IH [of "\<lambda>qs. e (p # qs)"] show ?thesis
      by (meson path_match.simps(3))
  next
    case b
    with Cons.IH [of "\<lambda>qs. e (wildcard # qs)"] show ?thesis
      by (meson path_match.simps(3))
  next
    case c
    then show ?thesis by (intro exI [of _ "[dotWildcard]"]) auto
  qed
qed

lemma best_complete: "path_match q ps \<Longrightarrow> e q = Some d \<Longrightarrow> best e ps \<noteq> None"
proof (induction q ps arbitrary: e rule: path_match.induct)
  case (3 q qs p ps)
  then show ?case
    by (auto split: option.splits) (metis option.distinct(1))+
qed (auto split: option.splits)

lemma rule_map_SomeD: "rule_map rules q = Some d \<Longrightarrow> \<exists>r\<in>set rules. q \<in> set (paths_of (fst r)) \<and> snd r = d"
  by (auto simp: rule_map_def dest!: find_SomeD)

lemma rule_map_rule: "r \<in> set rules \<Longrightarrow> q \<in> set (paths_of (fst r)) \<Longrightarrow> \<exists>d. rule_map rules q = Some d"
  by (cases "List.find (\<lambda>r. q \<in> set (paths_of (fst r))) (rev rules)")
    (auto simp: rule_map_def find_None)

lemma Search_found:
  assumes "wf_node root" "ValidAndSplitDomain domain = Some parts" "hd parts \<noteq> ''''"
  shows "found (Trie_Search root domain) = best (entries root) (rev parts)"
    and "Trie_Search root domain \<noteq> None \<longleftrightarrow> best (entries root) (rev parts) \<noteq> None"
proof -
  let ?n = "search root (rev parts)"
  have e: "found ?n = None \<longleftrightarrow> isEmpty ?n"
    using assms(1) by (intro found_None) (auto dest: search_wf)
  have s: "Trie_Search root domain = (if isEmpty ?n then None else ?n)"
    using assms(2,3) by (simp add: Trie_Search_def Let_def)
  show "found (Trie_Search root domain) = best (entries root) (rev parts)"
    using e search_best [OF assms(1), of "rev parts"] by (auto simp: s found_def [of None])
  show "Trie_Search root domain \<noteq> None \<longleftrightarrow> best (entries root) (rev parts) \<noteq> None"
    using e search_best [OF assms(1), of "rev parts"] by (cases ?n) (auto simp: s isEmpty_def)
qed

text \<open>C33. The domain trie answers a search exactly when one of the inserted rules matches the
  host (a plain label for itself, a star for one label, a leading dot for one or more
  labels, a leading plus for none or more), with the datum of a matching rule: the one
  the priorities of the code choose among the last inserted rule of each path.
\<close>

theorem Trie_Search_rules:
  assumes "ValidAndSplitDomain domain = Some parts" "hd parts \<noteq> ''''"
  shows "found (Trie_Search (build rules) domain) = best (rule_map rules) (rev parts)
    \<and> (Trie_Search (build rules) domain \<noteq> None \<longleftrightarrow> (\<exists>r\<in>set rules. domain_match (fst r) parts))
    \<and> (\<forall>d. found (Trie_Search (build rules) domain) = Some d \<longrightarrow>
         (\<exists>r\<in>set rules. domain_match (fst r) parts \<and> snd r = d))"
proof -
  note s = Search_found [OF build_wf assms, of rules, unfolded build_entries]
  have sound: "\<exists>r\<in>set rules. domain_match (fst r) parts \<and> snd r = d"
    if "best (rule_map rules) (rev parts) = Some d" for d
    using best_SomeD [OF that] rule_map_SomeD by (fastforce simp: domain_match_def list_ex_iff)
  have complete: "best (rule_map rules) (rev parts) \<noteq> None"
    if "r \<in> set rules" "domain_match (fst r) parts" for r
  proof -
    from that obtain q where "path_match q (rev parts)" "q \<in> set (paths_of (fst r))"
      by (auto simp: domain_match_def list_ex_iff)
    with that rule_map_rule best_complete show ?thesis by metis
  qed
  show ?thesis using s sound complete by auto
qed

lemma Trie_Search_rules_witness:
  "let rules = [(''+.example.com'', 1 :: nat), (''*.example.com'', 2), (''a.b.Example.com'', 3)];
       parts = [''x'', ''y'', ''example'', ''com'']
   in ValidAndSplitDomain ''X.y.example.com'' = Some parts
      \<and> best (rule_map rules) (rev parts) = Some 1
      \<and> found (Trie_Search (build rules) ''X.y.example.com'') = Some 1"
proof -
  let ?rules = "[(''+.example.com'', 1 :: nat), (''*.example.com'', 2), (''a.b.Example.com'', 3)]"
  have "ValidAndSplitDomain ''X.y.example.com'' = Some [''x'', ''y'', ''example'', ''com'']"
    by code_simp
  moreover have "best (rule_map ?rules) (rev [''x'', ''y'', ''example'', ''com'']) = Some 1"
    by code_simp
  ultimately show ?thesis
    using Trie_Search_rules [of "''X.y.example.com''" "[''x'', ''y'', ''example'', ''com'']" ?rules]
    by (simp add: Let_def)
qed

text \<open>\<^verbatim>\<open>Optimize\<close>, which turns one-entry maps into single children and drops empty maps,
  changes no answer: a trie that any sequence of insertions built answers every search
  as before, and optimising again or inserting afterwards works on the same entries.
\<close>

theorem Trie_Optimize_search:
  "found (Trie_Search (Trie_Optimize (build rules)) domain) = found (Trie_Search (build rules) domain)
   \<and> entries (Trie_Optimize (build rules)) = rule_map rules
   \<and> wf_node (Trie_Optimize (build rules))"
proof -
  let ?o = "Trie_Optimize (build rules)"
  have o: "entries ?o = entries (build rules)" "wf_node ?o"
    by (simp_all add: Trie_Optimize_def optimize_ok build_wf)
  have "found (Trie_Search ?o domain) = found (Trie_Search (build rules) domain)"
  proof (cases "\<exists>parts. ValidAndSplitDomain domain = Some parts \<and> hd parts \<noteq> ''''")
    case True
    then obtain parts where "ValidAndSplitDomain domain = Some parts" "hd parts \<noteq> ''''" by blast
    then show ?thesis using Search_found(1) [OF o(2)] Search_found(1) [OF build_wf] o(1) by metis
  next
    case False
    then show ?thesis by (auto simp: Trie_Search_def split: option.splits)
  qed
  with o build_entries show ?thesis by metis
qed

section \<open>Foreach\<close>

definition shown :: "string list \<Rightarrow> string" where
  "shown ps =
     (let domain = joinDomain (rev ps)
      in if length ps > 1 \<and> hd domain = CHR ''.'' then complexWildcard @ domain else domain)"

definition collect :: "string \<Rightarrow> 'a \<Rightarrow> (string \<times> 'a) list \<Rightarrow> (string \<times> 'a) list \<times> bool" where
  "collect domain d acc = (acc @ [(domain, d)], True)"

fun below :: "string list \<Rightarrow> (string \<times> 'a node) list \<Rightarrow> (string \<times> 'a) set" where
  "below path cs = {(shown (path @ k # ps), d) | k c ps d. (k, c) \<in> set cs \<and> entries c ps = Some d}"

declare below.simps [simp del]

lemma below_Nil [simp]: "below path [] = {}"
  by (simp add: below.simps)

lemma entries_children:
  assumes "wf_node n"
  shows "entries n (q # qs) = Some d \<longleftrightarrow> (\<exists>c. (q, c) \<in> set (getChildren n) \<and> entries c qs = Some d)"
proof -
  have "distinct (map fst (getChildren n))"
    using assms by (subst (asm) wf_node.simps) simp
  then have "(q, c) \<in> set (getChildren n) \<longleftrightarrow> map_of (getChildren n) q = Some c" for c
    by (metis map_of_is_SomeI map_of_SomeD)
  then show ?thesis by (simp add: getChild_map_of split: option.splits)
qed

lemma below_Cons:
  assumes "wf_node c"
  shows "below path ((k, c) # cs) =
    (case entries c [] of Some d \<Rightarrow> {(shown (path @ [k]), d)} | None \<Rightarrow> {})
    \<union> below (path @ [k]) (getChildren c) \<union> below path cs"
proof -
  have "x \<in> below path ((k, c) # cs) \<longleftrightarrow>
      (\<exists>ps d. x = (shown (path @ k # ps), d) \<and> entries c ps = Some d) \<or> x \<in> below path cs" for x
    unfolding below.simps by auto
  moreover have "(\<exists>ps d. x = (shown (path @ k # ps), d) \<and> entries c ps = Some d) \<longleftrightarrow>
      (\<exists>d. x = (shown (path @ [k]), d) \<and> entries c [] = Some d) \<or> x \<in> below (path @ [k]) (getChildren c)"
    (is "?L x \<longleftrightarrow> ?R x") for x
  proof
    assume "?L x"
    then obtain ps d where p: "x = (shown (path @ k # ps), d)" "entries c ps = Some d" by blast
    show "?R x"
    proof (cases ps)
      case (Cons q qs)
      with p entries_children [OF assms, of q qs d] show ?thesis
        unfolding below.simps by auto
    qed (use p in simp)
  next
    assume "?R x"
    then show "?L x"
      using entries_children [OF assms] unfolding below.simps by fastforce
  qed
  ultimately show ?thesis by (cases "entries c []") (auto simp del: entries.simps)
qed

lemma recursion_collect:
  assumes "list_all (\<lambda>kc. wf_node (snd kc)) cs" "items \<noteq> []"
  shows "\<exists>l. recursion items cs collect s = (s @ l, True) \<and> set l = below (rev items) cs"
  using assms
proof (induction items cs "collect :: string \<Rightarrow> 'a \<Rightarrow> _" s rule: recursion.induct)
  case (2 items key child rest s)
  define here where "here = (case entries child [] of Some d \<Rightarrow> [(shown (rev items @ [key]), d)] | None \<Rightarrow> [])"
  have wf: "wf_node child" "list_all (\<lambda>kc. wf_node (snd kc)) (getChildren child)"
    using "2.prems" by (simp, subst (asm) wf_node.simps, simp)
  have *: "(if \<not> isEmpty (Some child)
      then let domain = joinDomain (key # items);
               domain = (if hd domain = CHR ''.'' then complexWildcard @ domain else domain)
           in case data child of None \<Rightarrow> (s, True) | Some d \<Rightarrow> collect domain d s
      else (s, True)) = (s @ here, True)"
    using wf_inited [OF wf(1)] "2.prems"(2)
    by (auto simp: here_def isEmpty_def collect_def shown_def Let_def)
  note ih1 = "2.hyps"(1) [OF refl * [symmetric] refl, simplified, OF wf(2)]
  then obtain l1 where l1: "recursion (key # items) (getChildren child) collect (s @ here) = (s @ here @ l1, True)"
    "set l1 = below (rev items @ [key]) (getChildren child)" by auto
  note ih2 = "2.hyps"(2) [OF refl * [symmetric] refl _ l1(1) [symmetric]]
  then obtain l2 where l2: "recursion items rest collect (s @ here @ l1) = (s @ here @ l1 @ l2, True)"
    "set l2 = below (rev items) rest" using "2.prems" by auto
  have "recursion items ((key, child) # rest) collect s = (s @ (here @ l1 @ l2), True)"
    unfolding recursion.simps Let_def [of "key # items"] * using l1 l2 by simp
  moreover have "set (here @ l1 @ l2) = below (rev items) ((key, child) # rest)"
    using l1 l2 by (auto simp: below_Cons [OF wf(1)] here_def split: option.splits)
  ultimately show ?case by blast
qed simp

lemma Foreach_collect:
  "list_all (\<lambda>kc. wf_node (snd kc)) cs \<Longrightarrow> \<exists>l. Foreach_loop cs collect s = s @ l \<and> set l = below [] cs"
proof (induction cs "collect :: string \<Rightarrow> 'a \<Rightarrow> _" s rule: Foreach_loop.induct)
  case (2 key child rest s)
  define here where "here = (case entries child [] of Some d \<Rightarrow> [(shown [key], d)] | None \<Rightarrow> [])"
  have wf: "wf_node child" "list_all (\<lambda>kc. wf_node (snd kc)) (getChildren child)"
    using "2.prems" by (simp, subst (asm) wf_node.simps, simp)
  obtain l1 where l1: "recursion [key] (getChildren child) collect s = (s @ l1, True)"
    "set l1 = below [key] (getChildren child)"
    using recursion_collect [OF wf(2), of "[key]" s] by auto
  have h: "(if \<not> isEmpty (Some child) then
       (case data child of Some d \<Rightarrow> collect (joinDomain [key]) d (s @ l1) | None \<Rightarrow> (s @ l1, True))
     else (s @ l1, True)) = (s @ l1 @ here, True)"
    using wf_inited [OF wf(1)] by (auto simp: here_def isEmpty_def collect_def shown_def joinDomain_def)
  note ih = "2.hyps" [OF refl l1(1) [symmetric] refl h [symmetric]]
  then obtain l2 where l2: "Foreach_loop rest collect (s @ l1 @ here) = (s @ l1 @ here) @ l2"
    "set l2 = below [] rest" using "2.prems" by auto
  have "Foreach_loop ((key, child) # rest) collect s = s @ (l1 @ here @ l2)"
    unfolding Foreach_loop.simps l1(1) using h l2 by simp
  moreover have "set (l1 @ here @ l2) = below [] ((key, child) # rest)"
    using l1 l2 by (auto simp: below_Cons [OF wf(1)] here_def split: option.splits)
  ultimately show ?case by blast
qed simp

text \<open>\<^verbatim>\<open>Foreach\<close> with a callback that never stops visits exactly the stored paths of a
  trie built by insertions, each under the name the code prints (a leading empty label
  becomes a plus sign), with its datum; only the datum of the root itself is left out.
\<close>

theorem Trie_Foreach_entries:
  "set (Trie_Foreach (build rules) collect []) =
     {(shown ps, d) | ps d. ps \<noteq> [] \<and> rule_map rules ps = Some d}"
proof -
  have "list_all (\<lambda>kc. wf_node (snd kc)) (getChildren (build rules))"
    using build_wf [of rules] by (subst (asm) wf_node.simps) simp
  then have "set (Trie_Foreach (build rules) collect []) = below [] (getChildren (build rules))"
    using Foreach_collect [of "getChildren (build rules)" "[]"] by (auto simp: Trie_Foreach_def)
  moreover have "x \<in> below [] (getChildren (build rules)) \<longleftrightarrow>
      x \<in> {(shown ps, d) | ps d. ps \<noteq> [] \<and> rule_map rules ps = Some d}" for x
  proof -
    have "x \<in> below [] (getChildren (build rules)) \<longleftrightarrow>
        (\<exists>q qs d. x = (shown (q # qs), d) \<and> entries (build rules) (q # qs) = Some d)"
      using entries_children [OF build_wf] unfolding below.simps by fastforce
    also have "\<dots> \<longleftrightarrow> x \<in> {(shown ps, d) | ps d. ps \<noteq> [] \<and> rule_map rules ps = Some d}"
      by (auto simp: build_entries neq_Nil_conv simp del: entries.simps)
    finally show ?thesis .
  qed
  ultimately show ?thesis by blast
qed

text \<open>A callback that returns false does not end \<^verbatim>\<open>Foreach\<close>: the result of the recursive
  walk is dropped, so a callback that stops at once is called once for every top-level
  label that has descendants.
\<close>

theorem Trie_Foreach_goes_on:
  "Trie_Foreach (build [(''a.com'', 1), (''b.com'', 2), (''c.org'', 3), (''d.net'', 4 :: nat)])
     (\<lambda>domain d called. (called @ [domain], False)) [] = [''a.com'', ''c.org'', ''d.net'']"
  by code_simp

end
