(* ===== verification/Hosts.thy ===== *)
theory Hosts
  imports Trie Netip
begin

text \<open>
  Static hosts: \<^verbatim>\<open>component/resolver/host.go\<close> and the entries \<^verbatim>\<open>parseHosts\<close> of
  \<^verbatim>\<open>config/config.go\<close> puts into the trie. A host maps to addresses or to another domain,
  which the search follows; the loop takes fuel. The lookup of the system's own hosts
  file is an argument, the random choice of an address is the number drawn.
\<close>

record HostValue =
  IsDomain :: bool
  IPs :: "addr list"
  Domain :: string

definition NewHostValueByIPs :: "addr list \<Rightarrow> HostValue option" where
  "NewHostValueByIPs ips =
     (if length ips = 0 then None else Some \<lparr>IsDomain = False, IPs = ips, Domain = ''''\<rparr>)"

definition NewHostValueByDomain :: "string \<Rightarrow> HostValue option" where
  "NewHostValueByDomain domain0 =
     (let domain = trim_set ''.'' domain0;
          item = split_on CHR ''.'' domain
      in if length item < 2 then None else Some \<lparr>IsDomain = True, IPs = [], Domain = domain\<rparr>)"

definition NewHostValue :: "string list \<Rightarrow> HostValue option" where
  "NewHostValue value =
     (case value of
        [] \<Rightarrow> None
      | [host] \<Rightarrow>
          (case ParseAddr host of
             Some ip \<Rightarrow> NewHostValueByIPs [Unmap ip]
           | None \<Rightarrow> NewHostValueByDomain host)
      | _ \<Rightarrow>
          (case all_some (map ParseAddr value) of
             None \<Rightarrow> None
           | Some ips \<Rightarrow> NewHostValueByIPs (map Unmap ips)))"

text \<open>\<^verbatim>\<open>RandIP\<close> with the number the generator drew; \<open>None\<close> is the error.\<close>

definition RandIP :: "nat \<Rightarrow> HostValue \<Rightarrow> addr option" where
  "RandIP drawn hv = (if IsDomain hv then None else Some (IPs hv ! (drawn mod length (IPs hv))))"

definition node_value :: "HostValue node \<Rightarrow> HostValue" where
  "node_value n = (case data n of Some hv \<Rightarrow> hv | None \<Rightarrow> \<lparr>IsDomain = False, IPs = [], Domain = ''''\<rparr>)"

fun search_loop :: "nat \<Rightarrow> HostValue node \<Rightarrow> bool \<Rightarrow> HostValue \<Rightarrow> (HostValue \<times> bool) run" where
  "search_loop 0 tree isDomain hostValue = Fuel"
| "search_loop (Suc n) tree isDomain hostValue =
     (if isDomain \<and> IsDomain hostValue then Done (hostValue, True)
      else case Trie_Search tree (Domain hostValue) of
             Some node \<Rightarrow> search_loop n tree isDomain (node_value node)
           | None \<Rightarrow>
               if isDomain = IsDomain hostValue then Done (hostValue, True)
               else Done (hostValue, False))"

record host_settings =
  DisableSystemHosts :: bool
  UseSystemHosts :: bool
  LookupStaticHost :: "string \<Rightarrow> string list"

definition Hosts_Search ::
  "nat \<Rightarrow> host_settings \<Rightarrow> HostValue node \<Rightarrow> string \<Rightarrow> bool \<Rightarrow> (HostValue option \<times> bool) run" where
  "Hosts_Search n cfg tree domain isDomain =
     (case Trie_Search tree domain of
        Some value \<Rightarrow> bind_run (search_loop n tree isDomain (node_value value)) (\<lambda>(hv, ok). Done (Some hv, ok))
      | None \<Rightarrow>
          if \<not> isDomain \<and> \<not> DisableSystemHosts cfg \<and> UseSystemHosts cfg then
            (case NewHostValue (LookupStaticHost cfg domain) of
               Some hostValue \<Rightarrow> Done (Some hostValue, True)
             | None \<Rightarrow> Done (None, False))
          else Done (None, False))"

text \<open>The check of \<^verbatim>\<open>parseHosts\<close> before a domain is inserted: whether following the value
  comes back to the domain. Then one entry, and the whole list.\<close>

fun cycle_loop :: "nat \<Rightarrow> HostValue node \<Rightarrow> string \<Rightarrow> HostValue node option \<Rightarrow> bool run" where
  "cycle_loop 0 tree domain node = Fuel"
| "cycle_loop (Suc n) tree domain node =
     (case node of
        None \<Rightarrow> Done False
      | Some nd \<Rightarrow>
          if \<not> IsDomain (node_value nd) then Done False
          else if Domain (node_value nd) = domain then Done True
          else cycle_loop n tree domain (Trie_Search tree (Domain (node_value nd))))"

definition parse_host :: "nat \<Rightarrow> HostValue node \<Rightarrow> string \<Rightarrow> string list \<Rightarrow> HostValue node option run" where
  "parse_host n tree domain hosts =
     (case NewHostValue hosts of
        None \<Rightarrow> Done None
      | Some value \<Rightarrow>
          if IsDomain value then
            bind_run (cycle_loop n tree domain (Trie_Search tree (Domain value))) (\<lambda>cyclic.
              if cyclic then Done None else Done (Some (insert_rule tree (domain, value))))
          else Done (Some (insert_rule tree (domain, value))))"

fun parse_hosts :: "nat \<Rightarrow> HostValue node \<Rightarrow> (string \<times> string list) list \<Rightarrow> HostValue node option run" where
  "parse_hosts n tree [] = Done (Some (Trie_Optimize tree))"
| "parse_hosts n tree ((domain, hosts) # rest) =
     bind_run (parse_host n tree domain hosts) (\<lambda>r. case r of
       None \<Rightarrow> Done None | Some tree \<Rightarrow> parse_hosts n tree rest)"

text \<open>\<^verbatim>\<open>parseHosts\<close>: the entry for the local host, then those of the configuration, in the order in which
  its map is walked.\<close>

definition default_host :: "string \<times> HostValue" where
  "default_host = (''localhost'', \<lparr>IsDomain = False, IPs = [V4 0x7f000001], Domain = ''''\<rparr>)"

definition parseHosts :: "nat \<Rightarrow> (string \<times> string list) list \<Rightarrow> HostValue node option run" where
  "parseHosts n cfgs = parse_hosts n (build [default_host]) cfgs"

section \<open>Properties\<close>

text \<open>Whether the rule of a stored domain matches a host.\<close>

definition hits :: "string \<Rightarrow> string \<Rightarrow> bool" where
  "hits rule host =
     (case ValidAndSplitDomain host of
        None \<Rightarrow> False
      | Some parts \<Rightarrow> hd parts \<noteq> '''' \<and> domain_match rule parts)"

lemma Trie_Search_rule:
  assumes tree: "wf_node tree" "entries tree = rule_map rules"
    and s: "Trie_Search tree domain = Some nd"
  shows "\<exists>r\<in>set rules. hits (fst r) domain \<and> data nd = Some (snd r)"
proof -
  obtain parts where p: "ValidAndSplitDomain domain = Some parts" "hd parts \<noteq> ''''"
    using s by (auto simp: Trie_Search_def split: option.splits if_splits)
  have i: "inited nd" using s
    by (auto simp: Trie_Search_def isEmpty_def Let_def split: option.splits if_splits)
  obtain d where d: "best (rule_map rules) (rev parts) = Some d"
    using Search_found(2) [OF tree(1) p] s unfolding tree(2) by auto
  have "found (Some nd) = Some d"
    using Search_found(1) [OF tree(1) p] s d unfolding tree(2) by simp
  with i have "data nd = Some d" by (simp add: found_def)
  moreover obtain q where q: "path_match q (rev parts)" "rule_map rules q = Some d"
    using best_SomeD [OF d] by blast
  moreover obtain r where "r \<in> set rules" "q \<in> set (paths_of (fst r))" "snd r = d"
    using rule_map_SomeD [OF q(2)] by blast
  ultimately show ?thesis
    using p by (auto simp: hits_def domain_match_def list_ex_iff)
qed

lemma Trie_Search_hit:
  assumes tree: "wf_node tree" "entries tree = rule_map rules" and r: "r \<in> set rules" "hits (fst r) domain"
  shows "Trie_Search tree domain \<noteq> None"
proof -
  obtain parts where v: "ValidAndSplitDomain domain = Some parts"
    using r(2) unfolding hits_def by (cases "ValidAndSplitDomain domain") simp_all
  then have p: "hd parts \<noteq> ''''" "domain_match (fst r) parts"
    using r(2) unfolding hits_def by simp_all
  from p(2) obtain q where q: "q \<in> set (paths_of (fst r))" "path_match q (rev parts)"
    unfolding domain_match_def list_ex_iff by (elim bexE) (rule that)
  obtain d where "rule_map rules q = Some d" using rule_map_rule [OF r(1) q(1)] by (rule exE)
  then have "best (rule_map rules) (rev parts) \<noteq> None" by (rule best_complete [OF q(2)])
  then show ?thesis using Search_found(2) [OF tree(1) v p(1)] unfolding tree(2) by simp
qed

lemma Trie_Search_node:
  assumes "wf_node tree" "entries tree = rule_map rules" "Trie_Search tree domain = Some nd"
  shows "\<exists>r\<in>set rules. hits (fst r) domain \<and> node_value nd = snd r"
  using Trie_Search_rule [OF assms] by (auto simp: node_value_def)

lemma Trie_Search_empty [simp]: "Trie_Search tree '''' = None"
  by (simp add: Trie_Search_def ValidAndSplitDomain_def to_lower_def)

lemma Trie_Optimize_entries:
  "wf_node (Trie_Optimize (build rules)) \<and> entries (Trie_Optimize (build rules)) = rule_map rules"
  using optimize_ok [OF build_wf, of rules] by (simp add: Trie_Optimize_def build_entries)

section \<open>Following mappings\<close>

text \<open>Where the mapping of a name leads: to another name, when the rule found for it has a domain.\<close>

definition alias_of :: "HostValue node \<Rightarrow> string \<Rightarrow> string option" where
  "alias_of tree name =
     (case Trie_Search tree name of
        None \<Rightarrow> None
      | Some nd \<Rightarrow> if IsDomain (node_value nd) then Some (Domain (node_value nd)) else None)"

definition aliases :: "HostValue node \<Rightarrow> string \<Rightarrow> string \<Rightarrow> bool" where
  "aliases tree a b \<longleftrightarrow> alias_of tree a = Some b"

text \<open>The name after \<open>k\<close> mappings.\<close>

primrec hop :: "HostValue node \<Rightarrow> nat \<Rightarrow> string \<Rightarrow> string option" where
  "hop tree 0 a = Some a"
| "hop tree (Suc k) a = (case hop tree k a of None \<Rightarrow> None | Some b \<Rightarrow> alias_of tree b)"

lemma hop_add: "hop tree (k + l) a = (case hop tree k a of None \<Rightarrow> None | Some b \<Rightarrow> hop tree l b)"
  by (induction l) (auto split: option.splits)

lemma hop_first: "hop tree (Suc k) a = (case alias_of tree a of None \<Rightarrow> None | Some b \<Rightarrow> hop tree k b)"
  using hop_add [of tree 1 k a] by simp

lemma hop_aliases: "(aliases tree)\<^sup>*\<^sup>* a b \<longleftrightarrow> (\<exists>k. hop tree k a = Some b)"
proof
  assume "(aliases tree)\<^sup>*\<^sup>* a b"
  then show "\<exists>k. hop tree k a = Some b"
  proof (induction rule: rtranclp_induct)
    case base
    show ?case by (rule exI [of _ 0]) simp
  next
    case (step b c)
    then obtain k where "hop tree k a = Some b" by blast
    then have "hop tree (Suc k) a = Some c" using step(2) by (simp add: aliases_def)
    then show ?case by blast
  qed
next
  assume "\<exists>k. hop tree k a = Some b"
  then obtain k where "hop tree k a = Some b" by blast
  then show "(aliases tree)\<^sup>*\<^sup>* a b"
  proof (induction k arbitrary: b)
    case (Suc k)
    then obtain c where "hop tree k a = Some c" "aliases tree c b" by (auto simp: aliases_def split: option.splits)
    with Suc.IH show ?case by (meson rtranclp.rtrancl_into_rtrancl)
  qed simp
qed

lemma hop_aliases_plus: "(aliases tree)\<^sup>+\<^sup>+ a b \<longleftrightarrow> (\<exists>k. hop tree (Suc k) a = Some b)"
proof -
  have "(aliases tree)\<^sup>+\<^sup>+ a b \<longleftrightarrow> (\<exists>c. (aliases tree)\<^sup>*\<^sup>* a c \<and> aliases tree c b)"
    by (auto elim: tranclp.cases intro: tranclp_into_rtranclp rtranclp_into_tranclp1)
  then show ?thesis unfolding hop_aliases by (auto simp: aliases_def split: option.splits)
qed

text \<open>Names that are mapped come back to one of them: every name after the first is the domain of a rule.\<close>

definition circles :: "HostValue node \<Rightarrow> string \<Rightarrow> bool" where
  "circles tree name \<longleftrightarrow> (\<exists>x. (aliases tree)\<^sup>*\<^sup>* name x \<and> (aliases tree)\<^sup>+\<^sup>+ x x)"

lemma hop_down: "hop tree k a \<noteq> None \<Longrightarrow> j \<le> k \<Longrightarrow> hop tree j a \<noteq> None"
  using hop_add [of tree j "k - j" a] by (auto split: option.splits)

lemma cycle_hops:
  assumes "hop tree (Suc l) x = Some x"
  shows "hop tree k x \<noteq> None"
proof -
  have "hop tree (Suc l * m) x = Some x" for m
    by (induction m) (use assms hop_add [of tree "Suc l"] in \<open>auto simp del: hop.simps(2)\<close>)
  from this [of k] show ?thesis using hop_down [of tree "Suc l * k" x k] by simp
qed

lemma circles_hops: "circles tree name \<Longrightarrow> hop tree k name \<noteq> None"
proof -
  assume "circles tree name"
  then obtain x j l where x: "hop tree j name = Some x" "hop tree (Suc l) x = Some x"
    unfolding circles_def hop_aliases hop_aliases_plus by blast
  have "hop tree (j + k) name \<noteq> None" using cycle_hops [OF x(2), of k] x(1) by (simp add: hop_add)
  then show ?thesis using hop_down by (metis le_add2)
qed

lemma alias_rule:
  assumes "wf_node tree" "entries tree = rule_map rules" "alias_of tree a = Some b"
  shows "b \<in> (\<lambda>r. Domain (snd r)) ` set rules"
proof -
  obtain nd where nd: "Trie_Search tree a = Some nd" "Domain (node_value nd) = b"
    using assms(3) by (auto simp: alias_of_def split: option.splits if_splits)
  from Trie_Search_node [OF assms(1,2) nd(1)] obtain r where "r \<in> set rules" "node_value nd = snd r" by blast
  then show ?thesis using nd(2) by (intro image_eqI [of _ _ r]) simp_all
qed

lemma hops_circle:
  assumes "wf_node tree" "entries tree = rule_map rules" "hop tree (Suc (length rules)) name \<noteq> None"
  shows "circles tree name"
proof -
  let ?D = "(\<lambda>r. Domain (snd r)) ` set rules" and ?I = "{1..Suc (length rules)}"
  define f where "f k = the (hop tree k name)" for k
  have f: "hop tree k name = Some (f k)" if "k \<le> Suc (length rules)" for k
    using hop_down [OF assms(3) that] by (simp add: f_def)
  have "f k \<in> ?D" if k: "k \<in> ?I" for k
  proof -
    obtain l where l: "k = Suc l" "Suc l \<le> Suc (length rules)" using k by (cases k) simp_all
    have "alias_of tree (f l) = Some (f k)" using f [of l] f [OF l(2)] l by simp
    then show ?thesis by (rule alias_rule [OF assms(1,2)])
  qed
  then have "card (f ` ?I) \<le> card ?D" by (intro card_mono) auto
  also have "\<dots> \<le> length rules" by (meson card_image_le card_length finite_set le_trans)
  finally have "\<not> inj_on f ?I" using card_image [of f ?I] by auto
  then obtain j k where jk: "j \<in> ?I" "k \<in> ?I" "f j = f k" "j < k"
    unfolding inj_on_def by (metis linorder_neqE_nat)
  have "hop tree (Suc (k - Suc j)) (f j) = Some (f j)"
    using hop_add [of tree j "k - j" name] f [of j] f [of k] jk by (simp del: hop.simps(2) add: Suc_diff_Suc)
  then show ?thesis unfolding circles_def hop_aliases hop_aliases_plus using f [of j] jk(1) by auto
qed

text \<open>Where the mappings end.\<close>

lemma hop_last:
  "hop tree (Suc n) a = None \<Longrightarrow> \<exists>k x. k \<le> n \<and> hop tree k a = Some x \<and> alias_of tree x = None"
proof (induction n)
  case (Suc n)
  then show ?case
    by (cases "hop tree (Suc n) a") (auto intro: le_SucI simp del: hop.simps(2), auto)
qed auto

section \<open>The search\<close>

text \<open>A value as the constructors make it: a domain, or at least one address and no domain.\<close>

definition hv_made :: "HostValue \<Rightarrow> bool" where
  "hv_made hv \<longleftrightarrow> IsDomain hv \<or> (IPs hv \<noteq> [] \<and> Domain hv = '''')"

lemma NewHostValue_made: "NewHostValue v = Some hv \<Longrightarrow> hv_made hv"
  by (auto simp: NewHostValue_def NewHostValueByIPs_def NewHostValueByDomain_def hv_made_def Let_def
      split: list.splits option.splits if_splits)

definition tree_made :: "HostValue node \<Rightarrow> bool" where
  "tree_made tree \<longleftrightarrow> (\<forall>d nd. Trie_Search tree d = Some nd \<longrightarrow> hv_made (node_value nd))"

text \<open>The loop from the value of a name: it follows the mappings to the name where they end, and does not
  end when they do not.\<close>

lemma search_loop_follows:
  assumes "tree_made tree"
  shows "Trie_Search tree a = Some nd \<Longrightarrow> hop tree k a = Some x \<Longrightarrow> alias_of tree x = None \<Longrightarrow> k < n \<Longrightarrow>
   (case Trie_Search tree x of
      Some nx \<Rightarrow> search_loop n tree False (node_value nd) = Done (node_value nx, True) \<and> \<not> IsDomain (node_value nx) \<and> hv_made (node_value nx)
    | None \<Rightarrow> \<exists>v. search_loop n tree False (node_value nd) = Done (v, False) \<and> IsDomain v \<and> Domain v = x)"
proof (induction k arbitrary: a nd n)
  case 0
  then obtain m where m: "n = Suc m" by (cases n) auto
  have "\<not> IsDomain (node_value nd)" "hv_made (node_value nd)"
    using 0 assms by (auto simp: alias_of_def tree_made_def split: if_splits)
  with 0 m show ?case by (auto simp: hv_made_def)
next
  case (Suc k)
  obtain m where m: "n = Suc m" "k < m" using Suc.prems(4) by (cases n) auto
  obtain b where b: "alias_of tree a = Some b" "hop tree k b = Some x" using Suc.prems(2) hop_first [of tree k a] by (auto split: option.splits)
  then have d: "IsDomain (node_value nd)" "Domain (node_value nd) = b"
    using Suc.prems(1) by (auto simp: alias_of_def split: if_splits)
  show ?case
  proof (cases "Trie_Search tree b")
    case None
    then have "alias_of tree b = None" by (simp add: alias_of_def)
    then have "x = b" using b(2) hop_down [of tree k b 1] by (cases k) auto
    with None m d show ?thesis by auto
  next
    case (Some nb)
    from Suc.IH [OF Some b(2) Suc.prems(3) m(2)] show ?thesis using m d Some by (simp split: option.splits)
  qed
qed

lemma search_loop_circles:
  assumes "Trie_Search tree a = Some nd" "\<forall>k. hop tree k a \<noteq> None"
  shows "search_loop n tree False (node_value nd) = Fuel"
  using assms
proof (induction n arbitrary: a nd)
  case (Suc n)
  obtain b where b: "alias_of tree a = Some b" using Suc.prems(2) [THEN spec, of 1] by auto
  then have d: "Domain (node_value nd) = b" using Suc.prems(1) by (auto simp: alias_of_def split: if_splits)
  have hops: "\<forall>k. hop tree k b \<noteq> None"
  proof
    fix k show "hop tree k b \<noteq> None" using Suc.prems(2) [THEN spec, of "Suc k"] b by (simp only: hop_first) simp
  qed
  then obtain nb where nb: "Trie_Search tree b = Some nb" by (auto simp: alias_of_def dest: spec [of _ 1] split: option.splits)
  from Suc.IH [OF nb hops] show ?case by (simp add: d nb)
qed simp

lemma Hosts_Search_circles:
  assumes "circles tree domain"
  shows "Hosts_Search n cfg tree domain False = Fuel"
proof -
  have hops: "\<forall>k. hop tree k domain \<noteq> None" using circles_hops [OF assms] by blast
  then obtain nd where "Trie_Search tree domain = Some nd"
    by (auto simp: alias_of_def dest: spec [of _ 1] split: option.splits)
  with search_loop_circles [OF this hops] show ?thesis by (simp add: Hosts_Search_def)
qed

text \<open>What \<^verbatim>\<open>parseHosts\<close> builds.\<close>

lemma parse_hosts_rules:
  "parse_hosts f (build base) cfgs = Done (Some tree) \<Longrightarrow>
   \<exists>rs. tree = Trie_Optimize (build (base @ rs)) \<and> length rs = length cfgs \<and> (\<forall>r\<in>set rs. hv_made (snd r))"
proof (induction cfgs arbitrary: base)
  case (Cons e cfgs)
  obtain domain hosts where e: "e = (domain, hosts)" by fastforce
  obtain hv where v: "NewHostValue hosts = Some hv" "parse_hosts f (insert_rule (build base) (domain, hv)) cfgs = Done (Some tree)"
    using Cons.prems by (auto simp: e parse_host_def bind_run_Done_eq split: option.splits if_splits)
  have "insert_rule (build base) (domain, hv) = build (base @ [(domain, hv)])" by (simp add: build_def)
  with Cons.IH [of "base @ [(domain, hv)]"] v obtain rs where
    "tree = Trie_Optimize (build (base @ (domain, hv) # rs))" "length rs = length cfgs" "\<forall>r\<in>set rs. hv_made (snd r)" by auto
  with NewHostValue_made [OF v(1)] show ?case by (intro exI [of _ "(domain, hv) # rs"]) simp
qed simp

lemma parseHosts_tree:
  assumes "parseHosts f cfgs = Done (Some tree)"
  shows "\<exists>rules. wf_node tree \<and> entries tree = rule_map rules \<and> tree_made tree \<and> length rules = Suc (length cfgs)"
proof -
  obtain rs where rs: "tree = Trie_Optimize (build (default_host # rs))" "length rs = length cfgs" "\<forall>r\<in>set rs. hv_made (snd r)"
    using parse_hosts_rules [OF assms [unfolded parseHosts_def]] by auto
  have t: "wf_node tree" "entries tree = rule_map (default_host # rs)" using Trie_Optimize_entries unfolding rs(1) by blast+
  have "\<forall>r\<in>set (default_host # rs). hv_made (snd r)" using rs(3) by (simp add: default_host_def hv_made_def)
  then have "tree_made tree" unfolding tree_made_def using Trie_Search_node [OF t] by fastforce
  with t rs(2) show ?thesis by (intro exI [of _ "default_host # rs"]) simp
qed

text \<open>The search, when it is for a domain or the mappings come to an end.\<close>

lemma Hosts_Search_returns:
  assumes t: "wf_node tree" "entries tree = rule_map rules" "tree_made tree"
    and e: "isDomain \<or> \<not> circles tree domain" "length rules < n"
  shows "\<exists>hv ok. Hosts_Search n cfg tree domain isDomain = Done (hv, ok)
          \<and> (isDomain \<longrightarrow> hv = map_option node_value (Trie_Search tree domain) \<and> ok = (alias_of tree domain \<noteq> None))
          \<and> (\<not> isDomain \<and> Trie_Search tree domain \<noteq> None \<longrightarrow>
              (\<exists>x v. (aliases tree)\<^sup>*\<^sup>* domain x \<and> hv = Some v \<and>
                (case Trie_Search tree x of
                   Some nx \<Rightarrow> ok \<and> v = node_value nx \<and> \<not> IsDomain v \<and> IPs v \<noteq> []
                 | None \<Rightarrow> \<not> ok \<and> IsDomain v \<and> Domain v = x)))"
proof (cases "Trie_Search tree domain")
  case None
  then show ?thesis by (auto simp: Hosts_Search_def alias_of_def split: option.splits)
next
  case (Some nd)
  obtain m where m: "n = Suc m" using e(2) by (cases n) auto
  show ?thesis
  proof (cases isDomain)
    case True
    have "hv_made (node_value nd)" using t(3) Some by (simp add: tree_made_def)
    then show ?thesis using Some True m by (auto simp: Hosts_Search_def alias_of_def hv_made_def)
  next
    case False
    then have "\<not> circles tree domain" using e(1) by simp
    then have "hop tree (Suc (length rules)) domain = None" using hops_circle [OF t(1,2)] by blast
    then obtain k x where k: "k \<le> length rules" "hop tree k domain = Some x" "alias_of tree x = None"
      using hop_last by blast
    have reach: "(aliases tree)\<^sup>*\<^sup>* domain x" using k(2) hop_aliases by blast
    have "k < n" using k(1) e(2) by simp
    note loop = search_loop_follows [OF t(3) Some k(2,3) this]
    show ?thesis
    proof (cases "Trie_Search tree x")
      case None
      then obtain v where "search_loop n tree False (node_value nd) = Done (v, False)" "IsDomain v" "Domain v = x"
        using loop by auto
      then show ?thesis using None Some False reach
        by (intro exI [of _ "Some v"] exI [of _ False]) (auto simp: Hosts_Search_def intro!: exI [of _ x])
    next
      case (Some nx)
      then have nx: "search_loop n tree False (node_value nd) = Done (node_value nx, True)" "\<not> IsDomain (node_value nx)"
        "IPs (node_value nx) \<noteq> []" using loop by (auto simp: hv_made_def)
      show ?thesis using nx Some \<open>Trie_Search tree domain = Some nd\<close> False reach
        by (intro exI [of _ "Some (node_value nx)"] exI [of _ True]) (auto simp: Hosts_Search_def intro!: exI [of _ x])
    qed
  qed
qed

text \<open>C38. A search in the static hosts of a configuration needs no more steps than there are entries, unless an address
  is searched for and following the mappings from the name comes back to a name met before: then, and only
  then, it never returns. When it returns for an address of a name that is mapped, the mappings lead to a last name:
  the answer is the value of its rule, with at least one address, so that drawing a random one is safe, or the last
  mapping, marked as not found, when there is no rule for that name.\<close>

theorem Hosts_Search_total:
  assumes "parseHosts f cfgs = Done (Some tree)"
  shows "((\<forall>n. Hosts_Search n cfg tree domain isDomain = Fuel) \<longleftrightarrow> \<not> isDomain \<and> circles tree domain)
    \<and> (isDomain \<or> \<not> circles tree domain \<longrightarrow>
        (\<forall>n > Suc (length cfgs). \<exists>hv ok. Hosts_Search n cfg tree domain isDomain = Done (hv, ok)
          \<and> (isDomain \<longrightarrow> hv = map_option node_value (Trie_Search tree domain) \<and> ok = (alias_of tree domain \<noteq> None))
          \<and> (\<not> isDomain \<and> Trie_Search tree domain \<noteq> None \<longrightarrow>
              (\<exists>x v. (aliases tree)\<^sup>*\<^sup>* domain x \<and> hv = Some v \<and>
                (case Trie_Search tree x of
                   Some nx \<Rightarrow> ok \<and> v = node_value nx \<and> \<not> IsDomain v \<and> IPs v \<noteq> []
                 | None \<Rightarrow> \<not> ok \<and> IsDomain v \<and> Domain v = x)))))"
proof -
  obtain rules where t: "wf_node tree" "entries tree = rule_map rules" "tree_made tree" "length rules = Suc (length cfgs)"
    using parseHosts_tree [OF assms] by blast
  note ends = Hosts_Search_returns [OF t(1-3), unfolded t(4)]
  have "(\<forall>n. Hosts_Search n cfg tree domain isDomain = Fuel) \<longleftrightarrow> \<not> isDomain \<and> circles tree domain"
  proof (cases "isDomain \<or> \<not> circles tree domain")
    case True
    obtain hv ok where "Hosts_Search (Suc (Suc (length cfgs))) cfg tree domain isDomain = Done (hv, ok)"
      using ends [OF True lessI, of cfg] by (elim exE conjE) (rule that)
    then have "Hosts_Search (Suc (Suc (length cfgs))) cfg tree domain isDomain \<noteq> Fuel" by simp
    with True show ?thesis by blast
  next
    case False
    then show ?thesis using Hosts_Search_circles [of tree domain _ cfg] by simp
  qed
  then show ?thesis by (rule conjI) (intro impI allI ends)
qed

lemma parsed_cases:
  assumes "(case r of Done (Some tree) \<Rightarrow> True | _ \<Rightarrow> False)"
  obtains tree where "r = Done (Some tree)"
  using assms that by (auto split: run.splits option.splits)

lemma Hosts_Search_total_witness:
  "(\<exists>tree. parseHosts 5 [(''b.io'', [''0.0.0.1'', ''0.0.0.2'']), (''a.io'', [''b.io'']), (''d.io'', [''d.io''])] = Done (Some tree)
    \<and> (\<exists>hv. Hosts_Search 5 \<lparr>DisableSystemHosts = True, UseSystemHosts = False, LookupStaticHost = (\<lambda>_. [])\<rparr> tree ''a.io'' False = Done (Some hv, True)
        \<and> IPs hv = [V4 1, V4 2])
    \<and> (\<forall>n. Hosts_Search n \<lparr>DisableSystemHosts = True, UseSystemHosts = False, LookupStaticHost = (\<lambda>_. [])\<rparr> tree ''d.io'' False = Fuel))"
proof -
  let ?cfg = "\<lparr>DisableSystemHosts = True, UseSystemHosts = False, LookupStaticHost = (\<lambda>_. [])\<rparr>"
  let ?cfgs = "[(''b.io'', [''0.0.0.1'', ''0.0.0.2'']), (''a.io'', [''b.io'']), (''d.io'', [''d.io''])]"
  have "(case parseHosts 5 ?cfgs of Done (Some tree) \<Rightarrow> True | _ \<Rightarrow> False)" by code_simp
  then obtain tree where p: "parseHosts 5 ?cfgs = Done (Some tree)" by (rule parsed_cases)
  have "case parseHosts 5 ?cfgs of Done (Some tree) \<Rightarrow> alias_of tree ''d.io'' = Some ''d.io'' | _ \<Rightarrow> False" by code_simp
  then have d: "alias_of tree ''d.io'' = Some ''d.io''" unfolding p by simp
  have "case parseHosts 5 ?cfgs of Done (Some tree) \<Rightarrow>
      Hosts_Search 5 ?cfg tree ''a.io'' False = Done (Some \<lparr>IsDomain = False, IPs = [V4 1, V4 2], Domain = ''''\<rparr>, True) | _ \<Rightarrow> False"
    by code_simp
  then have a: "Hosts_Search 5 ?cfg tree ''a.io'' False = Done (Some \<lparr>IsDomain = False, IPs = [V4 1, V4 2], Domain = ''''\<rparr>, True)"
    unfolding p by simp
  have "circles tree ''d.io''" unfolding circles_def
    using d by (intro exI [of _ "''d.io''"]) (auto simp: aliases_def)
  with Hosts_Search_total [OF p, of ?cfg "''d.io''" False]
  have f: "\<forall>n. Hosts_Search n ?cfg tree ''d.io'' False = Fuel" by simp
  show ?thesis by (intro exI [of _ tree] conjI p f exI [of _ "\<lparr>IsDomain = False, IPs = [V4 1, V4 2], Domain = ''''\<rparr>"]) (simp_all add: a)
qed

text \<open>The cycle check of \<^verbatim>\<open>parseHosts\<close> misses a host that is mapped to itself: the
  configuration is accepted, and a search for an address of that host, which every
  connection to it makes, never returns, whatever the fuel.
\<close>

theorem self_mapped_host_diverges:
  "(\<exists>tree. parse_hosts 5 newNode [(''a.io'', [''a.io''])] = Done (Some tree)
      \<and> (\<forall>n cfg. Hosts_Search n cfg tree ''a.io'' False = Fuel))"
proof -
  let ?hv = "\<lparr>IsDomain = True, IPs = [], Domain = ''a.io''\<rparr>"
  let ?tree = "Trie_Optimize (build [(''a.io'', ?hv)])"
  have v: "NewHostValue [''a.io''] = Some ?hv" by code_simp
  have e: "Trie_Search (newNode :: HostValue node) ''a.io'' = None" by code_simp
  have p: "parse_hosts 5 newNode [(''a.io'', [''a.io''])] = Done (Some ?tree)"
    by (simp add: parse_host_def v e numeral_eq_Suc build_def)
  have s: "map_option node_value (Trie_Search ?tree ''a.io'') = Some ?hv" by code_simp
  then obtain nd where nd: "Trie_Search ?tree ''a.io'' = Some nd" "node_value nd = ?hv" by auto
  have "search_loop n ?tree False ?hv = Fuel" for n
    by (induction n) (simp_all add: nd)
  then have "\<forall>n cfg. Hosts_Search n cfg ?tree ''a.io'' False = Fuel"
    by (simp add: Hosts_Search_def nd)
  with p show ?thesis by blast
qed

end
