(* ===== verification/Tunnel.thy ===== *)
theory Tunnel
  imports RuleLaws Hosts
begin

text \<open>
  The tunnel: \<^verbatim>\<open>tunnel/tunnel.go\<close>, \<^verbatim>\<open>tunnel/mode.go\<close>, \<^verbatim>\<open>tunnel/status.go\<close> and
  \<^verbatim>\<open>component/process/find_process_mode.go\<close>. The package variables that decide where a
  connection goes are a record \<open>tunnel\<close>, the services it asks (the proxies' own methods,
  the resolver, the process finder, the host mapper, the sniffer) a record \<open>services\<close>.
  \<open>route_tcp\<close> and \<open>route_udp\<close> are the parts of \<^verbatim>\<open>handleTCPConn\<close> and \<^verbatim>\<open>handleUDPConn\<close>
  up to the dial; the copying of bytes after it is not modelled.
\<close>

section \<open>Enumerations\<close>

datatype TunnelMode = Global | Rule | DirectMode

datatype TunnelStatus = Suspend | Inner | Running

datatype FindProcessMode = FindProcessStrict | FindProcessAlways | FindProcessOff

datatype AdapterType = Direct | Reject | RejectDrop | Compatible | Pass | PassRule | Dns
  | Relay | Selector | Fallback | URLTest | LoadBalance
  | Shadowsocks | ShadowsocksR | Snell | Socks5 | Http | Vmess | Vless | Trojan | Hysteria | Hysteria2
  | WireGuard | Tuic | Ssh | Mieru | AnyTLS | Sudoku | Masque | TrustTunnel | OpenVPN | Tailscale | GostRelay

fun TunnelMode_String :: "TunnelMode \<Rightarrow> string" where
  "TunnelMode_String Global = ''global''"
| "TunnelMode_String Rule = ''rule''"
| "TunnelMode_String DirectMode = ''direct''"

definition ModeMapping :: "string \<Rightarrow> TunnelMode option" where
  "ModeMapping = map_of (map (\<lambda>m. (TunnelMode_String m, m)) [Global, Rule, DirectMode])"

definition TunnelMode_UnmarshalText :: "string \<Rightarrow> TunnelMode option" where
  "TunnelMode_UnmarshalText text = ModeMapping (to_lower text)"

definition TunnelMode_MarshalText :: "TunnelMode \<Rightarrow> string" where
  "TunnelMode_MarshalText m = TunnelMode_String m"

fun TunnelStatus_String :: "TunnelStatus \<Rightarrow> string" where
  "TunnelStatus_String Suspend = ''suspend''"
| "TunnelStatus_String Inner = ''inner''"
| "TunnelStatus_String Running = ''running''"

definition StatusMapping :: "string \<Rightarrow> TunnelStatus option" where
  "StatusMapping = map_of (map (\<lambda>m. (TunnelStatus_String m, m)) [Suspend, Inner, Running])"

definition TunnelStatus_UnmarshalText :: "string \<Rightarrow> TunnelStatus option" where
  "TunnelStatus_UnmarshalText text = StatusMapping (to_lower text)"

definition TunnelStatus_MarshalText :: "TunnelStatus \<Rightarrow> string" where
  "TunnelStatus_MarshalText s = TunnelStatus_String s"

fun FindProcessMode_String :: "FindProcessMode \<Rightarrow> string" where
  "FindProcessMode_String FindProcessAlways = ''always''"
| "FindProcessMode_String FindProcessStrict = ''strict''"
| "FindProcessMode_String FindProcessOff = ''off''"

definition FindProcessMode_Set :: "string \<Rightarrow> FindProcessMode option" where
  "FindProcessMode_Set value = map_of (map (\<lambda>m. (FindProcessMode_String m, m))
     [FindProcessStrict, FindProcessAlways, FindProcessOff]) (to_lower value)"

section \<open>The tunnel and its services\<close>

record 'p tunnel =
  status :: TunnelStatus
  rules :: "rule list"
  subRuleLists :: "(string \<times> rule list) list"
  proxies :: "string \<Rightarrow> 'p option"
  mode :: TunnelMode
  findProcessMode :: FindProcessMode
  sniffingEnable :: bool

record 'p services =
  ruleEnv :: env
  proxyType :: "'p \<Rightarrow> AdapterType"
  supportUDP :: "'p \<Rightarrow> bool"
  unwrap :: "'p \<Rightarrow> Metadata \<Rightarrow> 'p option"
  resolveIP :: "string \<Rightarrow> addr option"
  findProcessName :: "string \<Rightarrow> addr \<Rightarrow> 16 word \<Rightarrow> (32 word \<times> string) option"
  findPackageName :: "Metadata \<Rightarrow> string option"
  CMFA :: bool
  mappingEnabled :: bool
  findHostByIP :: "addr \<Rightarrow> string option"
  isFakeIP :: "addr \<Rightarrow> bool"
  defaultHosts :: "HostValue node"
  hostSettings :: host_settings
  drawn :: nat
  dispatcherEnable :: bool
  tcpSniff :: "Metadata \<Rightarrow> Metadata \<times> bool"
  udpSniff :: "Metadata \<Rightarrow> Metadata option"

text \<open>The operations that replace a part of the tunnel's state.\<close>

definition OnSuspend :: "'p tunnel \<Rightarrow> 'p tunnel" where "OnSuspend t = t\<lparr>status := Suspend\<rparr>"
definition OnInnerLoading :: "'p tunnel \<Rightarrow> 'p tunnel" where "OnInnerLoading t = t\<lparr>status := Inner\<rparr>"
definition OnRunning :: "'p tunnel \<Rightarrow> 'p tunnel" where "OnRunning t = t\<lparr>status := Running\<rparr>"

definition UpdateRules :: "rule list \<Rightarrow> (string \<times> rule list) list \<Rightarrow> 'p tunnel \<Rightarrow> 'p tunnel" where
  "UpdateRules newRules newSubRule t = t\<lparr>rules := newRules, subRuleLists := newSubRule\<rparr>"

definition UpdateProxies :: "(string \<Rightarrow> 'p option) \<Rightarrow> 'p tunnel \<Rightarrow> 'p tunnel" where
  "UpdateProxies newProxies t = t\<lparr>proxies := newProxies\<rparr>"

definition SetMode :: "TunnelMode \<Rightarrow> 'p tunnel \<Rightarrow> 'p tunnel" where
  "SetMode m t = t\<lparr>mode := m\<rparr>"

definition SetFindProcessMode :: "FindProcessMode \<Rightarrow> 'p tunnel \<Rightarrow> 'p tunnel" where
  "SetFindProcessMode m t = t\<lparr>findProcessMode := m\<rparr>"

definition isHandle :: "'p tunnel \<Rightarrow> Type \<Rightarrow> bool" where
  "isHandle t ty \<longleftrightarrow> status t = Running \<or> (status t = Inner \<and> ty = INNER)"

section \<open>Preparing the metadata\<close>

definition fixMetadata :: "Metadata \<Rightarrow> Metadata" where
  "fixMetadata m0 =
     (let m = m0\<lparr>DstIP := Unmap (DstIP m0)\<rparr> in
      case ParseAddr (Host m) of
        Some ip \<Rightarrow> m\<lparr>DstIP := Unmap ip, Host := ''''\<rparr>
      | None \<Rightarrow> m)"

definition needLookupIP :: "'p services \<Rightarrow> Metadata \<Rightarrow> bool" where
  "needLookupIP sv m \<longleftrightarrow> mappingEnabled sv \<and> Host m = '''' \<and> IsValid (DstIP m)"

definition rand_ip :: "'p services \<Rightarrow> HostValue option \<Rightarrow> addr" where
  "rand_ip sv nd = (case nd of None \<Rightarrow> NoAddr
     | Some hv \<Rightarrow> (case RandIP (drawn sv) hv of Some ip \<Rightarrow> ip | None \<Rightarrow> NoAddr))"

text \<open>\<^verbatim>\<open>preHandleMetadata\<close>: \<open>Inl\<close> is the error for a fake address without a record.\<close>

definition preHandleMetadata :: "nat \<Rightarrow> 'p services \<Rightarrow> Metadata \<Rightarrow> (string + Metadata) run" where
  "preHandleMetadata n sv m =
     (if needLookupIP sv m then
        (case findHostByIP sv (DstIP m) of
           Some host \<Rightarrow>
             let m' = m\<lparr>Host := host, DNSMode := DNSMapping\<rparr> in
             if isFakeIP sv (DstIP m') then
               Done (Inr (m'\<lparr>DstIP := NoAddr, DNSMode := DNSFakeIP\<rparr>))
             else bind_run (Hosts_Search n (hostSettings sv) (defaultHosts sv) host False) (\<lambda>(nd, ok).
               if ok then Done (Inr (m'\<lparr>DstIP := rand_ip sv nd\<rparr>))
               else case nd of
                      Some hv \<Rightarrow> if IsDomain hv then Done (Inr (m'\<lparr>Host := Domain hv\<rparr>)) else Done (Inr m')
                    | None \<Rightarrow> Done (Inr m'))
         | None \<Rightarrow>
             if isFakeIP sv (DstIP m) then Done (Inl ''fake DNS record missing'') else Done (Inr m))
      else bind_run (Hosts_Search n (hostSettings sv) (defaultHosts sv) (Host m) True) (\<lambda>(nd, ok).
        if ok then Done (Inr (m\<lparr>Host := (case nd of Some hv \<Rightarrow> Domain hv | None \<Rightarrow> '''')\<rparr>))
        else Done (Inr m)))"

section \<open>Choosing a proxy\<close>

text \<open>The loops along \<^verbatim>\<open>Unwrap\<close>: from a group to the proxy it uses now, and so on. \<open>None\<close> says that the fuel was
  used up; \<open>chain_any_ends\<close> has an amount that is enough when no group leads back to itself.\<close>

fun chain_any :: "nat \<Rightarrow> ('p \<Rightarrow> 'p option) \<Rightarrow> ('p \<Rightarrow> bool) \<Rightarrow> 'p \<Rightarrow> bool option" where
  "chain_any 0 next p a = None"
| "chain_any (Suc n) next p a =
     (if p a then Some True else case next a of None \<Rightarrow> Some False | Some b \<Rightarrow> chain_any n next p b)"

text \<open>\<^verbatim>\<open>filepath.Base\<close> of a slash-separated path.\<close>

definition filepath_Base :: "string \<Rightarrow> string" where
  "filepath_Base path =
     (if path = '''' then ''.''
      else let p = trim_right ''/'' path in
        if p = '''' then ''/'' else rev (takeWhile (\<lambda>ch. ch \<noteq> CHR ''/'') (rev p)))"

text \<open>The three closures of \<^verbatim>\<open>resolveMetadata\<close>.\<close>

definition tunnel_ResolveIP :: "'p services \<Rightarrow> mstate \<Rightarrow> mstate" where
  "tunnel_ResolveIP sv st =
     (if \<not> resolved st \<and> Host (md st) \<noteq> '''' \<and> \<not> Resolved (md st) then
        let st = (case resolveIP sv (Host (md st)) of
                    None \<Rightarrow> st
                  | Some ip \<Rightarrow> st\<lparr>md := (md st)\<lparr>DstIP := ip\<rparr>\<rparr>)
        in st\<lparr>resolved := True\<rparr>
      else st)"

definition with_package :: "'p services \<Rightarrow> Metadata \<Rightarrow> Metadata" where
  "with_package sv m = (case findPackageName sv m of None \<Rightarrow> m | Some pkg \<Rightarrow> m\<lparr>Process := pkg\<rparr>)"

definition tunnel_FindProcess :: "'p services \<Rightarrow> mstate \<Rightarrow> mstate" where
  "tunnel_FindProcess sv st =
     (if attemptProcessLookup st then
        let st = st\<lparr>attemptProcessLookup := False\<rparr>; m = md st in
        if \<not> CMFA sv then
          (case findProcessName sv (NetWork_String (NetWork m)) (SrcIP m) (SrcPort m) of
             None \<Rightarrow> st
           | Some (uid, path) \<Rightarrow>
               st\<lparr>md := with_package sv
                 (m\<lparr>Process := filepath_Base path, ProcessPath := path, Uid := uid\<rparr>)\<rparr>)
        else st\<lparr>md := with_package sv m\<rparr>
      else st)"

definition tunnel_CheckPassRule :: "nat \<Rightarrow> 'p services \<Rightarrow> 'p tunnel \<Rightarrow> mstate \<Rightarrow> string \<Rightarrow> bool option" where
  "tunnel_CheckPassRule n sv t st adapterName =
     (case proxies t adapterName of
        None \<Rightarrow> Some False
      | Some adapter \<Rightarrow> chain_any n (\<lambda>a. unwrap sv a (md st)) (\<lambda>a. proxyType sv a = PassRule) adapter)"

definition tunnel_helper :: "nat \<Rightarrow> 'p services \<Rightarrow> 'p tunnel \<Rightarrow> helper" where
  "tunnel_helper n sv t =
     \<lparr>ResolveIP = Some (tunnel_ResolveIP sv),
      FindProcess = (if findProcessMode t = FindProcessStrict then Some (tunnel_FindProcess sv) else None),
      CheckPassRule = Some (tunnel_CheckPassRule n sv t)\<rparr>"

definition tunnel_env :: "'p services \<Rightarrow> 'p tunnel \<Rightarrow> env" where
  "tunnel_env sv t = (ruleEnv sv)\<lparr>subRules := sub_lookup (subRuleLists t)\<rparr>"

definition getRules :: "'p tunnel \<Rightarrow> Metadata \<Rightarrow> rule list" where
  "getRules t m =
     (case map_of (subRuleLists t) (SpecialRules m) of Some sr \<Rightarrow> sr | None \<Rightarrow> rules t)"

text \<open>Whether \<^verbatim>\<open>match\<close> skips an adapter a rule named, by its three tests.\<close>

definition usable :: "nat \<Rightarrow> 'p services \<Rightarrow> 'p tunnel \<Rightarrow> Metadata \<Rightarrow> string \<Rightarrow> 'p option run" where
  "usable n sv t m ada =
     (case proxies t ada of
        None \<Rightarrow> Done None
      | Some adapter \<Rightarrow>
          (case chain_any n (\<lambda>a. unwrap sv a m) (\<lambda>a. proxyType sv a = Pass) adapter of
             None \<Rightarrow> Fuel
           | Some passed \<Rightarrow>
               if passed then Done None
               else if NetWork m = UDP \<and> \<not> supportUDP sv adapter then Done None
               else Done (Some adapter)))"

primrec match_rules :: "nat \<Rightarrow> 'p services \<Rightarrow> 'p tunnel \<Rightarrow> helper \<Rightarrow> rule list \<Rightarrow> mstate \<Rightarrow>
    (('p option \<times> rule option) \<times> mstate) run" where
  "match_rules n sv t h [] st = Done ((proxies t ''DIRECT'', None), st)"
| "match_rules n sv t h (rule # rest) st =
     bind_run (Match n (tunnel_env sv t) h rule st) (\<lambda>((matched, ada), st).
       if \<not> matched then match_rules n sv t h rest st
       else bind_run (usable n sv t (md st) ada) (\<lambda>u.
         case u of
           None \<Rightarrow> match_rules n sv t h rest st
         | Some adapter \<Rightarrow> Done ((Some adapter, Some rule), st)))"

definition tunnel_match :: "nat \<Rightarrow> 'p services \<Rightarrow> 'p tunnel \<Rightarrow> helper \<Rightarrow> mstate \<Rightarrow>
    (('p option \<times> rule option) \<times> mstate) run" where
  "tunnel_match n sv t h st = match_rules n sv t h (getRules t (md st)) st"

text \<open>\<^verbatim>\<open>resolveMetadata\<close>: the proxy (nil if the map has none), the rule, and the state; \<open>Inl\<close>
  for a special proxy that does not exist. The counters and disabled flags of the rule
  wrappers are part of the state.\<close>

definition resolveMetadata :: "nat \<Rightarrow> 'p services \<Rightarrow> 'p tunnel \<Rightarrow> mstate \<Rightarrow>
    ((string + 'p option \<times> rule option) \<times> mstate) run" where
  "resolveMetadata n sv t st0 =
     (let m = md st0 in
      if SpecialProxy m \<noteq> '''' then
        (case proxies t (SpecialProxy m) of
           None \<Rightarrow> Done (Inl (''proxy '' @ SpecialProxy m @ '' not found''), st0)
         | Some p \<Rightarrow> Done (Inr (Some p, None), st0))
      else bind_run (Hosts_Search n (hostSettings sv) (defaultHosts sv) (Host m) False) (\<lambda>(nd, ok).
        let st = (if ok then st0\<lparr>md := m\<lparr>DstIP := rand_ip sv nd\<rparr>, resolved := True\<rparr>
                  else st0\<lparr>resolved := False\<rparr>);
            st = st\<lparr>attemptProcessLookup := (Type m \<noteq> INNER)\<rparr>;
            st = (if findProcessMode t = FindProcessAlways then tunnel_FindProcess sv st else st)
        in case mode t of
             DirectMode \<Rightarrow> Done (Inr (proxies t ''DIRECT'', None), st)
           | Global \<Rightarrow> Done (Inr (proxies t ''GLOBAL'', None), st)
           | Rule \<Rightarrow> bind_run (tunnel_match n sv t (tunnel_helper n sv t) st) (\<lambda>(r, st). Done (Inr r, st))))"

section \<open>Routing a connection\<close>

datatype 'p route =
    NotHandled
  | NotValid
  | GivenUp
  | ParseFailed string
  | Dial "'p option" "rule option" Metadata

text \<open>The static hosts once more before a TCP dial: the metadata of the dial, and the state
  (\<^verbatim>\<open>dialMetadata\<close> is the same object as \<^verbatim>\<open>metadata\<close> until \<^verbatim>\<open>Pure\<close> copies it).\<close>

definition tcp_dial_metadata :: "nat \<Rightarrow> 'p services \<Rightarrow> mstate \<Rightarrow> (Metadata \<times> mstate) run" where
  "tcp_dial_metadata n sv st =
     (let m = md st in
      if length (Host m) > 0 then
        bind_run (Hosts_Search n (hostSettings sv) (defaultHosts sv) (Host m) False) (\<lambda>(nd, ok).
          if ok \<and> \<not> isFakeIP sv (rand_ip sv nd) then
            let m = m\<lparr>DstIP := rand_ip sv nd, DNSMode := DNSHosts\<rparr>
            in Done (Pure m, st\<lparr>md := m\<rparr>)
          else Done (m, st))
      else Done (m, st))"

text \<open>The sniffer may repair a connection whose preparation failed.\<close>

definition tcp_sniff :: "'p services \<Rightarrow> 'p tunnel \<Rightarrow> Metadata \<Rightarrow> bool \<Rightarrow> Metadata \<times> bool" where
  "tcp_sniff sv t m failed =
     (if sniffingEnable t \<and> dispatcherEnable sv then
        (let (m, sniffed) = tcpSniff sv m in (m, failed \<and> \<not> sniffed))
      else (m, failed))"

text \<open>\<^verbatim>\<open>handleTCPConn\<close> up to the dial; the metadata of the dial is the last component.\<close>

definition route_tcp :: "nat \<Rightarrow> 'p services \<Rightarrow> 'p tunnel \<Rightarrow> mstate \<Rightarrow> ('p route \<times> mstate) run" where
  "route_tcp n sv t st0 =
     (if \<not> isHandle t (Type (md st0)) then Done (NotHandled, st0)
      else if \<not> Valid (md st0) then Done (NotValid, st0)
      else
        let m = fixMetadata (md st0) in
        bind_run (preHandleMetadata n sv m) (\<lambda>r.
          let (m, failed) = (case r of Inl e \<Rightarrow> (m, True) | Inr m \<Rightarrow> (m, False));
              (m, failed) = tcp_sniff sv t m failed
          in if failed then Done (GivenUp, st0\<lparr>md := m\<rparr>)
             else bind_run (resolveMetadata n sv t (st0\<lparr>md := m\<rparr>)) (\<lambda>(res, st).
               case res of
                 Inl e \<Rightarrow> Done (ParseFailed e, st)
               | Inr (proxy, rule) \<Rightarrow>
                   bind_run (tcp_dial_metadata n sv st) (\<lambda>(m, st). Done (Dial proxy rule m, st)))))"

text \<open>\<^verbatim>\<open>handleUDPConn\<close> for a packet of a new flow, up to the dial: a check on a copy of the
  metadata first, then sniffing and the same steps on another copy.\<close>

definition route_udp :: "nat \<Rightarrow> 'p services \<Rightarrow> 'p tunnel \<Rightarrow> mstate \<Rightarrow> ('p route \<times> mstate) run" where
  "route_udp n sv t st0 =
     (if \<not> isHandle t (Type (md st0)) then Done (NotHandled, st0)
      else if \<not> Valid (md st0) then Done (NotValid, st0)
      else
        let m = fixMetadata (md st0) in
        bind_run (preHandleMetadata n sv m) (\<lambda>r.
          case r of
            Inl e \<Rightarrow> Done (GivenUp, st0\<lparr>md := m\<rparr>)
          | Inr _ \<Rightarrow>
              (case udpSniff sv m of
                 None \<Rightarrow> Done (ParseFailed ''DoSniff'', st0\<lparr>md := m\<rparr>)
               | Some m \<Rightarrow>
                   bind_run (preHandleMetadata n sv m) (\<lambda>r.
                     let m = (case r of Inl e \<Rightarrow> m | Inr m \<Rightarrow> m) in
                     bind_run (resolveMetadata n sv t (st0\<lparr>md := m\<rparr>)) (\<lambda>(res, st).
                       case res of
                         Inl e \<Rightarrow> Done (ParseFailed e, st)
                       | Inr (proxy, rule) \<Rightarrow> Done (Dial proxy rule (Pure (md st)), st))))))"

section \<open>Retrying a dial\<close>

datatype dial_error = ErrIPNotFound | ErrIPVersion | ErrIPv6Disabled | ErrReject | OtherError string

definition shouldStopRetry :: "dial_error \<Rightarrow> bool" where
  "shouldStopRetry e \<longleftrightarrow> e = ErrIPNotFound \<or> e = ErrIPVersion \<or> e = ErrIPv6Disabled \<or> e = ErrReject"

text \<open>\<^verbatim>\<open>retry\<close>: \<open>ft\<close> is the dial and \<open>wait\<close> says whether the pause ended before the context;
  both work on the caller's state. The number of attempts left counts down; \<open>prev\<close> is
  what the named results hold.\<close>

fun retry_loop :: "nat \<Rightarrow> ('s \<Rightarrow> (dial_error + 'a) \<times> 's) \<Rightarrow> ('s \<Rightarrow> bool \<times> 's) \<Rightarrow>
    (dial_error + 'a) option \<Rightarrow> 's \<Rightarrow> (dial_error + 'a) option \<times> 's" where
  "retry_loop 0 ft wait prev s = (prev, s)"
| "retry_loop (Suc i) ft wait prev s =
     (let (r, s) = ft s in
      case r of
        Inr t \<Rightarrow> (Some (Inr t), s)
      | Inl e \<Rightarrow>
          if shouldStopRetry e then (Some (Inl e), s)
          else let (ok, s) = wait s in
            if ok then retry_loop i ft wait (Some (Inl e)) s else (Some (Inl e), s))"

definition retry :: "('s \<Rightarrow> (dial_error + 'a) \<times> 's) \<Rightarrow> ('s \<Rightarrow> bool \<times> 's) \<Rightarrow> 's \<Rightarrow> (dial_error + 'a) option \<times> 's" where
  "retry ft wait s = retry_loop 10 ft wait None s"

end
