(* ===== verification/TunnelLaws.thy ===== *)
theory TunnelLaws
  imports Tunnel
begin

text \<open>
  Laws of the tunnel: which rule decides a connection, what routing may change in its
  metadata, that no fake address reaches the dial, when the process of a connection is
  looked up, and how often a dial is tried.
\<close>

section \<open>What matching may change\<close>

text \<open>The part of a connection that no rule changes, and the steps a rule may take: apart from
  the notes on geo codes, autonomous systems, the process and the counters, only the
  missing destination address, once, with the resolver's answer for the host.\<close>

definition conn_core :: "Metadata \<Rightarrow> Metadata \<Rightarrow> bool" where
  "conn_core a b \<longleftrightarrow> NetWork b = NetWork a \<and> Type b = Type a \<and> InIP b = InIP a \<and> InPort b = InPort a
     \<and> InName b = InName a \<and> InUser b = InUser a \<and> Host b = Host a \<and> DNSMode b = DNSMode a
     \<and> SpecialProxy b = SpecialProxy a \<and> SpecialRules b = SpecialRules a \<and> RemoteDst b = RemoteDst a
     \<and> DSCP b = DSCP a \<and> SniffHost b = SniffHost a"

definition conn_same :: "mstate \<Rightarrow> mstate \<Rightarrow> bool" where
  "conn_same a b \<longleftrightarrow> conn_core (md a) (md b) \<and> SrcIP (md b) = SrcIP (md a) \<and> DstIP (md b) = DstIP (md a)
     \<and> SrcPort (md b) = SrcPort (md a) \<and> DstPort (md b) = DstPort (md a)
     \<and> resolved b = resolved a \<and> disabled b = disabled a"

definition conn_step :: "'p services \<Rightarrow> mstate \<Rightarrow> mstate \<Rightarrow> bool" where
  "conn_step sv a b \<longleftrightarrow> conn_core (md a) (md b) \<and> SrcIP (md b) = SrcIP (md a)
     \<and> SrcPort (md b) = SrcPort (md a) \<and> DstPort (md b) = DstPort (md a) \<and> disabled b = disabled a
     \<and> (resolved a \<longrightarrow> resolved b)
     \<and> (DstIP (md b) = DstIP (md a) \<or>
        (\<not> IsValid (DstIP (md a)) \<and> \<not> resolved a \<and> resolved b \<and> Host (md a) \<noteq> '''' \<and>
         resolveIP sv (Host (md a)) = Some (DstIP (md b))))"

interpretation tunnel_frame: match_frame conn_same "conn_step sv" for sv :: "'p services"
proof (unfold_locales, goal_cases)
  case (3 a b c)
  then show ?case unfolding conn_step_def conn_core_def by metis
qed (auto simp: conn_same_def conn_step_def conn_core_def swap_md_def SwapSrcDst_def set_geo_codes_def
    Hit_def Miss_def)

lemma tunnel_FindProcess_same: "conn_same st (tunnel_FindProcess sv st)"
  by (auto simp: tunnel_FindProcess_def with_package_def conn_same_def conn_core_def Let_def
      split: option.splits)

lemma tunnel_ResolveIP_step: "conn_step sv st (tunnel_ResolveIP sv st)"
  by (auto simp: tunnel_ResolveIP_def conn_step_def conn_core_def Let_def Resolved_def split: option.splits)

lemma tunnel_helper_fine: "tunnel_frame.fine (tunnel_helper n sv t) (conn_step sv)"
  by (auto simp: tunnel_frame.fine_def tunnel_helper_def tunnel_ResolveIP_step tunnel_FindProcess_same
      split: if_splits)

lemma tunnel_Match_step:
  "Match n env (tunnel_helper k sv t) r st = Done (x, st') \<Longrightarrow> conn_step sv st st'"
  using tunnel_frame.Match_frame [OF tunnel_helper_fine] by blast

lemma conn_step_refl: "conn_step sv st st"
  by (simp add: conn_step_def conn_core_def)

lemma match_rules_step:
  "match_rules n sv t (tunnel_helper k sv t) rs st = Done (x, st') \<Longrightarrow> conn_step sv st st'"
proof (induction rs arbitrary: st)
  case Nil
  then show ?case by (simp add: conn_step_refl)
next
  case (Cons r rs)
  from Cons.prems obtain m ada s1 where m: "Match n (tunnel_env sv t) (tunnel_helper k sv t) r st = Done ((m, ada), s1)"
    by (auto simp: bind_run_Done_eq)
  have s1: "conn_step sv st s1" by (rule tunnel_Match_step [OF m])
  have "match_rules n sv t (tunnel_helper k sv t) rs s1 = Done (x, st') \<or> s1 = st'"
    using Cons.prems m by (auto simp: bind_run_Done_eq split: if_splits option.splits)
  with Cons.IH s1 show ?case using tunnel_frame.P_trans by blast
qed

lemma resolveMetadata_step:
  assumes "resolveMetadata n sv t st = Done (res, st')"
  shows "conn_core (md st) (md st') \<and> SrcIP (md st') = SrcIP (md st)
     \<and> SrcPort (md st') = SrcPort (md st) \<and> DstPort (md st') = DstPort (md st)
     \<and> (DstIP (md st') = DstIP (md st)
        \<or> (\<exists>nd. Hosts_Search n (hostSettings sv) (defaultHosts sv) (Host (md st)) False = Done (nd, True)
              \<and> DstIP (md st') = rand_ip sv nd)
        \<or> (\<not> IsValid (DstIP (md st)) \<and> resolveIP sv (Host (md st)) = Some (DstIP (md st'))))"
proof (cases "SpecialProxy (md st) = ''''")
  case False
  with assms have "st' = st" by (auto simp: resolveMetadata_def Let_def split: option.splits)
  then show ?thesis by (simp add: conn_core_def)
next
  case True
  with assms obtain nd ok where h: "Hosts_Search n (hostSettings sv) (defaultHosts sv) (Host (md st)) False = Done (nd, ok)"
    by (auto simp: resolveMetadata_def Let_def bind_run_Done_eq)
  define s1 where "s1 = (if ok then st\<lparr>md := (md st)\<lparr>DstIP := rand_ip sv nd\<rparr>, resolved := True\<rparr>
    else st\<lparr>resolved := False\<rparr>)\<lparr>attemptProcessLookup := (Type (md st) \<noteq> INNER)\<rparr>"
  define s2 where "s2 = (if findProcessMode t = FindProcessAlways then tunnel_FindProcess sv s1 else s1)"
  have s2: "conn_same s1 s2"
    by (simp add: s2_def tunnel_FindProcess_same tunnel_frame.P0_refl)
  have "st' = s2 \<or> (\<exists>x. tunnel_match n sv t (tunnel_helper n sv t) s2 = Done (x, st'))"
    using assms True h
    by (auto simp: resolveMetadata_def Let_def bind_run_Done_eq s2_def s1_def split: TunnelMode.splits)
  then have "conn_step sv s2 st'"
    using match_rules_step conn_step_refl unfolding tunnel_match_def by blast
  with s2 have "conn_step sv s1 st'"
    using tunnel_frame.P_trans tunnel_frame.P0_P by blast
  then show ?thesis
    using h by (cases ok) (auto simp: conn_step_def conn_core_def s1_def)
qed

text \<open>C5. Choosing a proxy for a connection changes none of its identity: network, type, source,
  ports, inbound, host, DNS mode and special fields are as before. A destination address
  that is known stays, unless the static hosts name one for the host; a missing one can
  only become the resolver's answer for the host.
\<close>

theorem resolveMetadata_frame:
  assumes "resolveMetadata n sv t st = Done (res, st')"
  shows "conn_core (md st) (md st') \<and> SrcIP (md st') = SrcIP (md st)
     \<and> SrcPort (md st') = SrcPort (md st) \<and> DstPort (md st') = DstPort (md st)
     \<and> (DstIP (md st') = DstIP (md st)
        \<or> (\<exists>nd. Hosts_Search n (hostSettings sv) (defaultHosts sv) (Host (md st)) False = Done (nd, True)
              \<and> DstIP (md st') = rand_ip sv nd)
        \<or> (\<not> IsValid (DstIP (md st)) \<and> resolveIP sv (Host (md st)) = Some (DstIP (md st'))))"
  using resolveMetadata_step [OF assms] .

section \<open>Which rule decides\<close>

text \<open>Going over rules that do not decide: a rule does not match, or it names an adapter that
  the tunnel skips.\<close>

inductive skips :: "nat \<Rightarrow> 'p services \<Rightarrow> 'p tunnel \<Rightarrow> helper \<Rightarrow> rule list \<Rightarrow> mstate \<Rightarrow> mstate \<Rightarrow> bool"
  for n sv t h where
  skips_Nil: "skips n sv t h [] st st"
| skips_Cons: "Match n (tunnel_env sv t) h r st = Done ((m, ada), st1) \<Longrightarrow>
     \<not> m \<or> usable n sv t (md st1) ada = Done None \<Longrightarrow> skips n sv t h rs st1 st2 \<Longrightarrow>
     skips n sv t h (r # rs) st st2"

inductive_cases skips_ConsE: "skips n sv t h (r # rs) st st'"
inductive_simps skips_Nil_iff [simp]: "skips n sv t h [] st st'"

lemma match_rules_skips:
  "skips n sv t h pre st st1 \<Longrightarrow> match_rules n sv t h (pre @ rs) st = match_rules n sv t h rs st1"
  by (induction rule: skips.induct) auto

lemma match_rules_Some:
  "match_rules n sv t h rs st = Done ((p, Some rule), st') \<Longrightarrow>
   \<exists>pre post st1 ada adapter. rs = pre @ rule # post \<and> skips n sv t h pre st st1
     \<and> Match n (tunnel_env sv t) h rule st1 = Done ((True, ada), st')
     \<and> usable n sv t (md st') ada = Done (Some adapter) \<and> p = Some adapter"
proof (induction rs arbitrary: st)
  case (Cons r rs)
  from Cons.prems obtain m ada s1 where m: "Match n (tunnel_env sv t) h r st = Done ((m, ada), s1)"
    by (auto simp: bind_run_Done_eq)
  show ?case
  proof (cases "m \<and> usable n sv t (md s1) ada \<noteq> Done None")
    case True
    with Cons.prems m obtain adapter where a: "m" "usable n sv t (md s1) ada = Done (Some adapter)"
      by (auto simp: bind_run_Done_eq split: option.splits)
    with Cons.prems m have "r = rule" "s1 = st'" "p = Some adapter" by auto
    with a m have "r # rs = [] @ rule # rs \<and> skips n sv t h [] st st
      \<and> Match n (tunnel_env sv t) h rule st = Done ((True, ada), st')
      \<and> usable n sv t (md st') ada = Done (Some adapter) \<and> p = Some adapter" by simp
    then show ?thesis by blast
  next
    case False
    with Cons.prems m have "match_rules n sv t h rs s1 = Done ((p, Some rule), st')"
      by (auto split: if_splits)
    from Cons.IH [OF this] obtain pre post st1 ada' adapter where
      *: "rs = pre @ rule # post" "skips n sv t h pre s1 st1"
        "Match n (tunnel_env sv t) h rule st1 = Done ((True, ada'), st')"
        "usable n sv t (md st') ada' = Done (Some adapter)" "p = Some adapter" by blast
    have "skips n sv t h (r # pre) st st1" using False by (intro skips_Cons [OF m _ *(2)]) blast
    with * show ?thesis by (metis append_Cons)
  qed
qed simp

lemma match_rules_None:
  "match_rules n sv t h rs st = Done ((p, None), st') \<Longrightarrow> skips n sv t h rs st st' \<and> p = proxies t ''DIRECT''"
proof (induction rs arbitrary: st)
  case (Cons r rs)
  from Cons.prems obtain m ada s1 where m: "Match n (tunnel_env sv t) h r st = Done ((m, ada), s1)"
    by (auto simp: bind_run_Done_eq)
  with Cons.prems have c: "\<not> m \<or> usable n sv t (md s1) ada = Done None"
    "match_rules n sv t h rs s1 = Done ((p, None), st')"
    by (auto simp: bind_run_Done_eq split: if_splits option.splits)
  then show ?case using Cons.IH m by (blast intro: skips_Cons)
qed (auto intro: skips_Nil)

text \<open>C1. The first rule that matches and names a usable adapter decides: the rules before it
  did not match or named an adapter that does not exist, leads to a pass adapter, or
  cannot carry UDP for a UDP connection. Only when every rule is skipped the connection
  goes to DIRECT without a rule.
\<close>

theorem tunnel_match_first:
  "tunnel_match n sv t h st = Done ((p, r), st') \<longleftrightarrow>
     (case r of
        None \<Rightarrow> skips n sv t h (getRules t (md st)) st st' \<and> p = proxies t ''DIRECT''
      | Some rule \<Rightarrow> \<exists>pre post st1 ada adapter. getRules t (md st) = pre @ rule # post
          \<and> skips n sv t h pre st st1
          \<and> Match n (tunnel_env sv t) h rule st1 = Done ((True, ada), st')
          \<and> usable n sv t (md st') ada = Done (Some adapter) \<and> p = Some adapter)"
proof (cases r)
  case None
  have "tunnel_match n sv t h st = Done ((p, None), st')"
    if "skips n sv t h (getRules t (md st)) st st'" "p = proxies t ''DIRECT''"
    using match_rules_skips [OF that(1), of "[]"] that(2) by (simp add: tunnel_match_def)
  with None match_rules_None show ?thesis unfolding tunnel_match_def by fastforce
next
  case (Some rule)
  have "tunnel_match n sv t h st = Done ((p, Some rule), st')"
    if "getRules t (md st) = pre @ rule # post" "skips n sv t h pre st st1"
      "Match n (tunnel_env sv t) h rule st1 = Done ((True, ada), st')"
      "usable n sv t (md st') ada = Done (Some adapter)" "p = Some adapter" for pre post st1 ada adapter
    using match_rules_skips [OF that(2), of "rule # post"] that by (simp add: tunnel_match_def)
  with Some match_rules_Some [of n sv t h "getRules t (md st)" st p rule st'] show ?thesis
    unfolding tunnel_match_def by auto
qed

section \<open>Every connection is decided\<close>

text \<open>The proxies that a chain of groups leads to, and the loops along it.\<close>

definition leads_to :: "'p services \<Rightarrow> Metadata \<Rightarrow> 'p \<Rightarrow> 'p \<Rightarrow> bool" where
  "leads_to sv m = (\<lambda>a b. unwrap sv a m = Some b)\<^sup>*\<^sup>*"

text \<open>No group leads back to itself: every step of a chain goes down, from less than \<open>d\<close>.\<close>

definition groups_end :: "'p services \<Rightarrow> 'p tunnel \<Rightarrow> ('p \<Rightarrow> nat) \<Rightarrow> nat \<Rightarrow> bool" where
  "groups_end sv t depth d \<longleftrightarrow> (\<forall>a b m. unwrap sv a m = Some b \<longrightarrow> depth b < depth a)
     \<and> (\<forall>name a. proxies t name = Some a \<longrightarrow> depth a < d)"

lemma chain_any_ends:
  assumes "\<And>a b. next a = Some b \<Longrightarrow> depth b < depth a"
  shows "depth a < n \<Longrightarrow> chain_any n next p a = Some (\<exists>b. (\<lambda>a b. next a = Some b)\<^sup>*\<^sup>* a b \<and> p b)"
proof (induction n arbitrary: a)
  case (Suc n)
  show ?case
  proof (cases "next a")
    case None
    then have "(\<lambda>a b. next a = Some b)\<^sup>*\<^sup>* a b \<longleftrightarrow> b = a" for b by (auto elim: converse_rtranclpE)
    with None show ?thesis by auto
  next
    case (Some c)
    then have "(\<lambda>a b. next a = Some b)\<^sup>*\<^sup>* a b \<longleftrightarrow> b = a \<or> (\<lambda>a b. next a = Some b)\<^sup>*\<^sup>* c b" for b
      by (auto elim: converse_rtranclpE intro: converse_rtranclp_into_rtranclp)
    moreover have "depth c < n" using assms [OF Some] Suc.prems by simp
    ultimately show ?thesis using Suc.IH Some by auto
  qed
qed simp

lemma chain_in_map:
  assumes "groups_end sv t depth d" "proxies t name = Some a" "d \<le> n"
  shows "chain_any n (\<lambda>a. unwrap sv a m) p a = Some (\<exists>b. leads_to sv m a b \<and> p b)"
proof -
  have down: "unwrap sv a m = Some b \<Longrightarrow> depth b < depth a" for a b
    using assms(1) unfolding groups_end_def by blast
  moreover have "depth a < n" using assms unfolding groups_end_def by (blast intro: less_le_trans)
  ultimately show ?thesis unfolding leads_to_def by (intro chain_any_ends [where depth = depth]) blast+
qed

lemma usable_decided:
  assumes "groups_end sv t depth d" "d \<le> n"
  shows "usable n sv t m ada =
    (case proxies t ada of
       None \<Rightarrow> Done None
     | Some a \<Rightarrow> Done (if (\<exists>b. leads_to sv m a b \<and> proxyType sv b = Pass) \<or> NetWork m = UDP \<and> \<not> supportUDP sv a
         then None else Some a))"
  by (cases "proxies t ada") (simp_all add: usable_def chain_in_map [OF assms(1) _ assms(2)])

lemma tunnel_helper_decided:
  assumes "groups_end sv t depth d" "d \<le> n"
  shows "checks_end (tunnel_helper n sv t)" "tunnel_helper n sv t = tunnel_helper d sv t"
proof -
  have "tunnel_CheckPassRule k sv t st name =
      (case proxies t name of None \<Rightarrow> Some False | Some a \<Rightarrow> Some (\<exists>b. leads_to sv (md st) a b \<and> proxyType sv b = PassRule))"
    if "d \<le> k" for k st name
    using chain_in_map [OF assms(1) _ that] by (auto simp: tunnel_CheckPassRule_def split: option.split)
  note check = this [OF assms(2)] this [OF order.refl]
  show "tunnel_helper n sv t = tunnel_helper d sv t" by (simp add: tunnel_helper_def check fun_eq_iff)
  have "tunnel_CheckPassRule n sv t st name \<noteq> None" for st name
    unfolding check(1) by (cases "proxies t name") simp_all
  then show "checks_end (tunnel_helper n sv t)" by (simp add: checks_end_def tunnel_helper_def)
qed

lemma match_rules_ends:
  assumes "groups_end sv t depth d" "d \<le> n" "d \<le> k"
    and "\<forall>r\<in>set rs. \<forall>st. Match n (tunnel_env sv t) h r st \<noteq> Fuel \<and> Match k (tunnel_env sv t) h r st = Match n (tunnel_env sv t) h r st"
  shows "match_rules n sv t h rs st \<noteq> Fuel \<and> match_rules k sv t h rs st = match_rules n sv t h rs st"
  using assms(4)
proof (induction rs arbitrary: st)
  case (Cons r rs)
  then have r: "Match n (tunnel_env sv t) h r st \<noteq> Fuel" "Match k (tunnel_env sv t) h r st = Match n (tunnel_env sv t) h r st"
    and rs: "match_rules n sv t h rs st \<noteq> Fuel \<and> match_rules k sv t h rs st = match_rules n sv t h rs st" for st by simp_all
  show ?case using r(1) rs usable_decided [OF assms(1,2)] usable_decided [OF assms(1,3)]
    by (cases "Match n (tunnel_env sv t) h r st") (auto simp: r(2) split: prod.split option.split)
qed simp

text \<open>The rules that \<open>getRules\<close> may give, together.\<close>

definition all_rules :: "'p tunnel \<Rightarrow> rule list" where
  "all_rules t = rules t @ concat (map snd (subRuleLists t))"

lemma getRules_all: "set (getRules t m) \<subseteq> set (all_rules t)"
  by (auto simp: getRules_def all_rules_def dest: map_of_SomeD split: option.splits)

text \<open>C37. Every connection is decided: when the sub-rules passed their check, the providers' own rules name no rule
  set, and no group leads back to itself, one amount of fuel is enough for every connection, and more of
  it changes nothing. An adapter that a rule chose is then in the proxy map, no proxy that its groups lead to is a pass
  adapter, and it supports UDP when the connection is UDP.
\<close>

theorem tunnel_match_decides:
  assumes "checked_refs (subRuleLists t) (tunnel_env sv t)" "verifySubRule (subRuleLists t) = None" "groups_end sv t depth d"
  shows "\<exists>n. \<forall>k\<ge>n. \<forall>st. tunnel_match k sv t (tunnel_helper k sv t) st \<noteq> Fuel
    \<and> tunnel_match k sv t (tunnel_helper k sv t) st = tunnel_match n sv t (tunnel_helper n sv t) st
    \<and> (\<forall>p rule st'. tunnel_match k sv t (tunnel_helper k sv t) st = Done ((p, Some rule), st') \<longrightarrow>
        rule \<in> set (getRules t (md st)) \<and> (\<exists>adapter ada. p = Some adapter \<and> proxies t ada = Some adapter
          \<and> (\<forall>b. leads_to sv (md st') adapter b \<longrightarrow> proxyType sv b \<noteq> Pass)
          \<and> (NetWork (md st') = UDP \<longrightarrow> supportUDP sv adapter)))"
proof -
  have "\<exists>n. \<forall>k\<ge>n. \<forall>r\<in>set rs. \<forall>h st. checks_end h \<longrightarrow> ends (Match k (tunnel_env sv t) h r st)" for rs
    using halts_all [of rs "tunnel_env sv t"] all_halt [OF assms(1,2)] by blast
  then obtain n0 where n0: "\<forall>k\<ge>n0. \<forall>r\<in>set (all_rules t). \<forall>h st. checks_end h \<longrightarrow> ends (Match k (tunnel_env sv t) h r st)" by blast
  define n where "n = max n0 d"
  have fuel: "tunnel_match k sv t (tunnel_helper k sv t) st \<noteq> Fuel
      \<and> tunnel_match k sv t (tunnel_helper k sv t) st = tunnel_match n sv t (tunnel_helper n sv t) st" if k: "n \<le> k" for k st
  proof -
    have d: "d \<le> n" "d \<le> k" "n0 \<le> n" using k by (simp_all add: n_def)
    note h = tunnel_helper_decided [OF assms(3)]
    have "Match n (tunnel_env sv t) (tunnel_helper d sv t) r st \<noteq> Fuel
        \<and> Match k (tunnel_env sv t) (tunnel_helper d sv t) r st = Match n (tunnel_env sv t) (tunnel_helper d sv t) r st"
      if "r \<in> set (getRules t (md st'))" for r st st'
      using n0 d(3) h(1) [of d] that getRules_all fuel_enough(1) [OF _ k] unfolding ends_def by blast
    then have "\<forall>r\<in>set (getRules t (md st)). \<forall>st. Match n (tunnel_env sv t) (tunnel_helper d sv t) r st \<noteq> Fuel
        \<and> Match k (tunnel_env sv t) (tunnel_helper d sv t) r st = Match n (tunnel_env sv t) (tunnel_helper d sv t) r st" by blast
    note ends = match_rules_ends [OF assms(3) d(1,2) this]
    show ?thesis unfolding tunnel_match_def h(2) [OF d(1)] h(2) [OF d(2)] using ends [of st] by simp
  qed
  have safe: "rule \<in> set (getRules t (md st)) \<and> (\<exists>adapter ada. p = Some adapter \<and> proxies t ada = Some adapter
          \<and> (\<forall>b. leads_to sv (md st') adapter b \<longrightarrow> proxyType sv b \<noteq> Pass)
          \<and> (NetWork (md st') = UDP \<longrightarrow> supportUDP sv adapter))"
    if "n \<le> k" "tunnel_match k sv t (tunnel_helper k sv t) st = Done ((p, Some rule), st')" for k st p rule st'
  proof -
    have "d \<le> k" using that(1) by (simp add: n_def)
    with match_rules_Some [OF that(2) [unfolded tunnel_match_def]] show ?thesis
      by (auto simp: usable_decided [OF assms(3)] split: option.splits if_splits)
  qed
  show ?thesis using fuel safe by blast
qed

section \<open>A concrete tunnel\<close>

text \<open>Proxies are their own names here; \<open>curl\<close> runs on the source 10.0.0.1.\<close>

definition demo_services :: "string services" where
  "demo_services =
     \<lparr>ruleEnv = empty_env, proxyType = (\<lambda>p. if p = ''DIRECT'' then Direct else Shadowsocks),
      supportUDP = (\<lambda>p. p = ''DIRECT''), unwrap = (\<lambda>p m. None),
      resolveIP = (\<lambda>h. if h = ''a.io'' then Some (V4 0x08080808) else None),
      findProcessName = (\<lambda>net ip port. if ip = V4 0x0a000001 then Some (1000, ''/usr/bin/curl'') else None),
      findPackageName = (\<lambda>m. None), CMFA = False, mappingEnabled = True,
      findHostByIP = (\<lambda>ip. if ip = V4 0xc6120005 then Some ''a.io'' else None),
      isFakeIP = (\<lambda>ip. case ip of V4 w \<Rightarrow> drop_bit 16 w = 0xc612 | _ \<Rightarrow> False),
      defaultHosts = newNode,
      hostSettings = \<lparr>DisableSystemHosts = True, UseSystemHosts = False, LookupStaticHost = (\<lambda>_. [])\<rparr>,
      drawn = 0, dispatcherEnable = False, tcpSniff = (\<lambda>m. (m, False)), udpSniff = Some\<rparr>"

definition demo_tunnel :: "rule list \<Rightarrow> string tunnel" where
  "demo_tunnel rs = \<lparr>status = Running, rules = rs, subRuleLists = [],
     proxies = map_of [(''DIRECT'', ''DIRECT''), (''PROXY'', ''PROXY''), (''REJECT'', ''REJECT'')],
     mode = Rule, findProcessMode = FindProcessStrict, sniffingEnable = False\<rparr>"

definition demo_state :: "Metadata \<Rightarrow> mstate" where
  "demo_state m = \<lparr>md = m, resolved = False, attemptProcessLookup = True, disabled = (\<lambda>_. False),
     hitCount = (\<lambda>_. 0), missCount = (\<lambda>_. 0)\<rparr>"

lemma newNode_search [simp]: "Trie_Search (newNode :: 'a node) d = None"
proof -
  have n: "\<not> inited (newNode :: 'a node)" by (simp add: newNode_def)
  have c: "getChild (newNode :: 'a node) s = None" for s by (simp add: newNode_def getChild_def)
  have "isEmpty (search (newNode :: 'a node) ps)" for ps
    by (cases ps) (simp_all add: isEmpty_def Let_def n c)
  then show ?thesis by (auto simp: Trie_Search_def Let_def split: option.splits)
qed

lemma demo_hosts [simp]:
  "Hosts_Search n (hostSettings demo_services) (defaultHosts demo_services) h b = Done (None, False)"
  by (simp add: demo_services_def Hosts_Search_def)

lemmas demo_defs = demo_services_def demo_tunnel_def demo_state_def empty_env_def zeroMetadata_def

definition final_md :: "('a \<times> mstate) run \<Rightarrow> Metadata option" where
  "final_md r = (case r of Done (x, st) \<Rightarrow> Some (md st) | _ \<Rightarrow> None)"

definition demo_routed :: "rule list \<Rightarrow> Metadata \<Rightarrow> ((string + string option \<times> rule option) \<times> mstate) run" where
  "demo_routed rs m = resolveMetadata 3 demo_services (demo_tunnel rs) (demo_state m)"

lemma resolveMetadata_frame_witness:
  "let m = the (final_md (demo_routed
       [IPCIDR \<lparr>prefix_addr = V4 0x08000000, prefix_bits = 8\<rparr> ''PROXY'' False False]
       (zeroMetadata\<lparr>Host := ''a.io''\<rparr>)))
   in Host m = ''a.io'' \<and> (DstIP m = NoAddr \<or> resolveIP demo_services ''a.io'' = Some (DstIP m))"
proof -
  let ?rs = "[IPCIDR \<lparr>prefix_addr = V4 0x08000000, prefix_bits = 8\<rparr> ''PROXY'' False False]"
  let ?m = "zeroMetadata\<lparr>Host := ''a.io''\<rparr>"
  have "map_option DstIP (final_md (demo_routed ?rs ?m)) = Some (V4 0x08080808)" by code_simp
  then obtain res st' where r: "demo_routed ?rs ?m = Done (res, st')"
    by (cases "demo_routed ?rs ?m") (auto simp: final_md_def)
  from resolveMetadata_frame [OF r [unfolded demo_routed_def]]
  have "Host (md st') = ''a.io'' \<and> (DstIP (md st') = NoAddr \<or> resolveIP demo_services ''a.io'' = Some (DstIP (md st')))"
    by (simp add: conn_core_def demo_state_def zeroMetadata_def)
  then show ?thesis by (simp add: r final_md_def)
qed

text \<open>A group that uses \<^verbatim>\<open>PROXY\<close>, and a sub-rule list.\<close>

lemma tunnel_match_decides_witness:
  "let sv = demo_services\<lparr>unwrap := (\<lambda>p m. if p = ''GROUP'' then Some ''PROXY'' else None)\<rparr>;
       t = (demo_tunnel [Logic ''(NETWORK,tcp)'' ''a'' RTSubRules [NetworkRule TCP ''a''], MatchRule ''GROUP''])
         \<lparr>subRuleLists := [(''a'', [DomainSuffix ''io'' ''GROUP''])], proxies := map_of [(''DIRECT'', ''DIRECT''), (''GROUP'', ''GROUP'')]\<rparr>
   in \<exists>n. \<forall>st. tunnel_match n sv t (tunnel_helper n sv t) st \<noteq> Fuel"
proof -
  let ?sv = "demo_services\<lparr>unwrap := (\<lambda>p m. if p = ''GROUP'' then Some ''PROXY'' else None)\<rparr>"
  let ?t = "(demo_tunnel [Logic ''(NETWORK,tcp)'' ''a'' RTSubRules [NetworkRule TCP ''a''], MatchRule ''GROUP''])
         \<lparr>subRuleLists := [(''a'', [DomainSuffix ''io'' ''GROUP''])], proxies := map_of [(''DIRECT'', ''DIRECT''), (''GROUP'', ''GROUP'')]\<rparr>"
  have "checked_refs (subRuleLists ?t) (tunnel_env ?sv ?t)"
    by (auto simp: checked_refs_def tunnel_env_def demo_services_def empty_env_def sub_lookup_def sub_flat_def split: if_splits)
  moreover have "verifySubRule (subRuleLists ?t) = None" by (simp add: verifySubRule_def)
  moreover have "groups_end ?sv ?t (\<lambda>p. if p = ''GROUP'' then 1 else 0) 2"
    by (auto simp: groups_end_def split: if_splits)
  ultimately show ?thesis using tunnel_match_decides [of ?t ?sv] unfolding Let_def by blast
qed

section \<open>Fake addresses\<close>

text \<open>\<^verbatim>\<open>preHandleMetadata\<close> fails exactly for a destination in the fake range without a
  record, when the connection has no host and mapping is on; a fake destination with a
  record is cleared and its host taken, whatever the static hosts say.
\<close>

theorem preHandle_fake:
  assumes "mappingEnabled sv" "Host m = ''''" "IsValid (DstIP m)" "isFakeIP sv (DstIP m)"
  shows "preHandleMetadata n sv m =
    (case findHostByIP sv (DstIP m) of
       None \<Rightarrow> Done (Inl ''fake DNS record missing'')
     | Some host \<Rightarrow> Done (Inr (m\<lparr>Host := host, DstIP := NoAddr, DNSMode := DNSFakeIP\<rparr>)))"
  using assms by (auto simp: preHandleMetadata_def needLookupIP_def Let_def split: option.splits)

lemma preHandle_fake_witness:
  "preHandleMetadata 0 demo_services (zeroMetadata\<lparr>DstIP := V4 0xc6120005\<rparr>) =
     Done (Inr (zeroMetadata\<lparr>Host := ''a.io'', DstIP := NoAddr, DNSMode := DNSFakeIP\<rparr>))"
proof -
  let ?m = "zeroMetadata\<lparr>DstIP := V4 0xc6120005\<rparr>"
  have "mappingEnabled demo_services" "Host ?m = ''''" "IsValid (DstIP ?m)" "isFakeIP demo_services (DstIP ?m)"
    "findHostByIP demo_services (DstIP ?m) = Some ''a.io''"
    by code_simp+
  then show ?thesis using preHandle_fake [of demo_services ?m 0] by simp
qed

text \<open>The answers of the resolver and of the static hosts lie outside the fake range.\<close>

definition real_answers :: "nat \<Rightarrow> 'p services \<Rightarrow> bool" where
  "real_answers n sv \<longleftrightarrow> \<not> isFakeIP sv NoAddr
     \<and> (\<forall>h ip. resolveIP sv h = Some ip \<longrightarrow> \<not> isFakeIP sv ip)
     \<and> (\<forall>h nd. Hosts_Search n (hostSettings sv) (defaultHosts sv) h False = Done (nd, True) \<longrightarrow>
          \<not> isFakeIP sv (rand_ip sv nd))"

lemma fixMetadata_host_or_ip:
  assumes "Host m = '''' \<or> DstIP m = NoAddr"
  shows "Host (fixMetadata m) = '''' \<or> DstIP (fixMetadata m) = NoAddr"
  using assms by (auto simp: fixMetadata_def Let_def split: option.splits)

lemma preHandle_real:
  assumes real: "real_answers n sv" and "mappingEnabled sv" "Host m = '''' \<or> DstIP m = NoAddr"
    and p: "preHandleMetadata n sv m = Done (Inr m')"
  shows "\<not> isFakeIP sv (DstIP m')"
proof (cases "needLookupIP sv m")
  case True
  show ?thesis
  proof (cases "findHostByIP sv (DstIP m)")
    case None
    with True p show ?thesis by (simp add: preHandleMetadata_def split: if_splits)
  next
    case (Some host)
    show ?thesis
    proof (cases "isFakeIP sv (DstIP m)")
      case True
      with \<open>needLookupIP sv m\<close> Some p real show ?thesis
        by (auto simp: preHandleMetadata_def real_answers_def)
    next
      case False
      with True Some p obtain nd ok where
        h: "Hosts_Search n (hostSettings sv) (defaultHosts sv) host False = Done (nd, ok)"
        by (auto simp: preHandleMetadata_def bind_run_Done_eq Let_def)
      show ?thesis
      proof (cases ok)
        case True
        with \<open>needLookupIP sv m\<close> Some False p h have "DstIP m' = rand_ip sv nd"
          by (auto simp: preHandleMetadata_def)
        with real h True show ?thesis by (simp add: real_answers_def)
      next
        case ok: False
        with \<open>needLookupIP sv m\<close> Some False p h have "DstIP m' = DstIP m"
          by (auto simp: preHandleMetadata_def Let_def split: option.splits if_splits)
        with False show ?thesis by simp
      qed
    qed
  qed
next
  case False
  with assms(2,3) have "DstIP m = NoAddr" by (auto simp: needLookupIP_def IsValid_def)
  moreover have "DstIP m' = DstIP m"
    using False p by (auto simp: preHandleMetadata_def bind_run_Done_eq split: if_splits)
  ultimately show ?thesis using real by (simp add: real_answers_def)
qed

lemma Pure_DstIP [simp]: "DstIP (Pure m) = DstIP m"
  by (simp add: Pure_def)

lemma resolve_real:
  assumes "real_answers n sv" "\<not> isFakeIP sv (DstIP (md st))"
    and r: "resolveMetadata n sv t st = Done (res, st')"
  shows "\<not> isFakeIP sv (DstIP (md st'))"
  using resolveMetadata_step [OF r] assms(1,2) by (auto simp: real_answers_def)

lemma route_tcp_steps:
  assumes "\<not> sniffingEnable t"
    and "route_tcp n sv t st = Done (Dial proxy rule dialMetadata, st')"
  obtains m1 res st1 st2 where
    "preHandleMetadata n sv (fixMetadata (md st)) = Done (Inr m1)"
    "resolveMetadata n sv t (st\<lparr>md := m1\<rparr>) = Done (res, st1)"
    "tcp_dial_metadata n sv st1 = Done (dialMetadata, st2)"
proof -
  from assms(2) obtain x where x: "preHandleMetadata n sv (fixMetadata (md st)) = Done x"
    by (auto simp: route_tcp_def Let_def bind_run_Done_eq split: if_splits)
  with assms obtain m1 where m1: "x = Inr m1"
    by (cases x) (auto simp: route_tcp_def tcp_sniff_def split: if_splits)
  with x assms obtain res st1 where r: "resolveMetadata n sv t (st\<lparr>md := m1\<rparr>) = Done (res, st1)"
    by (auto simp: route_tcp_def tcp_sniff_def bind_run_Done_eq split: if_splits)
  with x m1 assms obtain p r' where "res = Inr (p, r')"
    by (cases res) (auto simp: route_tcp_def tcp_sniff_def split: if_splits)
  with x m1 r assms have "\<exists>st2. tcp_dial_metadata n sv st1 = Done (dialMetadata, st2)"
    by (auto simp: route_tcp_def tcp_sniff_def bind_run_Done_eq split: if_splits)
  with x m1 r that show ?thesis by blast
qed

text \<open>No connection is dialled to a fake address: when mapping is on, a connection that
  came in with a host or an address, and is not sniffed, reaches the dial with a
  destination outside the fake range, provided the resolver and the static hosts answer
  outside it.
\<close>

theorem route_tcp_no_fake:
  assumes "real_answers n sv" "mappingEnabled sv" "\<not> sniffingEnable t"
    and "Host (md st) = '''' \<or> DstIP (md st) = NoAddr"
    and "route_tcp n sv t st = Done (Dial proxy rule dialMetadata, st')"
  shows "\<not> isFakeIP sv (DstIP dialMetadata)"
proof -
  let ?m = "fixMetadata (md st)"
  obtain m1 res st1 st2 where
    p: "preHandleMetadata n sv ?m = Done (Inr m1)"
    and r: "resolveMetadata n sv t (st\<lparr>md := m1\<rparr>) = Done (res, st1)"
    and d: "tcp_dial_metadata n sv st1 = Done (dialMetadata, st2)"
    using assms(3,5) by (rule route_tcp_steps)
  have "\<not> isFakeIP sv (DstIP m1)"
    using preHandle_real [OF assms(1,2) fixMetadata_host_or_ip [OF assms(4)] p] .
  then have "\<not> isFakeIP sv (DstIP (md st1))" using resolve_real [OF assms(1) _ r] by simp
  with d show ?thesis
    by (auto simp: tcp_dial_metadata_def Let_def bind_run_Done_eq split: if_splits)
qed

lemma route_tcp_no_fake_witness:
  "\<exists>proxy rule m st'. route_tcp 3 demo_services (demo_tunnel [MatchRule ''PROXY''])
      (demo_state (zeroMetadata\<lparr>DstIP := V4 0xc6120005\<rparr>)) = Done (Dial proxy rule m, st')
    \<and> \<not> isFakeIP demo_services (DstIP m)"
proof -
  let ?t = "demo_tunnel [MatchRule ''PROXY'']" and ?st = "demo_state (zeroMetadata\<lparr>DstIP := V4 0xc6120005\<rparr>)"
  have "(case route_tcp 3 demo_services ?t ?st of Done (Dial p r m, st') \<Rightarrow> True | _ \<Rightarrow> False)"
    by code_simp
  then obtain p r m st' where d: "route_tcp 3 demo_services ?t ?st = Done (Dial p r m, st')"
    by (auto split: run.splits prod.splits route.splits)
  have "real_answers 3 demo_services"
    unfolding real_answers_def demo_hosts by (auto simp: demo_services_def)
  moreover have "mappingEnabled demo_services" by (simp add: demo_services_def)
  moreover have "\<not> sniffingEnable ?t" by (simp add: demo_tunnel_def)
  moreover have "Host (md ?st) = ''''" by (simp add: demo_state_def zeroMetadata_def)
  ultimately show ?thesis using route_tcp_no_fake [OF _ _ _ _ d] d by blast
qed


text \<open>After \<^verbatim>\<open>fixMetadata\<close> a connection has no mapped destination and no host that is the
  text of an address: what was such a text is the destination, and a second call changes
  nothing.
\<close>

theorem fixMetadata_normal:
  "ParseAddr (Host (fixMetadata m)) = None
   \<and> Unmap (DstIP (fixMetadata m)) = DstIP (fixMetadata m)
   \<and> fixMetadata (fixMetadata m) = fixMetadata m
   \<and> (\<forall>ip. ParseAddr (Host m) = Some ip \<longrightarrow> DstIP (fixMetadata m) = Unmap ip)
   \<and> (Valid (fixMetadata m) \<longleftrightarrow> Valid m)"
proof -
  have e: "ParseAddr '''' = None" by (simp add: ParseAddr_def)
  have v: "ip \<noteq> NoAddr" if "ParseAddr s = Some ip" for s ip
    using that by (auto simp: ParseAddr_def parse_v6_def Let_def split: option.splits if_splits list.splits)
  show ?thesis
    using e v by (auto simp: fixMetadata_def Let_def Valid_def IsValid_def split: option.splits)
qed

lemma fixMetadata_normal_witness:
  "DstIP (fixMetadata (zeroMetadata\<lparr>Host := ''0.0.0.1''\<rparr>)) = V4 1"
proof -
  have "ParseAddr ''0.0.0.1'' = Some (V4 1)" by code_simp
  then have "ParseAddr (Host (zeroMetadata\<lparr>Host := ''0.0.0.1''\<rparr>)) = Some (V4 1)" by simp
  then have "DstIP (fixMetadata (zeroMetadata\<lparr>Host := ''0.0.0.1''\<rparr>)) = Unmap (V4 1)"
    using fixMetadata_normal [of "zeroMetadata\<lparr>Host := ''0.0.0.1''\<rparr>"] by blast
  then show ?thesis by (simp add: Unmap_def)
qed

section \<open>Retrying\<close>

text \<open>The dial with a counter of its calls.\<close>

definition counted :: "('s \<Rightarrow> 'r \<times> 's) \<Rightarrow> 's \<times> nat \<Rightarrow> 'r \<times> ('s \<times> nat)" where
  "counted ft sc = (let (r, s) = ft (fst sc) in (r, (s, snd sc + 1)))"

definition uncounted :: "('s \<Rightarrow> bool \<times> 's) \<Rightarrow> 's \<times> nat \<Rightarrow> bool \<times> ('s \<times> nat)" where
  "uncounted wait sc = (let (ok, s) = wait (fst sc) in (ok, (s, snd sc)))"

lemma counted_simps:
  "ft s = (r, s1) \<Longrightarrow> counted ft (s, c) = (r, (s1, c + 1))"
  "wait s = (ok, s2) \<Longrightarrow> uncounted wait (s, c) = (ok, (s2, c))"
  by (simp_all add: counted_def uncounted_def)

lemma retry_loop_counted:
  "0 < i \<Longrightarrow> retry_loop i (counted ft) (uncounted wait) prev (s, c) = (r, (s', c')) \<Longrightarrow>
   c < c' \<and> c' \<le> c + i \<and> r \<noteq> None \<and> retry_loop i ft wait prev s = (r, s')
   \<and> ((\<forall>s. fst (wait s)) \<longrightarrow> (\<forall>e. r = Some (Inl e) \<longrightarrow> shouldStopRetry e \<or> c' = c + i))"
proof (induction i arbitrary: prev s c)
  case (Suc i)
  obtain x s1 where f: "ft s = (x, s1)" by fastforce
  show ?case
  proof (cases x)
    case (Inr t)
    with Suc.prems f show ?thesis by (auto simp: counted_simps)
  next
    case (Inl e)
    obtain ok s2 where w: "wait s1 = (ok, s2)" by fastforce
    show ?thesis
    proof (cases "shouldStopRetry e \<or> \<not> ok")
      case True
      with Suc.prems f Inl w show ?thesis
        by (auto simp: counted_simps) (metis fst_conv)+
    next
      case False
      show ?thesis
      proof (cases "i = 0")
        case True
        with False Suc.prems f Inl w show ?thesis by (auto simp: counted_simps)
      next
        case i: False
        with False Suc.prems f Inl w have
          "retry_loop i (counted ft) (uncounted wait) (Some (Inl e)) (s2, c + 1) = (r, (s', c'))"
          by (simp add: counted_simps)
        from Suc.IH [OF _ this] i False f Inl w show ?thesis by auto
      qed
    qed
  qed
qed simp

text \<open>A dial is tried at least once and at most ten times; the result is always a success
  or an error, and an error that does not forbid retrying is only returned after ten
  attempts, unless a pause was cut short by the context.
\<close>

theorem retry_bounds:
  assumes "retry (counted ft) (uncounted wait) (s, 0) = (r, (s', attempts))"
  shows "1 \<le> attempts \<and> attempts \<le> 10 \<and> r \<noteq> None \<and> retry ft wait s = (r, s')
    \<and> ((\<forall>s. fst (wait s)) \<longrightarrow> (\<forall>e. r = Some (Inl e) \<longrightarrow> shouldStopRetry e \<or> attempts = 10))"
  using retry_loop_counted [of 10 ft wait None s 0 r s' attempts] assms by (auto simp: retry_def)

lemma retry_bounds_witness:
  "snd (snd (retry (counted (\<lambda>s :: nat. (if s < 3 then Inl (OtherError ''refused'') else Inr s, s + 1)))
     (uncounted (\<lambda>s. (True, s))) (0, 0))) \<le> 10"
proof -
  let ?ft = "\<lambda>s :: nat. (if s < 3 then Inl (OtherError ''refused'') else Inr s, s + 1)"
  let ?w = "\<lambda>s :: nat. (True, s)"
  obtain r s' a where r: "retry (counted ?ft) (uncounted ?w) (0, 0) = (r, (s', a))"
    by (rule prod_cases3)
  have "a \<le> 10" using retry_bounds [OF r] by blast
  then show ?thesis unfolding r by (simp only: snd_conv)
qed

section \<open>The process of a connection\<close>

definition apps_services :: "string services" where
  "apps_services = demo_services\<lparr>ruleEnv := empty_env\<lparr>ruleProviders :=
     (\<lambda>p. if p = ''apps'' then Some (Classical [ProcessRule ''wget'' '''' RTProcessName]) else None)\<rparr>\<rparr>"

definition chosen :: "rule list \<Rightarrow> Metadata \<Rightarrow> string option" where
  "chosen rs m =
     (case resolveMetadata 4 apps_services (demo_tunnel rs) (demo_state m) of
        Done (Inr (p, r), st) \<Rightarrow> p | _ \<Rightarrow> None)"

text \<open>A source rule set spoils the process lookup: with \<^verbatim>\<open>RULE-SET,apps,REJECT,src\<close> before it,
  a process rule no longer matches the process that it matches on its own, because the
  rule set's process rules look the process up with source and destination swapped, and
  the lookup is not repeated.
\<close>

theorem source_rule_set_loses_process:
  "let m = zeroMetadata\<lparr>SrcIP := V4 0x0a000001, DstIP := V4 0x08080808\<rparr>;
       process = ProcessRule ''curl'' ''PROXY'' RTProcessName;
       apps = RuleSet ''apps'' ''REJECT'' True False
   in chosen [process] m = Some ''PROXY''
      \<and> chosen [apps] m = Some ''DIRECT''
      \<and> chosen [apps, process] m = Some ''DIRECT''"
  by code_simp

section \<open>Texts of the enumerations\<close>

text \<open>The texts of the tunnel's mode and status, of the process mode and of the DNS mode are
  read back to the same value in any case of letters, and nothing else is accepted.
\<close>

theorem enum_texts:
  "(TunnelMode_UnmarshalText text = Some m \<longleftrightarrow> to_lower text = TunnelMode_MarshalText m)
   \<and> (TunnelStatus_UnmarshalText text = Some s \<longleftrightarrow> to_lower text = TunnelStatus_MarshalText s)
   \<and> (FindProcessMode_Set text = Some f \<longleftrightarrow> to_lower text = FindProcessMode_String f)
   \<and> (DNSMode_UnmarshalText text = Some d \<longleftrightarrow> to_lower text = DNSMode_String d \<and> d \<noteq> DNSHosts)"
proof (intro conjI)
  show "TunnelMode_UnmarshalText text = Some m \<longleftrightarrow> to_lower text = TunnelMode_MarshalText m"
    by (cases m) (auto simp: TunnelMode_UnmarshalText_def ModeMapping_def TunnelMode_MarshalText_def)
  show "TunnelStatus_UnmarshalText text = Some s \<longleftrightarrow> to_lower text = TunnelStatus_MarshalText s"
    by (cases s) (auto simp: TunnelStatus_UnmarshalText_def StatusMapping_def TunnelStatus_MarshalText_def)
  show "FindProcessMode_Set text = Some f \<longleftrightarrow> to_lower text = FindProcessMode_String f"
    by (cases f) (auto simp: FindProcessMode_Set_def)
  show "DNSMode_UnmarshalText text = Some d \<longleftrightarrow> to_lower text = DNSMode_String d \<and> d \<noteq> DNSHosts"
    by (cases d) (auto simp: DNSMode_UnmarshalText_def DNSModeMapping_def)
qed

end
