(* ===== verification/Lru.thy ===== *)
theory Lru
  imports Prelude
begin

text \<open>
  The LRU cache of \<^verbatim>\<open>common/lru/lrucache.go\<close>. The doubly linked list it is built on is the
  package \<^verbatim>\<open>generic-list-go\<close>, which is not part of the repository: its operations are the
  fields of a record \<open>list_pkg\<close>, and the locale \<open>list_laws\<close> states what its documentation
  promises, through the sequence \<open>elems\<close> of handles and values of a list. Reading and
  writing an entry through its pointer are the fields \<open>l_Value\<close> and \<open>l_Update\<close>.

  The current time in seconds is an argument of the operations that read it. The calls of
  the evict callback are recorded, in order, in \<open>evictions\<close>. \<^verbatim>\<open>CloneTo\<close>, after which two
  caches share their entries, is not modelled.
\<close>

record ('l, 'h, 'e) list_pkg =
  l_New :: 'l
  l_PushBack :: "'l \<Rightarrow> 'e \<Rightarrow> 'l \<times> 'h"
  l_MoveToBack :: "'l \<Rightarrow> 'h \<Rightarrow> 'l"
  l_Remove :: "'l \<Rightarrow> 'h \<Rightarrow> 'l"
  l_Front :: "'l \<Rightarrow> 'h option"
  l_Len :: "'l \<Rightarrow> nat"
  l_Value :: "'l \<Rightarrow> 'h \<Rightarrow> 'e option"
  l_Update :: "'l \<Rightarrow> 'h \<Rightarrow> 'e \<Rightarrow> 'l"

record ('k, 'v) entry =
  key :: 'k
  val :: 'v
  expires :: int

record ('k, 'v, 'l, 'h) LruCache =
  maxAge :: int
  maxSize :: int
  cache :: "'k \<Rightarrow> 'h option"
  lru :: 'l
  updateAgeOnGet :: bool
  staleReturn :: bool
  onEvict :: bool
  evictions :: "('k \<times> 'v) list"

type_synonym ('k, 'v, 'l, 'h) lru_pkg = "('l, 'h, ('k, 'v) entry) list_pkg"

definition lru_New :: "('k, 'v, 'l, 'h) lru_pkg \<Rightarrow> int \<Rightarrow> int \<Rightarrow> bool \<Rightarrow> bool \<Rightarrow> bool \<Rightarrow> ('k, 'v, 'l, 'h) LruCache" where
  "lru_New pkg age cap update stale evict =
     \<lparr>maxAge = age, maxSize = cap, cache = Map.empty, lru = l_New pkg,
      updateAgeOnGet = update, staleReturn = stale, onEvict = evict, evictions = []\<rparr>"

definition lru_Clear :: "('k, 'v, 'l, 'h) lru_pkg \<Rightarrow> ('k, 'v, 'l, 'h) LruCache \<Rightarrow> ('k, 'v, 'l, 'h) LruCache" where
  "lru_Clear pkg c = c\<lparr>lru := l_New pkg, cache := Map.empty\<rparr>"

definition deleteElement :: "('k, 'v, 'l, 'h) lru_pkg \<Rightarrow> 'h \<Rightarrow> ('k, 'v, 'l, 'h) LruCache \<Rightarrow> ('k, 'v, 'l, 'h) LruCache" where
  "deleteElement pkg le c =
     (case l_Value pkg (lru c) le of
        None \<Rightarrow> c
      | Some e \<Rightarrow>
          let c = c\<lparr>lru := l_Remove pkg (lru c) le\<rparr>;
              c = c\<lparr>cache := (cache c)(key e := None)\<rparr>
          in if onEvict c then c\<lparr>evictions := evictions c @ [(key e, val e)]\<rparr> else c)"

text \<open>The loop of \<^verbatim>\<open>maybeDeleteOldest\<close> removes an element in every round, so as many rounds as
  the list is long are enough.\<close>

fun delete_oldest :: "nat \<Rightarrow> ('k, 'v, 'l, 'h) lru_pkg \<Rightarrow> int \<Rightarrow> ('k, 'v, 'l, 'h) LruCache \<Rightarrow> ('k, 'v, 'l, 'h) LruCache" where
  "delete_oldest 0 pkg now c = c"
| "delete_oldest (Suc n) pkg now c =
     (case l_Front pkg (lru c) of
        None \<Rightarrow> c
      | Some le \<Rightarrow>
          (case l_Value pkg (lru c) le of
             None \<Rightarrow> c
           | Some e \<Rightarrow> if expires e \<le> now then delete_oldest n pkg now (deleteElement pkg le c) else c))"

definition maybeDeleteOldest :: "('k, 'v, 'l, 'h) lru_pkg \<Rightarrow> int \<Rightarrow> ('k, 'v, 'l, 'h) LruCache \<Rightarrow> ('k, 'v, 'l, 'h) LruCache" where
  "maybeDeleteOldest pkg now c =
     (if \<not> staleReturn c \<and> maxAge c > 0 then delete_oldest (l_Len pkg (lru c)) pkg now c else c)"

definition setWithExpire :: "('k, 'v, 'l, 'h) lru_pkg \<Rightarrow> int \<Rightarrow> 'k \<Rightarrow> 'v \<Rightarrow> int \<Rightarrow>
    ('k, 'v, 'l, 'h) LruCache \<Rightarrow> ('k, 'v, 'l, 'h) LruCache" where
  "setWithExpire pkg now k v ex c =
     maybeDeleteOldest pkg now
       (case cache c k of
          Some le \<Rightarrow>
            let c = c\<lparr>lru := l_MoveToBack pkg (lru c) le\<rparr> in
            (case l_Value pkg (lru c) le of
               None \<Rightarrow> c
             | Some e \<Rightarrow> c\<lparr>lru := l_Update pkg (lru c) le (e\<lparr>val := v, expires := ex\<rparr>)\<rparr>)
        | None \<Rightarrow>
            let (l, le) = l_PushBack pkg (lru c) \<lparr>key = k, val = v, expires = ex\<rparr>;
                c = c\<lparr>lru := l, cache := (cache c)(k \<mapsto> le)\<rparr>
            in if maxSize c > 0 \<and> int (l_Len pkg (lru c)) > maxSize c then
                 (case l_Front pkg (lru c) of None \<Rightarrow> c | Some front \<Rightarrow> deleteElement pkg front c)
               else c)"

definition lru_set :: "('k, 'v, 'l, 'h) lru_pkg \<Rightarrow> int \<Rightarrow> 'k \<Rightarrow> 'v \<Rightarrow>
    ('k, 'v, 'l, 'h) LruCache \<Rightarrow> ('k, 'v, 'l, 'h) LruCache" where
  "lru_set pkg now k v c = setWithExpire pkg now k v (if maxAge c > 0 then now + maxAge c else 0) c"

definition lru_get :: "('k, 'v, 'l, 'h) lru_pkg \<Rightarrow> int \<Rightarrow> 'k \<Rightarrow>
    ('k, 'v, 'l, 'h) LruCache \<Rightarrow> ('k, 'v) entry option \<times> ('k, 'v, 'l, 'h) LruCache" where
  "lru_get pkg now k c =
     (case cache c k of
        None \<Rightarrow> (None, c)
      | Some le \<Rightarrow>
          (case l_Value pkg (lru c) le of
             None \<Rightarrow> (None, c)
           | Some e \<Rightarrow>
               if \<not> staleReturn c \<and> maxAge c > 0 \<and> expires e \<le> now then
                 (None, maybeDeleteOldest pkg now (deleteElement pkg le c))
               else
                 let c = c\<lparr>lru := l_MoveToBack pkg (lru c) le\<rparr> in
                 if maxAge c > 0 \<and> updateAgeOnGet c then
                   let e = e\<lparr>expires := now + maxAge c\<rparr>
                   in (Some e, c\<lparr>lru := l_Update pkg (lru c) le e\<rparr>)
                 else (Some e, c)))"

definition lru_Get :: "('k, 'v, 'l, 'h) lru_pkg \<Rightarrow> int \<Rightarrow> 'k \<Rightarrow>
    ('k, 'v, 'l, 'h) LruCache \<Rightarrow> 'v option \<times> ('k, 'v, 'l, 'h) LruCache" where
  "lru_Get pkg now k c = (let (el, c) = lru_get pkg now k c in (map_option val el, c))"

definition lru_GetOrStore :: "('k, 'v, 'l, 'h) lru_pkg \<Rightarrow> int \<Rightarrow> 'k \<Rightarrow> 'v \<Rightarrow>
    ('k, 'v, 'l, 'h) LruCache \<Rightarrow> ('v \<times> bool) \<times> ('k, 'v, 'l, 'h) LruCache" where
  "lru_GetOrStore pkg now k constructed c =
     (let (el, c) = lru_get pkg now k c in
      case el of
        None \<Rightarrow> ((constructed, False), lru_set pkg now k constructed c)
      | Some e \<Rightarrow> ((val e, True), c))"

definition lru_GetWithExpire :: "('k, 'v, 'l, 'h) lru_pkg \<Rightarrow> int \<Rightarrow> 'k \<Rightarrow>
    ('k, 'v, 'l, 'h) LruCache \<Rightarrow> ('v \<times> int) option \<times> ('k, 'v, 'l, 'h) LruCache" where
  "lru_GetWithExpire pkg now k c =
     (let (el, c) = lru_get pkg now k c in (map_option (\<lambda>e. (val e, expires e)) el, c))"

definition lru_Exist :: "'k \<Rightarrow> ('k, 'v, 'l, 'h) LruCache \<Rightarrow> bool" where
  "lru_Exist k c \<longleftrightarrow> cache c k \<noteq> None"

definition lru_Delete :: "('k, 'v, 'l, 'h) lru_pkg \<Rightarrow> 'k \<Rightarrow> ('k, 'v, 'l, 'h) LruCache \<Rightarrow> ('k, 'v, 'l, 'h) LruCache" where
  "lru_Delete pkg k c = (case cache c k of None \<Rightarrow> c | Some le \<Rightarrow> deleteElement pkg le c)"

definition lru_Compute :: "('k, 'v, 'l, 'h) lru_pkg \<Rightarrow> int \<Rightarrow> 'k \<Rightarrow> ('v option \<Rightarrow> 'v \<times> bool) \<Rightarrow>
    ('k, 'v, 'l, 'h) LruCache \<Rightarrow> 'v option \<times> ('k, 'v, 'l, 'h) LruCache" where
  "lru_Compute pkg now k valueFn c =
     (let (el, c) = lru_get pkg now k c;
          actual = map_option val el;
          (newValue, del) = valueFn actual
      in if del then (None, if actual \<noteq> None then lru_Delete pkg k c else c)
         else (Some newValue, lru_set pkg now k newValue c))"

section \<open>The list package\<close>

text \<open>\<open>ok\<close> holds of the lists that the operations make.\<close>

locale list_laws =
  fixes pkg :: "('l, 'h, 'e) list_pkg" and elems :: "'l \<Rightarrow> ('h \<times> 'e) list" and ok :: "'l \<Rightarrow> bool"
  assumes handles: "ok l \<Longrightarrow> distinct (map fst (elems l))"
    and New: "ok (l_New pkg)" "elems (l_New pkg) = []"
    and PushBack: "ok l \<Longrightarrow> l_PushBack pkg l e = (l', h) \<Longrightarrow>
      ok l' \<and> h \<notin> fst ` set (elems l) \<and> elems l' = elems l @ [(h, e)]"
    and MoveToBack: "ok l \<Longrightarrow> map_of (elems l) h = Some e \<Longrightarrow> ok (l_MoveToBack pkg l h) \<and>
      elems (l_MoveToBack pkg l h) = filter (\<lambda>he. fst he \<noteq> h) (elems l) @ [(h, e)]"
    and Remove: "ok l \<Longrightarrow> ok (l_Remove pkg l h) \<and>
      elems (l_Remove pkg l h) = filter (\<lambda>he. fst he \<noteq> h) (elems l)"
    and Front: "ok l \<Longrightarrow> l_Front pkg l = (case elems l of [] \<Rightarrow> None | he # _ \<Rightarrow> Some (fst he))"
    and Len: "ok l \<Longrightarrow> l_Len pkg l = length (elems l)"
    and Value: "ok l \<Longrightarrow> l_Value pkg l h = map_of (elems l) h"
    and Update: "ok l \<Longrightarrow> ok (l_Update pkg l h e) \<and>
      elems (l_Update pkg l h e) = map (\<lambda>he. (fst he, if fst he = h then e else snd he)) (elems l)"

text \<open>A list package exists: numbered values in an association list, the number being the
  handle.\<close>

definition slice_pkg :: "(nat \<times> (nat \<times> 'e) list, nat, 'e) list_pkg" where
  "slice_pkg =
     \<lparr>l_New = (0, []),
      l_PushBack = (\<lambda>l e. ((fst l + 1, snd l @ [(fst l, e)]), fst l)),
      l_MoveToBack = (\<lambda>l h. case map_of (snd l) h of None \<Rightarrow> l
        | Some e \<Rightarrow> (fst l, filter (\<lambda>he. fst he \<noteq> h) (snd l) @ [(h, e)])),
      l_Remove = (\<lambda>l h. (fst l, filter (\<lambda>he. fst he \<noteq> h) (snd l))),
      l_Front = (\<lambda>l. case snd l of [] \<Rightarrow> None | he # _ \<Rightarrow> Some (fst he)),
      l_Len = (\<lambda>l. length (snd l)),
      l_Value = (\<lambda>l h. map_of (snd l) h),
      l_Update = (\<lambda>l h e. (fst l, map (\<lambda>he. (fst he, if fst he = h then e else snd he)) (snd l)))\<rparr>"

definition slice_ok :: "nat \<times> (nat \<times> 'e) list \<Rightarrow> bool" where
  "slice_ok l \<longleftrightarrow> distinct (map fst (snd l)) \<and> (\<forall>he\<in>set (snd l). fst he < fst l)"

interpretation slice: list_laws slice_pkg snd slice_ok
proof (unfold_locales, goal_cases)
  case (4 l e l' h)
  then show ?case by (fastforce simp: slice_pkg_def slice_ok_def)
next
  case (5 l h e)
  then have "(h, e) \<in> set (snd l)" by (auto dest: map_of_SomeD)
  with 5 show ?case by (fastforce simp: slice_pkg_def slice_ok_def distinct_map_filter)
next
  case (10 l h e)
  then show ?case by (auto simp: slice_pkg_def slice_ok_def o_def)
qed (auto simp: slice_pkg_def slice_ok_def distinct_map_filter split: list.splits)

section \<open>The cache as an ordered list of entries\<close>

text \<open>The specification: entries from the least to the most recently used, with distinct
  keys.\<close>

definition remove_key :: "'k \<Rightarrow> ('k, 'v) entry list \<Rightarrow> ('k, 'v) entry list" where
  "remove_key k es = filter (\<lambda>e. key e \<noteq> k) es"

definition lookup_key :: "'k \<Rightarrow> ('k, 'v) entry list \<Rightarrow> ('k, 'v) entry option" where
  "lookup_key k es = List.find (\<lambda>e. key e = k) es"

definition spec_oldest :: "int \<Rightarrow> bool \<Rightarrow> int \<Rightarrow> ('k, 'v) entry list \<Rightarrow> ('k, 'v) entry list" where
  "spec_oldest age stale now es = (if \<not> stale \<and> age > 0 then dropWhile (\<lambda>e. expires e \<le> now) es else es)"

definition spec_set :: "int \<Rightarrow> int \<Rightarrow> bool \<Rightarrow> int \<Rightarrow> 'k \<Rightarrow> 'v \<Rightarrow> int \<Rightarrow> ('k, 'v) entry list \<Rightarrow> ('k, 'v) entry list" where
  "spec_set age cap stale now k v ex es =
     spec_oldest age stale now
       (let es' = remove_key k es @ [\<lparr>key = k, val = v, expires = ex\<rparr>]
        in if lookup_key k es = None \<and> cap > 0 \<and> int (length es') > cap then tl es' else es')"

definition spec_get :: "int \<Rightarrow> bool \<Rightarrow> bool \<Rightarrow> int \<Rightarrow> 'k \<Rightarrow> ('k, 'v) entry list \<Rightarrow>
    ('k, 'v) entry option \<times> ('k, 'v) entry list" where
  "spec_get age update stale now k es =
     (case lookup_key k es of
        None \<Rightarrow> (None, es)
      | Some e \<Rightarrow>
          if \<not> stale \<and> age > 0 \<and> expires e \<le> now then (None, spec_oldest age stale now (remove_key k es))
          else
            let e = (if age > 0 \<and> update then e\<lparr>expires := now + age\<rparr> else e)
            in (Some e, remove_key k es @ [e]))"

section \<open>The cache implements the specification\<close>

definition keymap :: "('h \<times> ('k, 'v) entry) list \<Rightarrow> 'k \<Rightarrow> 'h option" where
  "keymap xs = map_of (map (\<lambda>he. (key (snd he), fst he)) xs)"

lemma keymap_simps [simp]:
  "keymap [] = Map.empty"
  "keymap (he # xs) k = (if k = key (snd he) then Some (fst he) else keymap xs k)"
  by (auto simp: keymap_def)

lemma keymap_None: "keymap xs k = None \<longleftrightarrow> k \<notin> key ` snd ` set xs"
  by (induction xs) auto

lemma keymap_append: "keymap (xs @ ys) k = (case keymap xs k of Some h \<Rightarrow> Some h | None \<Rightarrow> keymap ys k)"
  by (induction xs) auto

lemma keymap_filter_key:
  "keymap (filter (\<lambda>he. key (snd he) \<noteq> k) xs) = (keymap xs)(k := None)"
  by (induction xs) (auto simp: fun_eq_iff)

lemma keymap_SomeD:
  "keymap xs k = Some h \<Longrightarrow> \<exists>e. (h, e) \<in> set xs \<and> key e = k"
  by (induction xs) (auto split: if_splits)

lemma filter_handle_key:
  assumes "distinct (map fst xs)" "distinct (map (key \<circ> snd) xs)" "(h, e) \<in> set xs"
  shows "filter (\<lambda>he. fst he \<noteq> h) xs = filter (\<lambda>he. key (snd he) \<noteq> key e) xs"
proof (rule filter_cong [OF refl])
  fix he assume he: "he \<in> set xs"
  have "inj_on fst (set xs)" "inj_on (key \<circ> snd) (set xs)"
    using assms(1,2) by (simp_all add: distinct_map)
  then have "fst he = fst (h, e) \<longleftrightarrow> he = (h, e)" "(key \<circ> snd) he = (key \<circ> snd) (h, e) \<longleftrightarrow> he = (h, e)"
    using he assms(3) by (simp_all only: inj_on_eq_iff)
  then show "fst he \<noteq> h \<longleftrightarrow> key (snd he) \<noteq> key e" by simp
qed

lemma map_snd_filter_key:
  "map snd (filter (\<lambda>he. key (snd he) \<noteq> k) xs) = remove_key k (map snd xs)"
  by (simp add: remove_key_def filter_map o_def)

lemma lookup_key_find: "lookup_key k (map snd xs) = map_option (\<lambda>h. the (map_of xs h)) (keymap xs k)"
  if "distinct (map fst xs)"
  using that
proof (induction xs)
  case (Cons he xs)
  have "map_of (he # xs) h = map_of xs h" if "keymap xs k = Some h" for h
    using keymap_SomeD [OF that] Cons.prems by (cases he) force
  with Cons show ?case by (cases "keymap xs k") (auto simp: lookup_key_def)
qed (simp add: lookup_key_def)

lemma remove_key_absent: "lookup_key k es = None \<Longrightarrow> remove_key k es = es"
  by (auto simp: lookup_key_def remove_key_def find_None filter_id_conv)

lemma length_spec_oldest: "length (spec_oldest age stale now es) \<le> length es"
  by (simp add: spec_oldest_def length_dropWhile_le)

lemma length_remove_key: "length (remove_key k es) \<le> length es"
  by (simp add: remove_key_def)

lemma length_remove_found: "lookup_key k es = Some e \<Longrightarrow> length (remove_key k es) < length es"
  by (auto simp: remove_key_def lookup_key_def intro!: length_filter_less dest!: find_SomeD)

lemma length_spec_set:
  assumes "cap > 0 \<longrightarrow> int (length es) \<le> cap"
  shows "cap > 0 \<longrightarrow> int (length (spec_set age cap stale now k v ex es)) \<le> cap"
proof
  assume p: "cap > 0"
  let ?es = "remove_key k es @ [\<lparr>key = k, val = v, expires = ex\<rparr>]"
  let ?es' = "if lookup_key k es = None \<and> cap > 0 \<and> int (length ?es) > cap then tl ?es else ?es"
  have "int (length ?es') \<le> cap"
  proof (cases "lookup_key k es")
    case None
    with p assms remove_key_absent [OF None] show ?thesis by (auto simp: nat_le_iff)
  next
    case (Some e)
    with p assms length_remove_found [OF Some] show ?thesis by simp
  qed
  then show "int (length (spec_set age cap stale now k v ex es)) \<le> cap"
    using length_spec_oldest [of age stale now ?es'] by (simp only: spec_set_def Let_def)
qed

lemma length_spec_get: "length (snd (spec_get age update stale now k es)) \<le> length es"
  using length_spec_oldest [of age stale now "remove_key k es"] length_remove_key [of k es] length_remove_found [of k es]
  by (cases "lookup_key k es") (fastforce simp: spec_get_def Let_def)+

text \<open>The calls of a client, with the time of each, and what the specification replies.\<close>

datatype ('k, 'v) lru_call =
    Get 'k
  | GetWithExpire 'k
  | GetOrStore 'k 'v
  | Exist 'k
  | Set 'k 'v
  | SetWithExpire 'k 'v int
  | Delete 'k
  | Compute 'k "'v option \<Rightarrow> 'v \<times> bool"
  | Clear

datatype 'v lru_reply = Unit | Found "'v option" | Dated "('v \<times> int) option" | Stored 'v bool | Bool bool

fun lru_step :: "('k, 'v, 'l, 'h) lru_pkg \<Rightarrow> int \<Rightarrow> ('k, 'v) lru_call \<Rightarrow> ('k, 'v, 'l, 'h) LruCache \<Rightarrow>
    'v lru_reply \<times> ('k, 'v, 'l, 'h) LruCache" where
  "lru_step pkg now (Get k) c = (let (r, c) = lru_Get pkg now k c in (Found r, c))"
| "lru_step pkg now (GetWithExpire k) c = (let (r, c) = lru_GetWithExpire pkg now k c in (Dated r, c))"
| "lru_step pkg now (GetOrStore k v) c =
     (let (r, c) = lru_GetOrStore pkg now k v c in (Stored (fst r) (snd r), c))"
| "lru_step pkg now (Exist k) c = (Bool (lru_Exist k c), c)"
| "lru_step pkg now (Set k v) c = (Unit, lru_set pkg now k v c)"
| "lru_step pkg now (SetWithExpire k v ex) c = (Unit, setWithExpire pkg now k v ex c)"
| "lru_step pkg now (Delete k) c = (Unit, lru_Delete pkg k c)"
| "lru_step pkg now (Compute k f) c = (let (r, c) = lru_Compute pkg now k f c in (Found r, c))"
| "lru_step pkg now Clear c = (Unit, lru_Clear pkg c)"

fun lru_run :: "('k, 'v, 'l, 'h) lru_pkg \<Rightarrow> (int \<times> ('k, 'v) lru_call) list \<Rightarrow> ('k, 'v, 'l, 'h) LruCache \<Rightarrow>
    'v lru_reply list \<times> ('k, 'v, 'l, 'h) LruCache" where
  "lru_run pkg [] c = ([], c)"
| "lru_run pkg (call # calls) c =
     (let (r, c) = lru_step pkg (fst call) (snd call) c; (rs, c) = lru_run pkg calls c in (r # rs, c))"

record lru_cfg =
  s_age :: int
  s_cap :: int
  s_update :: bool
  s_stale :: bool

definition spec_age :: "lru_cfg \<Rightarrow> int \<Rightarrow> int" where
  "spec_age g now = (if s_age g > 0 then now + s_age g else 0)"

abbreviation (input) "sset g now k v ex es \<equiv> spec_set (s_age g) (s_cap g) (s_stale g) now k v ex es"

abbreviation (input) "sget g now k es \<equiv> spec_get (s_age g) (s_update g) (s_stale g) now k es"

fun spec_step :: "lru_cfg \<Rightarrow> int \<Rightarrow> ('k, 'v) lru_call \<Rightarrow> ('k, 'v) entry list \<Rightarrow> 'v lru_reply \<times> ('k, 'v) entry list" where
  "spec_step g now (Get k) es = (let (r, es) = sget g now k es in (Found (map_option val r), es))"
| "spec_step g now (GetWithExpire k) es =
     (let (r, es) = sget g now k es in (Dated (map_option (\<lambda>e. (val e, expires e)) r), es))"
| "spec_step g now (GetOrStore k v) es =
     (let (r, es) = sget g now k es in
      case r of None \<Rightarrow> (Stored v False, sset g now k v (spec_age g now) es)
      | Some e \<Rightarrow> (Stored (val e) True, es))"
| "spec_step g now (Exist k) es = (Bool (lookup_key k es \<noteq> None), es)"
| "spec_step g now (Set k v) es = (Unit, sset g now k v (spec_age g now) es)"
| "spec_step g now (SetWithExpire k v ex) es = (Unit, sset g now k v ex es)"
| "spec_step g now (Delete k) es = (Unit, remove_key k es)"
| "spec_step g now (Compute k f) es =
     (let (r, es) = sget g now k es; (v, del) = f (map_option val r) in
      if del then (Found None, if r \<noteq> None then remove_key k es else es)
      else (Found (Some v), sset g now k v (spec_age g now) es))"
| "spec_step g now Clear es = (Unit, [])"

fun spec_run :: "lru_cfg \<Rightarrow> (int \<times> ('k, 'v) lru_call) list \<Rightarrow> ('k, 'v) entry list \<Rightarrow>
    'v lru_reply list \<times> ('k, 'v) entry list" where
  "spec_run g [] es = ([], es)"
| "spec_run g (call # calls) es =
     (let (r, es) = spec_step g (fst call) (snd call) es; (rs, es) = spec_run g calls es in (r # rs, es))"

text \<open>The entries of a cache, and the agreement of its map with its list: the handle of every
  key is that of its entry. \<open>elems\<close> and \<open>ok\<close> are the sequence and the well-formedness of
  the list package.\<close>

definition lru_view :: "('l \<Rightarrow> ('h \<times> ('k, 'v) entry) list) \<Rightarrow> ('k, 'v, 'l, 'h) LruCache \<Rightarrow> ('k, 'v) entry list" where
  "lru_view elems c = map snd (elems (lru c))"

definition same_cfg :: "('k, 'v, 'l, 'h) LruCache \<Rightarrow> ('k, 'v, 'l, 'h) LruCache \<Rightarrow> bool" where
  "same_cfg c c' \<longleftrightarrow> maxAge c' = maxAge c \<and> maxSize c' = maxSize c \<and> updateAgeOnGet c' = updateAgeOnGet c
     \<and> staleReturn c' = staleReturn c \<and> onEvict c' = onEvict c"

definition lru_linked :: "('l \<Rightarrow> ('h \<times> ('k, 'v) entry) list) \<Rightarrow> ('l \<Rightarrow> bool) \<Rightarrow> ('k, 'v, 'l, 'h) LruCache \<Rightarrow> bool" where
  "lru_linked elems ok c \<longleftrightarrow>
     ok (lru c) \<and> distinct (map (key \<circ> snd) (elems (lru c))) \<and> cache c = keymap (elems (lru c))"

definition lru_inv :: "('l \<Rightarrow> ('h \<times> ('k, 'v) entry) list) \<Rightarrow> ('l \<Rightarrow> bool) \<Rightarrow> ('k, 'v, 'l, 'h) LruCache \<Rightarrow> bool" where
  "lru_inv elems ok c \<longleftrightarrow>
     lru_linked elems ok c \<and> (maxSize c > 0 \<longrightarrow> int (length (lru_view elems c)) \<le> maxSize c)"

locale lru_list = list_laws pkg elems ok
  for pkg :: "('l, 'h, ('k, 'v) entry) list_pkg" and elems :: "'l \<Rightarrow> ('h \<times> ('k, 'v) entry) list"
    and ok :: "'l \<Rightarrow> bool"
begin

abbreviation "view \<equiv> lru_view elems"

abbreviation "linked \<equiv> lru_linked elems ok"

abbreviation "bounded \<equiv> lru_inv elems ok"

lemmas view_def = lru_view_def

lemmas linked_def = lru_linked_def

lemmas bounded_def = lru_inv_def

text \<open>\<open>to c c' es\<close>: a step from \<open>c\<close> to \<open>c'\<close> that keeps the links and the settings and leaves
  the entries \<open>es\<close>.\<close>

definition to :: "('k, 'v, 'l, 'h) LruCache \<Rightarrow> ('k, 'v, 'l, 'h) LruCache \<Rightarrow> ('k, 'v) entry list \<Rightarrow> bool" where
  "to c c' es \<longleftrightarrow> linked c' \<and> same_cfg c c' \<and> view c' = es"

lemma to_refl: "linked c \<Longrightarrow> to c c (view c)"
  by (simp add: to_def same_cfg_def)

lemma to_trans: "to a b es \<Longrightarrow> to b c es' \<Longrightarrow> to a c es'"
  by (simp add: to_def same_cfg_def)

lemma linked_handle:
  assumes "linked c" "cache c k = Some h"
  obtains e where "(h, e) \<in> set (elems (lru c))" "key e = k" "map_of (elems (lru c)) h = Some e"
    "l_Value pkg (lru c) h = Some e" "lookup_key k (view c) = Some e"
proof -
  have d: "ok (lru c)" "distinct (map fst (elems (lru c)))"
    using assms(1) handles by (auto simp: linked_def)
  obtain e where e: "(h, e) \<in> set (elems (lru c))" "key e = k"
    using assms keymap_SomeD by (fastforce simp: linked_def)
  have m: "map_of (elems (lru c)) h = Some e" using d(2) e(1) by simp
  have "lookup_key k (view c) = Some e"
    using assms lookup_key_find [OF d(2)] m by (simp add: view_def linked_def)
  with e m Value [OF d(1)] that show thesis by simp
qed

lemma linked_absent:
  assumes "linked c" "cache c k = None"
  shows "lookup_key k (view c) = None"
proof -
  have "distinct (map fst (elems (lru c)))" using assms(1) handles by (auto simp: linked_def)
  from lookup_key_find [OF this] assms show ?thesis by (simp add: view_def linked_def)
qed

lemma deleteElement_to:
  assumes "linked c" "(h, e) \<in> set (elems (lru c))"
  shows "to c (deleteElement pkg h c) (remove_key (key e) (view c))"
proof -
  have o: "ok (lru c)" "distinct (map fst (elems (lru c)))" "distinct (map (key \<circ> snd) (elems (lru c)))"
    "cache c = keymap (elems (lru c))"
    using assms(1) handles by (auto simp: linked_def)
  have m: "map_of (elems (lru c)) h = Some e" using o(2) assms(2) by simp
  have r: "ok (l_Remove pkg (lru c) h)"
    "elems (l_Remove pkg (lru c) h) = filter (\<lambda>he. key (snd he) \<noteq> key e) (elems (lru c))"
    using Remove [OF o(1)] filter_handle_key [OF o(2,3) assms(2)] by auto
  show ?thesis
    using o r m by (auto simp: to_def linked_def same_cfg_def view_def deleteElement_def Value Let_def
        keymap_filter_key map_snd_filter_key distinct_map_filter)
qed

lemma front_to:
  assumes "linked c" "view c = e # es"
  obtains h where "l_Front pkg (lru c) = Some h" "l_Value pkg (lru c) h = Some e"
    "to c (deleteElement pkg h c) es"
proof -
  have o: "ok (lru c)" "distinct (map (key \<circ> snd) (elems (lru c)))"
    using assms(1) by (auto simp: linked_def)
  obtain h xs where x: "elems (lru c) = (h, e) # xs" "map snd xs = es"
    using assms(2) by (auto simp: view_def)
  have "distinct (map key (view c))" using o(2) by (simp add: view_def)
  then have "remove_key (key e) (view c) = es"
    using assms(2) by (simp add: remove_key_def filter_id_conv) (metis image_eqI)
  moreover have "(h, e) \<in> set (elems (lru c))" by (simp add: x)
  ultimately have "to c (deleteElement pkg h c) es"
    using deleteElement_to [OF assms(1)] by metis
  then show thesis using that x Front [OF o(1)] Value [OF o(1)] by simp
qed

lemma delete_oldest_to:
  "linked c \<Longrightarrow> length (view c) \<le> n \<Longrightarrow>
   to c (delete_oldest n pkg now c) (dropWhile (\<lambda>e. expires e \<le> now) (view c))"
proof (induction n arbitrary: c)
  case 0
  then show ?case using to_refl [of c] by simp
next
  case (Suc n)
  show ?case
  proof (cases "view c")
    case Nil
    then have "l_Front pkg (lru c) = None"
      using Suc.prems(1) Front by (simp add: view_def linked_def)
    with Nil to_refl [OF Suc.prems(1)] show ?thesis by simp
  next
    case (Cons e es)
    obtain h where h: "l_Front pkg (lru c) = Some h" "l_Value pkg (lru c) h = Some e"
      "to c (deleteElement pkg h c) es"
      using front_to [OF Suc.prems(1) Cons] .
    then have "linked (deleteElement pkg h c)" "view (deleteElement pkg h c) = es"
      by (simp_all add: to_def)
    with Suc.IH [of "deleteElement pkg h c"] Suc.prems Cons
    have rest: "to (deleteElement pkg h c) (delete_oldest n pkg now (deleteElement pkg h c))
        (dropWhile (\<lambda>e. expires e \<le> now) es)" by simp
    show ?thesis
    proof (cases "expires e \<le> now")
      case True
      with h Cons to_trans [OF h(3) rest] show ?thesis by simp
    next
      case False
      with h Cons to_refl [OF Suc.prems(1)] show ?thesis by simp
    qed
  qed
qed

lemma maybeDeleteOldest_to:
  assumes "linked c"
  shows "to c (maybeDeleteOldest pkg now c) (spec_oldest (maxAge c) (staleReturn c) now (view c))"
proof -
  have "l_Len pkg (lru c) = length (view c)" using assms Len by (simp add: linked_def view_def)
  with delete_oldest_to [OF assms] to_refl [OF assms] show ?thesis
    by (simp add: maybeDeleteOldest_def spec_oldest_def)
qed

lemma move_to:
  assumes "linked c" "cache c k = Some h"
  obtains e where "lookup_key k (view c) = Some e" "key e = k"
    "to c (c\<lparr>lru := l_MoveToBack pkg (lru c) h\<rparr>) (remove_key k (view c) @ [e])"
    "l_Value pkg (lru c) h = Some e" "l_Value pkg (l_MoveToBack pkg (lru c) h) h = Some e"
    "(h, e) \<in> set (elems (lru c))"
    "elems (l_MoveToBack pkg (lru c) h) = filter (\<lambda>he. key (snd he) \<noteq> k) (elems (lru c)) @ [(h, e)]"
proof -
  obtain e where e: "(h, e) \<in> set (elems (lru c))" "key e = k" "map_of (elems (lru c)) h = Some e"
    "l_Value pkg (lru c) h = Some e" "lookup_key k (view c) = Some e"
    using linked_handle [OF assms] .
  have o: "ok (lru c)" "distinct (map fst (elems (lru c)))" "distinct (map (key \<circ> snd) (elems (lru c)))"
    "cache c = keymap (elems (lru c))"
    using assms(1) handles by (auto simp: linked_def)
  have m: "ok (l_MoveToBack pkg (lru c) h)"
    "elems (l_MoveToBack pkg (lru c) h) = filter (\<lambda>he. key (snd he) \<noteq> k) (elems (lru c)) @ [(h, e)]"
    using MoveToBack [OF o(1) e(3)] filter_handle_key [OF o(2,3) e(1)] e(2) by auto
  have "keymap (filter (\<lambda>he. key (snd he) \<noteq> k) (elems (lru c)) @ [(h, e)]) = cache c"
    using assms(2) e(2) by (auto simp: keymap_append keymap_filter_key o(4) fun_eq_iff split: option.splits)
  then have "to c (c\<lparr>lru := l_MoveToBack pkg (lru c) h\<rparr>) (remove_key k (view c) @ [e])"
    using m o e(2) by (auto simp: to_def linked_def same_cfg_def view_def map_snd_filter_key distinct_map_filter)
  moreover have "l_Value pkg (l_MoveToBack pkg (lru c) h) h = Some e"
    using map_of_is_SomeI [OF handles [OF m(1)], of h e] m(2) Value [OF m(1)] by simp
  ultimately show thesis using that e m by blast
qed

lemma update_to:
  assumes "linked c" "elems (lru c) = xs @ [(h, e)]" "key e' = key e"
  shows "to c (c\<lparr>lru := l_Update pkg (lru c) h e'\<rparr>) (map snd xs @ [e'])"
proof -
  have o: "ok (lru c)" "distinct (map fst (elems (lru c)))"
    using assms(1) handles by (auto simp: linked_def)
  have "map (\<lambda>he. (fst he, if fst he = h then e' else snd he)) xs = xs"
    using o(2) assms(2) by (intro map_idI) (force simp: prod_eq_iff)
  then have "elems (l_Update pkg (lru c) h e') = xs @ [(h, e')]" "ok (l_Update pkg (lru c) h e')"
    using Update [OF o(1), of h e'] assms(2) by auto
  with assms show ?thesis
    by (auto simp: to_def linked_def same_cfg_def view_def keymap_append fun_eq_iff split: option.split)
qed

text \<open>The two steps of the operations: the recency of a key that is found, and a new key.\<close>

lemma setWithExpire_to:
  assumes l: "linked c"
  shows "to c (setWithExpire pkg now k v ex c)
      (spec_set (maxAge c) (maxSize c) (staleReturn c) now k v ex (view c))"
proof -
  let ?new = "\<lparr>key = k, val = v, expires = ex\<rparr>"
  define es where "es = (let es' = remove_key k (view c) @ [?new]
    in if lookup_key k (view c) = None \<and> maxSize c > 0 \<and> int (length es') > maxSize c then tl es' else es')"
  have "\<exists>c1. setWithExpire pkg now k v ex c = maybeDeleteOldest pkg now c1 \<and> to c c1 es"
  proof (cases "cache c k")
    case (Some h)
    obtain e where e: "lookup_key k (view c) = Some e" "key e = k"
      "to c (c\<lparr>lru := l_MoveToBack pkg (lru c) h\<rparr>) (remove_key k (view c) @ [e])"
      "l_Value pkg (lru c) h = Some e" "l_Value pkg (l_MoveToBack pkg (lru c) h) h = Some e"
      "(h, e) \<in> set (elems (lru c))"
      "elems (l_MoveToBack pkg (lru c) h) = filter (\<lambda>he. key (snd he) \<noteq> k) (elems (lru c)) @ [(h, e)]"
      using move_to [OF l Some] .
    let ?c1 = "c\<lparr>lru := l_MoveToBack pkg (lru c) h\<rparr>"
    let ?c2 = "?c1\<lparr>lru := l_Update pkg (lru ?c1) h (e\<lparr>val := v, expires := ex\<rparr>)\<rparr>"
    have "linked ?c1" using e(3) by (simp add: to_def)
    then have "to ?c1 ?c2 (map snd (filter (\<lambda>he. key (snd he) \<noteq> k) (elems (lru c))) @ [e\<lparr>val := v, expires := ex\<rparr>])"
      using e(7) by (intro update_to) simp_all
    moreover have "e\<lparr>val := v, expires := ex\<rparr> = ?new" using e(2) by simp
    ultimately have "to c ?c2 (remove_key k (view c) @ [?new])"
      using to_trans [OF e(3)] by (simp add: map_snd_filter_key view_def)
    with Some e show ?thesis by (intro exI [of _ ?c2]) (simp add: setWithExpire_def es_def Let_def)
  next
    case None
    obtain l' h where p: "l_PushBack pkg (lru c) ?new = (l', h)" by fastforce
    have o: "ok (lru c)" "distinct (map (key \<circ> snd) (elems (lru c)))" "cache c = keymap (elems (lru c))"
      using l by (simp_all add: linked_def)
    have pb: "ok l'" "elems l' = elems (lru c) @ [(h, ?new)]" using PushBack [OF o(1) p] by auto
    let ?c1 = "c\<lparr>lru := l', cache := (cache c)(k \<mapsto> h)\<rparr>"
    have absent: "k \<notin> key ` snd ` set (elems (lru c))" "lookup_key k (view c) = None"
      using None o(3) keymap_None linked_absent [OF l None] by metis+
    have "keymap (elems (lru c) @ [(h, ?new)]) = (cache c)(k \<mapsto> h)"
      using None o(3) by (auto simp: keymap_append fun_eq_iff split: option.split)
    then have c1: "to c ?c1 (view c @ [?new])"
      using pb o absent by (auto simp: to_def linked_def same_cfg_def view_def image_comp)
    have len: "l_Len pkg l' = length (view c @ [?new])" using Len [OF pb(1)] pb(2) by (simp add: view_def)
    have r: "remove_key k (view c) = view c" using absent(2) by (rule remove_key_absent)
    show ?thesis
    proof (cases "maxSize c > 0 \<and> int (length (view c @ [?new])) > maxSize c")
      case True
      obtain e es1 where ne: "view ?c1 = e # es1" using c1 by (cases "view ?c1") (auto simp: to_def)
      have l1: "linked ?c1" using c1 by (simp add: to_def)
      obtain f where f: "l_Front pkg (lru ?c1) = Some f" "to ?c1 (deleteElement pkg f ?c1) es1"
        using front_to [OF l1 ne] by metis
      have "es1 = tl (view c @ [?new])" using ne c1 unfolding to_def by (metis list.sel(3))
      with True None p f len r absent to_trans [OF c1 f(2)] show ?thesis
        by (intro exI [of _ "deleteElement pkg f ?c1"]) (simp add: setWithExpire_def es_def Let_def)
    next
      case False
      with None p len r absent c1 show ?thesis
        by (intro exI [of _ ?c1]) (auto simp: setWithExpire_def es_def Let_def)
    qed
  qed
  then obtain c1 where c1: "setWithExpire pkg now k v ex c = maybeDeleteOldest pkg now c1" "to c c1 es" by blast
  have "linked c1" using c1(2) by (simp add: to_def)
  from to_trans [OF c1(2) maybeDeleteOldest_to [OF this, of now]] c1 show ?thesis
    by (simp add: spec_set_def es_def to_def same_cfg_def)
qed

lemma lru_get_to:
  assumes l: "linked c"
  shows "fst (lru_get pkg now k c) = fst (spec_get (maxAge c) (updateAgeOnGet c) (staleReturn c) now k (view c))
    \<and> to c (snd (lru_get pkg now k c)) (snd (spec_get (maxAge c) (updateAgeOnGet c) (staleReturn c) now k (view c)))"
proof (cases "cache c k")
  case None
  with linked_absent [OF l None] to_refl [OF l] show ?thesis by (simp add: lru_get_def spec_get_def)
next
  case (Some h)
  obtain e where e: "lookup_key k (view c) = Some e" "key e = k"
    "to c (c\<lparr>lru := l_MoveToBack pkg (lru c) h\<rparr>) (remove_key k (view c) @ [e])"
    "l_Value pkg (lru c) h = Some e" "l_Value pkg (l_MoveToBack pkg (lru c) h) h = Some e"
    "(h, e) \<in> set (elems (lru c))"
    "elems (l_MoveToBack pkg (lru c) h) = filter (\<lambda>he. key (snd he) \<noteq> k) (elems (lru c)) @ [(h, e)]"
    using move_to [OF l Some] .
  show ?thesis
  proof (cases "\<not> staleReturn c \<and> maxAge c > 0 \<and> expires e \<le> now")
    case True
    have d: "to c (deleteElement pkg h c) (remove_key k (view c))"
      using deleteElement_to [OF l e(6)] e(2) by simp
    then have "linked (deleteElement pkg h c)" by (simp add: to_def)
    from to_trans [OF d maybeDeleteOldest_to [OF this, of now]] d True Some e show ?thesis
      by (simp add: lru_get_def spec_get_def to_def same_cfg_def)
  next
    case F: False
    let ?c1 = "c\<lparr>lru := l_MoveToBack pkg (lru c) h\<rparr>"
    let ?e = "e\<lparr>expires := now + maxAge c\<rparr>"
    have "linked ?c1" using e(3) by (simp add: to_def)
    then have "to ?c1 (?c1\<lparr>lru := l_Update pkg (lru ?c1) h ?e\<rparr>)
        (map snd (filter (\<lambda>he. key (snd he) \<noteq> k) (elems (lru c))) @ [?e])"
      using e(7) by (intro update_to) simp_all
    then have u: "to c (?c1\<lparr>lru := l_Update pkg (lru ?c1) h ?e\<rparr>) (remove_key k (view c) @ [?e])"
      using to_trans [OF e(3)] by (simp add: map_snd_filter_key view_def)
    show ?thesis
    proof (cases "maxAge c > 0 \<and> updateAgeOnGet c")
      case True
      with F Some e u show ?thesis by (auto simp: lru_get_def spec_get_def Let_def)
    next
      case False
      with F Some e show ?thesis by (auto simp: lru_get_def spec_get_def Let_def)
    qed
  qed
qed

lemma lru_Delete_to:
  assumes l: "linked c"
  shows "to c (lru_Delete pkg k c) (remove_key k (view c))"
proof (cases "cache c k")
  case None
  with remove_key_absent [OF linked_absent [OF l None]] to_refl [OF l] show ?thesis
    by (simp add: lru_Delete_def)
next
  case (Some h)
  obtain e where "(h, e) \<in> set (elems (lru c))" "key e = k"
    using linked_handle [OF l Some] by metis
  with deleteElement_to [OF l] Some show ?thesis by (auto simp: lru_Delete_def)
qed

lemma lru_Exist_iff:
  assumes l: "linked c"
  shows "lru_Exist k c \<longleftrightarrow> lookup_key k (view c) \<noteq> None"
  using linked_absent [OF l] linked_handle [OF l] by (cases "cache c k") (auto simp: lru_Exist_def, metis option.distinct(1))

lemma deleteElement_evicts:
  assumes "linked c" "(h, e) \<in> set (elems (lru c))" "onEvict c"
  shows "evictions (deleteElement pkg h c) = evictions c @ [(key e, val e)]"
proof -
  have "l_Value pkg (lru c) h = Some e"
    using assms(1,2) handles Value by (simp add: linked_def)
  with assms(3) show ?thesis by (simp add: deleteElement_def Let_def)
qed

text \<open>One call, and any sequence of calls, does what the specification does.\<close>

definition cfg :: "('k, 'v, 'l, 'h) LruCache \<Rightarrow> lru_cfg" where
  "cfg c = \<lparr>s_age = maxAge c, s_cap = maxSize c, s_update = updateAgeOnGet c, s_stale = staleReturn c\<rparr>"

lemma to_cfg: "to c c' es \<Longrightarrow> linked c' \<and> view c' = es \<and> cfg c' = cfg c"
  by (simp add: to_def same_cfg_def cfg_def)

lemma lru_get_cfg:
  assumes "linked c"
  shows "case (lru_get pkg now k c, sget (cfg c) now k (view c)) of
    ((r, c'), (r', es)) \<Rightarrow> r' = r \<and> linked c' \<and> view c' = es \<and> cfg c' = cfg c"
  using lru_get_to [OF assms, of now k] to_cfg by (fastforce simp: cfg_def)

lemma setWithExpire_cfg:
  assumes "linked c"
  shows "linked (setWithExpire pkg now k v ex c) \<and> cfg (setWithExpire pkg now k v ex c) = cfg c
    \<and> view (setWithExpire pkg now k v ex c) = sset (cfg c) now k v ex (view c)"
  using to_cfg [OF setWithExpire_to [OF assms, of now k v ex]] by (simp add: cfg_def)

lemma lru_set_cfg:
  assumes "linked c"
  shows "linked (lru_set pkg now k v c) \<and> cfg (lru_set pkg now k v c) = cfg c
    \<and> view (lru_set pkg now k v c) = sset (cfg c) now k v (spec_age (cfg c) now) (view c)"
proof -
  have "lru_set pkg now k v c = setWithExpire pkg now k v (spec_age (cfg c) now) c"
    by (simp add: lru_set_def spec_age_def cfg_def)
  then show ?thesis using setWithExpire_cfg [OF assms] by simp
qed

lemma lru_step_refines:
  assumes l: "linked c"
  shows "case (lru_step pkg now call c, spec_step (cfg c) now call (view c)) of
    ((r, c'), (r', es)) \<Rightarrow> r' = r \<and> linked c' \<and> view c' = es \<and> cfg c' = cfg c"
proof -
  have g: "case (lru_get pkg now k c, sget (cfg c) now k (view c)) of
    ((r, c'), (r', es)) \<Rightarrow> r' = r \<and> linked c' \<and> view c' = es \<and> cfg c' = cfg c" for k
    using lru_get_cfg [OF l] .
  show ?thesis
  proof (cases call)
    case (Get k)
    with g [of k] show ?thesis by (auto simp: lru_Get_def split: prod.splits)
  next
    case (GetWithExpire k)
    with g [of k] show ?thesis by (auto simp: lru_GetWithExpire_def split: prod.splits)
  next
    case (GetOrStore k v)
    with g [of k] lru_set_cfg [of _ now k v] show ?thesis
      by (auto simp: lru_GetOrStore_def split: prod.splits option.splits)
  next
    case (Exist k)
    with l lru_Exist_iff [OF l] show ?thesis by simp
  next
    case (Set k v)
    with lru_set_cfg [OF l] show ?thesis by simp
  next
    case (SetWithExpire k v ex)
    with setWithExpire_cfg [OF l] show ?thesis by simp
  next
    case (Delete k)
    with to_cfg [OF lru_Delete_to [OF l]] show ?thesis by simp
  next
    case (Compute k f)
    with g [of k] lru_set_cfg [of _ now k] to_cfg [OF lru_Delete_to] show ?thesis
      by (auto simp: lru_Compute_def Let_def split: prod.splits)
  next
    case Clear
    then show ?thesis by (simp add: lru_Clear_def linked_def view_def New cfg_def)
  qed
qed

lemma lru_run_refines_spec:
  "linked c \<Longrightarrow> case (lru_run pkg calls c, spec_run (cfg c) calls (view c)) of
    ((rs, c'), (rs', es)) \<Rightarrow> rs' = rs \<and> linked c' \<and> view c' = es \<and> cfg c' = cfg c"
proof (induction calls arbitrary: c)
  case (Cons call calls)
  obtain r c1 where s: "lru_step pkg (fst call) (snd call) c = (r, c1)" by fastforce
  then have c1: "spec_step (cfg c) (fst call) (snd call) (view c) = (r, view c1)" "linked c1" "cfg c1 = cfg c"
    using lru_step_refines [OF Cons.prems, of "fst call" "snd call"] by (auto split: prod.splits)
  with Cons.IH [OF c1(2)] s show ?case by (auto split: prod.splits)
qed simp

lemma lru_New_cfg: "linked (lru_New pkg age cap update stale evict)
  \<and> view (lru_New pkg age cap update stale evict) = []
  \<and> cfg (lru_New pkg age cap update stale evict) = \<lparr>s_age = age, s_cap = cap, s_update = update, s_stale = stale\<rparr>"
  by (simp add: lru_New_def linked_def view_def New cfg_def)

end

interpretation slice_lru: lru_list slice_pkg snd slice_ok
  by unfold_locales

section \<open>What a cache promises\<close>

lemma length_spec_step:
  assumes "s_cap g > 0 \<longrightarrow> int (length es) \<le> s_cap g"
  shows "s_cap g > 0 \<longrightarrow> int (length (snd (spec_step g now call es))) \<le> s_cap g"
proof -
  have get: "s_cap g > 0 \<longrightarrow> int (length es') \<le> s_cap g" if "sget g now k es = (r, es')" for k r es'
    using assms length_spec_get [of "s_age g" "s_update g" "s_stale g" now k es] that by auto
  have get_set: "s_cap g > 0 \<longrightarrow> int (length (sset g now k v ex es')) \<le> s_cap g" if "sget g now k es = (r, es')" for k r es' v ex
    using length_spec_set [OF get [OF that]] .
  have get_remove: "s_cap g > 0 \<longrightarrow> int (length (remove_key k es')) \<le> s_cap g" if "sget g now k es = (r, es')" for k r es'
    using get [OF that] length_remove_key [of k es'] by auto
  show ?thesis
  proof (cases call)
    case (Delete k)
    with assms length_remove_key [of k es] show ?thesis by auto
  next
    case (Compute k f)
    then show ?thesis using get get_set get_remove by (auto simp: Let_def split: prod.splits)
  next
    case (GetOrStore k v)
    then show ?thesis using get get_set by (auto simp: Let_def split: prod.splits option.splits)
  qed (use get length_spec_set [OF assms] assms in \<open>auto simp: Let_def split: prod.splits\<close>)
qed

lemma length_spec_run:
  "s_cap g > 0 \<longrightarrow> int (length es) \<le> s_cap g \<Longrightarrow>
   s_cap g > 0 \<longrightarrow> int (length (snd (spec_run g calls es))) \<le> s_cap g"
proof (induction calls arbitrary: es)
  case (Cons call calls)
  from Cons.IH [OF length_spec_step [OF Cons.prems]] show ?case
    by (simp add: Let_def case_prod_beta)
qed simp

text \<open>The keys a call may make recent, and the calls that leave the value of a key alone.\<close>

fun call_keys :: "('k, 'v) lru_call \<Rightarrow> 'k set" where
  "call_keys (Get k) = {k}"
| "call_keys (GetWithExpire k) = {k}"
| "call_keys (GetOrStore k v) = {k}"
| "call_keys (Set k v) = {k}"
| "call_keys (SetWithExpire k v ex) = {k}"
| "call_keys (Compute k f) = {k}"
| "call_keys _ = {}"

fun leaves_alone :: "'k \<Rightarrow> ('k, 'v) lru_call \<Rightarrow> bool" where
  "leaves_alone k (Set k' v) = (k' \<noteq> k)"
| "leaves_alone k (SetWithExpire k' v ex) = (k' \<noteq> k)"
| "leaves_alone k (Delete k') = (k' \<noteq> k)"
| "leaves_alone k (Compute k' f) = (k' \<noteq> k)"
| "leaves_alone k Clear = False"
| "leaves_alone k _ = True"

text \<open>The entry of \<open>k\<close> has the value \<open>v\<close>, and only keys of \<open>T\<close> are more recent.\<close>

definition recent :: "'k set \<Rightarrow> 'k \<Rightarrow> 'v \<Rightarrow> ('k, 'v) entry list \<Rightarrow> bool" where
  "recent T k v es \<longleftrightarrow> (\<exists>xs e ys. es = xs @ e # ys \<and> key e = k \<and> val e = v \<and> distinct (map key es) \<and> key ` set ys \<subseteq> T)"

lemma recent_lookup:
  assumes "recent T k v es"
  obtains e where "lookup_key k es = Some e" "val e = v" "key e = k"
proof -
  obtain xs e ys where es: "es = xs @ e # ys" "key e = k" "val e = v" "distinct (map key es)"
    using assms by (auto simp: recent_def)
  have "key e \<notin> key ` set xs" using es(4) unfolding es(1) by simp
  then have "\<forall>d\<in>set xs. key d \<noteq> key e" by (simp add: image_iff eq_commute)
  then have "List.find (\<lambda>d. key d = key e) (xs @ e # ys) = Some e" by (induction xs) auto
  then have "lookup_key k es = Some e" using es(1,2) by (simp add: lookup_key_def)
  with es that show thesis by blast
qed

lemma recent_remove:
  assumes "recent T k v es" "k' \<noteq> k"
  shows "recent T k v (remove_key k' es)"
proof -
  obtain xs e ys where es: "es = xs @ e # ys" "key e = k" "val e = v" "distinct (map key es)" "key ` set ys \<subseteq> T"
    using assms(1) by (auto simp: recent_def)
  then have "remove_key k' es = remove_key k' xs @ e # remove_key k' ys" "distinct (map key (remove_key k' es))"
    using assms(2) by (auto simp: remove_key_def distinct_map_filter)
  with es show ?thesis unfolding recent_def by (fastforce simp: remove_key_def)
qed

lemma recent_append:
  assumes "recent T k v es" "key e \<notin> key ` set es" "key e \<in> T"
  shows "recent T k v (es @ [e])"
proof -
  obtain xs d ys where es: "es = xs @ d # ys" "key d = k" "val d = v" "distinct (map key es)" "key ` set ys \<subseteq> T"
    using assms(1) by (auto simp: recent_def)
  with assms(2,3) show ?thesis unfolding recent_def
    by (intro exI [of _ xs] exI [of _ d] exI [of _ "ys @ [e]"]) auto
qed

lemma recent_last:
  "distinct (map key (remove_key k es)) \<Longrightarrow> key e = k \<Longrightarrow> val e = v \<Longrightarrow> recent T k v (remove_key k es @ [e])"
  unfolding recent_def by (intro exI [of _ "remove_key k es"] exI [of _ e] exI [of _ "[]"]) (auto simp: remove_key_def)

lemma recent_tl:
  assumes r: "recent T k v es" and T: "finite T" "int (card T) < cap" and long: "int (length es) > cap"
  shows "recent T k v (tl es)"
proof -
  obtain xs e ys where es: "es = xs @ e # ys" "key e = k" "val e = v" "distinct (map key es)" "key ` set ys \<subseteq> T"
    using r by (auto simp: recent_def)
  have "distinct (map key ys)" using es(1,4) by simp
  then have "length ys \<le> card T"
    using distinct_card [of "map key ys"] card_mono [OF T(1) es(5)] by simp
  with es(1) T(2) long have "xs \<noteq> []" by auto
  with es show ?thesis unfolding recent_def by (cases xs) auto
qed

lemma recent_distinct: "recent T k v es \<Longrightarrow> distinct (map key es)"
  by (auto simp: recent_def)

lemma distinct_remove_key: "distinct (map key es) \<Longrightarrow> distinct (map key (remove_key k es))"
  by (simp add: remove_key_def distinct_map_filter)

lemma remove_key_fresh: "k \<notin> key ` set (remove_key k es)"
  by (auto simp: remove_key_def)

lemma recent_spec_set:
  assumes r: "recent T k v es" and k: "k' \<noteq> k" "k' \<in> T" and T: "finite T" "int (card T) < s_cap g"
    and age: "s_stale g \<or> s_age g \<le> 0"
  shows "recent T k v (sset g now k' v' ex es)"
proof -
  let ?es = "remove_key k' es @ [\<lparr>key = k', val = v', expires = ex\<rparr>]"
  have r': "recent T k v ?es"
    using recent_append [OF recent_remove [OF r k(1)]] remove_key_fresh [of k' es] k(2) by simp
  have "recent T k v (tl ?es)" if "int (length ?es) > s_cap g"
    using recent_tl [OF r' T that] .
  with r' age show ?thesis by (auto simp: spec_set_def spec_oldest_def Let_def)
qed

lemma recent_spec_get:
  assumes r: "recent T k v es" and k: "k' = k \<or> k' \<in> T" and age: "s_stale g \<or> s_age g \<le> 0"
    and g: "sget g now k' es = (r', es')"
  shows "recent T k v es' \<and> (k' = k \<longrightarrow> map_option val r' = Some v)"
proof (cases "lookup_key k' es")
  case None
  with g r recent_lookup [OF r] show ?thesis by (fastforce simp: spec_get_def)
next
  case (Some e)
  define e' where "e' = (if s_age g > 0 \<and> s_update g then e\<lparr>expires := now + s_age g\<rparr> else e)"
  have e': "key e' = k'" "val e' = val e" "es' = remove_key k' es @ [e']" "r' = Some e'"
    using g Some age find_SomeD [of "\<lambda>e. key e = k'" es e]
    by (auto simp: spec_get_def Let_def e'_def lookup_key_def)
  show ?thesis
  proof (cases "k' = k")
    case True
    with recent_lookup [OF r] Some have "val e = v" by (metis option.inject)
    moreover have "recent T k v (remove_key k es @ [e'])" if "val e = v"
      using recent_last [OF distinct_remove_key [OF recent_distinct [OF r]], of e' k v T] e' that True by simp
    ultimately show ?thesis using True e' by simp
  next
    case False
    have "key e' \<notin> key ` set (remove_key k' es)" "key e' \<in> T"
      using remove_key_fresh [of k' es] e'(1) False k by simp_all
    from recent_append [OF recent_remove [OF r False] this] e' False show ?thesis by simp
  qed
qed

lemma recent_step:
  assumes r: "recent T k v es" and k: "leaves_alone k call" "call_keys call \<subseteq> insert k T"
    and T: "finite T" "int (card T) < s_cap g" and age: "s_stale g \<or> s_age g \<le> 0"
  shows "recent T k v (snd (spec_step g now call es))"
proof -
  have get: "recent T k v es' \<and> (k' = k \<longrightarrow> r' \<noteq> None)"
    if "sget g now k' es = (r', es')" "k' \<in> call_keys call" for k' r' es'
    using recent_spec_get [OF r _ age that(1)] that(2) k(2) by auto
  have set: "recent T k v (sset g now k' v' ex es')" if "recent T k v es'" "k' \<noteq> k" "k' \<in> call_keys call" for k' v' ex es'
    using recent_spec_set [OF that(1,2) _ T age] that k(2) by blast
  show ?thesis
  proof (cases call)
    case (Delete k')
    with r k recent_remove show ?thesis by auto
  next
    case (Compute k' f)
    with get set k recent_remove [of T k v] show ?thesis
      by (auto simp: Let_def split: prod.splits)
  next
    case (GetOrStore k' v')
    with get set k show ?thesis by (fastforce simp: Let_def split: prod.splits option.splits)
  qed (use r k get set in \<open>auto simp: Let_def split: prod.splits\<close>)
qed

lemma recent_run:
  assumes T: "finite T" "int (card T) < s_cap g" and age: "s_stale g \<or> s_age g \<le> 0"
  shows "recent T k v es \<Longrightarrow> (\<And>c. c \<in> set calls \<Longrightarrow> leaves_alone k (snd c) \<and> call_keys (snd c) \<subseteq> insert k T) \<Longrightarrow>
    recent T k v (snd (spec_run g calls es))"
proof (induction calls arbitrary: es)
  case (Cons c calls)
  have "recent T k v (snd (spec_step g (fst c) (snd c) es))"
    using recent_step [OF Cons.prems(1) _ _ T age, of "snd c" "fst c"] Cons.prems(2) [of c] by simp
  from Cons.IH [OF this] Cons.prems(2)
  have "recent T k v (snd (spec_run g calls (snd (spec_step g (fst c) (snd c) es))))" by simp
  then show ?case by (simp add: Let_def case_prod_beta)
qed simp

lemma recent_mono: "recent S k v es \<Longrightarrow> S \<subseteq> T \<Longrightarrow> recent T k v es"
  unfolding recent_def by (elim exE conjE) (intro exI conjI, assumption+, rule subset_trans)

lemma recent_set_self:
  assumes d: "distinct (map key es)" and T: "int (card T) < s_cap g" and age: "s_stale g \<or> s_age g \<le> 0"
  shows "recent T k v (sset g now k v ex es)"
proof -
  let ?new = "\<lparr>key = k, val = v, expires = ex\<rparr>"
  have r: "recent {} k v (remove_key k es @ [?new])"
    using recent_last [OF distinct_remove_key [OF d]] by simp
  have "recent {} k v (tl (remove_key k es @ [?new]))" if "int (length (remove_key k es @ [?new])) > s_cap g"
    using recent_tl [OF r _ _ that] T by simp
  then have "recent {} k v (sset g now k v ex es)"
    using r age by (auto simp: spec_set_def spec_oldest_def Let_def)
  then show ?thesis by (rule recent_mono) simp
qed

lemma spec_run_append:
  "snd (spec_run g (as @ bs) es) = snd (spec_run g bs (snd (spec_run g as es)))"
  by (induction as arbitrary: es) (simp_all add: Let_def case_prod_beta)

text \<open>C31. Refinement of the cache: for every list package with the documented behaviour, any
  sequence of calls on a new cache gives the replies and leaves the entries that the ordered
  list of entries gives, its map and its list agree afterwards, and a positive \<open>maxSize\<close> is
  never exceeded.\<close>

theorem lru_refines:
  assumes "list_laws pkg elems ok"
  shows "case lru_run pkg calls (lru_New pkg age cap update stale evict) of
    (rs, c) \<Rightarrow> lru_inv elems ok c
      \<and> spec_run \<lparr>s_age = age, s_cap = cap, s_update = update, s_stale = stale\<rparr> calls [] = (rs, lru_view elems c)"
proof -
  let ?g = "\<lparr>s_age = age, s_cap = cap, s_update = update, s_stale = stale\<rparr>"
  let ?c = "lru_New pkg age cap update stale evict"
  have list: "lru_list pkg elems ok" using assms by (simp add: lru_list_def)
  have new: "lru_linked elems ok ?c" "lru_view elems ?c = []" "lru_list.cfg ?c = ?g"
    using lru_list.lru_New_cfg [OF list] by metis+
  have size: "cap > 0 \<longrightarrow> int (length (snd (spec_run ?g calls []))) \<le> cap"
    using length_spec_run [of ?g "[]" calls] by simp
  have "case (lru_run pkg calls ?c, spec_run ?g calls []) of
    ((rs, c'), (rs', es)) \<Rightarrow> rs' = rs \<and> lru_linked elems ok c' \<and> lru_view elems c' = es \<and> lru_list.cfg c' = ?g"
    using lru_list.lru_run_refines_spec [OF list new(1), of calls] by (simp add: new)
  then show ?thesis using size
    by (auto simp: lru_inv_def lru_list.cfg_def [OF list] split: prod.splits)
qed

theorem lru_refines_witness:
  "case lru_run slice_pkg [(0, Set (1::nat) ''a''), (0, Set 2 ''b''), (0, Get 1), (0, Set 3 ''c''), (0, Get 2)]
      (lru_New slice_pkg 0 2 False False False) of
    (rs, c) \<Rightarrow> lru_inv snd slice_ok c \<and> rs = [Unit, Unit, Found (Some ''a''), Unit, Found None]
      \<and> [\<lparr>key = 1, val = ''a'', expires = 0\<rparr>, \<lparr>key = 3, val = ''c'', expires = 0\<rparr>] = lru_view snd c"
  using lru_refines [OF slice.list_laws_axioms, where calls = "[(0, Set (1::nat) ''a''), (0, Set 2 ''b''), (0, Get 1), (0, Set 3 ''c''), (0, Get 2)]"
      and age = 0 and cap = 2 and update = False and stale = False and evict = False]
  by (auto simp: spec_set_def spec_get_def spec_oldest_def remove_key_def lookup_key_def spec_age_def Let_def split: prod.splits)

text \<open>Recency: in a cache whose entries do not expire, a stored value is still found after
  any calls that do not overwrite, delete or recompute it, as long as they use fewer than
  \<open>maxSize\<close> other keys.\<close>

theorem lru_keeps_recent:
  assumes "list_laws pkg elems ok" and "stale \<or> age \<le> 0"
    and "finite T" "int (card T) < cap"
    and "\<forall>c\<in>set calls. leaves_alone k (snd c) \<and> call_keys (snd c) \<subseteq> insert k T"
  shows "fst (lru_Get pkg now k (snd (lru_run pkg (before @ (t, Set k v) # calls) (lru_New pkg age cap update stale evict)))) = Some v"
proof -
  let ?g = "\<lparr>s_age = age, s_cap = cap, s_update = update, s_stale = stale\<rparr>"
  let ?c = "lru_New pkg age cap update stale evict"
  have list: "lru_list pkg elems ok" using assms(1) by (simp add: lru_list_def)
  have new: "lru_linked elems ok ?c" "lru_view elems ?c = []" "lru_list.cfg ?c = ?g"
    using lru_list.lru_New_cfg [OF list] by metis+
  have run: "lru_linked elems ok (snd (lru_run pkg cs ?c))"
    "lru_view elems (snd (lru_run pkg cs ?c)) = snd (spec_run ?g cs [])"
    "lru_list.cfg (snd (lru_run pkg cs ?c)) = ?g" for cs
    using lru_list.lru_run_refines_spec [OF list new(1), of cs] by (auto simp: new split: prod.splits)
  let ?g' = "?g" and ?es = "snd (spec_run ?g before [])"
  have "distinct (map key ?es)" using run(1,2) [of before] by (simp add: lru_linked_def lru_view_def flip: run(2))
  then have "recent T k v (snd (spec_step ?g t (Set k v) ?es))"
    using recent_set_self [of ?es T ?g] assms(2,4) by simp
  then have "recent T k v (snd (spec_run ?g calls (snd (spec_step ?g t (Set k v) ?es))))"
    using assms(2-5) by (intro recent_run) auto
  then have r: "recent T k v (snd (spec_run ?g (before @ (t, Set k v) # calls) []))"
    by (simp add: spec_run_append Let_def case_prod_beta)
  let ?d = "snd (lru_run pkg (before @ (t, Set k v) # calls) ?c)"
  obtain e es' where g: "sget ?g now k (lru_view elems ?d) = (e, es')" by fastforce
  have "map_option val e = Some v"
    using recent_spec_get [of T k v _ k ?g now e es'] r g assms(2) by (simp add: run(2))
  then show ?thesis
    using lru_list.lru_get_cfg [OF list run(1) [of "before @ (t, Set k v) # calls"], of now k] g
    by (auto simp: lru_Get_def run(3) split: prod.splits)
qed

theorem lru_keeps_recent_witness:
  "fst (lru_Get slice_pkg 0 (1::nat) (snd (lru_run slice_pkg
     ([] @ (0, Set 1 ''a'') # [(0, Set 2 ''b''), (0, Set 3 ''c''), (0, Set 2 ''d'')])
     (lru_New slice_pkg 0 3 False False False)))) = Some ''a''"
  by (rule lru_keeps_recent [where T = "{2, 3}", OF slice.list_laws_axioms]) auto

text \<open>\<^verbatim>\<open>GetWithExpire\<close>, whose comment says that it neither checks the age of an element
  nor updates its expiry, does both: an entry of age 10 stored at time 0 is gone at time 10, and
  with \<^verbatim>\<open>updateAgeOnGet\<close> reading it at time 5 moves its expiry to 15.\<close>

theorem GetWithExpire_checks_and_updates:
  "fst (lru_run slice_pkg [(0, Set (1::nat) ''a''), (10, GetWithExpire 1)] (lru_New slice_pkg 10 0 False False False))
     = [Unit, Dated None]
   \<and> fst (lru_run slice_pkg [(0, Set (1::nat) ''a''), (5, GetWithExpire 1)] (lru_New slice_pkg 10 0 True False False))
     = [Unit, Dated (Some (''a'', 15))]"
  by (simp add: lru_GetWithExpire_def lru_get_def lru_set_def setWithExpire_def maybeDeleteOldest_def
      deleteElement_def lru_New_def slice_pkg_def Let_def)

end
