(* ===== verification/FakeIP.thy ===== *)
theory FakeIP
  imports Lru Netip
begin

text \<open>
  The fake-IP pool of \<^verbatim>\<open>component/fakeip\<close>: the addresses handed out for host names
  (\<^verbatim>\<open>pool.go\<close>) over a store (\<^verbatim>\<open>memory.go\<close>, two LRU caches). The interface
  \<^verbatim>\<open>store\<close> is the record \<open>store\<close>; what the pool relies on is the locale
  \<open>fake_store\<close>, which the memory store provides for every list package.

  The last address of a prefix comes from the package \<^verbatim>\<open>netipx\<close>, and is an argument of
  \<open>New\<close>. \<^verbatim>\<open>CloneFrom\<close>, after which two pools share their entries, is not modelled.
\<close>

section \<open>The store\<close>

record 's store =
  GetByHost :: "string \<Rightarrow> 's \<Rightarrow> addr option \<times> 's"
  PutByHost :: "string \<Rightarrow> addr \<Rightarrow> 's \<Rightarrow> 's"
  GetByIP :: "addr \<Rightarrow> 's \<Rightarrow> string option \<times> 's"
  PutByIP :: "addr \<Rightarrow> string \<Rightarrow> 's \<Rightarrow> 's"
  DelByIP :: "addr \<Rightarrow> 's \<Rightarrow> 's"
  StoreExist :: "addr \<Rightarrow> 's \<Rightarrow> bool"
  StoreFlush :: "'s \<Rightarrow> (string, 's) outcome"
  is_cachefile :: bool

text \<open>\<^verbatim>\<open>memoryStore\<close>. Its caches have no age, so that the time is never read and is 0 here.\<close>

record ('l, 'h, 'm, 'i) memoryStore =
  cacheIP :: "(string, addr, 'l, 'h) LruCache"
  cacheHost :: "(addr, string, 'm, 'i) LruCache"

definition mem_GetByHost :: "(string, addr, 'l, 'h) lru_pkg \<Rightarrow> (addr, string, 'm, 'i) lru_pkg \<Rightarrow> string \<Rightarrow>
    ('l, 'h, 'm, 'i) memoryStore \<Rightarrow> addr option \<times> ('l, 'h, 'm, 'i) memoryStore" where
  "mem_GetByHost p1 p2 host m =
     (let (ip, c) = lru_Get p1 0 host (cacheIP m); m = m\<lparr>cacheIP := c\<rparr> in
      case ip of
        Some ip \<Rightarrow> (Some ip, m\<lparr>cacheHost := snd (lru_Get p2 0 ip (cacheHost m))\<rparr>)
      | None \<Rightarrow> (None, m))"

definition mem_PutByHost :: "(string, addr, 'l, 'h) lru_pkg \<Rightarrow> string \<Rightarrow> addr \<Rightarrow>
    ('l, 'h, 'm, 'i) memoryStore \<Rightarrow> ('l, 'h, 'm, 'i) memoryStore" where
  "mem_PutByHost p1 host ip m = m\<lparr>cacheIP := lru_set p1 0 host ip (cacheIP m)\<rparr>"

definition mem_GetByIP :: "(string, addr, 'l, 'h) lru_pkg \<Rightarrow> (addr, string, 'm, 'i) lru_pkg \<Rightarrow> addr \<Rightarrow>
    ('l, 'h, 'm, 'i) memoryStore \<Rightarrow> string option \<times> ('l, 'h, 'm, 'i) memoryStore" where
  "mem_GetByIP p1 p2 ip m =
     (let (host, c) = lru_Get p2 0 ip (cacheHost m); m = m\<lparr>cacheHost := c\<rparr> in
      case host of
        Some host \<Rightarrow> (Some host, m\<lparr>cacheIP := snd (lru_Get p1 0 host (cacheIP m))\<rparr>)
      | None \<Rightarrow> (None, m))"

definition mem_PutByIP :: "(addr, string, 'm, 'i) lru_pkg \<Rightarrow> addr \<Rightarrow> string \<Rightarrow>
    ('l, 'h, 'm, 'i) memoryStore \<Rightarrow> ('l, 'h, 'm, 'i) memoryStore" where
  "mem_PutByIP p2 ip host m = m\<lparr>cacheHost := lru_set p2 0 ip host (cacheHost m)\<rparr>"

definition mem_DelByIP :: "(string, addr, 'l, 'h) lru_pkg \<Rightarrow> (addr, string, 'm, 'i) lru_pkg \<Rightarrow> addr \<Rightarrow>
    ('l, 'h, 'm, 'i) memoryStore \<Rightarrow> ('l, 'h, 'm, 'i) memoryStore" where
  "mem_DelByIP p1 p2 ip m =
     (let (host, c) = lru_Get p2 0 ip (cacheHost m);
          m = m\<lparr>cacheHost := c\<rparr>;
          m = (case host of Some host \<Rightarrow> m\<lparr>cacheIP := lru_Delete p1 host (cacheIP m)\<rparr> | None \<Rightarrow> m)
      in m\<lparr>cacheHost := lru_Delete p2 ip (cacheHost m)\<rparr>)"

definition mem_Exist :: "addr \<Rightarrow> ('l, 'h, 'm, 'i) memoryStore \<Rightarrow> bool" where
  "mem_Exist ip m \<longleftrightarrow> lru_Exist ip (cacheHost m)"

definition mem_FlushFakeIP :: "(string, addr, 'l, 'h) lru_pkg \<Rightarrow> (addr, string, 'm, 'i) lru_pkg \<Rightarrow>
    ('l, 'h, 'm, 'i) memoryStore \<Rightarrow> (string, ('l, 'h, 'm, 'i) memoryStore) outcome" where
  "mem_FlushFakeIP p1 p2 m =
     Value (m\<lparr>cacheIP := lru_Clear p1 (cacheIP m), cacheHost := lru_Clear p2 (cacheHost m)\<rparr>)"

definition newMemoryStore :: "(string, addr, 'l, 'h) lru_pkg \<Rightarrow> (addr, string, 'm, 'i) lru_pkg \<Rightarrow> int \<Rightarrow>
    ('l, 'h, 'm, 'i) memoryStore" where
  "newMemoryStore p1 p2 size' =
     \<lparr>cacheIP = lru_New p1 0 size' False False False, cacheHost = lru_New p2 0 size' False False False\<rparr>"

definition memory_store :: "(string, addr, 'l, 'h) lru_pkg \<Rightarrow> (addr, string, 'm, 'i) lru_pkg \<Rightarrow>
    ('l, 'h, 'm, 'i) memoryStore store" where
  "memory_store p1 p2 =
     \<lparr>GetByHost = mem_GetByHost p1 p2, PutByHost = mem_PutByHost p1, GetByIP = mem_GetByIP p1 p2,
      PutByIP = mem_PutByIP p2, DelByIP = mem_DelByIP p1 p2, StoreExist = mem_Exist,
      StoreFlush = mem_FlushFakeIP p1 p2, is_cachefile = False\<rparr>"

section \<open>The pool\<close>

record 's Pool =
  gateway :: addr
  first :: addr
  last_ip :: addr
  offset :: addr
  cycle :: bool
  ipnet :: prefix
  pool_store :: 's

definition offsetKey :: string where "offsetKey = ''key-offset-fake-ip''"

definition cycleKey :: string where "cycleKey = ''key-cycle-fake-ip''"

definition pool_get :: "'s store \<Rightarrow> string \<Rightarrow> 's Pool \<Rightarrow> addr \<times> 's Pool" where
  "pool_get st host p =
     (let p = p\<lparr>offset := Next (offset p)\<rparr>;
          p = (if \<not> offset p < last_ip p then p\<lparr>cycle := True, offset := first p\<rparr> else p);
          p = (if cycle p \<or> StoreExist st (offset p) (pool_store p)
               then p\<lparr>pool_store := DelByIP st (offset p) (pool_store p)\<rparr> else p);
          p = p\<lparr>pool_store := PutByIP st (offset p) host (pool_store p)\<rparr>
      in (offset p, p))"

definition Lookup :: "'s store \<Rightarrow> string \<Rightarrow> 's Pool \<Rightarrow> addr \<times> 's Pool" where
  "Lookup st host p =
     (let host = to_lower host;
          (ip, s) = GetByHost st host (pool_store p);
          p = p\<lparr>pool_store := s\<rparr>
      in case ip of
           Some ip \<Rightarrow> (ip, p)
         | None \<Rightarrow>
             let (ip, p) = pool_get st host p
             in (ip, p\<lparr>pool_store := PutByHost st host ip (pool_store p)\<rparr>))"

definition LookBack :: "'s store \<Rightarrow> addr \<Rightarrow> 's Pool \<Rightarrow> string option \<times> 's Pool" where
  "LookBack st ip p = (let (host, s) = GetByIP st ip (pool_store p) in (host, p\<lparr>pool_store := s\<rparr>))"

definition pool_Exist :: "'s store \<Rightarrow> addr \<Rightarrow> 's Pool \<Rightarrow> bool" where
  "pool_Exist st ip p \<longleftrightarrow> StoreExist st ip (pool_store p)"

definition Gateway :: "'s Pool \<Rightarrow> addr" where "Gateway p = gateway p"

definition Broadcast :: "'s Pool \<Rightarrow> addr" where "Broadcast p = last_ip p"

definition IPNet :: "'s Pool \<Rightarrow> prefix" where "IPNet p = ipnet p"

definition FlushFakeIP :: "'s store \<Rightarrow> 's Pool \<Rightarrow> (string, 's Pool) outcome" where
  "FlushFakeIP st p =
     bind_outcome (StoreFlush st (pool_store p))
       (\<lambda>s. Value (p\<lparr>pool_store := s, cycle := False, offset := Prev (first p)\<rparr>))"

definition StoreState :: "'s store \<Rightarrow> 's Pool \<Rightarrow> 's Pool" where
  "StoreState st p =
     (if is_cachefile st then
        let p = p\<lparr>pool_store := PutByHost st offsetKey (offset p) (pool_store p)\<rparr>
        in if cycle p then p\<lparr>pool_store := PutByHost st cycleKey (offset p) (pool_store p)\<rparr> else p
      else p)"

text \<open>\<^verbatim>\<open>restoreState\<close> drops the error of a flush.\<close>

fun quietly :: "(string, 'p) outcome \<Rightarrow> 'p \<Rightarrow> (string, 'p) outcome" where
  "quietly (Value q) p = Value q"
| "quietly (Error e) p = Value p"
| "quietly Panic p = Panic"

definition restoreState :: "'s store \<Rightarrow> 's Pool \<Rightarrow> (string, 's Pool) outcome" where
  "restoreState st p =
     (if \<not> is_cachefile st then Value p
      else
        let (c, s) = GetByHost st cycleKey (pool_store p);
            p = p\<lparr>pool_store := s\<rparr>;
            p = (if c \<noteq> None then p\<lparr>cycle := True\<rparr> else p);
            (off, s) = GetByHost st offsetKey (pool_store p);
            p = p\<lparr>pool_store := s\<rparr>
        in case off of
             Some off \<Rightarrow>
               if prefix_contains (ipnet p) off then Value (p\<lparr>offset := off\<rparr>)
               else quietly (FlushFakeIP st p) p
           | None \<Rightarrow>
               if StoreExist st (first p) (pool_store p) then quietly (FlushFakeIP st p) p
               else Value p)"

text \<open>\<^verbatim>\<open>New\<close>, with the store it chooses.\<close>

definition pool_New :: "(prefix \<Rightarrow> addr) \<Rightarrow> 's store \<Rightarrow> 's \<Rightarrow> prefix \<Rightarrow> (string, 's Pool) outcome" where
  "pool_New lastIP st s net =
     (let hostAddr = masked_addr net;
          gw = Next hostAddr;
          fst_ip = Next (Next (Next gw));
          lst = lastIP net
      in if \<not> prefix_valid net \<or> \<not> IsValid fst_ip \<or> \<not> fst_ip < lst
         then Error ''ipnet don't have valid ip''
         else restoreState st
           \<lparr>gateway = gw, first = fst_ip, last_ip = lst, offset = Prev fst_ip, cycle = False,
            ipnet = net, pool_store = s\<rparr>)"

section \<open>What the pool relies on\<close>

text \<open>A store holds bindings of hosts to addresses, no address for two hosts. The two halves
  of a binding are put one after the other; putting may push other bindings out.\<close>

locale fake_store =
  fixes st :: "'s store" and ok :: "'s \<Rightarrow> bool" and bind :: "'s \<Rightarrow> string \<Rightarrow> addr option"
  assumes unique: "ok s \<Longrightarrow> bind s h = Some ip \<Longrightarrow> bind s h' = Some ip \<Longrightarrow> h = h'"
    and GetByHost: "ok s \<Longrightarrow> GetByHost st h s = (r, s') \<Longrightarrow> r = bind s h \<and> ok s' \<and> bind s' = bind s"
    and GetByIP: "ok s \<Longrightarrow> GetByIP st ip s = (host, s') \<Longrightarrow>
      ok s' \<and> bind s' = bind s \<and> (\<forall>h. host = Some h \<longleftrightarrow> bind s h = Some ip)"
    and StoreExist: "ok s \<Longrightarrow> StoreExist st ip s \<longleftrightarrow> (\<exists>h. bind s h = Some ip)"
    and DelByIP: "ok s \<Longrightarrow> ok (DelByIP st ip s) \<and>
      bind (DelByIP st ip s) = (\<lambda>h. if bind s h = Some ip then None else bind s h)"
    and Put: "ok s \<Longrightarrow> bind s h = None \<Longrightarrow> \<forall>h'. bind s h' \<noteq> Some ip \<Longrightarrow>
      ok (PutByHost st h ip (PutByIP st ip h s)) \<and> bind (PutByHost st h ip (PutByIP st ip h s)) h = Some ip
      \<and> (\<forall>h'. h' \<noteq> h \<longrightarrow> bind (PutByHost st h ip (PutByIP st ip h s)) h' \<in> {None, bind s h'})"
    and StoreFlush: "ok s \<Longrightarrow> StoreFlush st s = Value s' \<Longrightarrow> ok s' \<and> bind s' = Map.empty"

text \<open>The addresses of a pool: \<open>h\<close> is the number of the network address and \<open>l\<close> that of the
  last one. The first address handed out is the fourth after the network address.\<close>

definition pool_range :: "bool \<Rightarrow> nat \<Rightarrow> nat \<Rightarrow> 's Pool \<Rightarrow> bool" where
  "pool_range six h l p \<longleftrightarrow> l < 2 ^ addr_bits six \<and> h + 4 < l
     \<and> gateway p = addr_at six (h + 1) \<and> first p = addr_at six (h + 4) \<and> last_ip p = addr_at six l
     \<and> (\<exists>n. h + 3 \<le> n \<and> n < l \<and> offset p = addr_at six n)"

definition in_pool :: "bool \<Rightarrow> nat \<Rightarrow> nat \<Rightarrow> addr \<Rightarrow> bool" where
  "in_pool six h l ip \<longleftrightarrow> (\<exists>n. h + 4 \<le> n \<and> n < l \<and> ip = addr_at six n)"

definition next_offset :: "'s Pool \<Rightarrow> addr" where
  "next_offset p = (if Next (offset p) < last_ip p then Next (offset p) else first p)"

lemma Prev_first:
  assumes "h + 4 < 2 ^ addr_bits six"
  shows "Prev (addr_at six (h + 4)) = addr_at six (h + 3)"
proof -
  have e: "Suc (h + 3) = h + 4" by simp
  have "Prev (addr_at six (Suc (h + 3))) = addr_at six (h + 3)" using assms by (intro Prev_addr_at) linarith
  then show ?thesis unfolding e .
qed

lemma pool_get_eq:
  "pool_get st host p =
     (let s = pool_store p;
          s = (if (cycle p \<or> \<not> Next (offset p) < last_ip p) \<or> StoreExist st (next_offset p) s
               then DelByIP st (next_offset p) s else s)
      in (next_offset p, p\<lparr>offset := next_offset p, cycle := cycle p \<or> \<not> Next (offset p) < last_ip p,
            pool_store := PutByIP st (next_offset p) host s\<rparr>))"
  by (simp add: pool_get_def next_offset_def Let_def)

lemma next_offset_range:
  assumes "pool_range six h l p"
  obtains n where "h + 4 \<le> n" "n < l" "next_offset p = addr_at six n"
proof -
  obtain n where n: "h + 3 \<le> n" "n < l" "offset p = addr_at six n" and l: "l < 2 ^ addr_bits six"
    and p: "h + 4 < l" "first p = addr_at six (h + 4)" "last_ip p = addr_at six l"
    using assms by (auto simp: pool_range_def)
  have "Next (offset p) = addr_at six (Suc n)" using n l by simp
  moreover have "addr_at six (Suc n) < addr_at six l \<longleftrightarrow> Suc n < l"
    using n l by (intro addr_at_less_iff) auto
  ultimately have "next_offset p = addr_at six (if Suc n < l then Suc n else h + 4)"
    using p by (simp add: next_offset_def)
  moreover have "h + 4 \<le> Suc n" using n(1) by simp
  ultimately show thesis using that [of "Suc n"] that [of "h + 4"] p(1) by (cases "Suc n < l") auto
qed

lemma pool_range_offset:
  "pool_range six h l p \<Longrightarrow> h + 3 \<le> n \<Longrightarrow> n < l \<Longrightarrow>
   pool_range six h l (p\<lparr>offset := addr_at six n, cycle := c, pool_store := s\<rparr>)"
  by (auto simp: pool_range_def)

lemma in_pool_apart:
  assumes "pool_range six h l p" "in_pool six h l ip"
  shows "ip \<noteq> gateway p \<and> ip \<noteq> last_ip p \<and> \<not> ip < first p \<and> ip < last_ip p"
  using assms by (auto simp: pool_range_def in_pool_def addr_at_eq_iff addr_at_less_iff)

definition pool_holds :: "('s \<Rightarrow> bool) \<Rightarrow> ('s \<Rightarrow> string \<Rightarrow> addr option) \<Rightarrow> bool \<Rightarrow> nat \<Rightarrow> nat \<Rightarrow> 's Pool \<Rightarrow> bool" where
  "pool_holds ok bind six h l p \<longleftrightarrow> pool_range six h l p \<and> ok (pool_store p)
     \<and> (\<forall>host ip. bind (pool_store p) host = Some ip \<longrightarrow> in_pool six h l ip)"

lemma pool_range_same:
  assumes "pool_range six' h' l' p" "pool_range six h l p"
  shows "six' = six \<and> h' = h \<and> l' = l"
proof -
  have n: "h' + 4 < 2 ^ addr_bits six'" "h + 4 < 2 ^ addr_bits six" "l' < 2 ^ addr_bits six'" "l < 2 ^ addr_bits six"
    and f: "addr_at six' (h' + 4) = addr_at six (h + 4)" "addr_at six' l' = addr_at six l"
    using assms by (auto simp: pool_range_def)
  then have "six' = six" by (simp add: addr_at_def split: if_splits)
  with n f show ?thesis by (simp add: addr_at_eq_iff)
qed

context fake_store begin

abbreviation "pool_inv \<equiv> pool_holds ok bind"

lemmas pool_inv_def = pool_holds_def

lemma pool_get_put:
  assumes "pool_inv six h l p" "bind (pool_store p) host = None" "pool_get st host p = (ip, p')"
  defines "q \<equiv> p'\<lparr>pool_store := PutByHost st host ip (pool_store p')\<rparr>"
  shows "pool_inv six h l q \<and> bind (pool_store q) host = Some ip \<and> in_pool six h l ip"
proof -
  let ?ip = "next_offset p"
  let ?s = "if (cycle p \<or> \<not> Next (offset p) < last_ip p) \<or> StoreExist st ?ip (pool_store p)
    then DelByIP st ?ip (pool_store p) else pool_store p"
  have inv: "pool_range six h l p" "ok (pool_store p)"
    "\<And>host ip. bind (pool_store p) host = Some ip \<Longrightarrow> in_pool six h l ip"
    using assms(1) by (auto simp: pool_inv_def)
  have s: "ok ?s" "bind ?s = (\<lambda>h. if bind (pool_store p) h = Some ?ip then None else bind (pool_store p) h)"
    using inv(2) StoreExist DelByIP by (auto simp: fun_eq_iff)
  have put: "ok (PutByHost st host ?ip (PutByIP st ?ip host ?s))"
    "bind (PutByHost st host ?ip (PutByIP st ?ip host ?s)) host = Some ?ip"
    "\<And>h'. h' \<noteq> host \<Longrightarrow> bind (PutByHost st host ?ip (PutByIP st ?ip host ?s)) h' \<in> {None, bind ?s h'}"
    using Put [OF s(1), of host ?ip] s(2) assms(2) by auto
  have q: "q = p\<lparr>offset := ?ip, cycle := cycle p \<or> \<not> Next (offset p) < last_ip p,
      pool_store := PutByHost st host ?ip (PutByIP st ?ip host ?s)\<rparr>" "ip = ?ip"
    using assms(3) unfolding q_def pool_get_eq Let_def by auto
  obtain n where n: "h + 4 \<le> n" "n < l" "?ip = addr_at six n" using next_offset_range [OF inv(1)] .
  have "pool_range six h l q" unfolding q n(3) using n by (intro pool_range_offset [OF inv(1)]) simp_all
  moreover have "in_pool six h l x" if "bind (pool_store q) host' = Some x" for host' x
  proof (cases "host' = host")
    case True
    with that n put(2) show ?thesis unfolding q by (auto simp: in_pool_def)
  next
    case False
    with that put(3) [OF False] s(2) inv(3) show ?thesis unfolding q by (auto split: if_splits)
  qed
  ultimately show ?thesis using put(1,2) n unfolding pool_inv_def q by (auto simp: in_pool_def)
qed

lemma Lookup_inv:
  assumes "pool_inv six h l p" "Lookup st host p = (ip, p')"
  shows "pool_inv six h l p' \<and> bind (pool_store p') (to_lower host) = Some ip \<and> in_pool six h l ip"
proof -
  obtain r s where g: "GetByHost st (to_lower host) (pool_store p) = (r, s)" by fastforce
  have ok: "ok (pool_store p)" using assms(1) by (simp add: pool_inv_def)
  have s: "r = bind (pool_store p) (to_lower host)" "ok s" "bind s = bind (pool_store p)"
    using GetByHost [OF ok g] by auto
  let ?p = "p\<lparr>pool_store := s\<rparr>"
  have inv: "pool_inv six h l ?p" using assms(1) s by (auto simp: pool_inv_def pool_range_def)
  show ?thesis
  proof (cases r)
    case (Some x)
    with assms(2) g have "p' = ?p" "x = ip" by (simp_all add: Lookup_def Let_def)
    with Some s inv show ?thesis by (auto simp: pool_inv_def)
  next
    case None
    obtain x q where q: "pool_get st (to_lower host) ?p = (x, q)" by fastforce
    with None s have "bind (pool_store ?p) (to_lower host) = None" by simp
    from pool_get_put [OF inv this q] None assms(2) g q show ?thesis by (auto simp: Lookup_def Let_def)
  qed
qed

lemma Lookup_again:
  assumes "ok (pool_store p)" "bind (pool_store p) (to_lower host) = Some ip"
  shows "fst (Lookup st host p) = ip"
  using GetByHost [OF assms(1)] assms(2)
  by (cases "GetByHost st (to_lower host) (pool_store p)") (force simp: Lookup_def)

lemma LookBack_inv:
  assumes "pool_inv six h l p" "LookBack st ip p = (r, p')"
  shows "pool_inv six h l p' \<and> bind (pool_store p') = bind (pool_store p)
    \<and> (\<forall>host. r = Some host \<longleftrightarrow> bind (pool_store p) host = Some ip)"
  using assms GetByIP by (fastforce simp: LookBack_def pool_inv_def pool_range_def split: prod.splits)

lemma FlushFakeIP_inv:
  assumes "pool_inv six h l p" "FlushFakeIP st p = Value p'"
  shows "pool_inv six h l p' \<and> bind (pool_store p') = Map.empty"
proof -
  have l: "pool_range six h l p" "ok (pool_store p)" "l < 2 ^ addr_bits six" "h + 4 < l" "first p = addr_at six (h + 4)"
    using assms(1) by (simp_all add: pool_inv_def pool_range_def)
  then have "Prev (first p) = addr_at six (h + 3)" using Prev_first [of h six] by simp
  moreover obtain s where "StoreFlush st (pool_store p) = Value s" "p' = p\<lparr>pool_store := s, cycle := False, offset := Prev (first p)\<rparr>"
    using assms(2) by (auto simp: FlushFakeIP_def)
  moreover have "pool_range six h l (p\<lparr>offset := addr_at six (h + 3), cycle := False, pool_store := s\<rparr>)"
    using l by (intro pool_range_offset) simp_all
  ultimately show ?thesis using StoreFlush [OF l(2)] by (auto simp: pool_inv_def pool_range_def)
qed

end

section \<open>The memory store\<close>

text \<open>A cache without age as its list of keys and values.\<close>

definition key_vals :: "('l \<Rightarrow> ('h \<times> ('k, 'v) entry) list) \<Rightarrow> ('k, 'v, 'l, 'h) LruCache \<Rightarrow> ('k \<times> 'v) list" where
  "key_vals elems c = map (\<lambda>e. (key e, val e)) (lru_view elems c)"

definition touch :: "'k \<Rightarrow> ('k \<times> 'v) list \<Rightarrow> ('k \<times> 'v) list" where
  "touch k ps = (case map_of ps k of None \<Rightarrow> ps | Some v \<Rightarrow> filter (\<lambda>p. fst p \<noteq> k) ps @ [(k, v)])"

definition push :: "int \<Rightarrow> 'a \<Rightarrow> 'a list \<Rightarrow> 'a list" where
  "push cap x xs = (if cap > 0 \<and> int (length xs) + 1 > cap then tl (xs @ [x]) else xs @ [x])"

lemma map_of_key_vals: "map_of (map (\<lambda>e. (key e, val e)) es) k = map_option val (lookup_key k es)"
  by (induction es) (auto simp: lookup_key_def)

lemma key_vals_remove: "map (\<lambda>e. (key e, val e)) (remove_key k es) = filter (\<lambda>p. fst p \<noteq> k) (map (\<lambda>e. (key e, val e)) es)"
  by (simp add: remove_key_def filter_map o_def)

context lru_list begin

abbreviation "kvs \<equiv> key_vals elems"

lemma distinct_kvs: "linked c \<Longrightarrow> distinct (map fst (kvs c))"
  by (simp add: linked_def key_vals_def view_def o_def)

lemma Get_kvs:
  assumes "linked c" "maxAge c = 0" "lru_Get pkg now k c = (r, c')"
  shows "r = map_of (kvs c) k \<and> linked c' \<and> cfg c' = cfg c \<and> kvs c' = touch k (kvs c)"
proof -
  obtain e where g: "lru_get pkg now k c = (e, c')" "r = map_option val e"
    using assms(3) by (auto simp: lru_Get_def split: prod.splits)
  have c: "spec_get 0 (updateAgeOnGet c) (staleReturn c) now k (view c) = (e, view c')" "linked c'" "cfg c' = cfg c"
    using lru_get_cfg [OF assms(1), of now k] g(1) assms(2) by (auto simp: cfg_def split: prod.splits)
  have "lookup_key k (view c) = Some d \<Longrightarrow> key d = k" for d
    by (auto simp: lookup_key_def dest: find_SomeD)
  moreover have "view c' = snd (spec_get 0 (updateAgeOnGet c) (staleReturn c) now k (view c))" using c(1) by simp
  ultimately have "kvs c' = touch k (kvs c)"
    by (auto simp: key_vals_def touch_def spec_get_def map_of_key_vals key_vals_remove split: option.splits)
  moreover have "e = lookup_key k (view c)"
    using c(1) by (auto simp: spec_get_def split: option.splits)
  ultimately show ?thesis using c g(2) by (simp add: key_vals_def map_of_key_vals)
qed

lemma set_kvs:
  assumes "linked c" "maxAge c = 0" "map_of (kvs c) k = None"
  shows "linked (lru_set pkg now k v c) \<and> cfg (lru_set pkg now k v c) = cfg c
    \<and> kvs (lru_set pkg now k v c) = push (maxSize c) (k, v) (kvs c)"
proof -
  have n: "lookup_key k (view c) = None" using assms(3) by (simp add: key_vals_def map_of_key_vals)
  have "view (lru_set pkg now k v c) = spec_set 0 (maxSize c) (staleReturn c) now k v 0 (view c)"
    using lru_set_cfg [OF assms(1), of now k v] assms(2) by (simp add: cfg_def spec_age_def)
  then have "kvs (lru_set pkg now k v c) = push (maxSize c) (k, v) (kvs c)"
    using n remove_key_absent [OF n]
    by (simp add: key_vals_def push_def spec_set_def spec_oldest_def Let_def map_tl add.commute)
  with lru_set_cfg [OF assms(1)] show ?thesis by simp
qed

lemma Delete_kvs:
  assumes "linked c"
  shows "linked (lru_Delete pkg k c) \<and> cfg (lru_Delete pkg k c) = cfg c
    \<and> kvs (lru_Delete pkg k c) = filter (\<lambda>p. fst p \<noteq> k) (kvs c)"
  using to_cfg [OF lru_Delete_to [OF assms]] by (simp add: key_vals_def key_vals_remove)

lemma Exist_kvs: "linked c \<Longrightarrow> lru_Exist k c \<longleftrightarrow> map_of (kvs c) k \<noteq> None"
  using lru_Exist_iff by (simp add: key_vals_def map_of_key_vals)

lemma Clear_kvs: "linked (lru_Clear pkg c) \<and> cfg (lru_Clear pkg c) = cfg c \<and> kvs (lru_Clear pkg c) = []"
  by (simp add: lru_Clear_def linked_def cfg_def key_vals_def view_def New)

end

text \<open>The two caches of a memory store move in lockstep: the entries of the one are those of the
  other, turned around, in the same order.\<close>

definition mem_pairs :: "('l \<Rightarrow> ('h \<times> (string, addr) entry) list) \<Rightarrow> ('l, 'h, 'm, 'i) memoryStore \<Rightarrow> (string \<times> addr) list" where
  "mem_pairs e1 m = key_vals e1 (cacheIP m)"

definition mem_bind :: "('l \<Rightarrow> ('h \<times> (string, addr) entry) list) \<Rightarrow> ('l, 'h, 'm, 'i) memoryStore \<Rightarrow> string \<Rightarrow> addr option" where
  "mem_bind e1 m = map_of (mem_pairs e1 m)"

definition mem_ok :: "('l \<Rightarrow> ('h \<times> (string, addr) entry) list) \<Rightarrow> ('l \<Rightarrow> bool) \<Rightarrow>
    ('m \<Rightarrow> ('i \<times> (addr, string) entry) list) \<Rightarrow> ('m \<Rightarrow> bool) \<Rightarrow> ('l, 'h, 'm, 'i) memoryStore \<Rightarrow> bool" where
  "mem_ok e1 o1 e2 o2 m \<longleftrightarrow> lru_linked e1 o1 (cacheIP m) \<and> lru_linked e2 o2 (cacheHost m)
     \<and> maxAge (cacheIP m) = 0 \<and> maxAge (cacheHost m) = 0 \<and> maxSize (cacheHost m) = maxSize (cacheIP m)
     \<and> key_vals e2 (cacheHost m) = map prod.swap (mem_pairs e1 m)"

lemma map_of_swap:
  "distinct (map fst (map prod.swap ps)) \<Longrightarrow> map_of (map prod.swap ps) b = Some a \<longleftrightarrow> (a, b) \<in> set ps"
  by (auto simp: map_of_eq_Some_iff)

lemma filter_pair:
  assumes "distinct (map fst ps)" "distinct (map snd ps)" "(a, b) \<in> set ps"
  shows "filter (\<lambda>p. snd p \<noteq> b) ps = filter (\<lambda>p. fst p \<noteq> a) ps"
proof (rule filter_cong [OF refl])
  fix p assume p: "p \<in> set ps"
  have "inj_on fst (set ps)" "inj_on snd (set ps)" using assms(1,2) by (simp_all add: distinct_map)
  then have "fst p = fst (a, b) \<longleftrightarrow> p = (a, b)" "snd p = snd (a, b) \<longleftrightarrow> p = (a, b)"
    using p assms(3) by (simp_all only: inj_on_eq_iff)
  then show "snd p \<noteq> b \<longleftrightarrow> fst p \<noteq> a" by simp
qed

lemma touch_swap:
  assumes "distinct (map fst ps)" "distinct (map snd ps)" "(a, b) \<in> set ps"
  shows "touch b (map prod.swap ps) = map prod.swap (touch a ps)"
proof -
  have "map_of ps a = Some b" "map_of (map prod.swap ps) b = Some a"
    using assms by (auto simp: map_of_eq_Some_iff o_def)
  with filter_pair [OF assms] show ?thesis by (simp add: touch_def filter_map o_def)
qed

lemma touch_id: "map_of ps k = None \<Longrightarrow> touch k ps = ps"
  by (simp add: touch_def)

lemma push_swap: "push cap (prod.swap x) (map prod.swap xs) = map prod.swap (push cap x xs)"
  by (simp add: push_def map_tl)

lemma map_of_filter_key: "map_of (filter (\<lambda>p. fst p \<noteq> k) ps) = (map_of ps)(k := None)"
  by (induction ps) (auto simp: fun_eq_iff)

lemma map_of_filter_val:
  "distinct (map fst ps) \<Longrightarrow> map_of (filter (\<lambda>p. snd p \<noteq> v) ps) k = (if map_of ps k = Some v then None else map_of ps k)"
proof (induction ps)
  case (Cons p ps)
  have "map_of ps (fst p) = None" using Cons.prems by (simp add: map_of_eq_None_iff)
  with Cons show ?case by (cases p) (auto simp: fun_eq_iff)
qed simp

lemma map_of_touch: "map_of (touch k ps) = map_of ps"
  by (cases "map_of ps k") (auto simp: touch_def map_of_filter_key map_add_def fun_eq_iff split: option.split)

lemma distinct_touch: "distinct (map fst ps) \<Longrightarrow> distinct (map fst (touch k ps))"
  by (auto simp: touch_def distinct_map_filter split: option.split)

locale memory_caches = A: lru_list p1 e1 o1 + B: lru_list p2 e2 o2
  for p1 :: "(string, addr, 'l, 'h) lru_pkg" and e1 o1
    and p2 :: "(addr, string, 'm, 'i) lru_pkg" and e2 o2
begin

abbreviation "pairs \<equiv> mem_pairs e1"

abbreviation "good \<equiv> mem_ok e1 o1 e2 o2"

lemma good_distinct:
  assumes "good m"
  shows "distinct (map fst (pairs m))" "distinct (map snd (pairs m))"
proof -
  show "distinct (map fst (pairs m))" using assms A.distinct_kvs by (simp add: mem_ok_def mem_pairs_def)
  have "distinct (map fst (map prod.swap (pairs m)))" using assms B.distinct_kvs by (metis mem_ok_def)
  then show "distinct (map snd (pairs m))" by (simp add: o_def)
qed

lemma goodI:
  assumes "good m" "A.linked c" "A.cfg c = A.cfg (cacheIP m)" "B.linked d" "B.cfg d = B.cfg (cacheHost m)"
    and "key_vals e2 d = map prod.swap (key_vals e1 c)"
  shows "good (m\<lparr>cacheIP := c, cacheHost := d\<rparr>)"
proof -
  have "maxAge c = maxAge (cacheIP m)" "maxSize c = maxSize (cacheIP m)"
    "maxAge d = maxAge (cacheHost m)" "maxSize d = maxSize (cacheHost m)"
    using assms(3,5) by (simp_all add: A.cfg_def B.cfg_def)
  with assms show ?thesis by (simp add: mem_ok_def mem_pairs_def)
qed

lemma good_parts:
  assumes "good m"
  shows "A.linked (cacheIP m)" "B.linked (cacheHost m)" "maxAge (cacheIP m) = 0" "maxAge (cacheHost m) = 0"
    "maxSize (cacheHost m) = maxSize (cacheIP m)" "key_vals e1 (cacheIP m) = pairs m"
    "key_vals e2 (cacheHost m) = map prod.swap (pairs m)"
  using assms by (simp_all add: mem_ok_def mem_pairs_def)

lemma mem_update_same: "m\<lparr>cacheIP := c, cacheHost := cacheHost m\<rparr> = m\<lparr>cacheIP := c\<rparr>"
  "m\<lparr>cacheIP := cacheIP m, cacheHost := d\<rparr> = m\<lparr>cacheHost := d\<rparr>"
  by simp_all

lemma mem_bind_iff: "good m \<Longrightarrow> mem_bind e1 m h = Some ip \<longleftrightarrow> (h, ip) \<in> set (pairs m)"
  using good_distinct by (simp add: mem_bind_def map_of_eq_Some_iff)

lemma GetByHost_pairs:
  assumes g: "good m" and r: "mem_GetByHost p1 p2 host m = (r, m')"
  shows "good m' \<and> r = map_of (pairs m) host \<and> pairs m' = touch host (pairs m) \<and> maxSize (cacheIP m') = maxSize (cacheIP m)"
proof -
  obtain x c where x: "lru_Get p1 0 host (cacheIP m) = (x, c)" by fastforce
  have c: "x = map_of (pairs m) host" "lru_linked e1 o1 c" "A.cfg c = A.cfg (cacheIP m)" "key_vals e1 c = touch host (pairs m)"
    using A.Get_kvs [OF good_parts(1,3) [OF g] x] good_parts [OF g] by auto
  show ?thesis
  proof (cases x)
    case None
    then have m': "m' = m\<lparr>cacheIP := c\<rparr>" "r = None" using r x by (auto simp: mem_GetByHost_def)
    have "key_vals e1 c = pairs m" using c(1,4) None by (simp add: touch_id)
    with goodI [OF g c(2,3) good_parts(2) [OF g] refl] m' c None good_parts(7) [OF g]
    show ?thesis by (simp add: mem_pairs_def touch_id A.cfg_def)
  next
    case (Some ip)
    obtain y d where y: "lru_Get p2 0 ip (cacheHost m) = (y, d)" by fastforce
    have d: "lru_linked e2 o2 d" "B.cfg d = B.cfg (cacheHost m)" "key_vals e2 d = touch ip (map prod.swap (pairs m))"
      using B.Get_kvs [OF good_parts(2,4) [OF g] y] good_parts(7) [OF g] by auto
    have "(host, ip) \<in> set (pairs m)" using c(1) Some by (metis map_of_SomeD)
    with touch_swap [OF good_distinct [OF g]] have "key_vals e2 d = map prod.swap (key_vals e1 c)"
      using c(4) d(3) by simp
    from goodI [OF g c(2,3) d(1,2) this] have "good (m\<lparr>cacheIP := c, cacheHost := d\<rparr>)" .
    moreover have "m' = m\<lparr>cacheIP := c, cacheHost := d\<rparr>" "r = Some ip"
      using r x y unfolding Some by (auto simp: mem_GetByHost_def)
    ultimately show ?thesis using c(1,3,4) Some by (simp add: mem_pairs_def A.cfg_def)
  qed
qed

lemma GetByIP_pairs:
  assumes g: "good m" and r: "mem_GetByIP p1 p2 ip m = (r, m')"
  shows "good m' \<and> (\<forall>host. r = Some host \<longleftrightarrow> (host, ip) \<in> set (pairs m))
    \<and> pairs m' = (case r of None \<Rightarrow> pairs m | Some host \<Rightarrow> touch host (pairs m))"
proof -
  obtain x c where x: "lru_Get p2 0 ip (cacheHost m) = (x, c)" by fastforce
  have c: "x = map_of (map prod.swap (pairs m)) ip" "lru_linked e2 o2 c" "B.cfg c = B.cfg (cacheHost m)"
    "key_vals e2 c = touch ip (map prod.swap (pairs m))"
    using B.Get_kvs [OF good_parts(2,4) [OF g] x] good_parts(7) [OF g] by auto
  have x_iff: "x = Some host \<longleftrightarrow> (host, ip) \<in> set (pairs m)" for host
    unfolding c(1) using map_of_swap [of "pairs m" ip host] good_distinct(2) [OF g] by (simp add: o_def)
  show ?thesis
  proof (cases x)
    case None
    then have m': "m' = m\<lparr>cacheHost := c\<rparr>" "r = None" using r x by (auto simp: mem_GetByIP_def)
    have "key_vals e2 c = map prod.swap (key_vals e1 (cacheIP m))"
      using c(1,4) None good_parts(6) [OF g] by (simp add: touch_id)
    with goodI [OF g good_parts(1) [OF g] refl c(2,3)] m' x_iff None
    show ?thesis by (simp add: mem_pairs_def)
  next
    case (Some host)
    obtain y d where y: "lru_Get p1 0 host (cacheIP m) = (y, d)" by fastforce
    have d: "lru_linked e1 o1 d" "A.cfg d = A.cfg (cacheIP m)" "key_vals e1 d = touch host (pairs m)"
      using A.Get_kvs [OF good_parts(1,3) [OF g] y] good_parts(6) [OF g] by auto
    have "(host, ip) \<in> set (pairs m)" using x_iff [of host] Some by blast
    with touch_swap [OF good_distinct [OF g]] have "key_vals e2 c = map prod.swap (key_vals e1 d)"
      using c(4) d(3) by simp
    from goodI [OF g d(1,2) c(2,3) this] have "good (m\<lparr>cacheIP := d, cacheHost := c\<rparr>)" .
    moreover have m': "m' = m\<lparr>cacheIP := d, cacheHost := c\<rparr>" "r = Some host"
      using r x y unfolding Some by (auto simp: mem_GetByIP_def)
    moreover have "\<forall>host'. r = Some host' \<longleftrightarrow> (host', ip) \<in> set (pairs m)"
      using x_iff unfolding Some m'(2) by blast
    moreover have "pairs m' = (case r of None \<Rightarrow> pairs m | Some host \<Rightarrow> touch host (pairs m))"
      unfolding m' using d(3) by (simp add: mem_pairs_def)
    ultimately show ?thesis by simp
  qed
qed

lemma DelByIP_pairs:
  assumes g: "good m"
  shows "good (mem_DelByIP p1 p2 ip m) \<and> pairs (mem_DelByIP p1 p2 ip m) = filter (\<lambda>p. snd p \<noteq> ip) (pairs m)
    \<and> maxSize (cacheIP (mem_DelByIP p1 p2 ip m)) = maxSize (cacheIP m)"
proof -
  obtain x c where x: "lru_Get p2 0 ip (cacheHost m) = (x, c)" by fastforce
  have c: "x = map_of (map prod.swap (pairs m)) ip" "lru_linked e2 o2 c" "B.cfg c = B.cfg (cacheHost m)"
    "key_vals e2 c = touch ip (map prod.swap (pairs m))"
    using B.Get_kvs [OF good_parts(2,4) [OF g] x] good_parts(7) [OF g] by auto
  let ?d = "lru_Delete p2 ip c"
  have swap: "filter (\<lambda>p. fst p \<noteq> ip) (map prod.swap (pairs m)) = map prod.swap (filter (\<lambda>p. snd p \<noteq> ip) (pairs m))"
    by (simp add: filter_map o_def)
  have "filter (\<lambda>p. fst p \<noteq> ip) (touch ip (map prod.swap (pairs m))) = filter (\<lambda>p. fst p \<noteq> ip) (map prod.swap (pairs m))"
    by (auto simp: touch_def split: option.split)
  then have d: "lru_linked e2 o2 ?d" "B.cfg ?d = B.cfg (cacheHost m)"
    "key_vals e2 ?d = map prod.swap (filter (\<lambda>p. snd p \<noteq> ip) (pairs m))"
    using B.Delete_kvs [OF c(2), of ip] c(3,4) swap by simp_all
  show ?thesis
  proof (cases x)
    case None
    then have none: "filter (\<lambda>p. snd p \<noteq> ip) (pairs m) = pairs m"
      unfolding filter_id_conv using c(1) by (auto simp: map_of_eq_None_iff image_image dest!: sym [of None])
    have "good (m\<lparr>cacheIP := cacheIP m, cacheHost := ?d\<rparr>)"
      using goodI [OF g good_parts(1) [OF g] refl d(1,2)] d(3) none good_parts(6) [OF g] by simp
    moreover have "mem_DelByIP p1 p2 ip m = m\<lparr>cacheIP := cacheIP m, cacheHost := ?d\<rparr>"
      using x unfolding None by (simp add: mem_DelByIP_def)
    ultimately show ?thesis using none by (simp add: mem_pairs_def)
  next
    case (Some host)
    have "(host, ip) \<in> set (pairs m)"
      using c(1) map_of_swap [of "pairs m" ip host] good_distinct(2) [OF g] Some by (simp add: o_def)
    from filter_pair [OF good_distinct [OF g] this]
    have f: "filter (\<lambda>p. fst p \<noteq> host) (pairs m) = filter (\<lambda>p. snd p \<noteq> ip) (pairs m)" by simp
    let ?c = "lru_Delete p1 host (cacheIP m)"
    have e: "lru_linked e1 o1 ?c" "A.cfg ?c = A.cfg (cacheIP m)" "key_vals e1 ?c = filter (\<lambda>p. snd p \<noteq> ip) (pairs m)"
      using A.Delete_kvs [OF good_parts(1) [OF g], of host] f good_parts(6) [OF g] by simp_all
    have "good (m\<lparr>cacheIP := ?c, cacheHost := ?d\<rparr>)"
      using goodI [OF g e(1,2) d(1,2)] d(3) e(3) by simp
    moreover have "mem_DelByIP p1 p2 ip m = m\<lparr>cacheIP := ?c, cacheHost := ?d\<rparr>"
      using x unfolding Some by (simp add: mem_DelByIP_def)
    ultimately show ?thesis using e(2,3) by (simp add: mem_pairs_def A.cfg_def)
  qed
qed

lemma Put_pairs:
  assumes g: "good m" and fresh: "map_of (pairs m) host = None" "ip \<notin> snd ` set (pairs m)"
  defines "m' \<equiv> mem_PutByHost p1 host ip (mem_PutByIP p2 ip host m)"
  shows "good m' \<and> pairs m' = push (maxSize (cacheIP m)) (host, ip) (pairs m) \<and> maxSize (cacheIP m') = maxSize (cacheIP m)"
proof -
  let ?c = "lru_set p1 0 host ip (cacheIP m)" and ?d = "lru_set p2 0 ip host (cacheHost m)"
  have c: "lru_linked e1 o1 ?c" "A.cfg ?c = A.cfg (cacheIP m)"
    "key_vals e1 ?c = push (maxSize (cacheIP m)) (host, ip) (pairs m)"
    using A.set_kvs [OF good_parts(1,3) [OF g], of host 0 ip] fresh(1) good_parts(6) [OF g] by simp_all
  have "map_of (map prod.swap (pairs m)) ip = None"
    using fresh(2) by (simp add: map_of_eq_None_iff image_image)
  then have d: "lru_linked e2 o2 ?d" "B.cfg ?d = B.cfg (cacheHost m)"
    "key_vals e2 ?d = push (maxSize (cacheIP m)) (ip, host) (map prod.swap (pairs m))"
    using B.set_kvs [OF good_parts(2,4) [OF g], of ip 0 host] good_parts(5,7) [OF g] by simp_all
  have m': "m' = m\<lparr>cacheIP := ?c, cacheHost := ?d\<rparr>"
    by (simp add: m'_def mem_PutByHost_def mem_PutByIP_def)
  have "key_vals e2 ?d = map prod.swap (key_vals e1 ?c)"
    using d(3) c(3) push_swap [of "maxSize (cacheIP m)" "(host, ip)"] by simp
  from goodI [OF g c(1,2) d(1,2) this] m' c(2,3) show ?thesis by (simp add: mem_pairs_def A.cfg_def)
qed

lemma Exist_pairs: "good m \<Longrightarrow> mem_Exist ip m \<longleftrightarrow> ip \<in> snd ` set (pairs m)"
  using B.Exist_kvs [OF good_parts(2), of m ip] good_parts(7) [of m]
  by (auto simp: mem_Exist_def map_of_eq_None_iff image_image)

lemma Flush_pairs:
  assumes "good m"
  shows "\<exists>m'. mem_FlushFakeIP p1 p2 m = Value m' \<and> good m' \<and> pairs m' = [] \<and> maxSize (cacheIP m') = maxSize (cacheIP m)"
  using goodI [OF assms, of "lru_Clear p1 (cacheIP m)" "lru_Clear p2 (cacheHost m)"] A.Clear_kvs B.Clear_kvs
  by (simp add: mem_FlushFakeIP_def mem_pairs_def lru_Clear_def)

lemma new_good: "good (newMemoryStore p1 p2 n) \<and> pairs (newMemoryStore p1 p2 n) = [] \<and> maxSize (cacheIP (newMemoryStore p1 p2 n)) = n"
  using A.lru_New_cfg [of 0 n False False False] B.lru_New_cfg [of 0 n False False False]
  by (simp add: newMemoryStore_def mem_ok_def mem_pairs_def key_vals_def A.cfg_def B.cfg_def lru_New_def)

lemma mem_push_subset: "set (push cap x xs) \<subseteq> insert x (set xs)"
  by (cases xs) (auto simp: push_def)

end

text \<open>The memory store is a store.\<close>

lemma push_keeps_new: "x \<in> set (push cap x xs)"
  by (cases xs) (auto simp: push_def)

lemma map_of_subset:
  "distinct (map fst ps) \<Longrightarrow> distinct (map fst qs) \<Longrightarrow> set qs \<subseteq> insert (h, ip) (set ps) \<Longrightarrow> h' \<noteq> h \<Longrightarrow>
   map_of qs h' \<in> {None, map_of ps h'}"
  by (cases "map_of qs h'") (auto dest!: map_of_SomeD)

sublocale memory_caches \<subseteq> fake_store "memory_store p1 p2" good "mem_bind e1"
proof (unfold_locales, goal_cases)
  case (1 s h ip h')
  then have "(h, ip) \<in> set (pairs s)" "(h', ip) \<in> set (pairs s)" by (simp_all add: mem_bind_iff)
  then show ?case using good_distinct(2) [OF 1(1)] by (metis eq_key_imp_eq_value in_set_zip prod.inject zip_map_fst_snd
        distinct_map inj_on_def snd_conv)
next
  case (2 s h r s')
  then have "mem_GetByHost p1 p2 h s = (r, s')" by (simp add: memory_store_def)
  from GetByHost_pairs [OF 2(1) this] show ?case by (simp add: mem_bind_def map_of_touch)
next
  case (3 s ip host s')
  then have "mem_GetByIP p1 p2 ip s = (host, s')" by (simp add: memory_store_def)
  from GetByIP_pairs [OF 3(1) this] show ?case
    by (auto simp: mem_bind_iff [OF 3(1)]) (auto simp: mem_bind_def map_of_touch split: option.splits)
next
  case (4 s ip)
  with Exist_pairs show ?case by (force simp: memory_store_def mem_bind_iff)
next
  case (5 s ip)
  from DelByIP_pairs [OF 5, of ip] good_distinct(1) [OF 5] show ?case
    by (auto simp: memory_store_def mem_bind_def map_of_filter_val fun_eq_iff)
next
  case (6 s h ip)
  then have "ip \<notin> snd ` set (pairs s)" by (force simp: mem_bind_iff)
  with Put_pairs [OF 6(1), of h ip] 6(2)
  have p: "good (mem_PutByHost p1 h ip (mem_PutByIP p2 ip h s))"
    "pairs (mem_PutByHost p1 h ip (mem_PutByIP p2 ip h s)) = push (maxSize (cacheIP s)) (h, ip) (pairs s)"
    by (simp_all add: mem_bind_def)
  have "(h, ip) \<in> set (pairs (mem_PutByHost p1 h ip (mem_PutByIP p2 ip h s)))"
    unfolding p(2) by (rule push_keeps_new)
  then have new: "mem_bind e1 (mem_PutByHost p1 h ip (mem_PutByIP p2 ip h s)) h = Some ip"
    by (simp only: mem_bind_iff [OF p(1)])
  have old: "map_of (pairs (mem_PutByHost p1 h ip (mem_PutByIP p2 ip h s))) h' \<in> {None, map_of (pairs s) h'}" if "h' \<noteq> h" for h'
    using mem_push_subset [of "maxSize (cacheIP s)" "(h, ip)" "pairs s"] that
    by (intro map_of_subset [OF good_distinct(1) [OF 6(1)] good_distinct(1) [OF p(1)], where h = h and ip = ip]) (simp_all add: p(2))
  with p(1) new show ?case by (simp add: memory_store_def mem_bind_def)
next
  case (7 s s')
  with Flush_pairs [OF 7(1)] show ?case by (auto simp: memory_store_def mem_bind_def)
qed

interpretation slice_caches: memory_caches slice_pkg snd slice_ok slice_pkg snd slice_ok
  by unfold_locales

section \<open>Addresses of a prefix\<close>

text \<open>An address between the network address and an address of the prefix is in the prefix.\<close>

lemma drop_bit_mono_word: "x \<le> y \<Longrightarrow> drop_bit k x \<le> drop_bit k y" for x y :: "'w::len word"
  unfolding word_le_nat_alt unat_drop_bit_eq by (simp add: drop_bit_eq_div div_le_mono)

lemma drop_push_drop: "drop_bit k (push_bit k (drop_bit k a)) = drop_bit k a" for a :: "'w::len word"
  by (rule bit_word_eqI) (auto simp: bit_simps dest: bit_imp_le_length)

lemma xor_zero_iff: "a XOR b = 0 \<longleftrightarrow> a = b" for a b :: "'w::len word"
  by (metis xor.assoc xor.right_neutral xor_self_eq)

lemma drop_bit_between:
  fixes a x y :: "'w::len word"
  assumes "push_bit k (drop_bit k a) \<le> x" "x \<le> y" "drop_bit k (a XOR y) = 0"
  shows "drop_bit k (a XOR x) = 0"
proof -
  have "drop_bit k a \<le> drop_bit k x" "drop_bit k x \<le> drop_bit k y" "drop_bit k a = drop_bit k y"
    using drop_bit_mono_word [OF assms(1), of k] drop_bit_mono_word [OF assms(2), of k] assms(3)
    by (simp_all add: drop_push_drop drop_bit_xor xor_zero_iff)
  then show ?thesis by (simp add: drop_bit_xor xor_zero_iff)
qed

lemma word_of_nat_le_iff':
  "m < 2 ^ LENGTH('w::len) \<Longrightarrow> n < 2 ^ LENGTH('w) \<Longrightarrow> (word_of_nat m :: 'w word) \<le> word_of_nat n \<longleftrightarrow> m \<le> n"
  by (simp only: word_le_nat_alt unsigned_of_nat take_bit_nat_eq_self of_nat_id)

lemma addr_number:
  "\<exists>l < 2 ^ addr_bits False. V4 w = addr_at False l" "\<exists>l < 2 ^ addr_bits True. V6 v '''' = addr_at True l"
  using unsigned_less [of w] unsigned_less [of v]
  by (auto simp: addr_at_def addr_bits_def intro: exI [of _ "unat w"] exI [of _ "unat v"])

lemma masked_number:
  assumes "prefix_valid net"
  obtains six h where "masked_addr net = addr_at six h" "h < 2 ^ addr_bits six"
    "\<forall>n l. h \<le> n \<longrightarrow> n \<le> l \<longrightarrow> l < 2 ^ addr_bits six \<longrightarrow> prefix_contains net (addr_at six l) \<longrightarrow> prefix_contains net (addr_at six n)"
    "\<forall>ip. prefix_contains net ip \<longrightarrow> (\<exists>l < 2 ^ addr_bits six. ip = addr_at six l)"
proof (cases "prefix_addr net")
  case NoAddr
  with assms show thesis by (simp add: prefix_valid_def)
next
  case (V4 a)
  let ?k = "32 - prefix_bits net"
  let ?h = "unat (push_bit ?k (drop_bit ?k a))"
  show thesis
  proof (rule that [of False ?h])
    show "masked_addr net = addr_at False ?h" using assms V4 by (simp add: masked_addr_def addr_at_def)
    show "?h < 2 ^ addr_bits False" using unsigned_less [of "push_bit ?k (drop_bit ?k a)"] by (simp add: addr_bits_def)
    show "\<forall>n l. ?h \<le> n \<longrightarrow> n \<le> l \<longrightarrow> l < 2 ^ addr_bits False \<longrightarrow> prefix_contains net (addr_at False l) \<longrightarrow> prefix_contains net (addr_at False n)"
    proof (intro allI impI)
      fix n l
      assume that: "?h \<le> n" "n \<le> l" "l < 2 ^ addr_bits False" "prefix_contains net (addr_at False l)"
      then have b: "l < 2 ^ LENGTH(32)" "n < 2 ^ LENGTH(32)" by (simp_all add: addr_bits_def)
      have "push_bit ?k (drop_bit ?k a) \<le> word_of_nat n"
        using that(1) b(2) by (simp only: word_le_nat_alt unsigned_of_nat take_bit_nat_eq_self of_nat_id)
      from drop_bit_between [OF this, of "word_of_nat l"] word_of_nat_le_iff' [OF b(2,1)] that(2,4) V4
      show "prefix_contains net (addr_at False n)" by (simp add: prefix_contains_def addr_at_def)
    qed
    show "\<forall>ip. prefix_contains net ip \<longrightarrow> (\<exists>l < 2 ^ addr_bits False. ip = addr_at False l)"
      using V4 addr_number by (auto simp: prefix_contains_def split: addr.splits)
  qed
next
  case (V6 a z)
  let ?k = "128 - prefix_bits net"
  let ?h = "unat (push_bit ?k (drop_bit ?k a))"
  show thesis
  proof (rule that [of True ?h])
    show "masked_addr net = addr_at True ?h" using assms V6 by (simp add: masked_addr_def addr_at_def)
    show "?h < 2 ^ addr_bits True" using unsigned_less [of "push_bit ?k (drop_bit ?k a)"] by (simp add: addr_bits_def)
    show "\<forall>n l. ?h \<le> n \<longrightarrow> n \<le> l \<longrightarrow> l < 2 ^ addr_bits True \<longrightarrow> prefix_contains net (addr_at True l) \<longrightarrow> prefix_contains net (addr_at True n)"
    proof (intro allI impI)
      fix n l
      assume that: "?h \<le> n" "n \<le> l" "l < 2 ^ addr_bits True" "prefix_contains net (addr_at True l)"
      then have b: "l < 2 ^ LENGTH(128)" "n < 2 ^ LENGTH(128)" by (simp_all add: addr_bits_def)
      have "push_bit ?k (drop_bit ?k a) \<le> word_of_nat n"
        using that(1) b(2) by (simp only: word_le_nat_alt unsigned_of_nat take_bit_nat_eq_self of_nat_id)
      from drop_bit_between [OF this, of "word_of_nat l"] word_of_nat_le_iff' [OF b(2,1)] that(2,4) V6
      show "prefix_contains net (addr_at True n)" by (simp add: prefix_contains_def addr_at_def)
    qed
    show "\<forall>ip. prefix_contains net ip \<longrightarrow> (\<exists>l < 2 ^ addr_bits True. ip = addr_at True l)"
      using V6 addr_number by (auto simp: prefix_contains_def split: addr.splits)
  qed
qed

section \<open>Pools\<close>

lemma Next_addr_at_cases:
  assumes "n < 2 ^ addr_bits six"
  shows "Next (addr_at six n) = (if Suc n < 2 ^ addr_bits six then addr_at six (Suc n) else NoAddr)"
proof (cases "Suc n < 2 ^ addr_bits six")
  case False
  with assms have "n = 2 ^ addr_bits six - 1" by linarith
  with False Next_addr_at_last [of six] show ?thesis by simp
qed simp

lemma Next_NoAddr [simp]: "Next NoAddr = NoAddr"
  by (simp add: Next_def)

lemma pool_New_range:
  assumes last: "prefix_contains net (lastIP net)" and mem: "\<not> is_cachefile st" and new: "pool_New lastIP st s net = Value p"
  obtains six h l where "pool_range six h l p" "pool_store p = s" "ipnet p = net"
    "\<forall>ip. in_pool six h l ip \<longrightarrow> prefix_contains net ip"
proof -
  let ?f = "Next (Next (Next (Next (masked_addr net))))"
  have ok: "prefix_valid net" "IsValid ?f" "?f < lastIP net"
    and p: "p = \<lparr>gateway = Next (masked_addr net), first = ?f, last_ip = lastIP net, offset = Prev ?f,
      cycle = False, ipnet = net, pool_store = s\<rparr>"
    using new mem by (auto simp: pool_New_def restoreState_def Let_def split: if_splits)
  obtain six h where m: "masked_addr net = addr_at six h" "h < 2 ^ addr_bits six"
    "\<forall>n l. h \<le> n \<longrightarrow> n \<le> l \<longrightarrow> l < 2 ^ addr_bits six \<longrightarrow> prefix_contains net (addr_at six l) \<longrightarrow> prefix_contains net (addr_at six n)"
    "\<forall>ip. prefix_contains net ip \<longrightarrow> (\<exists>l < 2 ^ addr_bits six. ip = addr_at six l)"
    by (rule masked_number [OF ok(1)])
  have h4: "h + 4 < 2 ^ addr_bits six" "Next (masked_addr net) = addr_at six (h + 1)" "?f = addr_at six (h + 4)"
    using ok(2) m(1,2) by (auto simp: Next_addr_at_cases IsValid_def eval_nat_numeral split: if_splits)
  obtain l where l: "l < 2 ^ addr_bits six" "lastIP net = addr_at six l" using m(4) last by blast
  then have "h + 4 < l" using ok(3) h4 by (simp add: addr_at_less_iff)
  moreover have pf: "Prev ?f = addr_at six (h + 3)" unfolding h4(3) using h4(1) by (rule Prev_first)
  moreover have "offset p = addr_at six (h + 3)" "first p = addr_at six (h + 4)" "gateway p = addr_at six (h + 1)"
    "last_ip p = addr_at six l"
    unfolding p Pool.simps by (rule pf, rule h4(3), rule h4(2), rule l(2))
  ultimately have "pool_range six h l p" using l(1) unfolding pool_range_def by auto
  moreover have "prefix_contains net ip" if "in_pool six h l ip" for ip
  proof -
    obtain n where n: "h + 4 \<le> n" "n < l" "ip = addr_at six n" using \<open>in_pool six h l ip\<close> by (auto simp: in_pool_def)
    then have "h \<le> n" "n \<le> l" by simp_all
    with m(3) l last n(3) show ?thesis by simp
  qed
  ultimately show thesis using that p by auto
qed

text \<open>The calls on a pool.\<close>

inductive pool_step :: "'s store \<Rightarrow> 's Pool \<Rightarrow> 's Pool \<Rightarrow> bool" for st where
  Lookup: "Lookup st host p = (ip, p') \<Longrightarrow> pool_step st p p'"
| LookBack: "LookBack st ip p = (r, p') \<Longrightarrow> pool_step st p p'"
| Flush: "FlushFakeIP st p = Value p' \<Longrightarrow> pool_step st p p'"

inductive_cases pool_stepE [elim]: "pool_step st p p'"

lemma pool_step_ipnet: "pool_step st p p' \<Longrightarrow> ipnet p' = ipnet p"
  by (induction rule: pool_step.induct)
    (auto simp: Lookup_def LookBack_def FlushFakeIP_def pool_get_eq Let_def split: prod.splits option.splits)

context fake_store begin

lemma pool_step_inv: "pool_step st p p' \<Longrightarrow> pool_inv six h l p \<Longrightarrow> pool_inv six h l p'"
  using Lookup_inv LookBack_inv FlushFakeIP_inv by (elim pool_stepE) blast+

lemma pool_steps_inv:
  "(pool_step st)\<^sup>*\<^sup>* p p' \<Longrightarrow> pool_inv six h l p \<Longrightarrow> pool_inv six h l p' \<and> ipnet p' = ipnet p"
  by (induction rule: rtranclp_induct) (auto dest: pool_step_inv pool_step_ipnet)

lemma Lookup_promises:
  assumes "pool_inv six h l p" "Lookup st host p = (ip, p')"
  shows "in_pool six h l ip \<and> pool_range six h l p' \<and> fst (LookBack st ip p') = Some (to_lower host)
    \<and> (\<forall>host'. to_lower host' = to_lower host \<longrightarrow> fst (Lookup st host' p') = ip)"
proof -
  have p': "pool_inv six h l p'" "bind (pool_store p') (to_lower host) = Some ip" "in_pool six h l ip"
    using Lookup_inv [OF assms] by auto
  have "fst (LookBack st ip p') = Some (to_lower host)"
    using LookBack_inv [OF p'(1), of ip] p'(2) by (cases "LookBack st ip p'") auto
  with p' Lookup_again [of p'] show ?thesis by (auto simp: pool_inv_def)
qed

end

section \<open>How long a fake address lasts\<close>

text \<open>At most \<open>j\<close> entries of the list are more recent than \<open>x\<close>.\<close>

definition within :: "nat \<Rightarrow> 'a \<Rightarrow> 'a list \<Rightarrow> bool" where
  "within j x xs \<longleftrightarrow> (\<exists>as bs. xs = as @ x # bs \<and> length bs \<le> j)"

lemma within_in: "within j x xs \<Longrightarrow> x \<in> set xs"
  by (auto simp: within_def)

lemma withinI: "xs = as @ x # bs \<Longrightarrow> length bs \<le> j \<Longrightarrow> within j x xs"
  by (auto simp: within_def)

lemma within_mono: "within j x xs \<Longrightarrow> j \<le> k \<Longrightarrow> within k x xs"
  unfolding within_def [of j] by (elim exE conjE) (rule withinI, assumption, rule le_trans)

lemma within_filter: "within j x xs \<Longrightarrow> P x \<Longrightarrow> within j x (filter P xs)"
  unfolding within_def [of j x xs]
  by (elim exE conjE, rule withinI [where as = "filter P _" and bs = "filter P _"]) (auto intro: le_trans [OF length_filter_le])

lemma within_append: "within j x xs \<Longrightarrow> within (Suc j) x (xs @ [y])"
  unfolding within_def by fastforce

lemma within_last: "within j x (xs @ [x])"
  unfolding within_def by fastforce

lemma within_touch:
  assumes "within j (k, v) ps" "distinct (map fst ps)"
  shows "within (Suc j) (k, v) (touch k' ps)"
proof (cases "map_of ps k'")
  case None
  then show ?thesis using within_mono [OF assms(1)] by (simp add: touch_def)
next
  case (Some v')
  show ?thesis
  proof (cases "k' = k")
    case True
    with assms within_in [OF assms(1)] Some have "v' = v" by simp
    with True Some within_last show ?thesis by (simp add: touch_def)
  next
    case False
    then have "within j (k, v) (filter (\<lambda>p. fst p \<noteq> k') ps)" using within_filter [OF assms(1)] by simp
    from within_append [OF this] Some show ?thesis by (simp add: touch_def)
  qed
qed

lemma within_push:
  assumes w: "within j x xs" and cap: "cap \<le> 0 \<or> int j + 1 < cap"
  shows "within (Suc j) x (push cap y xs)"
proof -
  obtain as bs where xs: "xs = as @ x # bs" "length bs \<le> j" using w by (auto simp: within_def)
  show ?thesis
  proof (cases "cap > 0 \<and> int (length xs) + 1 > cap")
    case True
    with xs cap have "as \<noteq> []" by auto
    then have "push cap y xs = tl as @ x # (bs @ [y])" using True xs(1) by (simp add: push_def)
    then show ?thesis using xs(2) unfolding within_def by fastforce
  next
    case False
    then have "push cap y xs = xs @ [y]" unfolding push_def by (rule if_not_P)
    with within_append [OF w] show ?thesis by simp
  qed
qed

lemma number_bound:
  assumes "pool_range six h l p" "i < l - (h + 4)"
  shows "h + 4 + i < 2 ^ addr_bits six"
proof -
  have "h + 4 + i < l" using assms(2) by linarith
  also have "l < 2 ^ addr_bits six" using assms(1) by (simp add: pool_range_def)
  finally show ?thesis .
qed

text \<open>The offset after \<open>d\<close> allocations from the \<open>i\<close>-th of \<open>N\<close> addresses.\<close>

lemma mod_other:
  fixes i e N :: nat
  assumes "i < N" "0 < e" "e < N"
  shows "(i + e) mod N \<noteq> i"
proof (cases "i + e < N")
  case False
  then have "(i + e) mod N = i + e - N" using assms by (simp add: le_mod_geq not_less)
  with assms False show ?thesis by linarith
qed (use assms in simp)

lemma next_offset_mod:
  assumes "pool_range six h l p" "offset p = addr_at six (h + 4 + i)" "h + 4 + i < l"
  shows "next_offset p = addr_at six (h + 4 + Suc i mod (l - (h + 4)))"
proof -
  have l: "l < 2 ^ addr_bits six" "h + 4 < l" "first p = addr_at six (h + 4)" "last_ip p = addr_at six l"
    using assms(1) by (simp_all add: pool_range_def)
  have n: "Next (offset p) = addr_at six (Suc (h + 4 + i))" using assms(2,3) l(1) by simp
  have "addr_at six (Suc (h + 4 + i)) < addr_at six l \<longleftrightarrow> Suc (h + 4 + i) < l"
    using assms(3) l(1) by (intro addr_at_less_iff) auto
  note less = this
  show ?thesis
  proof (cases "Suc (h + 4 + i) < l")
    case True
    then have "Suc i mod (l - (h + 4)) = Suc i" by simp
    with True less n l(4) show ?thesis by (simp add: next_offset_def)
  next
    case False
    with assms(3) have "Suc i = l - (h + 4)" by linarith
    with False less n l(3,4) show ?thesis by (simp add: next_offset_def)
  qed
qed

lemma within_push_new: "within 0 x (push cap x xs)"
proof (cases "cap > 0 \<and> int (length xs) + 1 > cap")
  case True
  then have "xs \<noteq> []" by auto
  with True have "push cap x xs = tl xs @ [x]" by (simp add: push_def)
  then show ?thesis by (simp add: within_last)
next
  case False
  then have "push cap x xs = xs @ [x]" unfolding push_def by (rule if_not_P)
  then show ?thesis by (simp add: within_last)
qed

definition Lookups :: "'s store \<Rightarrow> string list \<Rightarrow> 's Pool \<Rightarrow> 's Pool" where
  "Lookups st hosts p = fold (\<lambda>host p. snd (Lookup st host p)) hosts p"

context memory_caches begin

abbreviation "ms \<equiv> memory_store p1 p2"

abbreviation "cap p \<equiv> maxSize (cacheIP (pool_store p))"

lemma Lookup_known:
  assumes "good (pool_store p)" "map_of (pairs (pool_store p)) (to_lower host) \<noteq> None" "Lookup ms host p = (ip, p')"
  shows "pairs (pool_store p') = touch (to_lower host) (pairs (pool_store p)) \<and> offset p' = offset p \<and> cap p' = cap p"
proof -
  obtain r m where g: "mem_GetByHost p1 p2 (to_lower host) (pool_store p) = (r, m)" by fastforce
  with GetByHost_pairs [OF assms(1) g] assms(2,3) show ?thesis
    by (auto simp: Lookup_def memory_store_def Let_def)
qed

lemma Lookup_unknown:
  assumes "good (pool_store p)" "map_of (pairs (pool_store p)) (to_lower host) = None" "Lookup ms host p = (ip, p')"
  obtains qs where "ip = next_offset p" "offset p' = next_offset p" "cap p' = cap p"
    "pairs (pool_store p') = push (cap p) (to_lower host, ip) qs"
    "qs = pairs (pool_store p) \<or> qs = filter (\<lambda>p. snd p \<noteq> ip) (pairs (pool_store p))"
proof -
  obtain r m where g: "mem_GetByHost p1 p2 (to_lower host) (pool_store p) = (r, m)" by fastforce
  have m: "good m" "r = None" "pairs m = pairs (pool_store p)" "maxSize (cacheIP m) = cap p"
    using GetByHost_pairs [OF assms(1) g] assms(2) by (simp_all add: touch_id)
  let ?ip = "next_offset p" and ?h = "to_lower host"
  let ?del = "(cycle p \<or> \<not> Next (offset p) < last_ip p) \<or> mem_Exist ?ip m"
  let ?m = "if ?del then mem_DelByIP p1 p2 ?ip m else m"
  have m': "good ?m" "maxSize (cacheIP ?m) = cap p"
    "pairs ?m = (if ?del then filter (\<lambda>p. snd p \<noteq> ?ip) (pairs m) else pairs m)"
    using m DelByIP_pairs [OF m(1), of ?ip] by simp_all
  have "?ip \<notin> snd ` set (pairs ?m)" using m'(3) Exist_pairs [OF m(1), of ?ip] by auto
  moreover have "map_of (pairs ?m) ?h = None"
    using m'(3) m(3) assms(2) good_distinct(1) [OF m(1)] by (simp add: map_of_filter_val)
  ultimately have put: "pairs (mem_PutByHost p1 ?h ?ip (mem_PutByIP p2 ?ip ?h ?m)) = push (cap p) (?h, ?ip) (pairs ?m)"
    "maxSize (cacheIP (mem_PutByHost p1 ?h ?ip (mem_PutByIP p2 ?ip ?h ?m))) = cap p"
    using Put_pairs [OF m'(1)] m'(2) by simp_all
  have no: "next_offset (p\<lparr>pool_store := m\<rparr>) = ?ip" by (simp add: next_offset_def)
  have "ip = ?ip" "p' = p\<lparr>offset := ?ip, cycle := cycle p \<or> \<not> Next (offset p) < last_ip p,
      pool_store := mem_PutByHost p1 ?h ?ip (mem_PutByIP p2 ?ip ?h ?m)\<rparr>"
    using assms(3) g m(2) by (auto simp: Lookup_def memory_store_def pool_get_eq Let_def no)
  with put that [of "pairs ?m"] m'(3) m(3) show thesis by auto
qed

lemmas mem_pool_facts = pool_steps_inv Lookup_promises LookBack_inv

lemma New_inv:
  assumes "prefix_contains net (lastIP net)" "pool_New lastIP ms (newMemoryStore p1 p2 n) net = Value p0"
  obtains six h l where "pool_inv six h l p0" "ipnet p0 = net" "\<forall>ip. in_pool six h l ip \<longrightarrow> prefix_contains net ip"
proof -
  obtain six h l where r: "pool_range six h l p0" "pool_store p0 = newMemoryStore p1 p2 n" "ipnet p0 = net"
    "\<forall>ip. in_pool six h l ip \<longrightarrow> prefix_contains net ip"
    by (rule pool_New_range [OF assms(1) _ assms(2)]) (auto simp: memory_store_def)
  with new_good [of n] have "pool_inv six h l p0" by (simp add: pool_inv_def mem_bind_def)
  with that r show thesis by blast
qed

definition lasting :: "bool \<Rightarrow> nat \<Rightarrow> nat \<Rightarrow> int \<Rightarrow> string \<Rightarrow> nat \<Rightarrow> nat \<Rightarrow> ('l, 'h, 'm, 'i) memoryStore Pool \<Rightarrow> bool" where
  "lasting six h l c host i j p \<longleftrightarrow> pool_inv six h l p \<and> cap p = c \<and> i < l - (h + 4)
     \<and> within j (host, addr_at six (h + 4 + i)) (pairs (pool_store p))
     \<and> (\<exists>d \<le> j. offset p = addr_at six (h + 4 + (i + d) mod (l - (h + 4))))"

lemma lasting_step:
  assumes last: "lasting six h l c host i j p" and j: "Suc j < l - (h + 4)" "c \<le> 0 \<or> int (Suc j) < c"
  shows "lasting six h l c host i (Suc j) (snd (Lookup ms host' p))"
proof -
  let ?N = "l - (h + 4)" and ?x = "(host, addr_at six (h + 4 + i))"
  obtain ip p' where lk: "Lookup ms host' p = (ip, p')" by fastforce
  obtain d where p: "pool_inv six h l p" "cap p = c" "i < ?N" "within j ?x (pairs (pool_store p))"
    and d: "d \<le> j" "offset p = addr_at six (h + 4 + (i + d) mod ?N)"
    using last by (auto simp: lasting_def)
  have g: "good (pool_store p)" "pool_range six h l p" using p(1) by (simp_all add: pool_inv_def)
  have p': "pool_inv six h l p'" using Lookup_inv [OF p(1) lk] by simp
  show ?thesis
  proof (cases "map_of (pairs (pool_store p)) (to_lower host')")
    case (Some v)
    with Lookup_known [OF g(1) _ lk] within_touch [OF p(4) good_distinct(1) [OF g(1)]] p' p(2,3) d lk
    show ?thesis by (force simp: lasting_def intro: exI [of _ d])
  next
    case None
    obtain qs where q: "ip = next_offset p" "offset p' = next_offset p" "cap p' = cap p"
      "pairs (pool_store p') = push (cap p) (to_lower host', ip) qs"
      "qs = pairs (pool_store p) \<or> qs = filter (\<lambda>p. snd p \<noteq> ip) (pairs (pool_store p))"
      by (rule Lookup_unknown [OF g(1) None lk])
    have "h + 4 + (i + d) mod ?N < l" using p(3) mod_less_divisor [of ?N "i + d"] by linarith
    then have no: "next_offset p = addr_at six (h + 4 + (i + Suc d) mod ?N)"
      using next_offset_mod [OF g(2) d(2)] by (simp add: mod_Suc_eq)
    have b: "h + 4 + (i + Suc d) mod ?N < 2 ^ addr_bits six" "h + 4 + i < 2 ^ addr_bits six"
      using number_bound [OF g(2)] p(3) mod_less_divisor [of ?N "i + Suc d"] by auto
    have "(i + Suc d) mod ?N \<noteq> i" using d(1) j(1) p(3) by (intro mod_other) auto
    then have "ip \<noteq> addr_at six (h + 4 + i)" using b by (simp add: q(1) no addr_at_eq_iff)
    then have f: "within j ?x (filter (\<lambda>p. snd p \<noteq> ip) (pairs (pool_store p)))"
      using within_filter [OF p(4), of "\<lambda>p. snd p \<noteq> ip"] by simp
    have "within j ?x qs" by (rule disjE [OF q(5)]) (simp_all only: p(4) f)
    then have "within (Suc j) ?x (pairs (pool_store p'))"
      unfolding q(4) using p(2) j(2) by (intro within_push) auto
    with p' p(2,3) q(2,3) no d(1) lk show ?thesis
      unfolding lasting_def by (intro conjI exI [of _ "Suc d"]) simp_all
  qed
qed

lemma lasting_steps:
  "lasting six h l c host i j p \<Longrightarrow> j + length hosts < l - (h + 4) \<Longrightarrow> c \<le> 0 \<or> int (j + length hosts) < c \<Longrightarrow>
   lasting six h l c host i (j + length hosts) (Lookups ms hosts p)"
proof (induction hosts arbitrary: j p)
  case (Cons host' hosts)
  have "c \<le> 0 \<or> int (Suc j) < c" "Suc j < l - (h + 4)" using Cons.prems(2,3) by auto
  from Cons.IH [OF lasting_step [OF Cons.prems(1) this(2,1), of host']] Cons.prems(2,3) show ?case
    by (simp add: Lookups_def add.assoc)
qed (simp add: Lookups_def)

lemma Lookup_lasting:
  assumes "pool_inv six h l p" "fst (mem_GetByHost p1 p2 (to_lower host) (pool_store p)) = None"
    and "Lookup ms host p = (ip, p')"
  obtains i where "lasting six h l (cap p) (to_lower host) i 0 p'" "ip = addr_at six (h + 4 + i)"
proof -
  have g: "good (pool_store p)" "pool_range six h l p" using assms(1) by (simp_all add: pool_inv_def)
  have "map_of (pairs (pool_store p)) (to_lower host) = None"
    using GetByHost_pairs [OF g(1)] assms(2) by (metis surjective_pairing)
  then obtain qs where q: "ip = next_offset p" "offset p' = next_offset p" "cap p' = cap p"
    "pairs (pool_store p') = push (cap p) (to_lower host, ip) qs"
    by (rule Lookup_unknown [OF g(1) _ assms(3)])
  obtain n where n: "h + 4 \<le> n" "n < l" "next_offset p = addr_at six n" by (rule next_offset_range [OF g(2)])
  then have i: "n - (h + 4) < l - (h + 4)" "h + 4 + (n - (h + 4)) = n" by linarith+
  have "pool_inv six h l p'" using Lookup_inv [OF assms(1,3)] by simp
  with i q n within_push_new [of "(to_lower host, ip)" "cap p" qs]
  have "lasting six h l (cap p) (to_lower host) (n - (h + 4)) 0 p'"
    unfolding lasting_def by (intro conjI exI [of _ 0]) simp_all
  then show thesis using that i q(1) n by simp
qed

end

section \<open>What a pool promises\<close>

text \<open>C4. The fake-IP pool: after any calls on a new pool over the memory store, the address
  looked up for a host is an address of the pool's prefix that is neither the gateway nor the
  broadcast address, \<open>LookBack\<close> gives the host in lower case, and looking the host up again,
  in any case of letters, gives the same address.\<close>

theorem fakeip_lookup:
  assumes "list_laws p1 e1 o1" "list_laws p2 e2 o2" and "prefix_contains net (lastIP net)"
    and "pool_New lastIP (memory_store p1 p2) (newMemoryStore p1 p2 n) net = Value p0"
    and "(pool_step (memory_store p1 p2))\<^sup>*\<^sup>* p0 p" and "Lookup (memory_store p1 p2) host p = (ip, p')"
  shows "prefix_contains (IPNet p') ip \<and> ip \<noteq> Gateway p' \<and> ip \<noteq> Broadcast p'
    \<and> fst (LookBack (memory_store p1 p2) ip p') = Some (to_lower host)
    \<and> (\<forall>host'. to_lower host' = to_lower host \<longrightarrow> fst (Lookup (memory_store p1 p2) host' p') = ip)"
proof -
  have mc: "memory_caches p1 e1 o1 p2 e2 o2" using assms(1,2) by (simp add: memory_caches_def lru_list_def)
  obtain six h l where r: "pool_holds (mem_ok e1 o1 e2 o2) (mem_bind e1) six h l p0" "ipnet p0 = net"
    "\<forall>ip. in_pool six h l ip \<longrightarrow> prefix_contains net ip"
    by (rule memory_caches.New_inv [OF mc assms(3,4)])
  from memory_caches.mem_pool_facts(1) [OF mc assms(5) r(1)]
  have p: "pool_holds (mem_ok e1 o1 e2 o2) (mem_bind e1) six h l p" "ipnet p = net" using r(2) by simp_all
  from memory_caches.mem_pool_facts(2) [OF mc p(1) assms(6)]
  have l: "in_pool six h l ip" "pool_range six h l p'"
    "fst (LookBack (memory_store p1 p2) ip p') = Some (to_lower host)"
    "\<forall>host'. to_lower host' = to_lower host \<longrightarrow> fst (Lookup (memory_store p1 p2) host' p') = ip" by blast+
  have "ipnet p' = net" using pool_step_ipnet [OF pool_step.Lookup [OF assms(6)]] p(2) by simp
  with l r(3) in_pool_apart [OF l(2,1)] show ?thesis by (simp add: Gateway_def Broadcast_def IPNet_def)
qed

theorem fakeip_lookup_witness:
  "\<exists>p0 p ip. pool_New (\<lambda>_. V4 15) (memory_store slice_pkg slice_pkg) (newMemoryStore slice_pkg slice_pkg 5)
       \<lparr>prefix_addr = V4 0, prefix_bits = 28\<rparr> = Value p0
     \<and> Lookup (memory_store slice_pkg slice_pkg) ''A.b'' p0 = (ip, p)
     \<and> fst (LookBack (memory_store slice_pkg slice_pkg) ip p) = Some ''a.b'' \<and> ip \<noteq> V4 1 \<and> ip \<noteq> V4 15"
proof -
  let ?ms = "memory_store slice_pkg slice_pkg" and ?net = "\<lparr>prefix_addr = V4 0, prefix_bits = 28\<rparr>"
  let ?m = "newMemoryStore slice_pkg slice_pkg 5"
  let ?p0 = "\<lparr>gateway = V4 1, first = V4 4, last_ip = V4 15, offset = V4 3, cycle = False, ipnet = ?net, pool_store = ?m\<rparr>"
  have new: "pool_New (\<lambda>_. V4 15) ?ms ?m ?net = Value ?p0"
    by (simp add: pool_New_def masked_addr_def prefix_valid_def Next_def Prev_def IsValid_def restoreState_def memory_store_def)
  have "prefix_contains ?net ((\<lambda>_. V4 15) ?net)" by (simp add: prefix_contains_def drop_bit_eq_div)
  note r = fakeip_lookup [OF slice.list_laws_axioms slice.list_laws_axioms this new rtranclp.rtrancl_refl]
  obtain ip p where l: "Lookup ?ms ''A.b'' ?p0 = (ip, p)" by fastforce
  have "Gateway p = V4 1" "Broadcast p = V4 15"
    using l by (auto simp: Lookup_def pool_get_eq Let_def Gateway_def Broadcast_def split: prod.splits option.splits)
  moreover have "to_lower ''A.b'' = ''a.b''" by code_simp
  ultimately show ?thesis using new l r [OF l] by metis
qed

text \<open>C21. How long a fake address lasts: once a host that was not known has been given an
  address, the address leads back to the host after any \<open>n\<close> further lookups, as long as \<open>n\<close> is
  smaller than the size of the cache (when that is limited) and than the number of addresses
  handed out.\<close>

theorem fakeip_lasts:
  assumes "list_laws p1 e1 o1" "list_laws p2 e2 o2" and "prefix_contains net (lastIP net)"
    and "pool_New lastIP (memory_store p1 p2) (newMemoryStore p1 p2 n) net = Value p0"
    and "(pool_step (memory_store p1 p2))\<^sup>*\<^sup>* p0 p"
    and "fst (mem_GetByHost p1 p2 (to_lower host) (pool_store p)) = None"
    and "Lookup (memory_store p1 p2) host p = (ip, p')"
    and "pool_range six h l p" and "length hosts < l - (h + 4)"
    and "maxSize (cacheIP (pool_store p)) \<le> 0 \<or> int (length hosts) < maxSize (cacheIP (pool_store p))"
  shows "fst (LookBack (memory_store p1 p2) ip (Lookups (memory_store p1 p2) hosts p')) = Some (to_lower host)"
proof -
  have mc: "memory_caches p1 e1 o1 p2 e2 o2" using assms(1,2) by (simp add: memory_caches_def lru_list_def)
  obtain six' h' l' where r: "pool_holds (mem_ok e1 o1 e2 o2) (mem_bind e1) six' h' l' p0"
    by (rule memory_caches.New_inv [OF mc assms(3,4)])
  then have "pool_holds (mem_ok e1 o1 e2 o2) (mem_bind e1) six' h' l' p"
    using memory_caches.mem_pool_facts(1) [OF mc assms(5)] by blast
  then have p: "pool_holds (mem_ok e1 o1 e2 o2) (mem_bind e1) six h l p"
    using pool_range_same [OF _ assms(8)] by (auto simp: pool_holds_def)
  obtain i where i: "memory_caches.lasting e1 o1 e2 o2 six h l (maxSize (cacheIP (pool_store p))) (to_lower host) i 0 p'"
    "ip = addr_at six (h + 4 + i)"
    by (rule memory_caches.Lookup_lasting [OF mc p assms(6,7)])
  let ?q = "Lookups (memory_store p1 p2) hosts p'"
  have "memory_caches.lasting e1 o1 e2 o2 six h l (maxSize (cacheIP (pool_store p))) (to_lower host) i (length hosts) ?q"
    using memory_caches.lasting_steps [OF mc i(1), of hosts] assms(9,10) by simp
  then have q: "pool_holds (mem_ok e1 o1 e2 o2) (mem_bind e1) six h l ?q"
    "(to_lower host, ip) \<in> set (mem_pairs e1 (pool_store ?q))"
    unfolding memory_caches.lasting_def [OF mc] i(2) by (blast intro: within_in)+
  then have "mem_bind e1 (pool_store ?q) (to_lower host) = Some ip"
    using memory_caches.mem_bind_iff [OF mc] by (simp add: pool_holds_def)
  with memory_caches.mem_pool_facts(3) [OF mc q(1), of ip] show ?thesis
    by (cases "LookBack (memory_store p1 p2) ip ?q") auto
qed

theorem fakeip_lasts_witness:
  "\<exists>p ip. Lookup (memory_store slice_pkg slice_pkg) ''A''
       \<lparr>gateway = V4 1, first = V4 4, last_ip = V4 15, offset = V4 3, cycle = False,
        ipnet = \<lparr>prefix_addr = V4 0, prefix_bits = 28\<rparr>, pool_store = newMemoryStore slice_pkg slice_pkg 5\<rparr> = (ip, p)
     \<and> fst (LookBack (memory_store slice_pkg slice_pkg) ip
          (Lookups (memory_store slice_pkg slice_pkg) [''x'', ''y'', ''x'', ''z''] p)) = Some (to_lower ''A'')"
proof -
  let ?ms = "memory_store slice_pkg slice_pkg" and ?net = "\<lparr>prefix_addr = V4 0, prefix_bits = 28\<rparr>"
  let ?m = "newMemoryStore slice_pkg slice_pkg 5"
  let ?p0 = "\<lparr>gateway = V4 1, first = V4 4, last_ip = V4 15, offset = V4 3, cycle = False, ipnet = ?net, pool_store = ?m\<rparr>"
  have new: "pool_New (\<lambda>_. V4 15) ?ms ?m ?net = Value ?p0"
    by (simp add: pool_New_def masked_addr_def prefix_valid_def Next_def Prev_def IsValid_def restoreState_def memory_store_def)
  have net: "prefix_contains ?net ((\<lambda>_. V4 15) ?net)" by (simp add: prefix_contains_def drop_bit_eq_div)
  have none: "fst (mem_GetByHost slice_pkg slice_pkg (to_lower ''A'') (pool_store ?p0)) = None"
    by (simp add: mem_GetByHost_def newMemoryStore_def lru_Get_def lru_get_def lru_New_def)
  have range: "pool_range False 0 15 ?p0"
    by (auto simp: pool_range_def addr_at_def addr_bits_def intro: exI [of _ 3])
  obtain ip p where l: "Lookup ?ms ''A'' ?p0 = (ip, p)" by fastforce
  have "fst (LookBack ?ms ip (Lookups ?ms [''x'', ''y'', ''x'', ''z''] p)) = Some (to_lower ''A'')"
    by (rule fakeip_lasts [OF slice.list_laws_axioms slice.list_laws_axioms net new rtranclp.rtrancl_refl none l range])
      (simp_all add: newMemoryStore_def lru_New_def)
  with l show ?thesis by blast
qed

end
