(* ===== verification/Bridge.thy ===== *)
theory Bridge
  imports Ranges
begin

text \<open>
  The bridge that the OpenHarmony application calls
  (\<^verbatim>\<open>openharmony_bridge/main.go\<close>): its state behind \<^verbatim>\<open>stateMu\<close>, the exported
  calls as functions on that state, the patch of the configuration for a TUN descriptor, and
  the delay tests. A call that waits for protect callbacks is cut into the section before
  the wait and the section after it; \<open>Bridge_Steps\<close> interleaves them.

  The proxy engine, that is \<^verbatim>\<open>hub.Parse\<close> and what it starts, is a value that a parse
  replaces; the file system, the YAML package and the engine are the fields of
  \<open>bridge_env\<close>. A C function pointer is a number, and \<open>None\<close> when it is null.
\<close>

section \<open>Configuration values\<close>

text \<open>What the YAML package decodes into \<^verbatim>\<open>any\<close>. \<open>YMap\<close> is a \<^verbatim>\<open>map[string]any\<close>,
  \<open>YOther\<close> every other value.\<close>

datatype yaml = YBool bool | YInt int | YStr string | YStrs "string list" | YMap "string \<Rightarrow> yaml option" | YOther nat

type_synonym ymap = "string \<Rightarrow> yaml option"

record 'e bridge_env =
  MkdirAll :: "string \<Rightarrow> string option"
  PathJoin :: "string \<Rightarrow> string \<Rightarrow> string"
  Setenv :: "string option"
  ConfigInit :: "string \<Rightarrow> string option"
  ReadFile :: "string \<Rightarrow> string + string"
  Unmarshal :: "string \<Rightarrow> string + ymap option"
  Marshal :: "ymap \<Rightarrow> string + string"
  UnmarshalRawConfig :: "string \<Rightarrow> string option"
  Parse :: "string \<Rightarrow> 'e \<Rightarrow> string option \<times> 'e"
  TunStatus :: "'e \<Rightarrow> string"
  WriteStats :: "string \<Rightarrow> string option"

definition show_int :: "int \<Rightarrow> string" where
  "show_int i = (if i < 0 then CHR ''-'' # show_nat (nat (- i)) else show_nat (nat i))"

section \<open>State\<close>

record 'e bridge =
  started :: bool
  activeTunFd :: int
  protectFn :: "nat option"
  protectOn :: bool
  protectBusy :: int
  lastErrText :: string
  socketHook :: bool
  statsWriter :: "string option"
  homeDir :: string
  configFile :: string
  engine :: 'e

definition setLastErr :: "string option \<Rightarrow> 'e bridge \<Rightarrow> int \<times> 'e bridge" where
  "setLastErr err s =
     (case err of Some e \<Rightarrow> (-1, s\<lparr>lastErrText := e\<rparr>) | None \<Rightarrow> (0, s\<lparr>lastErrText := ''''\<rparr>))"

text \<open>The C strings the calls take may be null.\<close>

definition goString :: "string option \<Rightarrow> string" where
  "goString s = (case s of None \<Rightarrow> '''' | Some t \<Rightarrow> t)"

section \<open>Validation and traffic statistics\<close>

record configValidationResult =
  cv_ok :: bool
  cv_error :: string

definition validateConfigText :: "'e bridge_env \<Rightarrow> string \<Rightarrow> configValidationResult" where
  "validateConfigText env raw =
     (if raw = '''' then \<lparr>cv_ok = False, cv_error = ''empty config''\<rparr>
      else case UnmarshalRawConfig env raw of
        Some e \<Rightarrow> \<lparr>cv_ok = False, cv_error = e\<rparr>
      | None \<Rightarrow> \<lparr>cv_ok = True, cv_error = ''''\<rparr>)"

definition ValidateConfig :: "'e bridge_env \<Rightarrow> string option \<Rightarrow> configValidationResult" where
  "ValidateConfig env content =
     (case content of None \<Rightarrow> \<lparr>cv_ok = False, cv_error = ''empty config''\<rparr>
      | Some raw \<Rightarrow> validateConfigText env raw)"

record trafficStatsResult =
  ts_ok :: bool
  ts_source :: string
  ts_up :: int
  ts_down :: int
  ts_upTotal :: int
  ts_downTotal :: int
  ts_running :: bool
  ts_updatedAt :: int
  ts_error :: string

definition currentTrafficStatsResult :: "int \<times> int \<Rightarrow> int \<times> int \<Rightarrow> int \<Rightarrow> 'e bridge \<Rightarrow> trafficStatsResult" where
  "currentTrafficStatsResult rate sums millis s =
     \<lparr>ts_ok = started s, ts_source = ''native-mihomo'', ts_up = fst rate, ts_down = snd rate,
      ts_upTotal = fst sums, ts_downTotal = snd sums, ts_running = started s,
      ts_updatedAt = millis, ts_error = (if started s then '''' else ''mihomo not running'')\<rparr>"

definition stopTrafficStatsWriter :: "'e bridge \<Rightarrow> 'e bridge" where
  "stopTrafficStatsWriter s = s\<lparr>statsWriter := None\<rparr>"

definition startTrafficStatsWriter :: "'e bridge_env \<Rightarrow> string \<Rightarrow> 'e bridge \<Rightarrow> string option \<times> 'e bridge" where
  "startTrafficStatsWriter env path s =
     (if path = '''' then (Some ''empty traffic stats path'', s)
      else
        let s = stopTrafficStatsWriter s
        in case WriteStats env path of
             Some e \<Rightarrow> (Some e, s)
           | None \<Rightarrow> (None, s\<lparr>statsWriter := Some path\<rparr>))"

definition StartTrafficStatsWriter :: "'e bridge_env \<Rightarrow> string option \<Rightarrow> 'e bridge \<Rightarrow> int \<times> 'e bridge" where
  "StartTrafficStatsWriter env path s =
     (case path of
        None \<Rightarrow> (-1, s\<lparr>lastErrText := ''empty traffic stats path''\<rparr>)
      | Some path \<Rightarrow>
          let (err, s) = startTrafficStatsWriter env path s
          in if err \<noteq> None then setLastErr err s else (0, s))"

definition StopTrafficStatsWriter :: "'e bridge \<Rightarrow> int \<times> 'e bridge" where
  "StopTrafficStatsWriter s = (0, stopTrafficStatsWriter s)"

section \<open>The protect hook\<close>

text \<open>The hook runs in the goroutine of a dialer: it enters under the lock, calls the function
  it has read without the lock, and leaves under the lock.\<close>

definition hook_enter :: "'e bridge \<Rightarrow> nat option \<times> 'e bridge" where
  "hook_enter s =
     (if \<not> started s \<or> \<not> protectOn s \<or> protectFn s = None then (None, s)
      else (protectFn s, s\<lparr>protectBusy := protectBusy s + 1\<rparr>))"

definition hook_leave :: "'e bridge \<Rightarrow> 'e bridge" where
  "hook_leave s = s\<lparr>protectBusy := protectBusy s - 1\<rparr>"

text \<open>\<open>call_protect_fn\<close> of a null pointer is 0. \<open>control\<close> is the error of \<^verbatim>\<open>conn.Control\<close>.\<close>

definition call_protect_fn :: "(nat \<Rightarrow> int \<Rightarrow> int) \<Rightarrow> nat option \<Rightarrow> int \<Rightarrow> int" where
  "call_protect_fn run fn fd = (case fn of None \<Rightarrow> 0 | Some f \<Rightarrow> run f fd)"

definition hook_result :: "(nat \<Rightarrow> int \<Rightarrow> int) \<Rightarrow> string option \<Rightarrow> nat option \<Rightarrow> int \<Rightarrow> string option" where
  "hook_result run control fn fd =
     (if fn = None then None
      else case control of
        Some e \<Rightarrow> Some e
      | None \<Rightarrow>
          let code = call_protect_fn run fn fd
          in if code \<noteq> 0 then Some (''protect() failed: code='' @ show_int code) else None)"

definition enableProtectHookLocked :: "'e bridge \<Rightarrow> 'e bridge" where
  "enableProtectHookLocked s = (if protectFn s = None then s else s\<lparr>protectOn := True, socketHook := True\<rparr>)"

definition disableProtectHookLocked :: "'e bridge \<Rightarrow> 'e bridge" where
  "disableProtectHookLocked s = s\<lparr>protectOn := False, socketHook := False\<rparr>"

text \<open>The wait ends with true when no callback is busy, else with false when the time is up.\<close>

definition waitProtectIdleLocked :: "'e bridge \<Rightarrow> bool" where
  "waitProtectIdleLocked s \<longleftrightarrow> \<not> protectBusy s > 0"

definition SetProtectBridge :: "nat option \<Rightarrow> 'e bridge \<Rightarrow> 'e bridge" where
  "SetProtectBridge fn s =
     (case fn of
        None \<Rightarrow> disableProtectHookLocked (s\<lparr>protectFn := None\<rparr>)
      | Some f \<Rightarrow> s\<lparr>protectFn := Some f\<rparr>)"

definition EnableProtectHook :: "'e bridge \<Rightarrow> int \<times> 'e bridge" where
  "EnableProtectHook s =
     (if protectFn s = None then (-1, s)
      else if \<not> started s \<or> activeTunFd s < 0 then (-2, s)
      else (0, enableProtectHookLocked s))"

definition DisableProtectHook_begin :: "'e bridge \<Rightarrow> 'e bridge" where
  "DisableProtectHook_begin s = s\<lparr>protectOn := False, socketHook := False\<rparr>"

definition DisableProtectHook_end :: "'e bridge \<Rightarrow> int \<times> 'e bridge" where
  "DisableProtectHook_end s = (if waitProtectIdleLocked s then 0 else -1, s)"

definition IsRunning :: "'e bridge \<Rightarrow> int" where
  "IsRunning s = (if started s then 1 else 0)"

section \<open>The configuration for a TUN descriptor\<close>

definition is_map :: "ymap \<Rightarrow> string \<Rightarrow> ymap" where
  "is_map root k = (case root k of Some (YMap m) \<Rightarrow> m | _ \<Rightarrow> Map.empty)"

definition tun_patch :: "int \<Rightarrow> ymap \<Rightarrow> ymap" where
  "tun_patch tunFd m = m(
     ''enable'' \<mapsto> YBool True,
     ''file-descriptor'' \<mapsto> YInt tunFd,
     ''stack'' \<mapsto> YStr ''gvisor'',
     ''auto-route'' \<mapsto> YBool False,
     ''auto-detect-interface'' \<mapsto> YBool False,
     ''dns-hijack'' \<mapsto> YStrs [''any:53''],
     ''inet4-address'' \<mapsto> YStrs [''10.7.0.2/24''],
     ''mtu'' \<mapsto> YInt 1500)"

definition set_default :: "string \<Rightarrow> yaml \<Rightarrow> ymap \<Rightarrow> ymap" where
  "set_default k v m = (if m k = None then m(k \<mapsto> v) else m)"

definition dns_defaults :: "(string \<times> yaml) list" where
  "dns_defaults =
     [(''enable'', YBool True),
      (''listen'', YStr ''0.0.0.0:53''),
      (''enhanced-mode'', YStr ''fake-ip''),
      (''fake-ip-range'', YStr ''198.18.0.0/15''),
      (''nameserver'', YStrs [''223.5.5.5'', ''119.29.29.29'']),
      (''default-nameserver'', YStrs [''223.5.5.5'', ''119.29.29.29''])]"

definition set_defaults :: "(string \<times> yaml) list \<Rightarrow> ymap \<Rightarrow> ymap" where
  "set_defaults kvs m = fold (\<lambda>(k, v). set_default k v) kvs m"

definition dns_patch :: "ymap \<Rightarrow> ymap" where
  "dns_patch m = set_defaults dns_defaults m"

text \<open>A nil map can be read, but writing to it panics: the document whose root is null, and the
  empty document, leave \<^verbatim>\<open>root\<close> nil.\<close>

definition injectTunFd :: "'e bridge_env \<Rightarrow> string \<Rightarrow> int \<Rightarrow> (string, string) outcome" where
  "injectTunFd env cfg tunFd =
     (if tunFd < 0 then Value cfg
      else case Unmarshal env cfg of
        Inl e \<Rightarrow> Error e
      | Inr None \<Rightarrow> Panic
      | Inr (Some root) \<Rightarrow>
          let root = root(''tun'' \<mapsto> YMap (tun_patch tunFd (is_map root ''tun'')));
              root = root(''dns'' \<mapsto> YMap (dns_patch (is_map root ''dns'')))
          in case Marshal env root of Inl e \<Rightarrow> Error e | Inr out \<Rightarrow> Value out)"

section \<open>Starting\<close>

text \<open>A call returns its code and the state, or the process crashes.\<close>

definition startWithConfig :: "'e bridge_env \<Rightarrow> string \<Rightarrow> string \<Rightarrow> int \<Rightarrow> 'e bridge \<Rightarrow> (int \<times> 'e bridge) run" where
  "startWithConfig env home cfg tunFd s =
     (let home = (if home = '''' then ''.'' else home) in
      case MkdirAll env home of
        Some e \<Rightarrow> Done (setLastErr (Some e) s)
      | None \<Rightarrow>
          let s = s\<lparr>homeDir := home, configFile := PathJoin env home ''config.yaml''\<rparr> in
          case Setenv env of
            Some e \<Rightarrow> Done (setLastErr (Some e) s)
          | None \<Rightarrow>
              (case ConfigInit env home of
                 Some e \<Rightarrow> Done (setLastErr (Some e) s)
               | None \<Rightarrow>
                   (case (if tunFd \<ge> 0 then injectTunFd env cfg tunFd else Value cfg) of
                      Panic \<Rightarrow> Crash
                    | Error e \<Rightarrow> Done (setLastErr (Some e) s)
                    | Value cfg \<Rightarrow>
                        let (err, eng) = Parse env cfg (engine s);
                            s = s\<lparr>engine := eng\<rparr>
                        in case err of
                             Some e \<Rightarrow> Done (setLastErr (Some e) s)
                           | None \<Rightarrow>
                               let tunStatus = TunStatus env (engine s);
                                   s = s\<lparr>started := True, activeTunFd := tunFd\<rparr>;
                                   s = (if tunFd \<ge> 0 then enableProtectHookLocked s else s)
                               in Done (0, s\<lparr>lastErrText := tunStatus\<rparr>))))"

definition StartConfig :: "'e bridge_env \<Rightarrow> string option \<Rightarrow> string option \<Rightarrow> int \<Rightarrow> 'e bridge \<Rightarrow> (int \<times> 'e bridge) run" where
  "StartConfig env home bytes len s =
     (case bytes of
        None \<Rightarrow> Done (-1, s\<lparr>lastErrText := ''empty mihomo config''\<rparr>)
      | Some bytes \<Rightarrow>
          if len \<le> 0 then Done (-1, s\<lparr>lastErrText := ''empty mihomo config''\<rparr>)
          else startWithConfig env (goString home) (take (nat len) bytes) (-1) s)"

definition StartConfigFile :: "'e bridge_env \<Rightarrow> string option \<Rightarrow> string option \<Rightarrow> 'e bridge \<Rightarrow> (int \<times> 'e bridge) run" where
  "StartConfigFile env home path s =
     (case path of
        None \<Rightarrow> Done (-1, s\<lparr>lastErrText := ''empty mihomo config path''\<rparr>)
      | Some path \<Rightarrow>
          (case ReadFile env path of
             Inl e \<Rightarrow> Done (setLastErr (Some e) s)
           | Inr data \<Rightarrow> startWithConfig env (goString home) data (-1) s))"

definition StartConfigFileWithTunFd :: "'e bridge_env \<Rightarrow> string option \<Rightarrow> string option \<Rightarrow> int \<Rightarrow> 'e bridge \<Rightarrow> (int \<times> 'e bridge) run" where
  "StartConfigFileWithTunFd env home path tunFd s =
     (if tunFd < 0 then Done (-1, s\<lparr>lastErrText := ''invalid tun fd''\<rparr>)
      else case path of
        None \<Rightarrow> Done (-1, s\<lparr>lastErrText := ''empty mihomo config path''\<rparr>)
      | Some path \<Rightarrow>
          (case ReadFile env path of
             Inl e \<Rightarrow> Done (setLastErr (Some e) s)
           | Inr data \<Rightarrow> startWithConfig env (goString home) data tunFd s))"

section \<open>Stopping\<close>

definition Stop_begin :: "'e bridge \<Rightarrow> 'e bridge" where
  "Stop_begin s = (stopTrafficStatsWriter s)\<lparr>protectOn := False, socketHook := False\<rparr>"

definition Stop_end :: "'e bridge \<Rightarrow> int \<times> 'e bridge" where
  "Stop_end s =
     (if waitProtectIdleLocked s then 0 else -1,
      s\<lparr>started := False, activeTunFd := -1, protectFn := None, lastErrText := ''''\<rparr>)"

definition stoppedConfig :: string where
  "stoppedConfig = join_with [CHR 0x0A]
     ['''', ''mixed-port: 0'', ''port: 0'', ''socks-port: 0'', ''redir-port: 0'', ''tproxy-port: 0'',
      ''allow-lan: false'', ''mode: direct'', ''log-level: info'', ''ipv6: false'', ''dns:'',
      ''  enable: false'', ''tun:'', ''  enable: false'', ''rules:'', ''  - MATCH,DIRECT'', '''']"

text \<open>\<open>GracefulStop\<close> has four sections: what it does before the wait (it returns at once, with a
  code, when nothing runs), the reload of the stopped configuration in a goroutine of its own,
  and the end, when the result of the reload has arrived or when the time is up.\<close>

definition GracefulStop_begin :: "'e bridge \<Rightarrow> int option \<times> 'e bridge" where
  "GracefulStop_begin s =
     (let s = stopTrafficStatsWriter s
      in if \<not> started s then (Some 0, s)
         else (None, s\<lparr>protectOn := False, socketHook := False\<rparr>))"

definition GracefulStop_parse :: "'e bridge_env \<Rightarrow> 'e bridge \<Rightarrow> string option \<times> 'e bridge" where
  "GracefulStop_parse env s = (let (err, eng) = Parse env stoppedConfig (engine s) in (err, s\<lparr>engine := eng\<rparr>))"

definition GracefulStop_end :: "string option \<Rightarrow> 'e bridge \<Rightarrow> int \<times> 'e bridge" where
  "GracefulStop_end parseErr s =
     (case parseErr of
        Some e \<Rightarrow> (-1, snd (setLastErr (Some e) s))
      | None \<Rightarrow> (0, s\<lparr>started := False, activeTunFd := -1, lastErrText := ''''\<rparr>))"

definition GracefulStop_timeout :: "'e bridge \<Rightarrow> int \<times> 'e bridge" where
  "GracefulStop_timeout s =
     (-2, s\<lparr>started := False, activeTunFd := -1, lastErrText := ''graceful stop config reload timed out''\<rparr>)"

section \<open>Delay tests and selection\<close>

text \<open>How the goroutine of a test ended, when its time was up or before: with the value and
  error of the call, or with a panic.\<close>

datatype 'a call_end = Returned 'a "string option" | Panicked string | TimedOut

record 'p proxy_env =
  Proxies :: "string \<Rightarrow> 'p option"
  ProviderProxies :: "'p list list"
  ProxyName :: "'p \<Rightarrow> string"
  URLTest :: "'p \<Rightarrow> string \<Rightarrow> 16 word range list \<Rightarrow> int \<Rightarrow> (16 word) call_end"
  IsGroup :: "'p \<Rightarrow> bool"
  GroupURLTest :: "'p \<Rightarrow> string \<Rightarrow> 16 word range list \<Rightarrow> int \<Rightarrow> ((string \<times> 16 word) list) call_end"
  IsSelectAble :: "'p \<Rightarrow> bool"
  SelectorSet :: "'p \<Rightarrow> string \<Rightarrow> string option"

record delayItem =
  di_name :: string
  di_delay :: "16 word"
  di_ok :: bool
  di_error :: string

record delayResult =
  dr_ok :: bool
  dr_group :: string
  dr_node :: string
  dr_url :: string
  dr_timeout :: int
  dr_delays :: "delayItem list"
  dr_error :: string

definition defaultDelayTestURL :: string where
  "defaultDelayTestURL = ''https://www.gstatic.com/generate_204''"

definition normalizeDelayURL :: "string \<Rightarrow> string" where
  "normalizeDelayURL raw = (if raw = '''' then defaultDelayTestURL else raw)"

text \<open>In milliseconds.\<close>

definition normalizeDelayTimeout :: "int \<Rightarrow> int" where
  "normalizeDelayTimeout ms =
     (let ms = (if ms \<le> 0 then 5000 else ms);
          ms = (if ms < 1000 then 1000 else ms)
      in if ms > 30000 then 30000 else ms)"

definition runDelayCall :: "'a \<Rightarrow> int \<Rightarrow> 'a call_end \<Rightarrow> 'a \<times> string option" where
  "runDelayCall zero timeout r =
     (case r of
        Returned v e \<Rightarrow> (v, e)
      | Panicked m \<Rightarrow> (zero, Some (''latency test panic: '' @ m))
      | TimedOut \<Rightarrow> (zero, Some (''latency test timed out after '' @ show_int timeout @ '' ms'')))"

definition getExpectedDelayStatus :: "16 word range list" where
  "getExpectedDelayStatus = (case NewUnsignedRanges ''*'' of Inl e \<Rightarrow> [] | Inr rs \<Rightarrow> rs)"

definition findProxyByName :: "'p proxy_env \<Rightarrow> string \<Rightarrow> 'p option" where
  "findProxyByName px name =
     (case Proxies px name of
        Some p \<Rightarrow> Some p
      | None \<Rightarrow> List.find (\<lambda>p. ProxyName px p = name) (concat (ProviderProxies px)))"

definition delay_url :: "string option \<Rightarrow> string" where
  "delay_url testURL = (case testURL of None \<Rightarrow> defaultDelayTestURL | Some u \<Rightarrow> normalizeDelayURL u)"

definition ProxyDelay :: "'p proxy_env \<Rightarrow> string option \<Rightarrow> string option \<Rightarrow> int \<Rightarrow> 'e bridge \<Rightarrow> delayResult" where
  "ProxyDelay px nodeName testURL ms s =
     (let node = goString nodeName;
          url = delay_url testURL;
          result = \<lparr>dr_ok = False, dr_group = '''', dr_node = node, dr_url = url, dr_timeout = ms,
                    dr_delays = [], dr_error = ''''\<rparr>
      in if node = '''' then result\<lparr>dr_error := ''empty proxy node name''\<rparr>
         else if \<not> started s then result\<lparr>dr_error := ''mihomo not running''\<rparr>
         else case findProxyByName px node of
           None \<Rightarrow> result\<lparr>dr_error := ''proxy not found: '' @ node\<rparr>
         | Some proxy \<Rightarrow>
             let timeout = normalizeDelayTimeout ms;
                 (delay, err) = runDelayCall 0 timeout (URLTest px proxy url getExpectedDelayStatus timeout);
                 ok = (err = None \<and> delay > 0);
                 msg = (case err of Some e \<Rightarrow> e
                        | None \<Rightarrow> if delay = 0 then ''delay test returned zero'' else '''')
             in result\<lparr>dr_timeout := timeout, dr_ok := ok, dr_error := msg,
                  dr_delays := [\<lparr>di_name = node, di_delay = delay, di_ok = ok, di_error = msg\<rparr>]\<rparr>)"

text \<open>The delays of a group come from a Go map: the list has them in the order of the iteration.\<close>

definition GroupDelay :: "'p proxy_env \<Rightarrow> string option \<Rightarrow> string option \<Rightarrow> int \<Rightarrow> 'e bridge \<Rightarrow> delayResult" where
  "GroupDelay px groupName testURL ms s =
     (let group = goString groupName;
          url = delay_url testURL;
          result = \<lparr>dr_ok = False, dr_group = group, dr_node = '''', dr_url = url, dr_timeout = ms,
                    dr_delays = [], dr_error = ''''\<rparr>
      in if group = '''' then result\<lparr>dr_error := ''empty proxy group name''\<rparr>
         else if \<not> started s then result\<lparr>dr_error := ''mihomo not running''\<rparr>
         else case findProxyByName px group of
           None \<Rightarrow> result\<lparr>dr_error := ''proxy group not found: '' @ group\<rparr>
         | Some proxy \<Rightarrow>
             if \<not> IsGroup px proxy then result\<lparr>dr_error := ''proxy is not a group: '' @ group\<rparr>
             else
               let timeout = normalizeDelayTimeout ms;
                   (delays, err) = runDelayCall [] timeout (GroupURLTest px proxy url getExpectedDelayStatus timeout);
                   msg = (case err of Some e \<Rightarrow> e | None \<Rightarrow> '''');
                   items = map (\<lambda>(name, delay). \<lparr>di_name = name, di_delay = delay, di_ok = delay > 0, di_error = ''''\<rparr>) delays;
                   ok = (items \<noteq> [] \<and> msg = '''')
               in result\<lparr>dr_timeout := timeout, dr_delays := items, dr_ok := ok,
                    dr_error := (if items = [] \<and> msg = '''' then ''no proxy delay result'' else msg)\<rparr>)"

text \<open>\<open>SelectProxy\<close> also stores the selection in the cache file: the third component.\<close>

definition SelectProxy :: "'p proxy_env \<Rightarrow> string option \<Rightarrow> string option \<Rightarrow> 'e bridge \<Rightarrow>
    int \<times> 'e bridge \<times> (string \<times> string) option" where
  "SelectProxy px groupName nodeName s =
     (let group = goString groupName; node = goString nodeName in
      if group = '''' \<or> node = '''' then
        (-1, s\<lparr>lastErrText := ''proxy group and node names must not be empty''\<rparr>, None)
      else if \<not> started s then (-2, s\<lparr>lastErrText := ''mihomo not running''\<rparr>, None)
      else case Proxies px group of
        None \<Rightarrow> (-3, s\<lparr>lastErrText := ''proxy group not found: '' @ group\<rparr>, None)
      | Some proxy \<Rightarrow>
          if \<not> IsSelectAble px proxy then (-4, s\<lparr>lastErrText := ''proxy group is not selectable: '' @ group\<rparr>, None)
          else case SelectorSet px proxy node of
            Some e \<Rightarrow> (-5, s\<lparr>lastErrText := ''select proxy failed: '' @ e\<rparr>, None)
          | None \<Rightarrow> (0, s\<lparr>lastErrText := ''''\<rparr>, Some (group, node)))"

section \<open>The configuration patch and the delay tests\<close>

lemma set_default_apply:
  "set_default k v m k' = (if k' = k \<and> m k = None then Some v else m k')"
  by (simp add: set_default_def)

lemma set_defaults_apply: "set_defaults kvs m k = (case m k of Some v \<Rightarrow> Some v | None \<Rightarrow> map_of kvs k)"
proof (induction kvs arbitrary: m)
  case (Cons kv kvs)
  have "set_defaults (kv # kvs) m = set_defaults kvs (set_default (fst kv) (snd kv) m)"
    by (simp add: set_defaults_def case_prod_beta)
  with Cons show ?case by (cases kv) (simp add: set_default_apply split: option.split)
qed (simp add: set_defaults_def split: option.split)

lemma set_defaults_idem: "set_defaults kvs (set_defaults kvs m) = set_defaults kvs m"
  by (simp add: fun_eq_iff set_defaults_apply split: option.split)

lemma tun_patch_idem: "tun_patch fd (tun_patch fd m) = tun_patch fd m"
  by (simp add: tun_patch_def fun_eq_iff)

text \<open>C34. The patch of a configuration with a root map for a descriptor. The TUN section gets the eight settings
  of the device and keeps its other keys; the DNS section keeps every key it has, and each of the six defaults
  that it lacks is added; every other section stays as it is. The result is written, or the error of writing
  it returned, and patching what was written again changes nothing.\<close>

theorem injectTunFd_patch:
  assumes "tunFd \<ge> 0" "Unmarshal env cfg = Inr (Some root)"
  shows "\<exists>root' tun dns. injectTunFd env cfg tunFd = (case Marshal env root' of Inl e \<Rightarrow> Error e | Inr out \<Rightarrow> Value out)
    \<and> root' ''tun'' = Some (YMap tun) \<and> root' ''dns'' = Some (YMap dns)
    \<and> (\<forall>k. k \<noteq> ''tun'' \<and> k \<noteq> ''dns'' \<longrightarrow> root' k = root k)
    \<and> (\<forall>k. tun k = (case map_of
          [(''enable'', YBool True), (''file-descriptor'', YInt tunFd), (''stack'', YStr ''gvisor''),
           (''auto-route'', YBool False), (''auto-detect-interface'', YBool False), (''dns-hijack'', YStrs [''any:53'']),
           (''inet4-address'', YStrs [''10.7.0.2/24'']), (''mtu'', YInt 1500)] k of
        Some v \<Rightarrow> Some v | None \<Rightarrow> is_map root ''tun'' k))
    \<and> (\<forall>k. dns k = (case is_map root ''dns'' k of
        Some v \<Rightarrow> Some v
      | None \<Rightarrow> map_of
          [(''enable'', YBool True), (''listen'', YStr ''0.0.0.0:53''), (''enhanced-mode'', YStr ''fake-ip''),
           (''fake-ip-range'', YStr ''198.18.0.0/15''), (''nameserver'', YStrs [''223.5.5.5'', ''119.29.29.29'']),
           (''default-nameserver'', YStrs [''223.5.5.5'', ''119.29.29.29''])] k))
    \<and> (\<forall>out. Marshal env root' = Inr out \<and> Unmarshal env out = Inr (Some root') \<longrightarrow> injectTunFd env out tunFd = Value out)"
proof -
  define tun where "tun = tun_patch tunFd (is_map root ''tun'')"
  define dns where "dns = dns_patch (is_map root ''dns'')"
  define root' where "root' = root(''tun'' \<mapsto> YMap tun, ''dns'' \<mapsto> YMap dns)"
  have maps: "is_map root' ''tun'' = tun" "is_map (root(''tun'' \<mapsto> YMap tun)) ''dns'' = is_map root ''dns''"
    "is_map (root'(''tun'' \<mapsto> YMap tun)) ''dns'' = dns" by (simp_all add: is_map_def root'_def)
  have inject: "injectTunFd env cfg tunFd = (case Marshal env root' of Inl e \<Rightarrow> Error e | Inr out \<Rightarrow> Value out)"
    using assms maps(2) by (simp add: injectTunFd_def Let_def root'_def dns_def tun_def)
  have "tun_patch tunFd tun = tun" "dns_patch dns = dns" "root'(''tun'' \<mapsto> YMap tun, ''dns'' \<mapsto> YMap dns) = root'"
    by (simp_all add: tun_def dns_def dns_patch_def tun_patch_idem set_defaults_idem root'_def fun_eq_iff)
  then have again: "injectTunFd env out tunFd = Value out" if "Marshal env root' = Inr out \<and> Unmarshal env out = Inr (Some root')" for out
    using that assms(1) by (simp add: injectTunFd_def maps)
  have tun: "\<forall>k. tun k = (case map_of
          [(''enable'', YBool True), (''file-descriptor'', YInt tunFd), (''stack'', YStr ''gvisor''),
           (''auto-route'', YBool False), (''auto-detect-interface'', YBool False), (''dns-hijack'', YStrs [''any:53'']),
           (''inet4-address'', YStrs [''10.7.0.2/24'']), (''mtu'', YInt 1500)] k of
        Some v \<Rightarrow> Some v | None \<Rightarrow> is_map root ''tun'' k)"
    by (simp add: tun_def tun_patch_def)
  show ?thesis
    by (intro exI [of _ root'] exI [of _ tun] exI [of _ dns] conjI inject tun allI impI again)
      (simp_all add: root'_def dns_def dns_patch_def set_defaults_apply dns_defaults_def)
qed

theorem injectTunFd_patch_witness:
  "\<exists>root' tun dns. root' ''tun'' = Some (YMap tun) \<and> tun ''file-descriptor'' = Some (YInt 7) \<and> tun ''mtu'' = Some (YInt 1500)
    \<and> tun ''device'' = Some (YStr ''tun0'')
    \<and> root' ''dns'' = Some (YMap dns) \<and> dns ''listen'' = Some (YStr ''127.0.0.1:53'') \<and> dns ''enhanced-mode'' = Some (YStr ''fake-ip'')
    \<and> root' ''mode'' = Some (YStr ''rule'')"
proof -
  let ?root = "[''mode'' \<mapsto> YStr ''rule'', ''dns'' \<mapsto> YMap [''listen'' \<mapsto> YStr ''127.0.0.1:53''],
    ''tun'' \<mapsto> YMap [''device'' \<mapsto> YStr ''tun0'', ''mtu'' \<mapsto> YInt 9000]] :: ymap"
  let ?env = "\<lparr>MkdirAll = \<lambda>_. None, PathJoin = \<lambda>a b. b, Setenv = None, ConfigInit = \<lambda>_. None, ReadFile = Inr,
    Unmarshal = \<lambda>_. Inr (Some ?root), Marshal = \<lambda>_. Inr ''out'', UnmarshalRawConfig = \<lambda>_. None,
    Parse = \<lambda>_ e. (None, e), TunStatus = \<lambda>_. '''', WriteStats = \<lambda>_. None\<rparr> :: unit bridge_env"
  have u: "Unmarshal ?env ''cfg'' = Inr (Some ?root)" by simp
  have fd: "(0::int) \<le> 7" by simp
  have m: "is_map ?root ''tun'' = [''device'' \<mapsto> YStr ''tun0'', ''mtu'' \<mapsto> YInt 9000]"
    "is_map ?root ''dns'' = [''listen'' \<mapsto> YStr ''127.0.0.1:53'']" "?root ''mode'' = Some (YStr ''rule'')"
    by (simp_all add: is_map_def)
  show ?thesis
    using injectTunFd_patch [OF fd u] unfolding m
    apply (elim exE conjE)
    subgoal premises h for root' tun dns
      using h(2,3) h(4) [THEN spec, of "''mode''"] m(3) h(5) [THEN spec, of "''file-descriptor''"] h(5) [THEN spec, of "''mtu''"]
        h(5) [THEN spec, of "''device''"] h(6) [THEN spec, of "''listen''"] h(6) [THEN spec, of "''enhanced-mode''"]
      by (intro exI [of _ root'] exI [of _ tun] exI [of _ dns]) simp
    done
qed

text \<open>Starting with a TUN descriptor from a configuration file whose document is null (an
  empty file, or one with comments only) writes to a nil map: the process crashes, where the
  other calls return an error code.\<close>

theorem StartConfigFileWithTunFd_crash:
  assumes "tunFd \<ge> 0" "ReadFile env path = Inr data" "Unmarshal env data = Inr None"
    and "\<And>h. MkdirAll env h = None" "Setenv env = None" "\<And>h. ConfigInit env h = None"
  shows "StartConfigFileWithTunFd env home (Some path) tunFd s = Crash"
  using assms by (simp add: StartConfigFileWithTunFd_def startWithConfig_def injectTunFd_def Let_def)

theorem StartConfigFileWithTunFd_crash_witness:
  "\<forall>s :: unit bridge. StartConfigFileWithTunFd
    \<lparr>MkdirAll = \<lambda>_. None, PathJoin = \<lambda>a b. b, Setenv = None, ConfigInit = \<lambda>_. None, ReadFile = \<lambda>_. Inr '''',
     Unmarshal = \<lambda>_. Inr None, Marshal = \<lambda>_. Inr '''', UnmarshalRawConfig = \<lambda>_. None,
     Parse = \<lambda>_ e. (None, e), TunStatus = \<lambda>_. '''', WriteStats = \<lambda>_. None\<rparr> None (Some ''empty.yaml'') 5 s = Crash"
  by (intro allI StartConfigFileWithTunFd_crash) auto

lemma normalizeDelayTimeout_bounds: "1000 \<le> normalizeDelayTimeout ms \<and> normalizeDelayTimeout ms \<le> 30000"
  by (simp add: normalizeDelayTimeout_def Let_def)

text \<open>A delay test of a node reports success exactly when the core runs, the node exists
  and its test returned a positive delay without an error in the time allowed, which lies
  between one and thirty seconds; every HTTP status is accepted.\<close>

theorem ProxyDelay_ok:
  "let timeout = normalizeDelayTimeout ms; r = ProxyDelay px (Some node) testURL ms s
   in 1000 \<le> timeout \<and> timeout \<le> 30000 \<and> Check getExpectedDelayStatus status
     \<and> (dr_ok r \<longleftrightarrow> node \<noteq> '''' \<and> started s
          \<and> (\<exists>proxy delay. findProxyByName px node = Some proxy
               \<and> URLTest px proxy (delay_url testURL) getExpectedDelayStatus timeout = Returned delay None
               \<and> delay > 0 \<and> dr_delays r = [\<lparr>di_name = node, di_delay = delay, di_ok = True, di_error = ''''\<rparr>]))"
proof -
  have "getExpectedDelayStatus = []" by code_simp
  then have "Check getExpectedDelayStatus status" by (simp add: Check_def)
  with normalizeDelayTimeout_bounds [of ms] show ?thesis
    by (auto simp: Let_def ProxyDelay_def goString_def runDelayCall_def split: option.splits call_end.splits)
qed

end
