(* ===== verification/Bridge_Steps.thy ===== *)
theory Bridge_Steps
  imports Bridge
begin

text \<open>
  The calls on the bridge, interleaved. A world is the state of the bridge with what is under
  way: the protect callbacks (the functions that dialers are calling), the calls that wait for
  them with the lock released, and the graceful stops whose reload has not been settled. Each
  step is one section that the code runs under \<^verbatim>\<open>stateMu\<close>.
\<close>

datatype waiter = WaitDisable | WaitStop | WaitGraceful

text \<open>A reload that runs and is waited for, one whose result is in the channel, and one whose
  caller has given up.\<close>

datatype reload = Reloading | Reloaded "string option" | Abandoned

record 'e world =
  bridge :: "'e bridge"
  callbacks :: "nat list"
  waiters :: "waiter list"
  reloads :: "reload list"

datatype bridge_event =
    HookCall "nat option"
  | HookReturn
  | SetFn "nat option"
  | EnableReturn int
  | DisableCall
  | DisableReturn int
  | StartReturn int int
  | StopCall
  | StopReturn int
  | GracefulCall
  | GracefulReturn int
  | Reload
  | Other

abbreviation (input) upd :: "('e bridge \<Rightarrow> 'e bridge) \<Rightarrow> 'e world \<Rightarrow> 'e world" where
  "upd f w \<equiv> w\<lparr>bridge := f (bridge w)\<rparr>"

text \<open>A waiting call proceeds at any time: when it is woken because no callback is busy, or when
  its time is up. A call that finds no callback busy does not release the lock, so that its two
  sections are one step.\<close>

inductive bridge_step :: "'e bridge_env \<Rightarrow> 'e world \<Rightarrow> bridge_event \<Rightarrow> 'e world \<Rightarrow> bool" for env where
  hook_call: "hook_enter (bridge w) = (Some f, s) \<Longrightarrow>
    bridge_step env w (HookCall (Some f)) (w\<lparr>bridge := s, callbacks := f # callbacks w\<rparr>)"
| hook_off: "hook_enter (bridge w) = (None, s) \<Longrightarrow> bridge_step env w (HookCall None) (w\<lparr>bridge := s\<rparr>)"
| hook_return: "f \<in> set (callbacks w) \<Longrightarrow>
    bridge_step env w HookReturn (w\<lparr>bridge := hook_leave (bridge w), callbacks := remove1 f (callbacks w)\<rparr>)"
| set_fn: "bridge_step env w (SetFn fn) (upd (SetProtectBridge fn) w)"
| enable: "EnableProtectHook (bridge w) = (code, s) \<Longrightarrow> bridge_step env w (EnableReturn code) (w\<lparr>bridge := s\<rparr>)"
| disable: "\<not> waitProtectIdleLocked (bridge w) \<Longrightarrow>
    bridge_step env w DisableCall (upd DisableProtectHook_begin w\<lparr>waiters := WaitDisable # waiters w\<rparr>)"
| disable_now: "waitProtectIdleLocked (bridge w) \<Longrightarrow>
    DisableProtectHook_end (DisableProtectHook_begin (bridge w)) = (code, s) \<Longrightarrow>
    bridge_step env w (DisableReturn code) (w\<lparr>bridge := s\<rparr>)"
| disable_end: "WaitDisable \<in> set (waiters w) \<Longrightarrow> DisableProtectHook_end (bridge w) = (code, s) \<Longrightarrow>
    bridge_step env w (DisableReturn code) (w\<lparr>bridge := s, waiters := remove1 WaitDisable (waiters w)\<rparr>)"
| start: "startWithConfig env home cfg tunFd (bridge w) = Done (code, s) \<Longrightarrow>
    bridge_step env w (StartReturn tunFd code) (w\<lparr>bridge := s\<rparr>)"
| stop: "\<not> waitProtectIdleLocked (bridge w) \<Longrightarrow>
    bridge_step env w StopCall (upd Stop_begin w\<lparr>waiters := WaitStop # waiters w\<rparr>)"
| stop_now: "waitProtectIdleLocked (bridge w) \<Longrightarrow> Stop_end (Stop_begin (bridge w)) = (code, s) \<Longrightarrow>
    bridge_step env w (StopReturn code) (w\<lparr>bridge := s\<rparr>)"
| stop_end: "WaitStop \<in> set (waiters w) \<Longrightarrow> Stop_end (bridge w) = (code, s) \<Longrightarrow>
    bridge_step env w (StopReturn code) (w\<lparr>bridge := s, waiters := remove1 WaitStop (waiters w)\<rparr>)"
| graceful_idle: "GracefulStop_begin (bridge w) = (Some code, s) \<Longrightarrow>
    bridge_step env w (GracefulReturn code) (w\<lparr>bridge := s\<rparr>)"
| graceful: "GracefulStop_begin (bridge w) = (None, s) \<Longrightarrow> \<not> waitProtectIdleLocked (bridge w) \<Longrightarrow>
    bridge_step env w GracefulCall (w\<lparr>bridge := s, waiters := WaitGraceful # waiters w\<rparr>)"
| graceful_now: "GracefulStop_begin (bridge w) = (None, s) \<Longrightarrow> waitProtectIdleLocked (bridge w) \<Longrightarrow>
    bridge_step env w GracefulCall (w\<lparr>bridge := s, reloads := Reloading # reloads w\<rparr>)"
| graceful_waited: "WaitGraceful \<in> set (waiters w) \<Longrightarrow>
    bridge_step env w Other (w\<lparr>waiters := remove1 WaitGraceful (waiters w), reloads := Reloading # reloads w\<rparr>)"
| reload: "Reloading \<in> set (reloads w) \<Longrightarrow> GracefulStop_parse env (bridge w) = (err, s) \<Longrightarrow>
    bridge_step env w Reload (w\<lparr>bridge := s, reloads := Reloaded err # remove1 Reloading (reloads w)\<rparr>)"
| reload_late: "Abandoned \<in> set (reloads w) \<Longrightarrow> GracefulStop_parse env (bridge w) = (err, s) \<Longrightarrow>
    bridge_step env w Reload (w\<lparr>bridge := s, reloads := remove1 Abandoned (reloads w)\<rparr>)"
| graceful_end: "Reloaded err \<in> set (reloads w) \<Longrightarrow> GracefulStop_end err (bridge w) = (code, s) \<Longrightarrow>
    bridge_step env w (GracefulReturn code) (w\<lparr>bridge := s, reloads := remove1 (Reloaded err) (reloads w)\<rparr>)"
| graceful_timeout: "Reloading \<in> set (reloads w) \<Longrightarrow> GracefulStop_timeout (bridge w) = (code, s) \<Longrightarrow>
    bridge_step env w (GracefulReturn code) (w\<lparr>bridge := s, reloads := Abandoned # remove1 Reloading (reloads w)\<rparr>)"
| stats: "StartTrafficStatsWriter env path (bridge w) = (code, s) \<Longrightarrow> bridge_step env w Other (w\<lparr>bridge := s\<rparr>)"
| stats_off: "StopTrafficStatsWriter (bridge w) = (code, s) \<Longrightarrow> bridge_step env w Other (w\<lparr>bridge := s\<rparr>)"
| select: "SelectProxy (px :: string proxy_env) grp node (bridge w) = (code, s, stored) \<Longrightarrow> bridge_step env w Other (w\<lparr>bridge := s\<rparr>)"

inductive_cases bridge_stepE [consumes 1]: "bridge_step env w ev w'"

definition initial_bridge :: "'e \<Rightarrow> 'e bridge" where
  "initial_bridge eng =
     \<lparr>started = False, activeTunFd = 0, protectFn = None, protectOn = False, protectBusy = 0, lastErrText = '''',
      socketHook = False, statsWriter = None, homeDir = '''', configFile = '''', engine = eng\<rparr>"

definition initial_world :: "'e \<Rightarrow> 'e world" where
  "initial_world eng = \<lparr>bridge = initial_bridge eng, callbacks = [], waiters = [], reloads = []\<rparr>"

inductive bridge_reach :: "'e bridge_env \<Rightarrow> 'e world \<Rightarrow> bool" for env where
  init: "bridge_reach env (initial_world eng)"
| step: "bridge_reach env w \<Longrightarrow> bridge_step env w ev w' \<Longrightarrow> bridge_reach env w'"

text \<open>The definitions a step unfolds to.\<close>

lemmas bridge_defs =
  hook_enter_def hook_leave_def SetProtectBridge_def EnableProtectHook_def enableProtectHookLocked_def
  disableProtectHookLocked_def DisableProtectHook_begin_def DisableProtectHook_end_def waitProtectIdleLocked_def
  Stop_begin_def Stop_end_def stopTrafficStatsWriter_def GracefulStop_begin_def GracefulStop_parse_def
  GracefulStop_end_def GracefulStop_timeout_def setLastErr_def StartTrafficStatsWriter_def
  startTrafficStatsWriter_def StopTrafficStatsWriter_def SelectProxy_def

lemma startWithConfig_cases:
  assumes "startWithConfig env home cfg tunFd s = Done (code, s')"
  shows "(code \<noteq> 0 \<and> started s' = started s \<and> activeTunFd s' = activeTunFd s \<and> protectOn s' = protectOn s \<and> socketHook s' = socketHook s
           \<or> code = 0 \<and> started s' \<and> activeTunFd s' = tunFd
             \<and> (if tunFd \<ge> 0 \<and> protectFn s \<noteq> None then protectOn s' \<and> socketHook s'
                else protectOn s' = protectOn s \<and> socketHook s' = socketHook s))
         \<and> protectFn s' = protectFn s \<and> protectBusy s' = protectBusy s"
  using assms
  by (auto simp: startWithConfig_def setLastErr_def enableProtectHookLocked_def Let_def
      split: option.splits outcome.splits prod.splits if_splits)

text \<open>The busy counter counts the callbacks, and the dialer has the hook exactly while it is on.\<close>

definition bridge_ok :: "'e world \<Rightarrow> bool" where
  "bridge_ok w \<longleftrightarrow> protectBusy (bridge w) = int (length (callbacks w)) \<and> socketHook (bridge w) = protectOn (bridge w)"

lemma bridge_step_ok: "bridge_step env w ev w' \<Longrightarrow> bridge_ok w \<Longrightarrow> bridge_ok w'"
proof (induction rule: bridge_step.induct)
  case (start home cfg tunFd w code s)
  with startWithConfig_cases [OF start(1)] show ?case by (auto simp: bridge_ok_def split: if_splits)
next
  case (hook_return f w)
  then have "length (callbacks w) = Suc (length (remove1 f (callbacks w)))"
    using length_pos_if_in_set [of f "callbacks w"] by (simp add: length_remove1)
  with hook_return show ?case by (simp add: bridge_ok_def hook_leave_def)
qed (auto simp: bridge_ok_def bridge_defs Let_def split: if_splits option.splits prod.splits)

inductive bridge_trace :: "'e bridge_env \<Rightarrow> 'e world \<Rightarrow> bridge_event list \<Rightarrow> 'e world \<Rightarrow> bool" for env where
  nil: "bridge_trace env w [] w"
| snoc: "bridge_trace env w evs w' \<Longrightarrow> bridge_step env w' ev w'' \<Longrightarrow> bridge_trace env w (evs @ [ev]) w''"

lemma bridge_reach_ok: "bridge_reach env w \<Longrightarrow> bridge_ok w"
proof (induction rule: bridge_reach.induct)
  case (init eng)
  show ?case by (simp add: bridge_ok_def initial_world_def initial_bridge_def)
qed (rule bridge_step_ok)

text \<open>Not running and no callback under way: only a start ends that.\<close>

definition quiet :: "'e world \<Rightarrow> bool" where
  "quiet w \<longleftrightarrow> \<not> started (bridge w) \<and> callbacks w = []"

fun starts :: "bridge_event \<Rightarrow> bool" where
  "starts (StartReturn fd code) = (code = 0)"
| "starts _ = False"

lemma quiet_step: "bridge_step env w ev w' \<Longrightarrow> quiet w \<Longrightarrow> \<not> starts ev \<Longrightarrow> quiet w'"
proof (induction rule: bridge_step.induct)
  case (start home cfg tunFd w code s)
  with startWithConfig_cases [OF start(1)] show ?case by (auto simp: quiet_def)
qed (auto simp: quiet_def bridge_defs Let_def split: if_splits option.splits prod.splits)

lemma quiet_trace: "bridge_trace env w evs w' \<Longrightarrow> quiet w \<Longrightarrow> \<forall>ev\<in>set evs. \<not> starts ev \<Longrightarrow> quiet w'"
  by (induction rule: bridge_trace.induct) (auto intro: quiet_step)

lemma stop_quiet:
  assumes "bridge_ok w" "bridge_step env w (StopReturn 0) w'"
  shows "quiet w'"
  using assms(2,1) by (cases rule: bridge_stepE) (auto simp: quiet_def bridge_ok_def bridge_defs split: if_splits)

text \<open>C17. Stopping: however the calls interleave, when \<open>Stop\<close> returns 0 no protect callback is
  under way, and none is made afterwards until a start succeeds, so that the caller may drop the
  function it had registered.\<close>

theorem stop_quiesces:
  assumes "bridge_reach env w" "bridge_step env w (StopReturn 0) w'"
    and "bridge_trace env w' evs w''" "\<forall>ev\<in>set evs. \<not> starts ev"
  shows "callbacks w'' = [] \<and> IsRunning (bridge w'') = 0 \<and> protectBusy (bridge w'') = 0
    \<and> fst (hook_enter (bridge w'')) = None"
proof -
  have ok: "bridge_ok w'" using bridge_step_ok [OF assms(2) bridge_reach_ok [OF assms(1)]] .
  have "bridge_ok w''" using assms(3) ok by (induction rule: bridge_trace.induct) (auto intro: bridge_step_ok)
  moreover have "quiet w''"
    using quiet_trace [OF assms(3) stop_quiet [OF bridge_reach_ok [OF assms(1)] assms(2)] assms(4)] .
  ultimately show ?thesis by (simp add: quiet_def bridge_ok_def IsRunning_def hook_enter_def)
qed

text \<open>A trace in which no call begins while another call waits or a reload is not settled.\<close>

fun enables :: "bridge_event \<Rightarrow> bool" where
  "enables (StartReturn fd code) = True"
| "enables (EnableReturn code) = True"
| "enables _ = False"

definition settled :: "'e world \<Rightarrow> bool" where
  "settled w \<longleftrightarrow> waiters w = [] \<and> reloads w = []"

inductive orderly_reach :: "'e bridge_env \<Rightarrow> 'e world \<Rightarrow> bool" for env where
  init: "orderly_reach env (initial_world eng)"
| step: "orderly_reach env w \<Longrightarrow> bridge_step env w ev w' \<Longrightarrow> (enables ev \<Longrightarrow> settled w) \<Longrightarrow> orderly_reach env w'"

definition hook_ok :: "'e world \<Rightarrow> bool" where
  "hook_ok w \<longleftrightarrow> (protectOn (bridge w) \<longrightarrow> started (bridge w) \<and> protectFn (bridge w) \<noteq> None)
     \<and> (\<not> settled w \<longrightarrow> \<not> protectOn (bridge w))"

lemma remove1_not_settled: "x \<in> set xs \<Longrightarrow> xs \<noteq> []"
  by auto

lemma hook_ok_step:
  "bridge_step env w ev w' \<Longrightarrow> hook_ok w \<Longrightarrow> (enables ev \<Longrightarrow> settled w) \<Longrightarrow> hook_ok w'"
proof (induction rule: bridge_step.induct)
  case (start home cfg tunFd w code s)
  with startWithConfig_cases [OF start(1)] show ?case by (auto simp: hook_ok_def settled_def split: if_splits)
qed (auto simp: hook_ok_def settled_def bridge_defs Let_def dest!: remove1_not_settled split: if_splits option.splits prod.splits)

text \<open>C32. The hook in orderly use: as long as no start and no enabling of the hook overlaps a stop
  that is waiting or reloading, the hook is on only while the core runs and a function is
  registered, and it is off while a stop is under way.\<close>

theorem orderly_hook:
  assumes "orderly_reach env w"
  shows "(socketHook (bridge w) \<longrightarrow> started (bridge w) \<and> protectFn (bridge w) \<noteq> None)
    \<and> (waiters w \<noteq> [] \<or> reloads w \<noteq> [] \<longrightarrow> \<not> socketHook (bridge w))"
proof -
  have "hook_ok w" using assms
  proof (induction rule: orderly_reach.induct)
    case (init eng)
    show ?case by (simp add: hook_ok_def initial_world_def initial_bridge_def settled_def)
  qed (rule hook_ok_step)
  moreover have "bridge_reach env w" using assms
    by (induction rule: orderly_reach.induct) (auto intro: bridge_reach.intros)
  ultimately show ?thesis using bridge_reach_ok by (auto simp: hook_ok_def bridge_ok_def settled_def)
qed

section \<open>What interleaving breaks\<close>

text \<open>An environment in which every call succeeds; the engine is the text of its configuration,
  and the TUN patch marks a text with a letter.\<close>

definition mark_env :: "string bridge_env" where
  "mark_env =
     \<lparr>MkdirAll = \<lambda>_. None, PathJoin = \<lambda>a b. a @ ''/'' @ b, Setenv = None, ConfigInit = \<lambda>_. None, ReadFile = Inr,
      Unmarshal = \<lambda>cfg. Inr (Some [''cfg'' \<mapsto> YStr cfg]),
      Marshal = \<lambda>root. case root ''cfg'' of Some (YStr cfg) \<Rightarrow> Inr (''t'' @ cfg) | _ \<Rightarrow> Inl '''',
      UnmarshalRawConfig = \<lambda>_. None, Parse = \<lambda>cfg _. (None, cfg), TunStatus = \<lambda>_. ''tun'', WriteStats = \<lambda>_. None\<rparr>"

lemma mark_start:
  "startWithConfig mark_env ''h'' cfg fd s =
     Done (0, s\<lparr>homeDir := ''h'', configFile := ''h/config.yaml'', engine := (if fd \<ge> 0 then ''t'' @ cfg else cfg),
       started := True, activeTunFd := fd,
       protectOn := protectOn s \<or> fd \<ge> 0 \<and> protectFn s \<noteq> None,
       socketHook := socketHook s \<or> fd \<ge> 0 \<and> protectFn s \<noteq> None,
       lastErrText := ''tun''\<rparr>)"
  by (simp add: startWithConfig_def mark_env_def injectTunFd_def enableProtectHookLocked_def Let_def)

text \<open>A start that completes while a stop waits for a callback is forgotten: both calls
  return 0, the engine runs the new configuration with the hook installed, but the bridge says
  that nothing runs, and the function pointer is gone.\<close>

theorem stop_overtakes_start:
  "\<exists>w w1 w2 w3. bridge_reach mark_env w \<and> bridge_step mark_env w StopCall w1
     \<and> bridge_step mark_env w1 (StartReturn 6 0) w2
     \<and> bridge_trace mark_env w2 [HookReturn, StopReturn 0] w3
     \<and> engine (bridge w3) = ''tnew'' \<and> IsRunning (bridge w3) = 0
     \<and> protectOn (bridge w3) \<and> socketHook (bridge w3) \<and> protectFn (bridge w3) = None"
proof -
  let ?w0 = "initial_world ''''"
  let ?w1 = "upd (SetProtectBridge (Some 1)) ?w0"
  obtain w2 where s2: "bridge_step mark_env ?w1 (StartReturn 5 0) w2"
    and w2: "w2 = \<lparr>bridge = \<lparr>started = True, activeTunFd = 5, protectFn = Some 1, protectOn = True, protectBusy = 0,
      lastErrText = ''tun'', socketHook = True, statsWriter = None, homeDir = ''h'', configFile = ''h/config.yaml'',
      engine = ''told''\<rparr>, callbacks = [], waiters = [], reloads = []\<rparr>"
    using bridge_step.start [OF mark_start [of "''old''" 5 "bridge ?w1"]]
    by (simp add: initial_world_def initial_bridge_def SetProtectBridge_def)
  let ?w3 = "w2\<lparr>bridge := (bridge w2)\<lparr>protectBusy := 1\<rparr>, callbacks := [1]\<rparr>"
  have s3: "bridge_step mark_env w2 (HookCall (Some 1)) ?w3"
    using bridge_step.hook_call [of w2 1 "(bridge w2)\<lparr>protectBusy := 1\<rparr>" mark_env] by (simp add: w2 hook_enter_def)
  have reach: "bridge_reach mark_env ?w3"
    by (rule bridge_reach.step [OF bridge_reach.step [OF bridge_reach.step [OF bridge_reach.init bridge_step.set_fn] s2] s3])
  let ?w4 = "upd Stop_begin ?w3\<lparr>waiters := [WaitStop]\<rparr>"
  have s4: "bridge_step mark_env ?w3 StopCall ?w4"
    using bridge_step.stop [of ?w3 mark_env] by (simp add: w2 waitProtectIdleLocked_def)
  obtain w5 where s5: "bridge_step mark_env ?w4 (StartReturn 6 0) w5"
    and w5: "w5 = \<lparr>bridge = \<lparr>started = True, activeTunFd = 6, protectFn = Some 1, protectOn = True, protectBusy = 1,
      lastErrText = ''tun'', socketHook = True, statsWriter = None, homeDir = ''h'', configFile = ''h/config.yaml'',
      engine = ''tnew''\<rparr>, callbacks = [1], waiters = [WaitStop], reloads = []\<rparr>"
    using bridge_step.start [OF mark_start [of "''new''" 6 "bridge ?w4"]]
    by (simp add: w2 Stop_begin_def stopTrafficStatsWriter_def)
  let ?w6 = "w5\<lparr>bridge := hook_leave (bridge w5), callbacks := []\<rparr>"
  have s6: "bridge_step mark_env w5 HookReturn ?w6"
    using bridge_step.hook_return [of 1 w5 mark_env] by (simp add: w5)
  let ?w7 = "w5\<lparr>bridge := snd (Stop_end (bridge ?w6)), callbacks := [], waiters := []\<rparr>"
  have s7: "bridge_step mark_env ?w6 (StopReturn 0) ?w7"
    using bridge_step.stop_end [of ?w6 0 "snd (Stop_end (bridge ?w6))" mark_env]
    by (simp add: w5 Stop_end_def waitProtectIdleLocked_def hook_leave_def)
  have t: "bridge_trace mark_env w5 [HookReturn, StopReturn 0] ?w7"
    using bridge_trace.snoc [OF bridge_trace.snoc [OF bridge_trace.nil s6] s7] by simp
  have "engine (bridge ?w7) = ''tnew'' \<and> IsRunning (bridge ?w7) = 0 \<and> protectOn (bridge ?w7)
    \<and> socketHook (bridge ?w7) \<and> protectFn (bridge ?w7) = None"
    by (simp add: w5 Stop_end_def hook_leave_def IsRunning_def)
  with reach s4 s5 t show ?thesis 
    by (intro exI [of _ ?w3] exI [of _ ?w4] exI [of _ w5] exI [of _ ?w7]) simp
qed

text \<open>A graceful stop whose reload takes longer than three seconds returns -2 and leaves the
  reload running: it can replace the configuration of a start that succeeded in the meantime,
  after which the bridge says that the core runs while its engine has the stopped
  configuration.\<close>

theorem late_reload_replaces_start:
  "\<exists>w w1 w2. bridge_reach mark_env w \<and> bridge_trace mark_env w [GracefulCall, GracefulReturn (-2), StartReturn (-1) 0] w1
     \<and> engine (bridge w1) = ''new'' \<and> bridge_step mark_env w1 Reload w2
     \<and> IsRunning (bridge w2) = 1 \<and> engine (bridge w2) = stoppedConfig"
proof -
  let ?w0 = "initial_world ''''"
  obtain w1 where s1: "bridge_step mark_env ?w0 (StartReturn (-1) 0) w1"
    and w1: "w1 = \<lparr>bridge = \<lparr>started = True, activeTunFd = -1, protectFn = None, protectOn = False, protectBusy = 0,
      lastErrText = ''tun'', socketHook = False, statsWriter = None, homeDir = ''h'', configFile = ''h/config.yaml'',
      engine = ''old''\<rparr>, callbacks = [], waiters = [], reloads = []\<rparr>"
    using bridge_step.start [OF mark_start [of "''old''" "-1" "bridge ?w0"]]
    by (simp add: initial_world_def initial_bridge_def)
  have reach: "bridge_reach mark_env w1" by (rule bridge_reach.step [OF bridge_reach.init s1])
  let ?w2 = "w1\<lparr>reloads := [Reloading]\<rparr>"
  have s2: "bridge_step mark_env w1 GracefulCall ?w2"
    using bridge_step.graceful_now [of w1 "bridge w1" mark_env]
    by (simp add: w1 GracefulStop_begin_def stopTrafficStatsWriter_def waitProtectIdleLocked_def)
  let ?w3 = "w1\<lparr>bridge := snd (GracefulStop_timeout (bridge w1)), reloads := [Abandoned]\<rparr>"
  have s3: "bridge_step mark_env ?w2 (GracefulReturn (-2)) ?w3"
    using bridge_step.graceful_timeout [of ?w2 "-2" "snd (GracefulStop_timeout (bridge w1))" mark_env]
    by (simp add: GracefulStop_timeout_def)
  obtain w4 where s4: "bridge_step mark_env ?w3 (StartReturn (-1) 0) w4"
    and w4: "w4 = w1\<lparr>bridge := (bridge w1)\<lparr>engine := ''new''\<rparr>, reloads := [Abandoned]\<rparr>"
    using bridge_step.start [OF mark_start [of "''new''" "-1" "bridge ?w3"]]
    by (simp add: w1 GracefulStop_timeout_def)
  have t: "bridge_trace mark_env w1 [GracefulCall, GracefulReturn (-2), StartReturn (-1) 0] w4"
    using bridge_trace.snoc [OF bridge_trace.snoc [OF bridge_trace.snoc [OF bridge_trace.nil s2] s3] s4] by simp
  let ?w5 = "w4\<lparr>bridge := (bridge w4)\<lparr>engine := stoppedConfig\<rparr>, reloads := []\<rparr>"
  have s5: "bridge_step mark_env w4 Reload ?w5"
    using bridge_step.reload_late [of w4 mark_env None "(bridge w4)\<lparr>engine := stoppedConfig\<rparr>"]
    by (simp add: w4 w1 GracefulStop_parse_def mark_env_def)
  have "IsRunning (bridge ?w5) = 1" "engine (bridge w4) = ''new''" by (simp_all add: w4 w1 IsRunning_def)
  with reach t s5 show ?thesis by (intro exI [of _ w1] exI [of _ w4] exI [of _ ?w5]) simp
qed

text \<open>Starting again without a TUN descriptor leaves the protect hook of the earlier TUN
  session on, although \<open>EnableProtectHook\<close> refuses it in that state.\<close>

theorem restart_keeps_hook:
  assumes "protectOn s" "socketHook s" "protectFn s = Some f"
    and "startWithConfig env home cfg (-1) s = Done (0, s')"
  shows "socketHook s' \<and> fst (hook_enter s') = Some f \<and> activeTunFd s' < 0 \<and> fst (EnableProtectHook s') = -2"
  using startWithConfig_cases [OF assms(4)] assms(1-3) by (simp add: hook_enter_def EnableProtectHook_def)

theorem restart_keeps_hook_witness:
  "let s = (initial_bridge '''')\<lparr>started := True, protectOn := True, socketHook := True, protectFn := Some 1, activeTunFd := 5\<rparr>;
       s' = s\<lparr>homeDir := ''h'', configFile := ''h/config.yaml'', engine := ''new'', activeTunFd := -1, lastErrText := ''tun''\<rparr>
   in startWithConfig mark_env ''h'' ''new'' (-1) s = Done (0, s')
     \<and> socketHook s' \<and> fst (hook_enter s') = Some 1 \<and> activeTunFd s' < 0 \<and> fst (EnableProtectHook s') = -2"
proof -
  let ?s = "(initial_bridge '''')\<lparr>started := True, protectOn := True, socketHook := True, protectFn := Some 1, activeTunFd := 5\<rparr>"
  let ?s' = "?s\<lparr>homeDir := ''h'', configFile := ''h/config.yaml'', engine := ''new'', activeTunFd := -1, lastErrText := ''tun''\<rparr>"
  have start: "startWithConfig mark_env ''h'' ''new'' (-1) ?s = Done (0, ?s')"
    unfolding mark_start by (simp add: initial_bridge_def)
  from restart_keeps_hook [OF _ _ _ this, of 1] start show ?thesis by (simp add: Let_def)
qed

theorem stop_quiesces_witness:
  "bridge_step mark_env (initial_world '''') (StopReturn 0)
      (initial_world ''''\<lparr>bridge := snd (Stop_end (Stop_begin (initial_bridge '''')))\<rparr>)
    \<and> IsRunning (snd (Stop_end (Stop_begin (initial_bridge ('''' :: string))))) = 0"
proof -
  have s: "bridge_step mark_env (initial_world '''') (StopReturn 0)
      (initial_world ''''\<lparr>bridge := snd (Stop_end (Stop_begin (initial_bridge '''')))\<rparr>)"
    using bridge_step.stop_now [of "initial_world ''''" 0 "snd (Stop_end (Stop_begin (initial_bridge '''')))" mark_env]
    by (simp add: initial_world_def initial_bridge_def waitProtectIdleLocked_def Stop_end_def Stop_begin_def
        stopTrafficStatsWriter_def)
  from stop_quiesces [OF bridge_reach.init this bridge_trace.nil] s show ?thesis by simp
qed

theorem orderly_hook_witness:
  "\<exists>w. orderly_reach mark_env w \<and> socketHook (bridge w) \<and> started (bridge w) \<and> protectFn (bridge w) \<noteq> None"
proof -
  let ?w1 = "upd (SetProtectBridge (Some 1)) (initial_world '''')"
  obtain w2 where s2: "bridge_step mark_env ?w1 (StartReturn 5 0) w2" and on: "socketHook (bridge w2)"
    using bridge_step.start [OF mark_start [of "''old''" 5 "bridge ?w1"]]
    by (simp add: initial_world_def initial_bridge_def SetProtectBridge_def)
  have "orderly_reach mark_env ?w1"
    by (rule orderly_reach.step [OF orderly_reach.init bridge_step.set_fn]) simp
  then have "orderly_reach mark_env w2"
    by (rule orderly_reach.step [OF _ s2]) (simp add: settled_def initial_world_def)
  with on orderly_hook [OF this] show ?thesis by blast
qed

end
