(* ===== verification/ProxyState.thy ===== *)
theory ProxyState
  imports Tunnel
begin

text \<open>
  What the kernel knows about a proxy: \<^verbatim>\<open>adapter/adapter.go\<close> and the queue of
  \<^verbatim>\<open>common/queue/queue.go\<close>. A delay test of a URL leaves a record in the proxy's own history and in
  the history it keeps for that URL; the groups choose by the last record of their URL.

  The exchange with the test server is a \<open>probe\<close>: it failed, or it took some milliseconds and
  ended with a status code. Time is in milliseconds.
\<close>

section \<open>The queue\<close>

definition Put :: "'a list \<Rightarrow> 'a list \<Rightarrow> 'a list" where
  "Put items q = (if items = [] then q else q @ items)"

definition Pop :: "'a \<Rightarrow> 'a list \<Rightarrow> 'a \<times> 'a list" where
  "Pop zero q = (case q of [] \<Rightarrow> (zero, q) | head # items \<Rightarrow> (head, items))"

definition Last :: "'a \<Rightarrow> 'a list \<Rightarrow> 'a" where
  "Last zero q = (if q = [] then zero else last q)"

definition Len :: "'a list \<Rightarrow> int" where
  "Len q = int (length q)"

section \<open>Proxies\<close>

record DelayHistory =
  Time :: int
  Delay :: "16 word"

definition zeroHistory :: DelayHistory where
  "zeroHistory = \<lparr>Time = 0, Delay = 0\<rparr>"

record internalProxyState =
  alive :: bool
  history :: "DelayHistory list"

record Proxy =
  ProxyName :: string
  ProxyAdapterType :: AdapterType
  proxyAlive :: bool
  proxyHistory :: "DelayHistory list"
  extra :: "string \<Rightarrow> internalProxyState option"

definition defaultHistoriesNum :: int where
  "defaultHistoriesNum = 10"

definition NewProxy :: "string \<Rightarrow> AdapterType \<Rightarrow> Proxy" where
  "NewProxy name tp = \<lparr>ProxyName = name, ProxyAdapterType = tp, proxyAlive = True, proxyHistory = [], extra = (\<lambda>url. None)\<rparr>"

definition AliveForTestUrl :: "string \<Rightarrow> Proxy \<Rightarrow> bool" where
  "AliveForTestUrl url p = (case extra p url of Some state \<Rightarrow> alive state | None \<Rightarrow> proxyAlive p)"

definition DelayHistoryForTestUrl :: "string \<Rightarrow> Proxy \<Rightarrow> DelayHistory list" where
  "DelayHistoryForTestUrl url p = (case extra p url of Some state \<Rightarrow> history state | None \<Rightarrow> [])"

definition LastDelayForTestUrl :: "string \<Rightarrow> Proxy \<Rightarrow> 16 word" where
  "LastDelayForTestUrl url p =
     (let (up, h) = (case extra p url of
            Some state \<Rightarrow> (alive state, Last zeroHistory (history state)) | None \<Rightarrow> (False, zeroHistory))
      in if \<not> up \<or> Delay h = 0 then 0xffff else Delay h)"

section \<open>A delay test\<close>

datatype probe = ProbeFailed string | ProbeAnswered nat nat

text \<open>The deferred function of \<^verbatim>\<open>URLTest\<close>: the record of a test with error \<open>err\<close>, delay \<open>t\<close> and
  the verdict on the status.\<close>

definition put_history :: "DelayHistory \<Rightarrow> DelayHistory list \<Rightarrow> DelayHistory list" where
  "put_history record q =
     (let q = Put [record] q in if Len q > defaultHistoriesNum then snd (Pop zeroHistory q) else q)"

definition URLTest_record :: "int \<Rightarrow> string \<Rightarrow> string option \<Rightarrow> 16 word \<Rightarrow> bool \<Rightarrow> Proxy \<Rightarrow> Proxy" where
  "URLTest_record now url err t satisfied p =
     (let up = (err = None);
          record = \<lparr>Time = now, Delay = if up then t else 0\<rparr>;
          p = p\<lparr>proxyAlive := up, proxyHistory := put_history record (proxyHistory p)\<rparr>;
          state = (case extra p url of Some state \<Rightarrow> state | None \<Rightarrow> \<lparr>alive = True, history = []\<rparr>);
          record = (if satisfied then record else record\<lparr>Delay := 0\<rparr>);
          up = (if satisfied then up else False);
          state = \<lparr>alive = up, history = put_history record (history state)\<rparr>
      in p\<lparr>extra := (extra p)(url \<mapsto> state)\<rparr>)"

text \<open>\<open>None\<close> as the expected status is a nil list, which any status satisfies. The milliseconds
  are cut to 16 bits.\<close>

definition status_ok :: "16 word range list option \<Rightarrow> nat \<Rightarrow> bool" where
  "status_ok expectedStatus code = (case expectedStatus of None \<Rightarrow> True | Some rs \<Rightarrow> Check rs (word_of_nat code))"

definition Proxy_URLTest :: "int \<Rightarrow> string \<Rightarrow> 16 word range list option \<Rightarrow> probe \<Rightarrow> Proxy \<Rightarrow> (string + 16 word) \<times> Proxy" where
  "Proxy_URLTest now url expectedStatus pr p =
     (case pr of
        ProbeFailed e \<Rightarrow> (Inl e, URLTest_record now url (Some e) 0 False p)
      | ProbeAnswered ms code \<Rightarrow>
          (Inr (word_of_nat ms), URLTest_record now url None (word_of_nat ms) (status_ok expectedStatus code) p))"

section \<open>Laws\<close>

lemma put_history_simps:
  "put_history r q = (if length q > 9 then tl (q @ [r]) else q @ [r])"
  by (auto simp: put_history_def Let_def Put_def Len_def Pop_def defaultHistoriesNum_def split: list.split)

lemma length_put_history: "length q \<le> 10 \<Longrightarrow> length (put_history r q) \<le> 10"
  by (simp add: put_history_simps)

lemma last_put_history [simp]: "last (put_history r q) = r" "put_history r q \<noteq> []"
  by (cases q; simp add: put_history_simps)+

record test =
  t_now :: int
  t_url :: string
  t_expected :: "16 word range list option"
  t_probe :: probe

definition run_test :: "test \<Rightarrow> Proxy \<Rightarrow> Proxy" where
  "run_test t p = snd (Proxy_URLTest (t_now t) (t_url t) (t_expected t) (t_probe t) p)"

text \<open>Whether a test was answered, whether with an expected status, and in which time.\<close>

definition answered :: "test \<Rightarrow> bool" where
  "answered t \<longleftrightarrow> (case t_probe t of ProbeFailed e \<Rightarrow> False | ProbeAnswered ms code \<Rightarrow> True)"

definition passed :: "test \<Rightarrow> bool" where
  "passed t \<longleftrightarrow> (case t_probe t of ProbeFailed e \<Rightarrow> False | ProbeAnswered ms code \<Rightarrow> status_ok (t_expected t) code)"

definition test_delay :: "test \<Rightarrow> 16 word" where
  "test_delay t = (case t_probe t of ProbeFailed e \<Rightarrow> 0 | ProbeAnswered ms code \<Rightarrow> word_of_nat ms)"

lemma run_test_own:
  "proxyAlive (run_test t p) = answered t" "ProxyName (run_test t p) = ProxyName p"
  "ProxyAdapterType (run_test t p) = ProxyAdapterType p"
  "length (proxyHistory p) \<le> 10 \<Longrightarrow> length (proxyHistory (run_test t p)) \<le> 10"
  by (simp_all add: run_test_def Proxy_URLTest_def URLTest_record_def answered_def Let_def length_put_history split: probe.split)

lemma run_test_extra:
  "extra (run_test t p) = (extra p)(t_url t \<mapsto> \<lparr>alive = passed t,
     history = put_history \<lparr>Time = t_now t, Delay = if passed t then test_delay t else 0\<rparr> (DelayHistoryForTestUrl (t_url t) p)\<rparr>)"
  by (auto simp: run_test_def Proxy_URLTest_def URLTest_record_def passed_def test_delay_def Let_def
      DelayHistoryForTestUrl_def split: probe.split option.split)

definition tested :: "test list \<Rightarrow> Proxy \<Rightarrow> Proxy" where
  "tested ts p = fold run_test ts p"

lemma tested_snoc [simp]: "tested [] p = p" "tested (ts @ [t]) p = run_test t (tested ts p)"
  by (simp_all add: tested_def)

text \<open>The histories of a proxy hold at most ten records, whatever URLs it is tested with,
  and a URL that was tested has at least one.\<close>

theorem histories_bounded:
  "length (proxyHistory (tested ts (NewProxy n tp))) \<le> 10 \<and>
   length (DelayHistoryForTestUrl url (tested ts (NewProxy n tp))) \<le> 10 \<and>
   (url \<in> t_url ` set ts \<longleftrightarrow> DelayHistoryForTestUrl url (tested ts (NewProxy n tp)) \<noteq> [])"
proof (induction ts rule: rev_induct)
  case Nil
  then show ?case by (simp add: NewProxy_def DelayHistoryForTestUrl_def)
next
  case (snoc t ts)
  then show ?case
    by (auto simp: run_test_own run_test_extra DelayHistoryForTestUrl_def length_put_history)
qed

text \<open>What the groups read of a proxy is decided by its last test of the URL: the proxy is
  alive for the URL exactly when that test was answered with an expected status, and its
  delay is that test's; before the first test of a URL the last test of any URL decides, and
  the delay is the largest value.\<close>

theorem last_test_decides:
  "AliveForTestUrl url (tested ts (NewProxy n tp)) =
     (if filter (\<lambda>t. t_url t = url) ts \<noteq> [] then passed (last (filter (\<lambda>t. t_url t = url) ts))
      else ts = [] \<or> answered (last ts)) \<and>
   LastDelayForTestUrl url (tested ts (NewProxy n tp)) =
     (let us = filter (\<lambda>t. t_url t = url) ts in
      if us \<noteq> [] \<and> passed (last us) \<and> test_delay (last us) \<noteq> 0 then test_delay (last us) else 0xffff)"
proof (induction ts rule: rev_induct)
  case Nil
  then show ?case by (simp add: NewProxy_def AliveForTestUrl_def LastDelayForTestUrl_def zeroHistory_def)
next
  case (snoc t ts)
  have none: "filter (\<lambda>t. t_url t = url) ts = [] \<longleftrightarrow> extra (tested ts (NewProxy n tp)) url = None" for ts
    by (induction ts rule: rev_induct) (auto simp: run_test_extra NewProxy_def)
  show ?case
  proof (cases "t_url t = url")
    case True
    then show ?thesis
      by (simp add: AliveForTestUrl_def LastDelayForTestUrl_def run_test_extra Last_def Let_def)
  next
    case False
    then have e: "extra (run_test t (tested ts (NewProxy n tp))) url = extra (tested ts (NewProxy n tp)) url"
      by (simp add: run_test_extra)
    show ?thesis
    proof (cases "extra (tested ts (NewProxy n tp)) url")
      case None
      with False e none [of ts] show ?thesis
        by (simp add: AliveForTestUrl_def LastDelayForTestUrl_def run_test_own)
    next
      case (Some st)
      have "AliveForTestUrl url (run_test t (tested ts (NewProxy n tp))) = AliveForTestUrl url (tested ts (NewProxy n tp))"
        "LastDelayForTestUrl url (run_test t (tested ts (NewProxy n tp))) = LastDelayForTestUrl url (tested ts (NewProxy n tp))"
        by (simp_all add: AliveForTestUrl_def LastDelayForTestUrl_def e Some)
      moreover have "filter (\<lambda>t. t_url t = url) ts \<noteq> []" using none [of ts] Some by simp
      ultimately show ?thesis using False snoc by simp
    qed
  qed
qed

lemma LastDelay_dead: "\<not> AliveForTestUrl url p \<Longrightarrow> LastDelayForTestUrl url p = 0xffff"
  by (simp add: AliveForTestUrl_def LastDelayForTestUrl_def split: option.splits prod.splits)

end
