(* ===== verification/ProxyGroups.thy ===== *)
theory ProxyGroups
  imports ProxyState
begin

text \<open>
  The proxy groups of \<^verbatim>\<open>adapter/outboundgroup\<close> and the timed call of \<^verbatim>\<open>common/singledo\<close>: the list of
  proxies a group has, and how a group of each kind chooses one of them.

  A group refers to proxies that delay tests change at any time. A handle of type \<open>'h\<close> stands for
  the pointer, and \<open>px\<close> gives the proxy it points to when the group looks. The providers are
  given by what they answer at that time. The regular expression package is a function of the
  pattern and the text; a match error counts as no match, as in the code.
\<close>

section \<open>The proxies of a group\<close>

datatype VehicleType = File | VehicleHTTP | VehicleCompatible | Inline

record 'h proxy_provider =
  pd_vehicle :: VehicleType
  pd_proxies :: "'h list"
  pd_version :: "32 word"

record 'h GroupBase =
  filterRegs :: "string list"
  excludeFilterRegs :: "string list"
  excludeTypeArray :: "string list option"
  failedTimes :: int
  failedTime :: int
  failedTesting :: bool
  testTimeout :: int
  maxFailedTimes :: int
  emptyFallback :: 'h
  providerVersions :: "32 word list"
  providerProxies :: "'h list"

definition NewGroupBase :: "string \<Rightarrow> string \<Rightarrow> string \<Rightarrow> int \<Rightarrow> int \<Rightarrow> 'h \<Rightarrow> 'h GroupBase" where
  "NewGroupBase Filter ExcludeFilter ExcludeType TestTimeout MaxFailedTimes EmptyFallback =
     \<lparr>filterRegs = (if Filter = '''' then [] else split_on CHR ''`'' Filter),
      excludeFilterRegs = (if ExcludeFilter = '''' then [] else split_on CHR ''`'' ExcludeFilter),
      excludeTypeArray = (if ExcludeType = '''' then None else Some (split_on CHR ''|'' ExcludeType)),
      failedTimes = 0, failedTime = 0, failedTesting = False,
      testTimeout = (if TestTimeout = 0 then 5000 else TestTimeout),
      maxFailedTimes = (if MaxFailedTimes = 0 then 5 else MaxFailedTimes),
      emptyFallback = EmptyFallback, providerVersions = [], providerProxies = []\<rparr>"

text \<open>\<^verbatim>\<open>AdapterType.String\<close>.\<close>

fun AdapterType_String :: "AdapterType \<Rightarrow> string" where
  "AdapterType_String Direct = ''Direct''"
| "AdapterType_String Reject = ''Reject''"
| "AdapterType_String RejectDrop = ''RejectDrop''"
| "AdapterType_String Compatible = ''Compatible''"
| "AdapterType_String Pass = ''Pass''"
| "AdapterType_String PassRule = ''PassRule''"
| "AdapterType_String Dns = ''Dns''"
| "AdapterType_String Shadowsocks = ''Shadowsocks''"
| "AdapterType_String ShadowsocksR = ''ShadowsocksR''"
| "AdapterType_String Snell = ''Snell''"
| "AdapterType_String Socks5 = ''Socks5''"
| "AdapterType_String Http = ''Http''"
| "AdapterType_String Vmess = ''Vmess''"
| "AdapterType_String Vless = ''Vless''"
| "AdapterType_String Trojan = ''Trojan''"
| "AdapterType_String Hysteria = ''Hysteria''"
| "AdapterType_String Hysteria2 = ''Hysteria2''"
| "AdapterType_String WireGuard = ''WireGuard''"
| "AdapterType_String Tuic = ''Tuic''"
| "AdapterType_String Ssh = ''Ssh''"
| "AdapterType_String Mieru = ''Mieru''"
| "AdapterType_String AnyTLS = ''AnyTLS''"
| "AdapterType_String Sudoku = ''Sudoku''"
| "AdapterType_String Masque = ''Masque''"
| "AdapterType_String TrustTunnel = ''TrustTunnel''"
| "AdapterType_String OpenVPN = ''OpenVPN''"
| "AdapterType_String Tailscale = ''Tailscale''"
| "AdapterType_String GostRelay = ''GostRelay''"
| "AdapterType_String Relay = ''Relay''"
| "AdapterType_String Selector = ''Selector''"
| "AdapterType_String Fallback = ''Fallback''"
| "AdapterType_String URLTest = ''URLTest''"
| "AdapterType_String LoadBalance = ''LoadBalance''"

text \<open>The loop over filters and proxies that keeps the first proxy of each name; the state is
  \<^verbatim>\<open>proxiesSet\<close> and \<^verbatim>\<open>newProxies\<close>.\<close>

definition add_new :: "('h \<Rightarrow> string) \<Rightarrow> (string \<Rightarrow> bool) \<Rightarrow> 'h \<Rightarrow> string list \<times> 'h list \<Rightarrow> string list \<times> 'h list" where
  "add_new nm mat p st =
     (let (seen, new) = st in
      if mat (nm p) \<and> nm p \<notin> set seen then (nm p # seen, new @ [p]) else st)"

definition filter_loop :: "(string \<Rightarrow> string \<Rightarrow> bool) \<Rightarrow> ('h \<Rightarrow> string) \<Rightarrow> string list \<Rightarrow> 'h list \<Rightarrow> string list \<times> 'h list" where
  "filter_loop matchString nm regs ps =
     fold (\<lambda>reg. fold (add_new nm (matchString reg)) ps) regs ([], [])"

definition provided :: "(string \<Rightarrow> string \<Rightarrow> bool) \<Rightarrow> ('h \<Rightarrow> Proxy) \<Rightarrow> 'h GroupBase \<Rightarrow> 'h proxy_provider \<Rightarrow> 'h list" where
  "provided matchString px gb pd =
     (if filterRegs gb = [] \<or> pd_vehicle pd = VehicleCompatible then pd_proxies pd
      else snd (filter_loop matchString (\<lambda>p. ProxyName (px p)) (filterRegs gb) (pd_proxies pd)))"

definition reorder :: "(string \<Rightarrow> string \<Rightarrow> bool) \<Rightarrow> ('h \<Rightarrow> string) \<Rightarrow> string list \<Rightarrow> 'h list \<Rightarrow> 'h list" where
  "reorder matchString nm regs ps = snd (fold (add_new nm (\<lambda>name. True)) ps (filter_loop matchString nm regs ps))"

definition excluded :: "(string \<Rightarrow> string \<Rightarrow> bool) \<Rightarrow> 'h GroupBase \<Rightarrow> Proxy \<Rightarrow> bool" where
  "excluded matchString gb p \<longleftrightarrow>
     list_ex (\<lambda>reg. matchString reg (ProxyName p)) (excludeFilterRegs gb) \<or>
     (case excludeTypeArray gb of None \<Rightarrow> False
      | Some types \<Rightarrow> list_ex (\<lambda>t. to_lower (AdapterType_String (ProxyAdapterType p)) = to_lower t) types)"

definition compute_proxies :: "(string \<Rightarrow> string \<Rightarrow> bool) \<Rightarrow> ('h \<Rightarrow> Proxy) \<Rightarrow> 'h GroupBase \<Rightarrow> 'h proxy_provider list \<Rightarrow> 'h list" where
  "compute_proxies matchString px gb pds =
     (let ps = concat (map (provided matchString px gb) pds);
          ps = (if length pds > 1 \<and> length (filterRegs gb) > 1
                then reorder matchString (\<lambda>p. ProxyName (px p)) (filterRegs gb) ps else ps)
      in filter (\<lambda>p. \<not> excluded matchString gb (px p)) ps)"

definition GetProxies :: "(string \<Rightarrow> string \<Rightarrow> bool) \<Rightarrow> ('h \<Rightarrow> Proxy) \<Rightarrow> 'h proxy_provider list \<Rightarrow> 'h GroupBase \<Rightarrow> 'h list \<times> 'h GroupBase" where
  "GetProxies matchString px pds gb =
     (let versions = map pd_version pds in
      if versions = providerVersions gb then (providerProxies gb, gb)
      else let ps = compute_proxies matchString px gb pds in
        if ps = [] then ([emptyFallback gb], gb)
        else (ps, gb\<lparr>providerVersions := versions, providerProxies := ps\<rparr>))"

section \<open>Failed dials\<close>

text \<open>\<^verbatim>\<open>onDialFailed\<close> starts a goroutine for most adapter types; the result says whether it
  calls the health check of the group.\<close>

definition counts_failure :: "AdapterType \<Rightarrow> bool \<Rightarrow> bool" where
  "counts_failure adapterType notSupport \<longleftrightarrow>
     \<not> (adapterType = Direct \<or> adapterType = Compatible \<or> adapterType = Reject \<or> adapterType = Pass \<or> adapterType = RejectDrop)
     \<and> \<not> notSupport"

definition onDialFailed :: "int \<Rightarrow> AdapterType \<Rightarrow> bool \<Rightarrow> string \<Rightarrow> 'h GroupBase \<Rightarrow> bool \<times> 'h GroupBase" where
  "onDialFailed now adapterType notSupport err gb =
     (if \<not> counts_failure adapterType notSupport then (False, gb)
      else if contains_str err ''connection refused'' then (True, gb)
      else
        let gb = gb\<lparr>failedTimes := failedTimes gb + 1\<rparr> in
        if failedTimes gb = 1 then (False, gb\<lparr>failedTime := now\<rparr>)
        else if now - failedTime gb > testTimeout gb then (False, gb\<lparr>failedTimes := 0\<rparr>)
        else (failedTimes gb \<ge> maxFailedTimes gb, gb))"

definition onDialSuccess :: "'h GroupBase \<Rightarrow> 'h GroupBase" where
  "onDialSuccess gb = (if \<not> failedTesting gb then gb\<lparr>failedTimes := 0\<rparr> else gb)"

text \<open>\<^verbatim>\<open>healthCheck\<close> up to the start of the providers' checks, and after they have ended.\<close>

definition healthCheck_begin :: "'h GroupBase \<Rightarrow> bool \<times> 'h GroupBase" where
  "healthCheck_begin gb = (if failedTesting gb then (False, gb) else (True, gb\<lparr>failedTesting := True\<rparr>))"

definition healthCheck_end :: "'h GroupBase \<Rightarrow> 'h GroupBase" where
  "healthCheck_end gb = gb\<lparr>failedTesting := False, failedTimes := 0\<rparr>"

section \<open>Selector\<close>

definition selectedProxy :: "('h \<Rightarrow> Proxy) \<Rightarrow> string \<Rightarrow> 'h list \<Rightarrow> 'h option" where
  "selectedProxy px selected ps =
     (case List.find (\<lambda>p. ProxyName (px p) = selected) ps of
        Some p \<Rightarrow> Some p | None \<Rightarrow> (case ps of [] \<Rightarrow> None | p # _ \<Rightarrow> Some p))"

text \<open>\<^verbatim>\<open>Set\<close> of a selector: \<open>None\<close> is the error that the proxy does not exist.\<close>

definition Selector_Set :: "('h \<Rightarrow> Proxy) \<Rightarrow> 'h list \<Rightarrow> string \<Rightarrow> string option" where
  "Selector_Set px ps name = (if list_ex (\<lambda>p. ProxyName (px p) = name) ps then Some name else None)"

section \<open>Fallback\<close>

text \<open>The loop of \<^verbatim>\<open>findAliveProxy\<close>, on the rest of the list and the selection; the result is
  the proxy, if one was found, and the selection.\<close>

fun fallback_loop :: "('h \<Rightarrow> Proxy) \<Rightarrow> string \<Rightarrow> string \<Rightarrow> 'h list \<Rightarrow> 'h option \<times> string" where
  "fallback_loop px testUrl selected [] = (None, selected)"
| "fallback_loop px testUrl selected (p # ps) =
     (if selected = '''' then
        if AliveForTestUrl testUrl (px p) then (Some p, selected) else fallback_loop px testUrl selected ps
      else if ProxyName (px p) = selected then
        if AliveForTestUrl testUrl (px p) then (Some p, selected) else fallback_loop px testUrl '''' ps
      else fallback_loop px testUrl selected ps)"

definition findAliveProxy :: "('h \<Rightarrow> Proxy) \<Rightarrow> string \<Rightarrow> 'h list \<Rightarrow> string \<Rightarrow> 'h option \<times> string" where
  "findAliveProxy px testUrl ps selected =
     (case fallback_loop px testUrl selected ps of
        (Some p, s) \<Rightarrow> (Some p, s)
      | (None, s) \<Rightarrow> (case ps of [] \<Rightarrow> None | p # _ \<Rightarrow> Some p, s))"

definition Fallback_Set :: "('h \<Rightarrow> Proxy) \<Rightarrow> 'h list \<Rightarrow> string \<Rightarrow> string option" where
  "Fallback_Set px ps name = (case List.find (\<lambda>p. ProxyName (px p) = name) ps of None \<Rightarrow> None | Some p \<Rightarrow> Some name)"

section \<open>A call that is shared for some time\<close>

text \<open>\<^verbatim>\<open>Single.Do\<close> when no other call is under way; the function changes the caller's state. The
  result says whether the value was shared.\<close>

record 'v single =
  wait :: int
  result :: "('v \<times> int) option"

definition NewSingle :: "int \<Rightarrow> 'v single" where
  "NewSingle w = \<lparr>wait = w, result = None\<rparr>"

definition Single_Do :: "int \<Rightarrow> ('s \<Rightarrow> 'v \<times> 's) \<Rightarrow> 'v single \<Rightarrow> 's \<Rightarrow> ('v \<times> bool) \<times> 'v single \<times> 's" where
  "Single_Do now fn s st =
     (case (case result s of Some (v, t) \<Rightarrow> if now - t < wait s then Some v else None | None \<Rightarrow> None) of
        Some v \<Rightarrow> ((v, True), s, st)
      | None \<Rightarrow> let (v, st) = fn st in ((v, False), s\<lparr>result := Some (v, now)\<rparr>, st))"

definition Single_Reset :: "'v single \<Rightarrow> 'v single" where
  "Single_Reset s = s\<lparr>result := None\<rparr>"

section \<open>URL test\<close>

record 'h url_test =
  selected :: string
  testUrl :: string
  tolerance :: "16 word"
  disableUDP :: bool
  fastNode :: "'h option"
  fastSingle :: "'h single"

definition NewURLTest :: "string \<Rightarrow> 16 word \<Rightarrow> bool \<Rightarrow> 'h url_test" where
  "NewURLTest url tol noUDP =
     \<lparr>selected = '''', testUrl = url, tolerance = tol, disableUDP = noUDP, fastNode = None, fastSingle = NewSingle 10000\<rparr>"

text \<open>The loop over \<^verbatim>\<open>proxies[1:]\<close>: the fastest so far, its delay, and \<^verbatim>\<open>fastNotExist\<close>.\<close>

definition fast_step :: "('h \<Rightarrow> Proxy) \<Rightarrow> string \<Rightarrow> 'h option \<Rightarrow> 'h \<Rightarrow> 'h \<times> 16 word \<times> bool \<Rightarrow> 'h \<times> 16 word \<times> bool" where
  "fast_step px url node p st =
     (let (quick, minDelay, fastNotExist) = st;
          fastNotExist = (case node of Some f \<Rightarrow> if ProxyName (px p) = ProxyName (px f) then False else fastNotExist | None \<Rightarrow> fastNotExist)
      in if \<not> AliveForTestUrl url (px p) then (quick, minDelay, fastNotExist)
         else let delay = LastDelayForTestUrl url (px p) in
           if delay < minDelay then (p, delay, fastNotExist) else (quick, minDelay, fastNotExist))"

definition fast_scan :: "('h \<Rightarrow> Proxy) \<Rightarrow> string \<Rightarrow> 'h option \<Rightarrow> 'h list \<Rightarrow> 'h \<times> 16 word \<times> bool" where
  "fast_scan px url node ps = fold (fast_step px url node) (tl ps) (hd ps, LastDelayForTestUrl url (px (hd ps)), True)"

text \<open>The function that \<^verbatim>\<open>fast\<close> shares, on the list of proxies, which is not empty. The sum of a
  delay and the tolerance is one of 16 bits.\<close>

definition keeps_node :: "('h \<Rightarrow> Proxy) \<Rightarrow> 'h url_test \<Rightarrow> 'h \<Rightarrow> bool \<Rightarrow> bool" where
  "keeps_node px u quick fastNotExist \<longleftrightarrow>
     (case fastNode u of None \<Rightarrow> False
      | Some f \<Rightarrow> \<not> (fastNotExist \<or> \<not> AliveForTestUrl (testUrl u) (px f) \<or>
          LastDelayForTestUrl (testUrl u) (px f) > LastDelayForTestUrl (testUrl u) (px quick) + tolerance u))"

definition fast_pick :: "('h \<Rightarrow> Proxy) \<Rightarrow> 'h list \<Rightarrow> 'h url_test \<Rightarrow> 'h \<times> 'h url_test" where
  "fast_pick px ps u =
     (case (if selected u = '''' then None
            else List.find (\<lambda>p. AliveForTestUrl (testUrl u) (px p) \<and> ProxyName (px p) = selected u) ps) of
        Some p \<Rightarrow> (p, u\<lparr>fastNode := Some p\<rparr>)
      | None \<Rightarrow>
          let (quick, minDelay, fastNotExist) = fast_scan px (testUrl u) (fastNode u) ps;
              u = (if keeps_node px u quick fastNotExist then u else u\<lparr>fastNode := Some quick\<rparr>)
          in (the (fastNode u), u))"

definition fast :: "int \<Rightarrow> ('h \<Rightarrow> Proxy) \<Rightarrow> 'h list \<Rightarrow> 'h url_test \<Rightarrow> 'h \<times> 'h url_test" where
  "fast now px ps u =
     (let ((elm, shared), s, u) = Single_Do now (fast_pick px ps) (fastSingle u) u
      in (elm, u\<lparr>fastSingle := s\<rparr>))"

definition URLTest_ForceSet :: "string \<Rightarrow> 'h url_test \<Rightarrow> 'h url_test" where
  "URLTest_ForceSet name u = u\<lparr>selected := name, fastSingle := Single_Reset (fastSingle u)\<rparr>"

definition URLTest_Set :: "('h \<Rightarrow> Proxy) \<Rightarrow> 'h list \<Rightarrow> string \<Rightarrow> 'h url_test \<Rightarrow> 'h url_test option" where
  "URLTest_Set px ps name u =
     (case List.find (\<lambda>p. ProxyName (px p) = name) ps of None \<Rightarrow> None | Some p \<Rightarrow> Some (URLTest_ForceSet name u))"

definition URLTest_healthCheck_begin :: "'h url_test \<Rightarrow> 'h url_test" where
  "URLTest_healthCheck_begin u = u\<lparr>fastSingle := Single_Reset (fastSingle u)\<rparr>"

definition URLTest_SupportUDP :: "('h \<Rightarrow> bool) \<Rightarrow> int \<Rightarrow> ('h \<Rightarrow> Proxy) \<Rightarrow> 'h list \<Rightarrow> 'h url_test \<Rightarrow> bool \<times> 'h url_test" where
  "URLTest_SupportUDP udp now px ps u =
     (if disableUDP u then (False, u) else let (p, u) = fast now px ps u in (udp p, u))"

end
