(* ===== verification/GroupLaws.thy ===== *)
theory GroupLaws
  imports ProxyGroups
begin

text \<open>
  Laws of the proxy groups: which proxies a group has, that its cache of them does not show,
  how far the choice of a URL-test group is from the fastest proxy, what a fallback group
  falls back to, and when failed dials start a health check.
\<close>

section \<open>The proxies of a group\<close>

text \<open>What the loop over names keeps, when different proxies have different names.\<close>

lemma add_new_fold:
  assumes "set (fst st) = nm ` set (snd st)" "inj_on nm (set ps \<union> set (snd st))"
  shows "set (fst (fold (add_new nm mat) ps st)) = nm ` set (snd (fold (add_new nm mat) ps st)) \<and>
    set (snd (fold (add_new nm mat) ps st)) = set (snd st) \<union> {p \<in> set ps. mat (nm p)}"
  using assms
proof (induction ps arbitrary: st)
  case (Cons p ps)
  obtain seen new where st: "st = (seen, new)" by (cases st)
  have seen: "set seen = nm ` set new" using Cons.prems(1) st by simp
  have p: "nm p \<in> set seen \<longleftrightarrow> p \<in> set new"
    using Cons.prems st by (auto simp: inj_on_def)
  have "set (fst (add_new nm mat p st)) = nm ` set (snd (add_new nm mat p st))"
    "set (snd (add_new nm mat p st)) = set (snd st) \<union> {q. q = p \<and> mat (nm p)}"
    using seen p by (auto simp: add_new_def st)
  moreover have "inj_on nm (set ps \<union> set (snd (add_new nm mat p st)))"
    by (rule inj_on_subset [OF Cons.prems(2)]) (auto simp: calculation(2))
  ultimately show ?case using Cons.IH [of "add_new nm mat p st"] by auto
qed simp

lemma filter_loop_set:
  assumes "inj_on nm (set ps)"
  shows "set (snd (filter_loop matchString nm regs ps)) = {p \<in> set ps. \<exists>reg\<in>set regs. matchString reg (nm p)} \<and>
    set (fst (filter_loop matchString nm regs ps)) = nm ` set (snd (filter_loop matchString nm regs ps))"
proof (induction regs rule: rev_induct)
  case (snoc reg regs)
  define st where "st = filter_loop matchString nm regs ps"
  have "filter_loop matchString nm (regs @ [reg]) ps = fold (add_new nm (matchString reg)) ps st"
    by (simp add: filter_loop_def st_def)
  moreover have "set (fst st) = nm ` set (snd st)" "inj_on nm (set ps \<union> set (snd st))"
    "set (snd st) = {p \<in> set ps. \<exists>reg\<in>set regs. matchString reg (nm p)}"
    using snoc assms by (auto simp: st_def inj_on_def)
  ultimately show ?case using add_new_fold [of st nm ps "matchString reg"] by auto
qed (simp add: filter_loop_def)

lemma reorder_set:
  assumes "inj_on nm (set ps)"
  shows "set (reorder matchString nm regs ps) = set ps"
proof -
  let ?st = "filter_loop matchString nm regs ps"
  have "set (fst ?st) = nm ` set (snd ?st)" "inj_on nm (set ps \<union> set (snd ?st))"
    using filter_loop_set [OF assms, of matchString regs] assms by (auto simp: inj_on_def)
  from add_new_fold [OF this, of "\<lambda>name. True"] filter_loop_set [OF assms, of matchString regs]
  show ?thesis by (auto simp: reorder_def)
qed

text \<open>C28. The proxies of a group, when no two have the same name: those of its providers that
  some filter accepts (the group's own list is not filtered), less those that an exclude filter
  matches or whose type is excluded.\<close>

theorem group_members:
  assumes "inj_on (\<lambda>p. ProxyName (px p)) (\<Union>pd\<in>set pds. set (pd_proxies pd))"
  shows "set (compute_proxies matchString px gb pds) =
    {p. (\<exists>pd\<in>set pds. p \<in> set (pd_proxies pd) \<and>
        (filterRegs gb = [] \<or> pd_vehicle pd = VehicleCompatible \<or> (\<exists>reg\<in>set (filterRegs gb). matchString reg (ProxyName (px p))))) \<and>
      \<not> excluded matchString gb (px p)}"
proof -
  let ?nm = "\<lambda>p. ProxyName (px p)" and ?ps = "concat (map (provided matchString px gb) pds)"
  have inj: "inj_on ?nm (set (pd_proxies pd))" if "pd \<in> set pds" for pd
    using assms by (rule inj_on_subset) (use that in blast)
  have pd: "set (provided matchString px gb pd) = {p \<in> set (pd_proxies pd).
      filterRegs gb = [] \<or> pd_vehicle pd = VehicleCompatible \<or> (\<exists>reg\<in>set (filterRegs gb). matchString reg (?nm p))}"
    if "pd \<in> set pds" for pd
    using filter_loop_set [OF inj [OF that], of matchString "filterRegs gb"] by (auto simp: provided_def)
  have "inj_on ?nm (set ?ps)" using assms by (rule inj_on_subset) (use pd in auto)
  then have "set (reorder matchString ?nm (filterRegs gb) ?ps) = set ?ps" by (rule reorder_set)
  then have "set (compute_proxies matchString px gb pds) = {p \<in> set ?ps. \<not> excluded matchString gb (px p)}"
    unfolding compute_proxies_def Let_def set_filter by (simp split: if_split)
  with pd show ?thesis by auto
qed

text \<open>The names and types of proxies do not change, and a provider with the same version has the same
  proxies: \<open>at\<close> gives the providers at a list of versions.\<close>

definition same_proxies :: "('h \<Rightarrow> Proxy) \<Rightarrow> ('h \<Rightarrow> Proxy) \<Rightarrow> bool" where
  "same_proxies px px' \<longleftrightarrow> (\<forall>p. ProxyName (px p) = ProxyName (px' p) \<and> ProxyAdapterType (px p) = ProxyAdapterType (px' p))"

lemma compute_proxies_same:
  "same_proxies px px' \<Longrightarrow> compute_proxies matchString px gb pds = compute_proxies matchString px' gb pds"
proof -
  assume "same_proxies px px'"
  then have n: "ProxyName (px p) = ProxyName (px' p)" "ProxyAdapterType (px p) = ProxyAdapterType (px' p)" for p
    by (simp_all add: same_proxies_def)
  then have "provided matchString px gb = provided matchString px' gb"
    "\<And>p. excluded matchString gb (px p) = excluded matchString gb (px' p)"
    by (auto simp: provided_def excluded_def fun_eq_iff split: option.splits)
  with n show ?thesis by (simp add: compute_proxies_def Let_def)
qed

definition cache_ok :: "(string \<Rightarrow> string \<Rightarrow> bool) \<Rightarrow> ('h \<Rightarrow> Proxy) \<Rightarrow> (32 word list \<Rightarrow> 'h proxy_provider list) \<Rightarrow> 'h GroupBase \<Rightarrow> bool" where
  "cache_ok matchString px at gb \<longleftrightarrow> providerVersions gb = [] \<or>
     providerProxies gb \<noteq> [] \<and> providerProxies gb = compute_proxies matchString px gb (at (providerVersions gb))"

definition fresh_proxies :: "(string \<Rightarrow> string \<Rightarrow> bool) \<Rightarrow> ('h \<Rightarrow> Proxy) \<Rightarrow> 'h GroupBase \<Rightarrow> 'h proxy_provider list \<Rightarrow> 'h list" where
  "fresh_proxies matchString px gb pds =
     (let ps = compute_proxies matchString px gb pds in if ps = [] then [emptyFallback gb] else ps)"

lemma compute_proxies_cached [simp]:
  "compute_proxies matchString px (gb\<lparr>providerVersions := v, providerProxies := q\<rparr>) = compute_proxies matchString px gb"
proof -
  let ?gb = "gb\<lparr>providerVersions := v, providerProxies := q\<rparr>"
  have "provided matchString px ?gb = provided matchString px gb" "excluded matchString ?gb = excluded matchString gb"
    by (simp_all add: provided_def excluded_def fun_eq_iff)
  then show ?thesis by (intro ext) (simp add: compute_proxies_def Let_def)
qed

lemma GetProxies_step:
  assumes "cache_ok matchString px at gb" "\<forall>vs. map pd_version (at vs) = vs" "vs \<noteq> []"
    and "GetProxies matchString px (at vs) gb = (ps, gb')"
  shows "ps = fresh_proxies matchString px gb (at vs) \<and> cache_ok matchString px at gb' \<and>
    emptyFallback gb' = emptyFallback gb \<and> compute_proxies matchString px gb' = compute_proxies matchString px gb"
  using assms by (auto simp: GetProxies_def cache_ok_def fresh_proxies_def Let_def split: if_splits)

fun gets :: "(string \<Rightarrow> string \<Rightarrow> bool) \<Rightarrow> (32 word list \<Rightarrow> 'h proxy_provider list) \<Rightarrow> (('h \<Rightarrow> Proxy) \<times> 32 word list) list \<Rightarrow> 'h GroupBase \<Rightarrow> 'h list list" where
  "gets matchString at [] gb = []"
| "gets matchString at ((px, vs) # calls) gb =
     (let (ps, gb) = GetProxies matchString px (at vs) gb in ps # gets matchString at calls gb)"

lemma gets_fresh:
  assumes "\<forall>vs. map pd_version (at vs) = vs" "\<forall>(px, vs)\<in>set calls. same_proxies px0 px \<and> vs \<noteq> []"
    "cache_ok matchString px0 at gb"
  shows "gets matchString at calls gb = map (\<lambda>(px, vs). fresh_proxies matchString px gb (at vs)) calls"
  using assms(2,3)
proof (induction calls arbitrary: gb)
  case (Cons c calls)
  obtain px vs where c: "c = (px, vs)" by (cases c)
  then have s: "same_proxies px0 px" "vs \<noteq> []" using Cons.prems(1) by auto
  have same: "compute_proxies matchString px gb = compute_proxies matchString px0 gb" for gb
    by (rule ext) (rule compute_proxies_same [OF s(1), symmetric])
  have ok: "cache_ok matchString px at gb" using Cons.prems(2) same by (simp add: cache_ok_def)
  obtain ps gb' where g: "GetProxies matchString px (at vs) gb = (ps, gb')" by fastforce
  note st = GetProxies_step [OF ok assms(1) s(2) g]
  have ok': "cache_ok matchString px0 at gb'" using st same unfolding cache_ok_def by metis
  have "fresh_proxies matchString px1 gb' (at vs1) = fresh_proxies matchString px1 gb (at vs1)"
    if "same_proxies px0 px1" for px1 vs1
    using st compute_proxies_same [OF that] same by (simp add: fresh_proxies_def) metis
  with Cons.IH [OF _ ok'] Cons.prems(1) show ?case
    using st g c by (auto simp: Let_def intro!: map_cong)
qed simp

text \<open>C27. The cache of a group's proxies does not show: however the versions of the providers
  change between the calls, every call gives what a computation from the providers' proxies at
  that time gives, or the fallback proxy when that is empty; in particular it is never empty.\<close>

theorem GetProxies_transparent:
  assumes "\<forall>vs. map pd_version (at vs) = vs" "\<forall>(px, vs)\<in>set calls. same_proxies px0 px \<and> vs \<noteq> []"
  shows "gets matchString at calls (NewGroupBase f xf xt tt mf fb) =
      map (\<lambda>(px, vs). fresh_proxies matchString px (NewGroupBase f xf xt tt mf fb) (at vs)) calls \<and>
    [] \<notin> set (gets matchString at calls (NewGroupBase f xf xt tt mf fb))"
proof -
  have "cache_ok matchString px0 at (NewGroupBase f xf xt tt mf fb)"
    by (simp add: cache_ok_def NewGroupBase_def)
  from gets_fresh [OF assms this] show ?thesis by (auto simp: fresh_proxies_def Let_def split: if_splits)
qed

section \<open>Failed dials\<close>

text \<open>Dials that fail in the way that is counted, at the given times, one after the other; the
  results say which of them start a health check.\<close>

fun failures :: "int list \<Rightarrow> 'h GroupBase \<Rightarrow> bool list \<times> 'h GroupBase" where
  "failures [] gb = ([], gb)"
| "failures (now # ts) gb =
     (let (check, gb) = onDialFailed now Vmess False '''' gb; (checks, gb) = failures ts gb in (check # checks, gb))"

text \<open>The failures counted so far all happened since \<open>failedTime\<close>.\<close>

definition counted :: "int list \<Rightarrow> 'h GroupBase \<Rightarrow> bool" where
  "counted past gb \<longleftrightarrow> 0 \<le> failedTimes gb \<and> failedTimes gb \<le> int (length (filter (\<lambda>t. failedTime gb \<le> t) past))"

lemma length_filter_mono: "(\<And>x. P x \<Longrightarrow> Q x) \<Longrightarrow> length (filter P xs) \<le> length (filter Q xs)"
  by (induction xs) (auto intro: le_SucI)

lemma counted_fail:
  assumes "counted past gb" "onDialFailed now Vmess False '''' gb = (check, gb')" "failedTimes gb \<noteq> 0 \<Longrightarrow> failedTime gb \<le> now"
  shows "counted (now # past) gb' \<and> maxFailedTimes gb' = maxFailedTimes gb \<and> testTimeout gb' = testTimeout gb \<and>
    (failedTimes gb' \<noteq> 0 \<longrightarrow> failedTime gb' \<le> now) \<and>
    (check \<longrightarrow> maxFailedTimes gb \<le> int (length (filter (\<lambda>t. now - testTimeout gb \<le> t) (now # past))))"
proof -
  have nf: "\<not> contains_str '''' ''connection refused''" by (simp add: contains_str_def)
  have mono: "length (filter (\<lambda>t. failedTime gb \<le> t) past) \<le> length (filter (\<lambda>t. now - testTimeout gb \<le> t) past)"
    if "now - failedTime gb \<le> testTimeout gb"
    using that by (intro length_filter_mono) auto
  show ?thesis
  proof (cases "failedTimes gb = 0")
    case True
    with assms nf show ?thesis by (auto simp: onDialFailed_def counts_failure_def counted_def Let_def)
  next
    case False
    with assms have "0 < failedTimes gb" "failedTime gb \<le> now" by (auto simp: counted_def)
    with assms nf mono show ?thesis
      by (auto simp: onDialFailed_def counts_failure_def counted_def Let_def split: if_splits)
  qed
qed

lemma failures_counted:
  assumes "counted past gb" "sorted ts" "failedTimes gb \<noteq> 0 \<Longrightarrow> ts \<noteq> [] \<Longrightarrow> failedTime gb \<le> hd ts"
    and "k < length ts" "fst (failures ts gb) ! k"
  shows "maxFailedTimes gb \<le> int (length (filter (\<lambda>t. ts ! k - testTimeout gb \<le> t) (rev (take (Suc k) ts) @ past)))"
  using assms
proof (induction ts arbitrary: gb past k)
  case (Cons now ts)
  obtain check gb' where f: "onDialFailed now Vmess False '''' gb = (check, gb')" by fastforce
  note c = counted_fail [OF Cons.prems(1) f] Cons.prems(3)
  show ?case
  proof (cases k)
    case 0
    with Cons.prems(5) f c show ?thesis by (auto split: prod.splits)
  next
    case (Suc j)
    have "failedTimes gb' \<noteq> 0 \<Longrightarrow> ts \<noteq> [] \<Longrightarrow> failedTime gb' \<le> hd ts"
      using c Cons.prems(2) by (cases ts) auto
    moreover have "fst (failures ts gb') ! j" using Cons.prems(5) f Suc by (auto split: prod.splits)
    ultimately show ?thesis
      using Cons.IH [of "now # past" gb' j] c Cons.prems Suc by auto
  qed
qed simp

text \<open>Failed dials start a health check only in number: when the failure at some time starts
  one, at least \<^verbatim>\<open>maxFailedTimes\<close> failures, this one included, lie in the last \<^verbatim>\<open>testTimeout\<close>
  milliseconds.\<close>

theorem health_check_needs_failures:
  assumes "failedTimes gb = 0" "sorted ts" "k < length ts" "fst (failures ts gb) ! k"
  shows "maxFailedTimes gb \<le> int (length (filter (\<lambda>t. ts ! k - testTimeout gb \<le> t) (take (Suc k) ts)))"
proof -
  have "counted [] gb" using assms(1) by (simp add: counted_def)
  from failures_counted [OF this assms(2) _ assms(3,4)] assms(1) show ?thesis
    by (simp add: rev_filter [symmetric])
qed

section \<open>Selection and fallback\<close>

text \<open>Without a selection a fallback group takes the first proxy that is alive, and the first
  proxy when none is; with a selection that is alive it takes the selection.\<close>

theorem fallback_chooses:
  assumes "ps \<noteq> []" "distinct (map (\<lambda>p. ProxyName (px p)) ps)"
  shows "findAliveProxy px url ps '''' =
      (Some (case List.find (\<lambda>p. AliveForTestUrl url (px p)) ps of Some p \<Rightarrow> p | None \<Rightarrow> hd ps), '''') \<and>
    (\<forall>p\<in>set ps. ProxyName (px p) \<noteq> '''' \<and> AliveForTestUrl url (px p) \<longrightarrow>
      findAliveProxy px url ps (ProxyName (px p)) = (Some p, ProxyName (px p)))"
proof (intro conjI ballI impI)
  have "fallback_loop px url '''' ps = (List.find (\<lambda>p. AliveForTestUrl url (px p)) ps, '''')" for ps
    by (induction ps) auto
  then show "findAliveProxy px url ps '''' =
      (Some (case List.find (\<lambda>p. AliveForTestUrl url (px p)) ps of Some p \<Rightarrow> p | None \<Rightarrow> hd ps), '''')"
    using assms(1) by (cases ps) (auto simp: findAliveProxy_def split: option.split)
next
  fix p assume p: "p \<in> set ps" "ProxyName (px p) \<noteq> '''' \<and> AliveForTestUrl url (px p)"
  have "fallback_loop px url (ProxyName (px p)) ps = (Some p, ProxyName (px p))"
    using p assms(2) by (induction ps) (auto simp: image_iff)
  then show "findAliveProxy px url ps (ProxyName (px p)) = (Some p, ProxyName (px p))"
    by (simp add: findAliveProxy_def)
qed

text \<open>A fallback group whose selection is no longer among its proxies (its provider has been
  updated) takes the first proxy, dead or alive, and keeps the selection; and when the selection
  is dead, the proxies before it are passed over, so that a dead proxy is taken although one is alive.\<close>

theorem fallback_takes_dead_proxy:
  assumes "\<forall>p\<in>set ps. ProxyName (px p) \<noteq> s" "s \<noteq> ''''" "ps \<noteq> []"
    and "ProxyName (px a) \<noteq> s" "ProxyName (px b) \<noteq> s" "ProxyName (px c) = s" "\<not> AliveForTestUrl url (px c)"
  shows "findAliveProxy px url ps s = (Some (hd ps), s) \<and>
    findAliveProxy px url [a, b, c] s = (Some a, '''')"
proof -
  have "fallback_loop px url s ps = (None, s)" using assms(1,2) by (induction ps) auto
  with assms show ?thesis by (cases ps) (auto simp: findAliveProxy_def)
qed

section \<open>URL test\<close>

abbreviation "delay_of px u p \<equiv> LastDelayForTestUrl (testUrl u) (px p)"
abbreviation "alive_of px u p \<equiv> AliveForTestUrl (testUrl u) (px p)"

lemma fast_fold:
  assumes "fold (fast_step px url node) qs (q0, d0, ne0) = (q, d, ne)" "d0 = LastDelayForTestUrl url (px q0)"
  shows "q \<in> insert q0 (set qs) \<and> d = LastDelayForTestUrl url (px q) \<and> d \<le> d0 \<and>
    (\<forall>p\<in>set qs. AliveForTestUrl url (px p) \<longrightarrow> d \<le> LastDelayForTestUrl url (px p)) \<and>
    (ne \<longleftrightarrow> ne0 \<and> (\<forall>f. node = Some f \<longrightarrow> (\<forall>p\<in>set qs. ProxyName (px p) \<noteq> ProxyName (px f))))"
  using assms
proof (induction qs arbitrary: q0 d0 ne0)
  case (Cons p qs)
  obtain q1 d1 ne1 where st: "fast_step px url node p (q0, d0, ne0) = (q1, d1, ne1)" by (metis prod_cases3)
  then have one: "d1 = LastDelayForTestUrl url (px q1)" "q1 = q0 \<or> q1 = p" "d1 \<le> d0"
    "AliveForTestUrl url (px p) \<Longrightarrow> d1 \<le> LastDelayForTestUrl url (px p)"
    "ne1 \<longleftrightarrow> ne0 \<and> (\<forall>f. node = Some f \<longrightarrow> ProxyName (px p) \<noteq> ProxyName (px f))"
    using Cons.prems(2) by (auto simp: fast_step_def Let_def split: if_splits option.splits)
  have "fold (fast_step px url node) qs (q1, d1, ne1) = (q, d, ne)" using Cons.prems(1) st by simp
  from Cons.IH [OF this one(1)] one show ?case by (auto intro: order_trans)
qed auto

text \<open>What the scan finds: the fastest proxy, and whether the name of the current node is in the
  tail of the list.\<close>

lemma fast_scan:
  assumes "ps \<noteq> []" "fast_scan px (testUrl u) (fastNode u) ps = (q, d, ne)"
  shows "q \<in> set ps" "d = delay_of px u q" "p \<in> set ps \<Longrightarrow> alive_of px u p \<Longrightarrow> delay_of px u q \<le> delay_of px u p"
    "ne \<longleftrightarrow> (\<forall>f. fastNode u = Some f \<longrightarrow> (\<forall>p\<in>set (tl ps). ProxyName (px p) \<noteq> ProxyName (px f)))"
proof -
  note f = fast_fold [OF assms(2) [unfolded fast_scan_def] refl]
  obtain a as where ps: "ps = a # as" using assms(1) by (cases ps) auto
  from f ps show "q \<in> set ps" "d = delay_of px u q"
    "ne \<longleftrightarrow> (\<forall>f. fastNode u = Some f \<longrightarrow> (\<forall>p\<in>set (tl ps). ProxyName (px p) \<noteq> ProxyName (px f)))" by auto
  from f ps show "p \<in> set ps \<Longrightarrow> alive_of px u p \<Longrightarrow> delay_of px u q \<le> delay_of px u p" by auto
qed

lemma fast_pick_unselected:
  assumes "\<And>p. p \<in> set ps \<Longrightarrow> alive_of px u p \<Longrightarrow> selected u \<noteq> '''' \<Longrightarrow> ProxyName (px p) \<noteq> selected u"
    and "fast_scan px (testUrl u) (fastNode u) ps = (q, d, ne)"
  shows "fast_pick px ps u = (if keeps_node px u q ne then (the (fastNode u), u) else (q, u\<lparr>fastNode := Some q\<rparr>))"
proof -
  have "selected u \<noteq> '''' \<Longrightarrow> List.find (\<lambda>p. alive_of px u p \<and> ProxyName (px p) = selected u) ps = None"
    using assms(1) by (auto simp: find_None_iff)
  then show ?thesis using assms(2) by (auto simp: fast_pick_def Let_def)
qed

text \<open>C26. The choice of a URL-test group without a selection is alive, and slower than no
  proxy that is alive by more than the tolerance, when some proxy was tested with a delay that does not
  overflow 16 bits with the tolerance added.\<close>

theorem fast_within_tolerance:
  assumes "selected u = ''''" "q0 \<in> set ps" "alive_of px u q0"
    and "uint (delay_of px u q0) + uint (tolerance u) < 65535" "fast_pick px ps u = (p, u')"
  shows "alive_of px u p \<and> (\<forall>q\<in>set ps. alive_of px u q \<longrightarrow> uint (delay_of px u p) \<le> uint (delay_of px u q) + uint (tolerance u))"
proof -
  have ne: "ps \<noteq> []" using assms(2) by auto
  obtain q d n where sc: "fast_scan px (testUrl u) (fastNode u) ps = (q, d, n)" by (metis prod_cases3)
  note f = fast_scan [OF ne sc]
  have le: "uint (delay_of px u q) \<le> uint (delay_of px u r)" if "r \<in> set ps" "alive_of px u r" for r
    using f(3) [OF that] by (simp add: word_le_def)
  have lt: "uint (delay_of px u q) + uint (tolerance u) < 65535" using le [OF assms(2,3)] assms(4) by simp
  then have sum: "uint (delay_of px u q + tolerance u) = uint (delay_of px u q) + uint (tolerance u)"
    by (intro uint_add_lem [THEN iffD1]) simp
  have "uint (delay_of px u q) < 65535" using lt uint_ge_0 [of "tolerance u"] by linarith
  then have "delay_of px u q \<noteq> 0xffff" by auto
  then have al: "alive_of px u q" using LastDelay_dead by blast
  have "fast_pick px ps u = (if keeps_node px u q n then (the (fastNode u), u) else (q, u\<lparr>fastNode := Some q\<rparr>))"
    using assms(1) by (intro fast_pick_unselected [OF _ sc]) simp
  then have p: "p = (if keeps_node px u q n then the (fastNode u) else q)"
    using assms(5) by (metis fst_conv)
  show ?thesis
  proof (cases "keeps_node px u q n")
    case True
    then obtain f where f: "fastNode u = Some f" by (auto simp: keeps_node_def split: option.splits)
    with True p have "p = f" by simp
    with True f have "alive_of px u p" "uint (delay_of px u p) \<le> uint (delay_of px u q + tolerance u)"
      by (simp_all add: keeps_node_def not_less word_le_def)
    with le sum show ?thesis by fastforce
  next
    case False
    with p have "p = q" by simp
    moreover have "uint (delay_of px u q) \<le> uint (delay_of px u r) + uint (tolerance u)"
      if "r \<in> set ps" "alive_of px u r" for r
      using le [OF that] uint_ge_0 [of "tolerance u"] by linarith
    ultimately show ?thesis using al by simp
  qed
qed

text \<open>C36. A selection takes effect at once: after \<^verbatim>\<open>Set\<close> with the name of a proxy that is alive, the next choice
  is a proxy of that name that is alive, even though the earlier choice was to be shared for ten
  seconds.\<close>

theorem selection_takes_effect:
  assumes "URLTest_Set px ps name u = Some u'" "name \<noteq> ''''" "p \<in> set ps" "ProxyName (px p) = name" "alive_of px u p"
    and "fast now px ps u' = (r, u'')"
  shows "r \<in> set ps \<and> ProxyName (px r) = name \<and> alive_of px u r \<and> fastNode u'' = Some r"
proof -
  have u': "u' = URLTest_ForceSet name u" using assms(1) by (auto simp: URLTest_Set_def split: option.splits)
  obtain x where x: "List.find (\<lambda>p. alive_of px u p \<and> ProxyName (px p) = name) ps = Some x"
    using assms(3-5) by (cases "List.find (\<lambda>p. alive_of px u p \<and> ProxyName (px p) = name) ps") (auto simp: find_None_iff)
  then have "x \<in> set ps" "alive_of px u x" "ProxyName (px x) = name"
    by (auto simp: find_Some_iff)
  with x assms(2,6) show ?thesis
    by (auto simp: u' fast_def fast_pick_def URLTest_ForceSet_def Single_Do_def Single_Reset_def Let_def)
qed

text \<open>The tolerance does not protect a current choice that is the first proxy of the list, since the
  scan looks for its name in the rest only: the group leaves it for any proxy that is
  faster, whatever the tolerance, although it keeps the same proxy elsewhere in the list.\<close>

theorem first_proxy_has_no_tolerance:
  assumes "selected u = ''''" "fastNode u = Some a" "ProxyName (px a) \<noteq> ProxyName (px b)"
    and "alive_of px u a" "alive_of px u b" "delay_of px u b < delay_of px u a"
    and "\<not> delay_of px u a > delay_of px u b + tolerance u"
  shows "fst (fast_pick px [a, b] u) = b \<and> fst (fast_pick px [b, a] u) = a"
proof
  have "fast_scan px (testUrl u) (fastNode u) [a, b] = (b, delay_of px u b, True)"
    using assms by (simp add: fast_scan_def fast_step_def)
  from fast_pick_unselected [OF _ this] assms(1) show "fst (fast_pick px [a, b] u) = b"
    by (simp add: keeps_node_def split: option.split)
  have "\<not> delay_of px u a < delay_of px u b" using assms(6) by simp
  then have "fast_scan px (testUrl u) (fastNode u) [b, a] = (b, delay_of px u b, False)"
    using assms(2-5) by (simp add: fast_scan_def fast_step_def Let_def)
  from fast_pick_unselected [OF _ this] assms(1,2,4,7) show "fst (fast_pick px [b, a] u) = a"
    by (simp add: keeps_node_def)
qed

text \<open>After an update of its provider the group goes on using the proxy it held before, which is no longer
  in the list: the scan compares names only, and no test changes the old proxy any more.\<close>

theorem update_keeps_old_proxy:
  assumes "selected u = ''''" "fastNode u = Some f" "tolerance u = 0" "f \<notin> set ps"
    and "p \<in> set (tl ps)" "ProxyName (px p) = ProxyName (px f)"
    and "alive_of px u f" "\<forall>q\<in>set ps. delay_of px u f \<le> delay_of px u q"
  shows "fst (fast_pick px ps u) \<notin> set ps"
proof -
  have ne: "ps \<noteq> []" using assms(5) by (cases ps) auto
  obtain q d n where sc: "fast_scan px (testUrl u) (fastNode u) ps = (q, d, n)" by (metis prod_cases3)
  note f = fast_scan [OF ne sc]
  have "\<not> n" using f(4) assms(2,5,6) by auto
  moreover have "delay_of px u f \<le> delay_of px u q" using f(1) assms(8) by simp
  ultimately have "keeps_node px u q n" using assms(2,3,7) by (simp add: keeps_node_def not_less)
  with fast_pick_unselected [OF _ sc] assms(1,2,4) show ?thesis by simp
qed

text \<open>The sum of a delay and the tolerance overflows: when no proxy has been tested, so that all delays
  are the largest value, a group with a tolerance leaves its current proxy, which is alive, for the
  first one, which is dead; without a tolerance it stays.\<close>

theorem tolerance_wraps:
  assumes "selected u = ''''" "fastNode u = Some f" "ProxyName (px a) \<noteq> ProxyName (px f)"
    and "alive_of px u f" "delay_of px u f = 0xffff" "\<not> alive_of px u a" "tolerance u \<noteq> 0"
  shows "fst (fast_pick px [a, f] u) = a \<and> fst (fast_pick px [a, f] (u\<lparr>tolerance := 0\<rparr>)) = f"
proof
  have a: "delay_of px u a = 0xffff" using assms(6) by (rule LastDelay_dead)
  have w: "(0xffff :: 16 word) = - 1" by simp
  have "tolerance u - 1 \<noteq> (- 1 :: 16 word)" using assms(7) by (simp add: diff_eq_eq)
  then have "tolerance u - 1 < - 1" by (simp only: word_order.not_eq_extremum)
  then have t: "- 1 + tolerance u < - 1" by simp
  have "fast_scan px (testUrl u) (fastNode u) [a, f] = (a, 0xffff, False)"
    using assms a by (simp add: fast_scan_def fast_step_def Let_def)
  from fast_pick_unselected [OF _ this] assms(1,2) t a assms(5) show "fst (fast_pick px [a, f] u) = a"
    by (simp add: keeps_node_def w del: word_order.not_eq_extremum)
  let ?u = "u\<lparr>tolerance := 0\<rparr>"
  have "fast_scan px (testUrl ?u) (fastNode ?u) [a, f] = (a, 0xffff, False)"
    using assms a by (simp add: fast_scan_def fast_step_def Let_def)
  from fast_pick_unselected [OF _ this] assms(1,2,4,5) a show "fst (fast_pick px [a, f] ?u) = f"
    by (simp add: keeps_node_def)
qed

section \<open>Examples\<close>

definition demo_proxy :: "string \<Rightarrow> bool \<Rightarrow> 16 word \<Rightarrow> Proxy" where
  "demo_proxy name up d = \<lparr>ProxyName = name, ProxyAdapterType = Vmess, proxyAlive = True, proxyHistory = [],
     extra = [''http://t'' \<mapsto> \<lparr>alive = up, history = [\<lparr>Time = 0, Delay = d\<rparr>]\<rparr>]\<rparr>"

definition demo_px :: "nat \<Rightarrow> Proxy" where
  "demo_px i = (if i = 0 then demo_proxy ''a'' True 120 else if i = 1 then demo_proxy ''b'' True 100
     else if i = 2 then demo_proxy ''c'' False 0 else demo_proxy ''b'' True 90)"

definition demo_group :: "nat url_test" where
  "demo_group = (NewURLTest ''http://t'' 50 False)\<lparr>fastNode := Some 0\<rparr>"

lemma group_members_witness:
  "1 \<in> set (compute_proxies (=) demo_px (NewGroupBase ''b'' '''' '''' 0 0 0) [\<lparr>pd_vehicle = File, pd_proxies = [0, 1, 2], pd_version = 1\<rparr>]) \<and>
   0 \<notin> set (compute_proxies (=) demo_px (NewGroupBase ''b'' '''' '''' 0 0 0) [\<lparr>pd_vehicle = File, pd_proxies = [0, 1, 2], pd_version = 1\<rparr>])"
proof -
  have names: "ProxyName (demo_px 0) = ''a''" "ProxyName (demo_px 1) = ''b''" "ProxyName (demo_px 2) = ''c''"
    by (simp_all add: demo_px_def demo_proxy_def)
  have "inj_on (\<lambda>p. ProxyName (demo_px p)) (\<Union>pd\<in>set [\<lparr>pd_vehicle = File, pd_proxies = [0, 1, 2], pd_version = 1\<rparr>]. set (pd_proxies pd))"
    using names by (simp add: inj_on_def)
  from group_members [OF this, of "(=)" "NewGroupBase ''b'' '''' '''' 0 0 0"] names show ?thesis
    by (simp add: NewGroupBase_def excluded_def)
qed

lemma GetProxies_transparent_witness:
  "gets (=) (map (\<lambda>v. \<lparr>pd_vehicle = File, pd_proxies = if v = 1 then [0, 1] else [2], pd_version = v\<rparr>))
     [(demo_px, [1]), (demo_px, [2]), (demo_px, [1])] (NewGroupBase '''' '''' '''' 0 0 7) = [[0, 1], [2], [0, 1]]"
proof -
  let ?at = "map (\<lambda>v. \<lparr>pd_vehicle = File, pd_proxies = if v = 1 then [0, 1] else [2::nat], pd_version = v :: 32 word\<rparr>)"
  have "\<forall>vs. map pd_version (?at vs) = vs" by (simp add: comp_def)
  from GetProxies_transparent [OF this, of "[(demo_px, [1]), (demo_px, [2]), (demo_px, [1])]" demo_px "(=)" "''''" "''''" "''''" 0 0 7]
  show ?thesis by (simp add: same_proxies_def fresh_proxies_def compute_proxies_def provided_def excluded_def NewGroupBase_def)
qed

lemma health_check_needs_failures_witness:
  "maxFailedTimes (NewGroupBase '''' '''' '''' 0 3 (0::nat)) \<le> int (length (filter (\<lambda>t. 30 - 5000 \<le> t) [10, 20, 30::int]))"
  using health_check_needs_failures [of "NewGroupBase '''' '''' '''' 0 3 (0::nat)" "[10, 20, 30]" 2]
  by (simp add: NewGroupBase_def onDialFailed_def counts_failure_def contains_str_def)

lemma fallback_chooses_witness:
  "findAliveProxy demo_px ''http://t'' [2, 0, 1] '''' = (Some 0, '''')"
  using fallback_chooses [of "[2, 0, 1]" demo_px "''http://t''"]
  by (simp add: demo_px_def demo_proxy_def AliveForTestUrl_def)

lemma fallback_takes_dead_proxy_witness:
  "findAliveProxy demo_px ''http://t'' [2, 0] ''gone'' = (Some 2, ''gone'')"
  using fallback_takes_dead_proxy [of "[2, 0]" demo_px "''gone''" 0 1 2 "''http://t''"]
    fallback_takes_dead_proxy [of "[2, 0]" "\<lambda>i. if i = 9 then demo_proxy ''gone'' False 0 else demo_px i" "''gone''" 0 1 9 "''http://t''"]
  by (simp add: demo_px_def demo_proxy_def AliveForTestUrl_def findAliveProxy_def)

lemma fast_within_tolerance_witness:
  "alive_of demo_px demo_group (fst (fast_pick demo_px [0, 1, 2] demo_group))"
  using fast_within_tolerance [of demo_group 1 "[0, 1, 2]" demo_px "fst (fast_pick demo_px [0, 1, 2] demo_group)" "snd (fast_pick demo_px [0, 1, 2] demo_group)"]
  by (simp add: demo_group_def NewURLTest_def demo_px_def demo_proxy_def AliveForTestUrl_def LastDelayForTestUrl_def Last_def)

lemma selection_takes_effect_witness:
  "ProxyName (demo_px (fst (fast 0 demo_px [0, 1, 2] (URLTest_ForceSet ''b'' demo_group)))) = ''b''"
  using selection_takes_effect [of demo_px "[0, 1, 2]" "''b''" demo_group "URLTest_ForceSet ''b'' demo_group" 1 0
      "fst (fast 0 demo_px [0, 1, 2] (URLTest_ForceSet ''b'' demo_group))" "snd (fast 0 demo_px [0, 1, 2] (URLTest_ForceSet ''b'' demo_group))"]
  by (simp add: URLTest_Set_def demo_group_def NewURLTest_def demo_px_def demo_proxy_def AliveForTestUrl_def)

lemma first_proxy_has_no_tolerance_witness:
  "fst (fast_pick demo_px [0, 1] demo_group) = 1"
  using first_proxy_has_no_tolerance [of demo_group 0 demo_px 1]
  by (simp add: demo_group_def NewURLTest_def demo_px_def demo_proxy_def AliveForTestUrl_def LastDelayForTestUrl_def Last_def)

lemma update_keeps_old_proxy_witness:
  "fst (fast_pick demo_px [0, 1] (demo_group\<lparr>tolerance := 0, fastNode := Some 3\<rparr>)) \<notin> {0, 1}"
  using update_keeps_old_proxy [of "demo_group\<lparr>tolerance := 0, fastNode := Some 3\<rparr>" 3 "[0, 1]" 1 demo_px]
  by (simp add: demo_group_def NewURLTest_def demo_px_def demo_proxy_def AliveForTestUrl_def LastDelayForTestUrl_def Last_def)

lemma tolerance_wraps_witness:
  "fst (fast_pick (\<lambda>i. if i = 0 then demo_proxy ''a'' False 0 else NewProxy ''b'' Vmess) [0, 1] (demo_group\<lparr>fastNode := Some (1::nat)\<rparr>)) = 0"
  using tolerance_wraps [of "demo_group\<lparr>fastNode := Some 1\<rparr>" 1 "\<lambda>i. if i = 0 then demo_proxy ''a'' False 0 else NewProxy ''b'' Vmess" 0]
  by (simp add: demo_group_def NewURLTest_def demo_proxy_def NewProxy_def AliveForTestUrl_def LastDelayForTestUrl_def Last_def)

end
