(* ===== verification/LruMemory.thy ===== *)
theory LruMemory
  imports Lru
begin

text \<open>
  What a client of \<^verbatim>\<open>common/lru\<close> may rely on when its entries expire: a cache with an age and a size whose
  reads do not renew an entry and do not return stale ones. An entry just stored is found, with
  its value, until it expires, while fewer other keys are used than the cache has room for.
\<close>

definition plain_cache :: "('l \<Rightarrow> ('n \<times> ('k, 'v) entry) list) \<Rightarrow> ('l \<Rightarrow> bool) \<Rightarrow> int \<Rightarrow> int \<Rightarrow> ('k, 'v, 'l, 'n) LruCache \<Rightarrow> bool" where
  "plain_cache elems ok age cap c \<longleftrightarrow> lru_linked elems ok c \<and> maxAge c = age \<and> maxSize c = cap \<and>
     \<not> updateAgeOnGet c \<and> \<not> staleReturn c"

definition remembers :: "('l \<Rightarrow> ('n \<times> ('k, 'v) entry) list) \<Rightarrow> 'k \<Rightarrow> 'v \<Rightarrow> int \<Rightarrow> ('k, 'v, 'l, 'n) LruCache \<Rightarrow> bool" where
  "remembers elems k v ex c \<longleftrightarrow> lookup_key k (lru_view elems c) = Some \<lparr>key = k, val = v, expires = ex\<rparr>"

lemma lookup_key_last:
  "k \<notin> key ` set xs \<Longrightarrow> key e = k \<Longrightarrow> lookup_key k (xs @ [e]) = Some e"
  by (induction xs) (auto simp: lookup_key_def)

lemma dropWhile_last: "\<not> P e \<Longrightarrow> dropWhile P (xs @ [e]) = dropWhile P xs @ [e]"
  by (induction xs) auto

lemma lookup_spec_set:
  assumes "0 < cap" "now < ex"
  shows "lookup_key k (spec_set age cap stale now k v ex es) = Some \<lparr>key = k, val = v, expires = ex\<rparr>"
proof -
  let ?e = "\<lparr>key = k, val = v, expires = ex\<rparr>" and ?xs = "remove_key k es"
  define ys where "ys = (if lookup_key k es = None \<and> cap > 0 \<and> int (length (?xs @ [?e])) > cap then tl (?xs @ [?e]) else ?xs @ [?e])"
  have "\<exists>zs. ys = zs @ [?e] \<and> set zs \<subseteq> set ?xs"
  proof (cases ?xs)
    case Nil
    with assms(1) show ?thesis by (auto simp: ys_def)
  next
    case (Cons x xs)
    then show ?thesis by (auto simp: ys_def)
  qed
  then obtain zs where zs: "ys = zs @ [?e]" "set zs \<subseteq> set ?xs" by blast
  have fresh: "k \<notin> key ` set zs" using remove_key_fresh [of k es] zs(2) by blast
  then have "k \<notin> key ` set (dropWhile (\<lambda>e. expires e \<le> now) zs)" by (auto dest: set_dropWhileD)
  then have "lookup_key k (spec_oldest age stale now ys) = Some ?e"
    using assms(2) zs(1) fresh by (auto simp: spec_oldest_def dropWhile_last lookup_key_last)
  then show ?thesis by (simp only: spec_set_def ys_def Let_def)
qed

lemma lookup_spec_get:
  assumes "lookup_key k es = Some e" "key e = k" "now < expires e"
  shows "fst (spec_get age False stale now k es) = Some e \<and> lookup_key k (snd (spec_get age False stale now k es)) = Some e"
  using assms remove_key_fresh [of k es] by (simp add: spec_get_def lookup_key_last)

lemma plain_cache_new:
  assumes "list_laws pkg elems ok"
  shows "plain_cache elems ok age cap (lru_New pkg age cap False False False)"
proof -
  have list: "lru_list pkg elems ok" using assms by (simp add: lru_list_def)
  show ?thesis using lru_list.lru_New_cfg [OF list, of age cap False False False]
    by (simp add: plain_cache_def lru_New_def)
qed

lemma plain_cache_set:
  assumes "list_laws pkg elems ok" "plain_cache elems ok age cap c" "0 < age" "0 < cap"
  shows "plain_cache elems ok age cap (lru_set pkg now k v c) \<and> remembers elems k v (now + age) (lru_set pkg now k v c)"
proof -
  have list: "lru_list pkg elems ok" using assms(1) by (simp add: lru_list_def)
  have "lru_linked elems ok c" using assms(2) by (simp add: plain_cache_def)
  from lru_list.lru_set_cfg [OF list this, of now k v] show ?thesis
    using assms(2-4) lookup_spec_set [of cap now "now + age" k age False v "lru_view elems c"]
    by (auto simp: plain_cache_def remembers_def lru_list.cfg_def [OF list] spec_age_def)
qed

lemma plain_cache_get:
  assumes "list_laws pkg elems ok" "plain_cache elems ok age cap c" "lru_get pkg now k c = (e, c')"
  shows "plain_cache elems ok age cap c'"
    and "remembers elems k v ex c \<Longrightarrow> now < ex \<Longrightarrow> map_option val e = Some v \<and> remembers elems k v ex c'"
proof -
  have list: "lru_list pkg elems ok" using assms(1) by (simp add: lru_list_def)
  have l: "lru_linked elems ok c" using assms(2) by (simp add: plain_cache_def)
  note get = lru_list.lru_get_cfg [OF list l, of now k, unfolded assms(3)]
  show "plain_cache elems ok age cap c'" using get assms(2)
    by (auto simp: plain_cache_def lru_list.cfg_def [OF list] split: prod.splits)
  assume "remembers elems k v ex c" "now < ex"
  then show "map_option val e = Some v \<and> remembers elems k v ex c'"
    using get assms(2) lookup_spec_get [of k "lru_view elems c" "\<lparr>key = k, val = v, expires = ex\<rparr>" now age False]
    by (auto simp: plain_cache_def remembers_def lru_list.cfg_def [OF list] split: prod.splits)
qed

lemma plain_cache_Get:
  assumes "list_laws pkg elems ok" "plain_cache elems ok age cap c" "lru_Get pkg now k c = (r, c')"
  shows "plain_cache elems ok age cap c'"
    and "remembers elems k v ex c \<Longrightarrow> now < ex \<Longrightarrow> r = Some v \<and> remembers elems k v ex c'"
  using assms plain_cache_get [OF assms(1,2), of now k] by (auto simp: lru_Get_def split: prod.splits)

lemma plain_cache_Get_none:
  assumes "list_laws pkg elems ok" "plain_cache elems ok age cap c" "lookup_key k (lru_view elems c) = None"
    "lru_Get pkg now k c = (r, c')"
  shows "r = None \<and> lookup_key k (lru_view elems c') = None"
proof -
  have list: "lru_list pkg elems ok" using assms(1) by (simp add: lru_list_def)
  have l: "lru_linked elems ok c" using assms(2) by (simp add: plain_cache_def)
  obtain e where g: "lru_get pkg now k c = (e, c')" "r = map_option val e"
    using assms(4) by (auto simp: lru_Get_def split: prod.splits)
  show ?thesis using lru_list.lru_get_cfg [OF list l, of now k, unfolded g(1)] g(2) assms(3)
    by (auto simp: spec_get_def split: prod.splits)
qed

text \<open>\<^verbatim>\<open>Compute\<close> with a function that never deletes.\<close>

lemma plain_cache_Compute:
  assumes "list_laws pkg elems ok" "plain_cache elems ok age cap c" "0 < age" "0 < cap"
    "lru_Compute pkg now k (\<lambda>old. (f old, False)) c = (r, c')"
  shows "plain_cache elems ok age cap c'"
    and "remembers elems k v ex c \<Longrightarrow> now < ex \<Longrightarrow> remembers elems k (f (Some v)) (now + age) c'"
    and "lookup_key k (lru_view elems c) = None \<Longrightarrow> remembers elems k (f None) (now + age) c'"
proof -
  obtain e c1 where g: "lru_get pkg now k c = (e, c1)" by fastforce
  have c': "c' = lru_set pkg now k (f (map_option val e)) c1" using assms(5) g by (simp add: lru_Compute_def Let_def)
  note set = plain_cache_set [OF assms(1) plain_cache_get(1) [OF assms(1,2) g] assms(3,4), folded c']
  show "plain_cache elems ok age cap c'" using set c' by simp
  show "remembers elems k v ex c \<Longrightarrow> now < ex \<Longrightarrow> remembers elems k (f (Some v)) (now + age) c'"
    using plain_cache_get(2) [OF assms(1,2) g, of v ex] set c' by auto
  assume none: "lookup_key k (lru_view elems c) = None"
  have list: "lru_list pkg elems ok" using assms(1) by (simp add: lru_list_def)
  have l: "lru_linked elems ok c" using assms(2) by (simp add: plain_cache_def)
  have "e = None" using lru_list.lru_get_cfg [OF list l, of now k, unfolded g] none
    by (auto simp: spec_get_def split: prod.splits)
  then show "remembers elems k (f None) (now + age) c'" using set c' by simp
qed

section \<open>An entry among others\<close>

text \<open>An entry for \<open>k\<close>, and behind it only entries for keys of \<open>T\<close>: those used after it.\<close>

definition kept :: "'k set \<Rightarrow> 'k \<Rightarrow> 'v \<Rightarrow> int \<Rightarrow> ('k, 'v) entry list \<Rightarrow> bool" where
  "kept T k v ex es \<longleftrightarrow> (\<exists>xs ys. es = xs @ \<lparr>key = k, val = v, expires = ex\<rparr> # ys \<and> key ` set ys \<subseteq> T)"

lemma kept_oldest:
  assumes "kept T k v ex es" "now < ex"
  shows "kept T k v ex (spec_oldest age stale now es)"
proof -
  let ?e = "\<lparr>key = k, val = v, expires = ex\<rparr>"
  obtain xs ys where es: "es = xs @ ?e # ys" "key ` set ys \<subseteq> T" using assms(1) unfolding kept_def by blast
  have "dropWhile (\<lambda>e. expires e \<le> now) es = dropWhile (\<lambda>e. expires e \<le> now) xs @ ?e # ys"
    using es(1) assms(2) by (induction xs arbitrary: es) auto
  then have "\<exists>zs. spec_oldest age stale now es = zs @ ?e # ys" using es(1) by (auto simp: spec_oldest_def)
  with es(2) show ?thesis unfolding kept_def by blast
qed

lemma kept_last: "kept T k v ex (xs @ [\<lparr>key = k, val = v, expires = ex\<rparr>])"
  unfolding kept_def by (intro exI [of _ xs] exI [of _ "[]"]) simp

lemma kept_remove:
  assumes "kept T k v ex es" "k' \<noteq> k"
  shows "kept T k v ex (remove_key k' es)"
proof -
  obtain xs ys where es: "es = xs @ \<lparr>key = k, val = v, expires = ex\<rparr> # ys" "key ` set ys \<subseteq> T"
    using assms(1) unfolding kept_def by blast
  then have "remove_key k' es = remove_key k' xs @ \<lparr>key = k, val = v, expires = ex\<rparr> # remove_key k' ys"
    using assms(2) by (simp add: remove_key_def)
  moreover have "key ` set (remove_key k' ys) \<subseteq> T" using es(2) by (auto simp: remove_key_def)
  ultimately show ?thesis unfolding kept_def by blast
qed

lemma kept_snoc: "kept T k v ex es \<Longrightarrow> key e \<in> T \<Longrightarrow> kept T k v ex (es @ [e])"
  unfolding kept_def by (elim exE conjE) (rule exI, rule exI, rule conjI, simp, auto)

lemma kept_lookup:
  assumes "kept T k v ex es" "distinct (map key es)"
  shows "lookup_key k es = Some \<lparr>key = k, val = v, expires = ex\<rparr>"
proof -
  obtain xs ys where es: "es = xs @ \<lparr>key = k, val = v, expires = ex\<rparr> # ys" using assms(1) unfolding kept_def by blast
  then have "k \<notin> key ` set xs" using assms(2) by auto
  then show ?thesis unfolding es by (induction xs) (auto simp: lookup_key_def)
qed

lemma kept_get_same:
  assumes "kept T k v ex es" "distinct (map key es)" "now < ex"
  shows "spec_get age False False now k es = (Some \<lparr>key = k, val = v, expires = ex\<rparr>, snd (spec_get age False False now k es))
    \<and> kept T k v ex (snd (spec_get age False False now k es))"
  using kept_lookup [OF assms(1,2)] assms(3) kept_last by (simp add: spec_get_def Let_def)

lemma kept_get_other:
  assumes "kept T k v ex es" "now < ex" "k' \<noteq> k" "k' \<in> T"
  shows "kept T k v ex (snd (spec_get age False False now k' es))"
proof (cases "lookup_key k' es")
  case None
  with assms(1) show ?thesis by (simp add: spec_get_def)
next
  case (Some e)
  have "key e = k'" using Some by (auto simp: lookup_key_def dest: find_SomeD)
  with Some assms(4) kept_oldest [OF kept_remove [OF assms(1,3)] assms(2)] kept_snoc [OF kept_remove [OF assms(1,3)]]
  show ?thesis by (simp add: spec_get_def)
qed

text \<open>Storing another key drops the entry only when the cache is full of keys used after it.\<close>

lemma kept_set_other:
  assumes "kept T k v ex es" "distinct (map key es)" "now < ex" "k' \<noteq> k" "k' \<in> T" "finite T" "int (card T) < cap"
  shows "kept T k v ex (spec_set age cap stale now k' v' ex' es)"
proof -
  let ?e = "\<lparr>key = k', val = v', expires = ex'\<rparr>"
  let ?es = "remove_key k' es @ [?e]"
  have more: "kept T k v ex ?es" using kept_snoc [OF kept_remove [OF assms(1,4)], of ?e] assms(5) by simp
  then obtain xs ys where es: "?es = xs @ \<lparr>key = k, val = v, expires = ex\<rparr> # ys" "key ` set ys \<subseteq> T" unfolding kept_def by blast
  have d: "distinct (map key ?es)" using assms(2) remove_key_fresh [of k' es] by (auto simp: remove_key_def distinct_map_filter)
  have "kept T k v ex (if lookup_key k' es = None \<and> cap > 0 \<and> int (length ?es) > cap then tl ?es else ?es)"
  proof (cases xs)
    case Nil
    have "distinct (map key ys)" using d unfolding es(1) Nil by simp
    then have "length ys = card (key ` set ys)" using distinct_card [of "map key ys"] by simp
    also have "\<dots> \<le> card T" using card_mono [OF assms(6) es(2)] .
    finally have "int (length ?es) \<le> cap" unfolding es(1) Nil using assms(7) by simp
    with more show ?thesis by simp
  next
    case (Cons x zs)
    then have "kept T k v ex (tl ?es)" unfolding es(1) using es(2) by (auto simp: kept_def)
    with more show ?thesis by simp
  qed
  from kept_oldest [OF this assms(3)] show ?thesis by (simp only: spec_set_def Let_def)
qed

lemma kept_set_new:
  assumes "0 < cap" "now < ex"
  shows "kept T k v ex (spec_set age cap stale now k v ex es)"
proof -
  let ?e = "\<lparr>key = k, val = v, expires = ex\<rparr>"
  have "kept T k v ex (if lookup_key k es = None \<and> cap > 0 \<and> int (length (remove_key k es @ [?e])) > cap
      then tl (remove_key k es @ [?e]) else remove_key k es @ [?e])"
  proof (cases "remove_key k es")
    case Nil
    then show ?thesis using assms(1) kept_last [of T k v ex "[]"] by simp
  next
    case (Cons x xs)
    then show ?thesis using kept_last [of T k v ex "x # xs"] kept_last [of T k v ex xs] by simp
  qed
  from kept_oldest [OF this assms(2)] show ?thesis by (simp only: spec_set_def Let_def)
qed

text \<open>The same for the cache.\<close>

definition keeps :: "('l \<Rightarrow> ('n \<times> ('k, 'v) entry) list) \<Rightarrow> 'k set \<Rightarrow> 'k \<Rightarrow> 'v \<Rightarrow> int \<Rightarrow> ('k, 'v, 'l, 'n) LruCache \<Rightarrow> bool" where
  "keeps elems T k v ex c \<longleftrightarrow> kept T k v ex (lru_view elems c)"

lemma linked_distinct: "list_laws pkg elems ok \<Longrightarrow> lru_linked elems ok c \<Longrightarrow> distinct (map key (lru_view elems c))"
  by (simp add: lru_list_def lru_list.linked_def lru_list.view_def o_def)

lemma keeps_Get:
  assumes "list_laws pkg elems ok" "plain_cache elems ok age cap c" "keeps elems T k v ex c" "now < ex" "lru_Get pkg now k' c = (r, c')"
  shows "plain_cache elems ok age cap c'" "k' = k \<Longrightarrow> r = Some v" "k' = k \<or> k' \<in> T \<Longrightarrow> keeps elems T k v ex c'"
proof -
  have list: "lru_list pkg elems ok" using assms(1) by (simp add: lru_list_def)
  have l: "lru_linked elems ok c" using assms(2) by (simp add: plain_cache_def)
  note d = linked_distinct [OF assms(1) l]
  show "plain_cache elems ok age cap c'" by (rule plain_cache_Get(1) [OF assms(1,2,5)])
  obtain e where g: "lru_get pkg now k' c = (e, c')" "r = map_option val e" using assms(5) by (auto simp: lru_Get_def split: prod.splits)
  have s: "spec_get (maxAge c) False False now k' (lru_view elems c) = (e, lru_view elems c')"
    using lru_list.lru_get_cfg [OF list l, of now k', unfolded g(1)] assms(2)
    by (auto simp: plain_cache_def lru_list.cfg_def [OF list] split: prod.splits)
  have k: "kept T k v ex (lru_view elems c)" using assms(3) by (simp add: keeps_def)
  note same = kept_get_same [OF k d assms(4), of "maxAge c"] and other = kept_get_other [OF k assms(4), of k' "maxAge c"]
  show "k' = k \<Longrightarrow> r = Some v" using same s g(2) by simp
  show "k' = k \<or> k' \<in> T \<Longrightarrow> keeps elems T k v ex c'"
    unfolding keeps_def using same other s by (cases "k' = k") auto
qed

lemma keeps_set:
  assumes "list_laws pkg elems ok" "plain_cache elems ok age cap c" "keeps elems T k v ex c" "now < ex"
    and "k' \<noteq> k" "k' \<in> T" "finite T" "int (card T) < cap"
  shows "keeps elems T k v ex (lru_set pkg now k' v' c)"
proof -
  have list: "lru_list pkg elems ok" using assms(1) by (simp add: lru_list_def)
  have l: "lru_linked elems ok c" using assms(2) by (simp add: plain_cache_def)
  note d = linked_distinct [OF assms(1) l]
  from lru_list.lru_set_cfg [OF list l, of now k' v'] show ?thesis
    using assms(2,3) kept_set_other [OF _ d assms(4-8), of v] by (auto simp: plain_cache_def keeps_def lru_list.cfg_def [OF list])
qed

lemma keeps_new:
  assumes "list_laws pkg elems ok" "plain_cache elems ok age cap c" "0 < age" "0 < cap"
  shows "keeps elems T k v (now + age) (lru_set pkg now k v c)"
proof -
  have list: "lru_list pkg elems ok" using assms(1) by (simp add: lru_list_def)
  have l: "lru_linked elems ok c" using assms(2) by (simp add: plain_cache_def)
  from lru_list.lru_set_cfg [OF list l, of now k v] show ?thesis
    using assms(2-4) by (auto simp: plain_cache_def keeps_def lru_list.cfg_def [OF list] spec_age_def intro!: kept_set_new)
qed

end
