(* ===== verification/LoadBalance.thy ===== *)
theory LoadBalance
  imports ProxyGroups LruMemory Complex_Main
begin

text \<open>
  Load balancing: \<^verbatim>\<open>adapter/outboundgroup/loadbalance.go\<close>. The three strategies choose by turns, by the
  hash of the destination, or by the hash of source and destination with a memory of ten minutes.

  The jump hash computes with \<^verbatim>\<open>float64\<close>. Its operands are positive and at least 1, and
  \<open>float64\<close> rounds such a number to 53 significant bits, ties to even, as the hardware does.
  The seeded string hash and the public suffix list are parameters.
\<close>

section \<open>Double precision\<close>

fun ilog2 :: "nat \<Rightarrow> nat" where
  "ilog2 n = (if n < 2 then 0 else Suc (ilog2 (n div 2)))"

declare ilog2.simps [simp del]

definition round_even :: "rat \<Rightarrow> int" where
  "round_even x = (let f = \<lfloor>x\<rfloor>; d = x - of_int f in if d < 1 / 2 \<or> d = 1 / 2 \<and> even f then f else f + 1)"

definition float64 :: "rat \<Rightarrow> rat" where
  "float64 x =
     (let m = ilog2 (nat \<lfloor>x\<rfloor>) in
      if m \<le> 52 then of_int (round_even (x * 2 ^ (52 - m))) / 2 ^ (52 - m)
      else of_int (round_even (x / 2 ^ (m - 52))) * 2 ^ (m - 52))"

lemma ilog2_bounds: "0 < n \<Longrightarrow> 2 ^ ilog2 n \<le> n \<and> n < 2 ^ Suc (ilog2 n)"
proof (induction n rule: ilog2.induct)
  case (1 n)
  show ?case
  proof (cases "n < 2")
    case True
    with 1(2) show ?thesis by (subst (1 2) ilog2.simps) simp
  next
    case False
    with 1 have "2 ^ ilog2 (n div 2) \<le> n div 2 \<and> n div 2 < 2 ^ Suc (ilog2 (n div 2))" by simp
    then have "2 * 2 ^ ilog2 (n div 2) \<le> n \<and> n < 4 * 2 ^ ilog2 (n div 2)" by (simp, linarith)
    with False show ?thesis by (subst (1 2) ilog2.simps) simp
  qed
qed

lemma round_even_ge: "of_int k \<le> x \<Longrightarrow> k \<le> round_even x"
  by (simp add: round_even_def Let_def le_floor_iff) linarith

lemma round_even_int: "round_even (of_int k) = k"
  by (simp add: round_even_def)

lemma round_even_le: "x \<le> of_int k \<Longrightarrow> round_even x \<le> k"
proof -
  assume x: "x \<le> of_int k"
  show ?thesis
  proof (cases "x = of_int k")
    case False
    with x have "\<lfloor>x\<rfloor> < k" by (simp add: floor_less_iff)
    then show ?thesis by (simp add: round_even_def Let_def)
  qed (simp add: round_even_int)
qed

text \<open>Rounding does not cross an integer of at most 53 bits, and keeps one.\<close>

lemma float64_ge:
  assumes "1 \<le> n" "n \<le> 2 ^ 53" "of_nat n \<le> x"
  shows "of_nat n \<le> float64 x"
proof -
  define m where "m = ilog2 (nat \<lfloor>x\<rfloor>)"
  have "1 \<le> x" using assms(1,3) by (metis of_nat_1 of_nat_le_iff order_trans)
  then have fl: "0 < nat \<lfloor>x\<rfloor>" by (simp add: le_floor_iff)
  show ?thesis
  proof (cases "m \<le> 52")
    case True
    have "of_int (int n * 2 ^ (52 - m)) \<le> x * 2 ^ (52 - m)" using assms(3) by simp
    then have "int n * 2 ^ (52 - m) \<le> round_even (x * 2 ^ (52 - m))" by (rule round_even_ge)
    then have "of_int (int n * 2 ^ (52 - m)) \<le> (of_int (round_even (x * 2 ^ (52 - m))) :: rat)" by (simp only: of_int_le_iff)
    then have "of_nat n \<le> of_int (round_even (x * 2 ^ (52 - m))) / (2 ^ (52 - m) :: rat)" by (simp add: field_simps)
    with True show ?thesis by (simp add: float64_def m_def Let_def)
  next
    case False
    have "int (2 ^ m) \<le> \<lfloor>x\<rfloor>" using ilog2_bounds [OF fl] fl by (simp add: m_def le_nat_iff)
    then have "2 ^ m \<le> x" by (simp add: le_floor_iff)
    moreover have "(2::rat) ^ m = 2 ^ 52 * 2 ^ (m - 52)" using False power_add [of "2::rat" 52 "m - 52"] by simp
    ultimately have "of_int (2 ^ 52) \<le> x / 2 ^ (m - 52)" by (simp add: field_simps)
    then have "2 ^ 52 \<le> round_even (x / 2 ^ (m - 52))" by (rule round_even_ge)
    then have "(of_int (2 ^ 52) :: rat) \<le> of_int (round_even (x / 2 ^ (m - 52)))" by (simp only: of_int_le_iff)
    then have "(2 ^ 52 :: rat) \<le> of_int (round_even (x / 2 ^ (m - 52)))" by simp
    then have "(2 ^ 52 :: rat) * 2 ^ (m - 52) \<le> of_int (round_even (x / 2 ^ (m - 52))) * 2 ^ (m - 52)" by simp
    moreover have "(2 :: rat) ^ 53 \<le> 2 ^ 52 * 2 ^ (m - 52)"
    proof -
      have "(2::rat) ^ 1 \<le> 2 ^ (m - 52)" using False by (intro power_increasing) auto
      then show ?thesis by simp
    qed
    moreover have "(of_nat n :: rat) \<le> 2 ^ 53" using assms(2) by (metis of_nat_le_iff of_nat_numeral of_nat_power)
    ultimately have "of_nat n \<le> of_int (round_even (x / 2 ^ (m - 52))) * (2 ^ (m - 52) :: rat)" by linarith
    with False show ?thesis by (simp add: float64_def m_def Let_def)
  qed
qed

lemma float64_nat:
  assumes "1 \<le> n" "n < 2 ^ 53"
  shows "float64 (of_nat n) = of_nat n"
proof -
  have "2 ^ ilog2 n < (2::nat) ^ 53" using ilog2_bounds [of n] assms by linarith
  then have "ilog2 n < 53" by (rule power_less_imp_less_exp [rotated]) simp
  then have m: "ilog2 n \<le> 52" by simp
  have "round_even (of_nat n * 2 ^ (52 - ilog2 n)) = int n * 2 ^ (52 - ilog2 n)"
    using round_even_int [of "int n * 2 ^ (52 - ilog2 n)"] by simp
  with m show ?thesis by (simp add: float64_def Let_def)
qed

section \<open>The jump hash\<close>

definition jump_next :: "64 word \<Rightarrow> nat \<Rightarrow> nat" where
  "jump_next hk b =
     nat \<lfloor>float64 (float64 (of_nat (b + 1)) *
       float64 (float64 (2 ^ 31) / float64 (of_nat (unat (drop_bit 33 hk) + 1))))\<rfloor>"

lemma unat_drop_33: "unat (drop_bit 33 (hk :: 64 word)) < 2 ^ 31"
proof -
  have "unat hk < 2 ^ 64" using unsigned_less [of hk] by simp
  then have "unat hk div 2 ^ 33 < 2 ^ 31" by (intro less_mult_imp_div_less) simp
  then show ?thesis by (simp only: unat_drop_bit_eq drop_bit_eq_div [of _ "unat hk"])
qed

lemma jump_next_gt:
  assumes "b < 2 ^ 31"
  shows "b < jump_next hk b"
proof -
  let ?k = "unat (drop_bit 33 hk)"
  have k: "?k + 1 \<le> 2 ^ 31" using unat_drop_33 [of hk] by simp
  have one: "1 \<le> float64 (2 ^ 31 / of_nat (?k + 1))"
  proof -
    have "(of_nat (?k + 1) :: rat) \<le> of_nat (2 ^ 31)" using k by (simp only: of_nat_le_iff)
    then have "(of_nat (?k + 1) :: rat) \<le> 2 ^ 31" by simp
    moreover have "(0 :: rat) < of_nat (?k + 1)" by (subst of_nat_0_less_iff) simp
    ultimately have "(1 :: rat) \<le> 2 ^ 31 / of_nat (?k + 1)" by (simp only: le_divide_eq_1_pos)
    then show ?thesis using float64_ge [of 1] by simp
  qed
  have "float64 (2 ^ 31) = 2 ^ 31" using float64_nat [of "2 ^ 31"] by simp
  moreover have "float64 (of_nat (?k + 1)) = of_nat (?k + 1)" using k by (intro float64_nat) auto
  moreover have "float64 (of_nat (b + 1)) = of_nat (b + 1)" using assms by (intro float64_nat) auto
  ultimately have e: "jump_next hk b = nat \<lfloor>float64 (of_nat (b + 1) * float64 (2 ^ 31 / of_nat (?k + 1)))\<rfloor>"
    by (simp only: jump_next_def)
  have "of_nat (b + 1) * 1 \<le> (of_nat (b + 1) :: rat) * float64 (2 ^ 31 / of_nat (?k + 1))"
    using one by (intro mult_left_mono) auto
  then have "of_nat (b + 1) \<le> float64 (of_nat (b + 1) * float64 (2 ^ 31 / of_nat (?k + 1)))"
    using assms by (intro float64_ge) auto
  then have "int (b + 1) \<le> \<lfloor>float64 (of_nat (b + 1) * float64 (2 ^ 31 / of_nat (?k + 1)))\<rfloor>"
    by (simp add: le_floor_iff)
  then show ?thesis unfolding e by linarith
qed

lemma sint_32_bound: "sint (w :: 32 word) < 2 ^ 31"
  using sint_lt [of w] by simp

lemma jump_measure:
  assumes "int j < sint (buckets :: 32 word)"
  shows "nat (sint buckets - int (jump_next hk j)) < nat (sint buckets - int j)"
proof -
  have "int j < int (2 ^ 31)" using assms sint_32_bound [of buckets] by simp
  then have "j < 2 ^ 31" by (simp only: of_nat_less_iff)
  from jump_next_gt [OF this] assms show ?thesis by (simp add: nat_less_iff)
qed

text \<open>The loop; \<^verbatim>\<open>b\<close> and \<^verbatim>\<open>j\<close> are never negative. The number of buckets has 31 bits.\<close>

function jump_loop :: "32 word \<Rightarrow> 64 word \<Rightarrow> nat \<Rightarrow> nat \<Rightarrow> nat" where
  "jump_loop buckets hk b j =
     (if int j < sint buckets then
        let hk = hk * 2862933555777941757 + 1 in jump_loop buckets hk j (jump_next hk j)
      else b)"
  by pat_completeness auto
termination
  by (relation "measure (\<lambda>(buckets, hk, b, j). nat (sint buckets - int j))", rule wf_measure)
    (simp only: in_measure prod.case, rule jump_measure)

declare jump_loop.simps [simp del]

definition jumpHash :: "64 word \<Rightarrow> 32 word \<Rightarrow> nat" where
  "jumpHash hk buckets = jump_loop buckets hk 0 0"

lemma jump_loop_less:
  "b < nat (sint buckets) \<Longrightarrow> jump_loop buckets hk b j < nat (sint buckets)"
proof (induction buckets hk b j rule: jump_loop.induct)
  case (1 buckets hk b j)
  then show ?case by (subst jump_loop.simps) (auto simp: Let_def)
qed

text \<open>The jump hash ends, and gives a bucket.\<close>

theorem jumpHash_less:
  assumes "0 < sint buckets"
  shows "int (jumpHash hk buckets) < sint buckets"
  using jump_loop_less [of 0 buckets hk 0] assms by (simp add: jumpHash_def)

lemma jumpHash_less_witness: "int (jumpHash 12345 3) < 3"
  using jumpHash_less [of 3 12345] by simp

text \<open>With one bucket more, the loop does the same until the new bucket could be entered.\<close>

lemma jump_loop_grow:
  assumes "sint buckets' = sint buckets + 1"
  shows "jump_loop buckets' hk b j = jump_loop buckets hk b j \<or> int (jump_loop buckets' hk b j) = sint buckets"
  using assms
proof (induction buckets hk b j rule: jump_loop.induct)
  case (1 buckets hk b j)
  let ?hk = "hk * 2862933555777941757 + 1"
  consider "int j < sint buckets" | "int j = sint buckets" | "int j > sint buckets" by linarith
  then show ?case
  proof cases
    case 1
    with "1.IH" "1.prems" show ?thesis
      by (subst (1 2 3) jump_loop.simps) (simp add: Let_def)
  next
    case 2
    then have "j < 2 ^ 31" using sint_32_bound [of buckets'] "1.prems"
      by (metis of_nat_less_iff of_nat_numeral of_nat_power zless_add1_eq order_less_trans)
    with 2 "1.prems" have "\<not> int (jump_next ?hk j) < sint buckets'" using jump_next_gt [of j ?hk] by linarith
    then have "jump_loop buckets' ?hk j (jump_next ?hk j) = j" by (subst jump_loop.simps) simp
    with 2 "1.prems" show ?thesis by (subst (2) jump_loop.simps) (simp add: Let_def)
  next
    case 3
    with "1.prems" show ?thesis by (subst (1 2) jump_loop.simps) simp
  qed
qed

text \<open>The jump hash is consistent: with one bucket more a key stays where it is or moves to the
  new bucket.\<close>

theorem jumpHash_consistent:
  assumes "0 \<le> sint buckets" "sint (buckets + 1) = sint buckets + 1"
  shows "jumpHash hk (buckets + 1) = jumpHash hk buckets \<or> int (jumpHash hk (buckets + 1)) = sint buckets"
  using jump_loop_grow [OF assms(2)] by (simp add: jumpHash_def)

lemma jumpHash_consistent_witness:
  "jumpHash 77 (3 + 1) = jumpHash 77 3 \<or> int (jumpHash 77 (3 + 1)) = 3"
  using jumpHash_consistent [of 3 77] by simp

section \<open>Keys\<close>

definition getKey :: "(string \<Rightarrow> string option) \<Rightarrow> Metadata option \<Rightarrow> string" where
  "getKey EffectiveTLDPlusOne metadata =
     (case metadata of
        None \<Rightarrow> ''''
      | Some m \<Rightarrow>
          (case (if Host m \<noteq> '''' then if is_ip_text (Host m) then Some (Host m) else EffectiveTLDPlusOne (Host m) else None) of
             Some k \<Rightarrow> k
           | None \<Rightarrow> if \<not> IsValid (DstIP m) then '''' else addr_String (DstIP m)))"

definition getKeyWithSrcAndDst :: "(string \<Rightarrow> string option) \<Rightarrow> Metadata option \<Rightarrow> string" where
  "getKeyWithSrcAndDst EffectiveTLDPlusOne metadata =
     (let dst = getKey EffectiveTLDPlusOne metadata;
          src = (case metadata of None \<Rightarrow> '''' | Some m \<Rightarrow> addr_String (SrcIP m))
      in src @ dst)"

section \<open>The strategies\<close>

text \<open>Round robin: the loop gives the proxy, if one is alive, and the last value of \<^verbatim>\<open>i\<close>; the last
  argument counts the rounds left.\<close>

fun rr_loop :: "('h \<Rightarrow> Proxy) \<Rightarrow> string \<Rightarrow> 'h list \<Rightarrow> nat \<Rightarrow> nat \<Rightarrow> nat \<Rightarrow> 'h option \<times> nat" where
  "rr_loop px url ps idx i 0 = (None, i)"
| "rr_loop px url ps idx i (Suc n) =
     (let p = ps ! ((idx + i) mod length ps) in
      if AliveForTestUrl url (px p) then (Some p, i + 1) else rr_loop px url ps idx (i + 1) n)"

definition strategyRoundRobin :: "string \<Rightarrow> ('h \<Rightarrow> Proxy) \<Rightarrow> 'h list \<Rightarrow> bool \<Rightarrow> nat \<Rightarrow> 'h \<times> nat" where
  "strategyRoundRobin url px ps touch idx =
     (let (r, i) = rr_loop px url ps idx 0 (length ps);
          idx' = (if touch then (idx + i) mod length ps else idx)
      in (case r of Some p \<Rightarrow> p | None \<Rightarrow> hd ps, idx'))"

text \<open>Consistent hashing: at most five tries from the hash of the key on, then the first proxy
  that is alive.\<close>

fun ch_loop :: "('h \<Rightarrow> Proxy) \<Rightarrow> string \<Rightarrow> 'h list \<Rightarrow> 64 word \<Rightarrow> nat \<Rightarrow> 'h option" where
  "ch_loop px url ps hk 0 = None"
| "ch_loop px url ps hk (Suc n) =
     (let p = ps ! jumpHash hk (of_nat (length ps)) in
      if AliveForTestUrl url (px p) then Some p else ch_loop px url ps (hk + 1) n)"

definition strategyConsistentHashing :: "string \<Rightarrow> (string \<Rightarrow> 64 word) \<Rightarrow> (string \<Rightarrow> string option) \<Rightarrow>
    ('h \<Rightarrow> Proxy) \<Rightarrow> 'h list \<Rightarrow> Metadata option \<Rightarrow> 'h" where
  "strategyConsistentHashing url MapHash etld px ps metadata =
     (case ch_loop px url ps (MapHash (getKey etld metadata)) 5 of
        Some p \<Rightarrow> p
      | None \<Rightarrow> (case List.find (\<lambda>p. AliveForTestUrl url (px p)) ps of Some p \<Rightarrow> p | None \<Rightarrow> hd ps))"

text \<open>Sticky sessions: \<open>nanos\<close> are the readings of the clock, one for each hash that is drawn from
  it; \<open>now\<close> is the time the cache reads, in seconds.\<close>

definition stickyCache :: "(64 word, nat, 'l, 'n) lru_pkg \<Rightarrow> (64 word, nat, 'l, 'n) LruCache" where
  "stickyCache pkg = lru_New pkg 600 1000 False False False"

fun ss_loop :: "(64 word, nat, 'l, 'n) lru_pkg \<Rightarrow> int \<Rightarrow> ('h \<Rightarrow> Proxy) \<Rightarrow> string \<Rightarrow> 'h list \<Rightarrow> 64 word \<Rightarrow> bool \<Rightarrow> nat \<Rightarrow>
    nat \<Rightarrow> 64 word list \<Rightarrow> (64 word, nat, 'l, 'n) LruCache \<Rightarrow> 'h \<times> (64 word, nat, 'l, 'n) LruCache" where
  "ss_loop pkg now px url ps hk has idx nowIdx [] c = (hd ps, lru_set pkg now hk 0 c)"
| "ss_loop pkg now px url ps hk has idx nowIdx (t # ts) c =
     (let p = ps ! nowIdx in
      if AliveForTestUrl url (px p) then (p, if \<not> has \<or> nowIdx \<noteq> idx then lru_set pkg now hk nowIdx c else c)
      else ss_loop pkg now px url ps hk has idx (jumpHash (hk + t) (of_nat (length ps))) ts c)"

definition strategyStickySessions :: "(64 word, nat, 'l, 'n) lru_pkg \<Rightarrow> string \<Rightarrow> (string \<Rightarrow> 64 word) \<Rightarrow> (string \<Rightarrow> string option) \<Rightarrow>
    int \<Rightarrow> (nat \<Rightarrow> 64 word) \<Rightarrow> ('h \<Rightarrow> Proxy) \<Rightarrow> 'h list \<Rightarrow> Metadata option \<Rightarrow> (64 word, nat, 'l, 'n) LruCache \<Rightarrow>
    'h \<times> (64 word, nat, 'l, 'n) LruCache" where
  "strategyStickySessions pkg url MapHash etld now nanos px ps metadata c =
     (let hk = MapHash (getKeyWithSrcAndDst etld metadata);
          (r, c) = lru_Get pkg now hk c;
          idx = (case r of
                   Some i \<Rightarrow> if i \<ge> length ps then jumpHash (hk + nanos 0) (of_nat (length ps)) else i
                 | None \<Rightarrow> jumpHash (hk + nanos 0) (of_nat (length ps)))
      in ss_loop pkg now px url ps hk (r \<noteq> None) idx idx (map nanos [1..<5]) c)"

definition parseStrategy :: "string option \<Rightarrow> string" where
  "parseStrategy strategy = (case strategy of Some s \<Rightarrow> s | None \<Rightarrow> ''consistent-hashing'')"

datatype strategy = ConsistentHashing | RoundRobin | StickySessions

definition NewLoadBalance :: "string \<Rightarrow> string + strategy" where
  "NewLoadBalance s =
     (if s = ''consistent-hashing'' then Inr ConsistentHashing
      else if s = ''round-robin'' then Inr RoundRobin
      else if s = ''sticky-sessions'' then Inr StickySessions
      else Inl (''unsupported strategy: '' @ s))"

section \<open>Laws of the strategies\<close>

lemma buckets_length: "length ps < 2 ^ 31 \<Longrightarrow> sint (of_nat (length ps) :: 32 word) = int (length ps)"
  by (simp add: sint_uint unsigned_of_nat take_bit_nat_eq_self signed_take_bit_int_eq_self)

lemma jumpHash_index: "ps \<noteq> [] \<Longrightarrow> length ps < 2 ^ 31 \<Longrightarrow> jumpHash hk (of_nat (length ps)) < length ps"
  using jumpHash_less [of "of_nat (length ps)" hk] by (simp add: buckets_length)

lemma rr_loop_result:
  assumes "rr_loop px url ps idx i n = (r, i')"
  shows "case r of
      None \<Rightarrow> i' = i + n \<and> (\<forall>j. i \<le> j \<and> j < i + n \<longrightarrow> \<not> AliveForTestUrl url (px (ps ! ((idx + j) mod length ps))))
    | Some p \<Rightarrow> i < i' \<and> i' \<le> i + n \<and> p = ps ! ((idx + i' - 1) mod length ps) \<and> AliveForTestUrl url (px p) \<and>
        (\<forall>j. i \<le> j \<and> j + 1 < i' \<longrightarrow> \<not> AliveForTestUrl url (px (ps ! ((idx + j) mod length ps))))"
  using assms
proof (induction n arbitrary: i)
  case (Suc n)
  let ?p = "ps ! ((idx + i) mod length ps)"
  show ?case
  proof (cases "AliveForTestUrl url (px ?p)")
    case True
    with Suc.prems show ?thesis by auto
  next
    case False
    with Suc.prems have "rr_loop px url ps idx (i + 1) n = (r, i')" by simp
    note ih = Suc.IH [OF this]
    have step: "i \<le> j \<longleftrightarrow> j = i \<or> i + 1 \<le> j" for j by auto
    show ?thesis
    proof (cases r)
      case None
      with ih False show ?thesis by (auto simp: step)
    next
      case (Some p)
      with ih False show ?thesis by (auto simp: step)
    qed
  qed
qed (auto split: option.split)

text \<open>Round robin takes the next proxy that is alive, in turn from the one after the last one taken, and
  remembers the turn; when none is alive it takes the first and keeps the turn.\<close>

theorem round_robin_next:
  assumes "ps \<noteq> []" "strategyRoundRobin url px ps True idx = (p, idx')"
  shows "(\<exists>k < length ps. p = ps ! ((idx + k) mod length ps) \<and> AliveForTestUrl url (px p) \<and> idx' = (idx + k + 1) mod length ps \<and>
      (\<forall>j < k. \<not> AliveForTestUrl url (px (ps ! ((idx + j) mod length ps))))) \<or>
    (\<forall>q\<in>set ps. \<not> AliveForTestUrl url (px q)) \<and> p = hd ps \<and> idx' mod length ps = idx mod length ps"
proof -
  obtain r i where l: "rr_loop px url ps idx 0 (length ps) = (r, i)" by fastforce
  note res = rr_loop_result [OF l]
  show ?thesis
  proof (cases r)
    case None
    have "\<not> AliveForTestUrl url (px (ps ! m))" if "m < length ps" for m
    proof -
      define j where "j = (m + length ps * (idx + 1) - idx) mod length ps"
      have j: "j < length ps" using assms(1) by (simp add: j_def)
      have le: "idx \<le> m + length ps * (idx + 1)"
        using assms(1) by (metis Suc_eq_plus1 le_add2 le_SucI length_0_conv less_one linorder_not_le mult.commute mult_le_mono1 mult_1 nat_le_linear order_trans trans_le_add2)
      have "(idx + j) mod length ps = (idx + (m + length ps * (idx + 1) - idx)) mod length ps"
        by (simp add: j_def mod_add_right_eq)
      also have "idx + (m + length ps * (idx + 1) - idx) = m + length ps * (idx + 1)" using le by (simp only: le_add_diff_inverse)
      also have "(m + length ps * (idx + 1)) mod length ps = m" using that by (simp only: mod_mult_self2 mod_less)
      finally show ?thesis using res None j by auto
    qed
    then have "\<forall>q\<in>set ps. \<not> AliveForTestUrl url (px q)" by (auto simp: in_set_conv_nth)
    moreover have "i = length ps" using res None by simp
    ultimately show ?thesis using assms(2) l None by (auto simp: strategyRoundRobin_def)
  next
    case (Some q)
    with res obtain k where "i = Suc k" by (cases i) auto
    with Some res l assms(2) show ?thesis
      by (intro disjI1 exI [of _ k]) (auto simp: strategyRoundRobin_def)
  qed
qed

lemma ch_loop_alive: "ch_loop px url ps hk n = Some p \<Longrightarrow> AliveForTestUrl url (px p)"
  by (induction n arbitrary: hk) (auto simp: Let_def split: if_splits)

lemma consistent_hashing_takes_alive:
  assumes "\<exists>q\<in>set ps. AliveForTestUrl url (px q)"
  shows "AliveForTestUrl url (px (strategyConsistentHashing url h etld px ps m))"
proof (cases "ch_loop px url ps (h (getKey etld m)) 5")
  case None
  obtain p where "List.find (\<lambda>p. AliveForTestUrl url (px p)) ps = Some p"
    using assms by (metis find_None_iff not_Some_eq)
  moreover from this have "AliveForTestUrl url (px p)" by (auto simp: find_Some_iff)
  ultimately show ?thesis using None by (simp add: strategyConsistentHashing_def)
next
  case (Some p)
  then show ?thesis using ch_loop_alive [OF Some] by (simp add: strategyConsistentHashing_def)
qed

lemma consistent_hashing_alive:
  assumes "ps \<noteq> []" "length ps < 2 ^ 31" "\<forall>q\<in>set ps. AliveForTestUrl url (px q)"
  shows "strategyConsistentHashing url h etld px ps m = ps ! jumpHash (h (getKey etld m)) (of_nat (length ps))"
proof -
  let ?hk = "h (getKey etld m)"
  have "AliveForTestUrl url (px (ps ! jumpHash ?hk (of_nat (length ps))))"
    using jumpHash_index [OF assms(1,2)] assms(3) by simp
  then have "ch_loop px url ps ?hk (Suc 4) = Some (ps ! jumpHash ?hk (of_nat (length ps)))"
    by (simp only: ch_loop.simps Let_def if_True)
  moreover have "Suc 4 = 5" by simp
  ultimately have "ch_loop px url ps ?hk 5 = Some (ps ! jumpHash ?hk (of_nat (length ps)))"
    by metis
  then show ?thesis by (simp only: strategyConsistentHashing_def option.case)
qed

text \<open>C29. Consistent hashing: when a proxy is added at the end of the list and all are alive, every
  connection keeps its proxy or gets the new one.\<close>

theorem consistent_hashing_stable:
  assumes "ps \<noteq> []" "length ps + 1 < 2 ^ 31" "\<forall>q\<in>set (ps @ [p]). AliveForTestUrl url (px q)"
  shows "strategyConsistentHashing url h etld px (ps @ [p]) m \<in> {p, strategyConsistentHashing url h etld px ps m}"
proof -
  let ?hk = "h (getKey etld m)" and ?n = "of_nat (length ps) :: 32 word"
  have n: "of_nat (length (ps @ [p])) = ?n + 1" by simp
  have s: "sint ?n = int (length ps)" "sint (?n + 1) = int (length ps) + 1"
    using assms(2) buckets_length [of ps] buckets_length [of "ps @ [p]"] by (simp_all add: n [symmetric])
  have "strategyConsistentHashing url h etld px ps m = ps ! jumpHash ?hk ?n"
    using assms by (intro consistent_hashing_alive) auto
  moreover have "strategyConsistentHashing url h etld px (ps @ [p]) m = (ps @ [p]) ! jumpHash ?hk (?n + 1)"
    using assms(2,3) consistent_hashing_alive [of "ps @ [p]" url px h etld m] n by (simp del: of_nat_Suc)
  moreover have "jumpHash ?hk (?n + 1) = jumpHash ?hk ?n \<or> jumpHash ?hk (?n + 1) = length ps"
    using jumpHash_consistent [of ?n ?hk] s by auto
  moreover have "jumpHash ?hk ?n < length ps" using assms(1,2) by (intro jumpHash_index) auto
  ultimately show ?thesis by (auto simp: nth_append)
qed

text \<open>The cache of the sticky sessions.\<close>

lemma stickyCache_new: "list_laws pkg elems ok \<Longrightarrow> plain_cache elems ok 600 1000 (stickyCache pkg)"
  unfolding stickyCache_def by (rule plain_cache_new)

lemmas sticky_set = plain_cache_set [where age = 600 and cap = 1000, simplified]

lemma ss_loop_sticky:
  assumes "list_laws pkg elems ok" "plain_cache elems ok 600 1000 c"
    "ss_loop pkg now px url ps hk has idx nowIdx ts c = (p, c')"
  shows "plain_cache elems ok 600 1000 c'"
  using assms(3)
proof (induction ts arbitrary: nowIdx)
  case Nil
  with sticky_set [OF assms(1,2)] show ?case by auto
next
  case (Cons t ts)
  with sticky_set [OF assms(1,2)] assms(2) show ?case by (auto simp: Let_def split: if_splits)
qed

lemma ss_loop_stores:
  assumes "list_laws pkg elems ok" "plain_cache elems ok 600 1000 c" "ps \<noteq> []" "length ps < 2 ^ 31" "nowIdx < length ps"
    "ss_loop pkg now px url ps hk False idx nowIdx ts c = (p, c')"
  shows "\<exists>i < length ps. p = ps ! i \<and> keeps elems T hk i (now + 600) c'"
  using assms(5,6)
proof (induction ts arbitrary: nowIdx)
  case Nil
  with keeps_new [OF assms(1,2)] assms(3) show ?case by (auto simp: hd_conv_nth)
next
  case (Cons t ts)
  with keeps_new [OF assms(1,2)] Cons.IH [OF jumpHash_index [OF assms(3,4)]] show ?case
    by (auto simp: Let_def split: if_splits)
qed

lemma ss_loop_others:
  assumes "list_laws pkg elems ok" "plain_cache elems ok 600 1000 c" "keeps elems T k i ex c" "now < ex"
    and "hk \<noteq> k" "hk \<in> T" "finite T" "card T < 1000"
  shows "keeps elems T k i ex (snd (ss_loop pkg now px url ps hk has idx nowIdx ts c))"
  using keeps_set [OF assms(1-7)] assms(3,8) by (induction ts arbitrary: nowIdx) (simp_all add: Let_def)

lemma ss_loop_alive:
  assumes "AliveForTestUrl url (px (ps ! i))" "ts \<noteq> []"
  shows "ss_loop pkg now px url ps hk True i i ts c = (ps ! i, c)"
  using assms by (cases ts) simp_all

text \<open>The key of a session, and a call for a session: its time in seconds, the readings of the clock, the proxies as they
  are, the list and the connection.\<close>

definition session :: "(string \<Rightarrow> 64 word) \<Rightarrow> (string \<Rightarrow> string option) \<Rightarrow> Metadata option \<Rightarrow> 64 word" where
  "session h etld m = h (getKeyWithSrcAndDst etld m)"

record 'h sticky_call =
  sc_now :: int
  sc_nanos :: "nat \<Rightarrow> 64 word"
  sc_px :: "'h \<Rightarrow> Proxy"
  sc_ps :: "'h list"
  sc_md :: "Metadata option"

definition sticky_calls :: "(64 word, nat, 'l, 'n) lru_pkg \<Rightarrow> string \<Rightarrow> (string \<Rightarrow> 64 word) \<Rightarrow> (string \<Rightarrow> string option) \<Rightarrow>
    'h sticky_call list \<Rightarrow> (64 word, nat, 'l, 'n) LruCache \<Rightarrow> (64 word, nat, 'l, 'n) LruCache" where
  "sticky_calls pkg url h etld calls c =
     fold (\<lambda>x c. snd (strategyStickySessions pkg url h etld (sc_now x) (sc_nanos x) (sc_px x) (sc_ps x) (sc_md x) c)) calls c"

lemma sticky_same:
  assumes "list_laws pkg elems ok" "plain_cache elems ok 600 1000 c" "keeps elems T (session h etld m) i ex c" "t < ex"
    and "i < length ps" "AliveForTestUrl url (px (ps ! i))" "strategyStickySessions pkg url h etld t nanos px ps m c = (p, c')"
  shows "p = ps ! i \<and> plain_cache elems ok 600 1000 c' \<and> keeps elems T (session h etld m) i ex c'"
proof -
  obtain r c1 where g: "lru_Get pkg t (session h etld m) c = (r, c1)" by fastforce
  note k = keeps_Get [OF assms(1-4) g]
  have "map nanos [1..<5] \<noteq> []" by (simp add: upt_rec numeral_eq_Suc)
  note loop = ss_loop_alive [where px = px and ps = ps and i = i, OF assms(6) this]
  have "strategyStickySessions pkg url h etld t nanos px ps m c = (ps ! i, c1)"
    using g k(2) assms(5) loop by (simp add: strategyStickySessions_def session_def)
  with assms(7) k(1,3) show ?thesis by simp
qed

lemma sticky_other:
  assumes "list_laws pkg elems ok" "plain_cache elems ok 600 1000 c" "keeps elems T k i ex c" "t < ex"
    and "session h etld m \<noteq> k" "session h etld m \<in> T" "finite T" "card T < 1000"
    and "strategyStickySessions pkg url h etld t nanos px ps m c = (p, c')"
  shows "plain_cache elems ok 600 1000 c' \<and> keeps elems T k i ex c'"
proof -
  obtain r c1 where g: "lru_Get pkg t (session h etld m) c = (r, c1)" by fastforce
  note k = keeps_Get [OF assms(1-4) g]
  obtain idx where loop: "ss_loop pkg t px url ps (session h etld m) (r \<noteq> None) idx idx (map nanos [1..<5]) c1 = (p, c')"
    using assms(9) g by (auto simp: strategyStickySessions_def session_def Let_def)
  have "keeps elems T k i ex c1" using k(3) assms(6) by simp
  from ss_loop_others [OF assms(1) k(1) this assms(4-8), of px url ps "r \<noteq> None" idx idx "map nanos [1..<5]"]
  show ?thesis using loop ss_loop_sticky [OF assms(1) k(1) loop] by simp
qed

lemma sticky_calls_keep:
  assumes laws: "list_laws pkg elems ok" and T: "finite T" "card T < 1000"
    and i: "i < length ps" "p = ps ! i"
  shows "plain_cache elems ok 600 1000 c \<Longrightarrow> keeps elems T (session h etld m) i ex c \<Longrightarrow>
    \<forall>x\<in>set calls. sc_now x < ex \<and> session h etld (sc_md x) \<in> insert (session h etld m) T
      \<and> (session h etld (sc_md x) = session h etld m \<longrightarrow> sc_ps x = ps \<and> AliveForTestUrl url (sc_px x p)) \<Longrightarrow>
    plain_cache elems ok 600 1000 (sticky_calls pkg url h etld calls c)
      \<and> keeps elems T (session h etld m) i ex (sticky_calls pkg url h etld calls c)"
proof (induction calls arbitrary: c)
  case (Cons x calls)
  obtain p1 c1 where s: "strategyStickySessions pkg url h etld (sc_now x) (sc_nanos x) (sc_px x) (sc_ps x) (sc_md x) c = (p1, c1)"
    by fastforce
  have x: "sc_now x < ex" "session h etld (sc_md x) \<in> insert (session h etld m) T"
    "session h etld (sc_md x) = session h etld m \<longrightarrow> sc_ps x = ps \<and> AliveForTestUrl url (sc_px x p)"
    using Cons.prems(3) by simp_all
  have "plain_cache elems ok 600 1000 c1 \<and> keeps elems T (session h etld m) i ex c1"
  proof (cases "session h etld (sc_md x) = session h etld m")
    case True
    with x(3) have "sc_ps x = ps" "AliveForTestUrl url (sc_px x (ps ! i))" using i by simp_all
    then show ?thesis
      using sticky_same [OF laws Cons.prems(1), of T h etld "sc_md x" i ex "sc_now x" "sc_ps x" url "sc_px x" "sc_nanos x" p1 c1]
        True Cons.prems(2) x(1) i s by simp
  next
    case False
    then show ?thesis using sticky_other [OF laws Cons.prems(1,2) x(1) False _ T s] x(2) by simp
  qed
  with Cons.IH [of c1] Cons.prems(3) s show ?case by (simp add: sticky_calls_def)
qed (simp add: sticky_calls_def)

text \<open>C30. Sticky sessions: the proxy chosen for a session that is not remembered is chosen for it again for ten
  minutes, whatever calls come in between, whatever the clock and the other proxies do; as long as the calls for the
  session find the proxy alive and give the same list of proxies, and fewer than a thousand other sessions are served in
  between (the cache has room for a thousand).\<close>

theorem sticky_sessions_stay:
  assumes "list_laws pkg elems ok" "plain_cache elems ok 600 1000 c" "ps \<noteq> []" "length ps < 2 ^ 31"
    and "fst (lru_Get pkg t (session h etld m) c) = None"
    and "strategyStickySessions pkg url h etld t nanos px ps m c = (p, c')"
    and "\<forall>x\<in>set calls. sc_now x < t + 600 \<and> (session h etld (sc_md x) = session h etld m \<longrightarrow>
      sc_ps x = ps \<and> AliveForTestUrl url (sc_px x p))"
    and "card ((\<lambda>x. session h etld (sc_md x)) ` set calls - {session h etld m}) < 1000"
    and "t' < t + 600" "AliveForTestUrl url (px' p)"
  shows "fst (strategyStickySessions pkg url h etld t' nanos' px' ps m (sticky_calls pkg url h etld calls c')) = p"
proof -
  let ?hk = "session h etld m" and ?T = "(\<lambda>x. session h etld (sc_md x)) ` set calls - {session h etld m}"
  obtain c1 where c1: "lru_Get pkg t ?hk c = (None, c1)" using assms(5) by (cases "lru_Get pkg t ?hk c") auto
  note ok1 = plain_cache_Get(1) [OF assms(1,2) c1]
  let ?j = "jumpHash (?hk + nanos 0) (of_nat (length ps))"
  have loop: "ss_loop pkg t px url ps ?hk False ?j ?j (map nanos [1..<5]) c1 = (p, c')"
    using assms(6) by (simp only: strategyStickySessions_def session_def [symmetric] c1 Let_def prod.case option.case simp_thms)
  obtain i where i: "i < length ps" "p = ps ! i" "keeps elems ?T ?hk i (t + 600) c'"
    using ss_loop_stores [OF assms(1) ok1 assms(3,4) jumpHash_index [OF assms(3,4)] loop] by blast
  note ok2 = ss_loop_sticky [OF assms(1) ok1 loop]
  let ?c = "sticky_calls pkg url h etld calls c'"
  have "\<forall>x\<in>set calls. sc_now x < t + 600 \<and> session h etld (sc_md x) \<in> insert ?hk ?T
      \<and> (session h etld (sc_md x) = ?hk \<longrightarrow> sc_ps x = ps \<and> AliveForTestUrl url (sc_px x p))"
    using assms(7) by auto
  note kept = sticky_calls_keep [OF assms(1) _ assms(8) i(1,2) ok2 i(3) this]
  obtain p2 c2 where s: "strategyStickySessions pkg url h etld t' nanos' px' ps m ?c = (p2, c2)" by fastforce
  have ok3: "plain_cache elems ok 600 1000 ?c" "keeps elems ?T ?hk i (t + 600) ?c" using kept by simp_all
  have "p2 = ps ! i" using sticky_same [OF assms(1) ok3 assms(9) i(1) _ s] assms(10) i(2) by simp
  with s i(2) show ?thesis by simp
qed

text \<open>When the list of proxies has become shorter than the remembered index, the session gets a proxy
  drawn from the clock each time, and none of them is remembered: it is not sticky until the entry expires.\<close>

theorem sticky_sessions_drift:
  assumes "list_laws pkg elems ok" "plain_cache elems ok 600 1000 c" "ps \<noteq> []" "length ps < 2 ^ 31"
    and "remembers elems (h (getKeyWithSrcAndDst etld m)) i ex c" "length ps \<le> i" "now < ex"
    and "\<forall>q\<in>set ps. AliveForTestUrl url (px q)"
  shows "\<exists>c'. strategyStickySessions pkg url h etld now nanos px ps m c =
      (ps ! jumpHash (h (getKeyWithSrcAndDst etld m) + nanos 0) (of_nat (length ps)), c') \<and>
    plain_cache elems ok 600 1000 c' \<and> remembers elems (h (getKeyWithSrcAndDst etld m)) i ex c'"
proof -
  let ?hk = "h (getKeyWithSrcAndDst etld m)"
  let ?j = "jumpHash (?hk + nanos 0) (of_nat (length ps))"
  obtain r c1 where c1: "lru_Get pkg now ?hk c = (r, c1)" by fastforce
  have r: "r = Some i \<and> remembers elems ?hk i ex c1" using plain_cache_Get(2) [OF assms(1,2) c1 assms(5,7)] .
  have "AliveForTestUrl url (px (ps ! ?j))" using jumpHash_index [OF assms(3,4)] assms(8) by simp
  then have "ss_loop pkg now px url ps ?hk True ?j ?j (map nanos [1..<5]) c1 = (ps ! ?j, c1)"
    by (rule ss_loop_alive) simp
  then show ?thesis using r plain_cache_Get(1) [OF assms(1,2) c1] assms(6)
    by (simp add: strategyStickySessions_def c1)
qed

section \<open>The theorems at work\<close>

definition up :: "nat \<Rightarrow> Proxy" where
  "up i = NewProxy ''p'' Vmess"

lemma round_robin_next_witness:
  "strategyRoundRobin ''u'' up [0, 1, 2] True 2 = (2, 0) \<and> AliveForTestUrl ''u'' (up 2)"
proof -
  have alive: "AliveForTestUrl ''u'' (up i)" for i by (simp add: up_def NewProxy_def AliveForTestUrl_def)
  have eq: "strategyRoundRobin ''u'' up [0, 1, 2] True 2 = (2, 0)"
    by (simp add: strategyRoundRobin_def alive Let_def)
  from round_robin_next [OF _ eq] alive have "AliveForTestUrl ''u'' (up 2)" by blast
  with eq show ?thesis by simp
qed

lemma consistent_hashing_stable_witness:
  "strategyConsistentHashing ''u'' (\<lambda>s. of_nat (length s)) (\<lambda>d. Some d) up ([0, 1] @ [2]) None
     \<in> {2, strategyConsistentHashing ''u'' (\<lambda>s. of_nat (length s)) (\<lambda>d. Some d) up [0, 1] None}"
  by (rule consistent_hashing_stable) (simp_all add: up_def NewProxy_def AliveForTestUrl_def)

text \<open>Between the two calls, another session and the same session are served.\<close>

lemma sticky_sessions_stay_witness:
  "fst (strategyStickySessions slice_pkg ''u'' (\<lambda>s. of_nat (length s)) (\<lambda>d. Some d) 500 (\<lambda>i. 5) up [0, 1, 2] None
     (sticky_calls slice_pkg ''u'' (\<lambda>s. of_nat (length s)) (\<lambda>d. Some d)
       [\<lparr>sc_now = 50, sc_nanos = (\<lambda>i. 9), sc_px = up, sc_ps = [4, 5], sc_md = Some (zeroMetadata\<lparr>Host := ''a.io''\<rparr>)\<rparr>,
        \<lparr>sc_now = 60, sc_nanos = (\<lambda>i. 8), sc_px = up, sc_ps = [0, 1, 2], sc_md = None\<rparr>]
       (snd (strategyStickySessions slice_pkg ''u'' (\<lambda>s. of_nat (length s)) (\<lambda>d. Some d) 0 (\<lambda>i. 3) up [0, 1, 2] None (stickyCache slice_pkg)))))
   = fst (strategyStickySessions slice_pkg ''u'' (\<lambda>s. of_nat (length s)) (\<lambda>d. Some d) 0 (\<lambda>i. 3) up [0, 1, 2] None (stickyCache slice_pkg))"
proof (rule sticky_sessions_stay [where t = 0, OF slice.list_laws_axioms stickyCache_new [OF slice.list_laws_axioms]])
  let ?h = "(\<lambda>s. of_nat (length s)) :: string \<Rightarrow> 64 word" and ?m = "Some (zeroMetadata\<lparr>Host := ''a.io''\<rparr>)"
  show "fst (lru_Get slice_pkg 0 (session ?h (\<lambda>d. Some d) None) (stickyCache slice_pkg)) = None"
    by (simp add: lru_Get_def lru_get_def stickyCache_def lru_New_def)
  have "session ?h (\<lambda>d. Some d) ?m \<noteq> session ?h (\<lambda>d. Some d) None" by code_simp
  then show "\<forall>x\<in>set [\<lparr>sc_now = 50, sc_nanos = (\<lambda>i. 9), sc_px = up, sc_ps = [4, 5], sc_md = ?m\<rparr>,
        \<lparr>sc_now = 60, sc_nanos = (\<lambda>i. 8), sc_px = up, sc_ps = [0, 1, 2], sc_md = None\<rparr>].
      sc_now x < 0 + 600 \<and> (session ?h (\<lambda>d. Some d) (sc_md x) = session ?h (\<lambda>d. Some d) None \<longrightarrow> sc_ps x = [0, 1, 2] \<and>
        AliveForTestUrl ''u'' (sc_px x (fst (strategyStickySessions slice_pkg ''u'' ?h (\<lambda>d. Some d) 0 (\<lambda>i. 3) up [0, 1, 2] None (stickyCache slice_pkg)))))"
    by (simp add: up_def NewProxy_def AliveForTestUrl_def)
  show "card ((\<lambda>x. session ?h (\<lambda>d. Some d) (sc_md x)) ` set [\<lparr>sc_now = 50, sc_nanos = (\<lambda>i. 9), sc_px = up, sc_ps = [4, 5], sc_md = ?m\<rparr>,
        \<lparr>sc_now = 60, sc_nanos = (\<lambda>i. 8), sc_px = up, sc_ps = [0, 1, 2], sc_md = None\<rparr>] - {session ?h (\<lambda>d. Some d) None}) < 1000"
    by (rule le_less_trans [OF card_mono [of "{session ?h (\<lambda>d. Some d) ?m}"]]) auto
qed (simp_all add: up_def NewProxy_def AliveForTestUrl_def)

lemma sticky_sessions_drift_witness:
  "\<exists>c'. strategyStickySessions slice_pkg ''u'' (\<lambda>s. 7) (\<lambda>d. Some d) 0 (\<lambda>i. 3) up [0, 1] None
      (lru_set slice_pkg 0 7 5 (stickyCache slice_pkg)) = ([0, 1] ! jumpHash (7 + 3) (of_nat 2), c') \<and> remembers snd 7 5 600 c'"
proof -
  have c: "plain_cache snd slice_ok 600 1000 (lru_set slice_pkg 0 7 5 (stickyCache slice_pkg))"
      "remembers snd 7 5 600 (lru_set slice_pkg 0 7 5 (stickyCache slice_pkg))"
    using sticky_set [OF slice.list_laws_axioms stickyCache_new [OF slice.list_laws_axioms], of 0 7 5] by simp_all
  show ?thesis
    using sticky_sessions_drift [OF slice.list_laws_axioms c(1), of "[0, 1]" "\<lambda>s. 7" "\<lambda>d. Some d" None 5 600 0 "''u''" up "\<lambda>i. 3"] c(2)
    by (auto simp: up_def NewProxy_def AliveForTestUrl_def)
qed

end
