(* ===== verification/TlsSniffer.thy ===== *)
theory TlsSniffer
  imports Prelude
begin

text \<open>
  The server name of a TLS connection: \<^verbatim>\<open>component/sniffer/tls_sniffer.go\<close>. Every index and every
  slice of the code is checked here, so a read out of range is a \<open>Panic\<close> of the model; a slice may
  not exceed the length, which is stricter than Go's test against the capacity.
\<close>

section \<open>Reading bytes\<close>

type_synonym bytes = "8 word list"

definition bytes_string :: "bytes \<Rightarrow> string" where
  "bytes_string d = map (\<lambda>b. char_of (unat b)) d"

definition string_bytes :: "string \<Rightarrow> bytes" where
  "string_bytes s = map (\<lambda>ch. word_of_nat (of_char ch)) s"

definition at :: "bytes \<Rightarrow> nat \<Rightarrow> (8 word \<Rightarrow> ('e, 'a) outcome) \<Rightarrow> ('e, 'a) outcome" where
  "at d i f = (if i < length d then f (d ! i) else Panic)"

definition at16 :: "bytes \<Rightarrow> nat \<Rightarrow> (nat \<Rightarrow> ('e, 'a) outcome) \<Rightarrow> ('e, 'a) outcome" where
  "at16 d i f = at d i (\<lambda>h. at d (i + 1) (\<lambda>l. f (unat h * 256 + unat l)))"

definition slice :: "bytes \<Rightarrow> nat \<Rightarrow> nat \<Rightarrow> (bytes \<Rightarrow> ('e, 'a) outcome) \<Rightarrow> ('e, 'a) outcome" where
  "slice d a b f = (if a \<le> b \<and> b \<le> length d then f (take (b - a) (drop a d)) else Panic)"

abbreviation slice_from :: "bytes \<Rightarrow> nat \<Rightarrow> (bytes \<Rightarrow> ('e, 'a) outcome) \<Rightarrow> ('e, 'a) outcome" where
  "slice_from d a f \<equiv> slice d a (length d) f"

lemma at_cong [fundef_cong]:
  "d = d' \<Longrightarrow> i = i' \<Longrightarrow> (\<And>b. i' < length d' \<Longrightarrow> f b = f' b) \<Longrightarrow> at d i f = at d' i' f'"
  by (simp add: at_def)

lemma at16_cong [fundef_cong]:
  "d = d' \<Longrightarrow> i = i' \<Longrightarrow> (\<And>n. i' + 1 < length d' \<Longrightarrow> f n = f' n) \<Longrightarrow> at16 d i f = at16 d' i' f'"
  by (simp add: at16_def at_def)

lemma slice_cong [fundef_cong]:
  "d = d' \<Longrightarrow> a = a' \<Longrightarrow> b = b' \<Longrightarrow> (a' \<le> b' \<Longrightarrow> b' \<le> length d' \<Longrightarrow> f (take (b' - a') (drop a' d')) = f' (take (b' - a') (drop a' d')))
    \<Longrightarrow> slice d a b f = slice d' a' b' f'"
  by (simp add: slice_def)

lemma bind_outcome_cong [fundef_cong]:
  "r = r' \<Longrightarrow> (\<And>x. r' = Value x \<Longrightarrow> f x = f' x) \<Longrightarrow> bind_outcome r f = bind_outcome r' f'"
  by (cases r') auto

section \<open>The client hello\<close>

datatype sniff_error = ErrNoClue | ErrNotTLS | ErrNotClientHello | ErrNeedAtLeastData nat
  | ErrNotHTTPMethod | ErrHostIsIP | ErrAddress | ErrUnsupported

text \<open>The list of server names; the result \<open>None\<close> stands for the end of the loop.\<close>

function sni_names :: "bytes \<Rightarrow> (sniff_error, string option) outcome" where
  "sni_names d =
     (if length d > 0 then
        if length d < 3 then Error ErrNotClientHello
        else at d 0 (\<lambda>nameType. at16 d 1 (\<lambda>nameLen. slice_from d 3 (\<lambda>d.
          if length d < nameLen then Error ErrNotClientHello
          else if nameType = 0 then
            slice d 0 nameLen (\<lambda>n.
              let serverName = bytes_string n in
              if has_suffix serverName ''.'' then Error ErrNotClientHello else Value (Some serverName))
          else slice_from d nameLen sni_names)))
      else Value None)"
  by pat_completeness auto
termination by (relation "measure length") auto

definition sni_extension :: "bytes \<Rightarrow> (sniff_error, string option) outcome" where
  "sni_extension d =
     (if length d < 2 then Error ErrNotClientHello
      else at16 d 0 (\<lambda>namesLen. slice_from d 2 (\<lambda>d.
        if length d \<noteq> namesLen then Error ErrNotClientHello else sni_names d)))"

function extensions :: "bytes \<Rightarrow> (sniff_error, string) outcome" where
  "extensions data =
     (if length data \<noteq> 0 then
        if length data < 4 then Error ErrNotClientHello
        else at16 data 0 (\<lambda>extension. at16 data 2 (\<lambda>len. slice_from data 4 (\<lambda>data.
          if length data < len then Error ErrNotClientHello
          else bind_outcome
            (if extension = 0 then slice data 0 len sni_extension else Value None)
            (\<lambda>r. case r of Some serverName \<Rightarrow> Value serverName | None \<Rightarrow> slice_from data len extensions))))
      else Error ErrNotTLS)"
  by pat_completeness auto
termination by (relation "measure length") auto

declare sni_names.simps [simp del] extensions.simps [simp del]

definition ReadClientHello :: "bytes \<Rightarrow> (sniff_error, string) outcome" where
  "ReadClientHello data =
     (if length data < 42 then Error ErrNoClue
      else at data 38 (\<lambda>n. let sessionIDLen = unat n in
        if sessionIDLen > 32 \<or> length data < 39 + sessionIDLen then Error ErrNoClue
        else slice_from data (39 + sessionIDLen) (\<lambda>data.
          if length data < 2 then Error ErrNoClue
          else at16 data 0 (\<lambda>cipherSuiteLen.
            if cipherSuiteLen mod 2 = 1 \<or> length data < 2 + cipherSuiteLen then Error ErrNotClientHello
            else slice_from data (2 + cipherSuiteLen) (\<lambda>data.
              if length data < 1 then Error ErrNoClue
              else at data 0 (\<lambda>n. let compressionMethodsLen = unat n in
                if length data < 1 + compressionMethodsLen then Error ErrNoClue
                else slice_from data (1 + compressionMethodsLen) (\<lambda>data.
                  if length data = 0 then Error ErrNotClientHello
                  else if length data < 2 then Error ErrNotClientHello
                  else at16 data 0 (\<lambda>extensionsLength. slice_from data 2 (\<lambda>data.
                    if extensionsLength \<noteq> length data then Error ErrNotClientHello
                    else extensions data)))))))))"

definition IsValidTLSVersion :: "8 word \<Rightarrow> 8 word \<Rightarrow> bool" where
  "IsValidTLSVersion major minor \<longleftrightarrow> major = 3"

definition SniffTLS :: "bytes \<Rightarrow> (sniff_error, string) outcome" where
  "SniffTLS b =
     (if length b < 5 then Error ErrNoClue
      else at b 0 (\<lambda>tp. if tp \<noteq> 0x16 then Error ErrNotTLS
        else at b 1 (\<lambda>major. at b 2 (\<lambda>minor. if \<not> IsValidTLSVersion major minor then Error ErrNotTLS
          else at16 b 3 (\<lambda>headerLen.
            if 5 + headerLen > length b then Error (ErrNeedAtLeastData (5 + headerLen))
            else slice b 5 (5 + headerLen) ReadClientHello)))))"

section \<open>No input makes the sniffer panic\<close>

lemma sni_names_ok: "sni_names d \<noteq> Panic"
proof (induction d rule: sni_names.induct)
  case (1 d)
  show ?case
    by (subst sni_names.simps) (use 1 in \<open>auto simp: at_def at16_def slice_def Let_def\<close>)
qed

lemma sni_extension_ok: "sni_extension d \<noteq> Panic"
  by (simp add: sni_extension_def at_def at16_def slice_def sni_names_ok)

lemma bind_outcome_Panic: "bind_outcome r f = Panic \<longleftrightarrow> r = Panic \<or> (\<exists>x. r = Value x \<and> f x = Panic)"
  by (cases r) auto

lemma extensions_ok: "extensions d \<noteq> Panic"
proof (induction d rule: length_induct)
  case (1 d)
  show ?case
    by (subst extensions.simps)
      (use 1 in \<open>auto simp: at_def at16_def slice_def bind_outcome_Panic sni_extension_ok split: option.split\<close>)
qed

lemma ReadClientHello_ok: "ReadClientHello d \<noteq> Panic"
  by (simp add: ReadClientHello_def at_def at16_def slice_def Let_def extensions_ok)

text \<open>C24. No bytes of a client make the sniffer read out of range.\<close>

theorem SniffTLS_safe: "SniffTLS b \<noteq> Panic"
  by (simp add: SniffTLS_def at_def at16_def slice_def ReadClientHello_ok)

section \<open>Waiting for a whole record\<close>

lemma sni_names_errors: "sni_names d = Error e \<Longrightarrow> e = ErrNotClientHello"
proof (induction d rule: sni_names.induct)
  case (1 d)
  from 1(2) show ?case
    by (subst (asm) sni_names.simps)
      (use 1(1) in \<open>auto simp: at_def at16_def slice_def Let_def split: if_splits\<close>)
qed

lemma bind_outcome_Error: "bind_outcome r f = Error e \<longleftrightarrow> r = Error e \<or> (\<exists>x. r = Value x \<and> f x = Error e)"
  by (cases r) auto

lemma extensions_errors: "e \<noteq> ErrNotClientHello \<Longrightarrow> e \<noteq> ErrNotTLS \<Longrightarrow> extensions d \<noteq> Error e"
proof (induction d rule: length_induct)
  case (1 d)
  have sni: "sni_extension x \<noteq> Error e" for x
    using 1(2) sni_names_errors by (auto simp: sni_extension_def at_def at16_def slice_def)
  show ?case
    by (subst extensions.simps)
      (use 1 sni in \<open>auto simp: at_def at16_def slice_def bind_outcome_Error split: if_splits option.splits\<close>)
qed

lemma ReadClientHello_errors: "ReadClientHello d \<noteq> Error (ErrNeedAtLeastData n)"
  using extensions_errors by (simp add: ReadClientHello_def at_def at16_def slice_def Let_def)

lemma SniffTLS_need:
  "SniffTLS b = Error (ErrNeedAtLeastData n) \<longleftrightarrow>
     5 \<le> length b \<and> b ! 0 = 0x16 \<and> b ! 1 = 3 \<and> n = 5 + (unat (b ! 3) * 256 + unat (b ! 4)) \<and> length b < n"
  by (auto simp: SniffTLS_def at_def at16_def slice_def IsValidTLSVersion_def ReadClientHello_errors)

text \<open>When the sniffer asks for more data, it asks for more than it has, and once it has that many
  bytes it does not ask again and ignores what follows them.\<close>

theorem SniffTLS_need_suffices:
  assumes "SniffTLS b = Error (ErrNeedAtLeastData n)" "n \<le> length (b @ c)"
  shows "length b < n \<and> SniffTLS (b @ c) = SniffTLS (take n (b @ c)) \<and> SniffTLS (b @ c) \<noteq> Error (ErrNeedAtLeastData k)"
proof -
  from assms(1) have b: "5 \<le> length b" "b ! 0 = 0x16" "b ! 1 = 3" "n = 5 + (unat (b ! 3) * 256 + unat (b ! 4))" "length b < n"
    by (simp_all add: SniffTLS_need)
  have ne: "b \<noteq> []" using b(1) by auto
  have "SniffTLS (take m (b @ c)) = ReadClientHello (take (n - 5) (drop 5 (take m (b @ c))))"
    if "n \<le> m" "m \<le> length (b @ c)" for m
    using b that ne by (simp add: SniffTLS_def at_def at16_def slice_def IsValidTLSVersion_def nth_append)
  from this [of n] this [of "length (b @ c)"] b assms(2) show ?thesis
    by (auto simp: SniffTLS_need nth_append take_drop min_def ReadClientHello_errors simp del: take_append drop_append)
qed

section \<open>The name of a client hello\<close>

text \<open>The encoding of RFC 8446 and RFC 6066.\<close>

definition be16 :: "nat \<Rightarrow> bytes" where
  "be16 n = [word_of_nat (n div 256), word_of_nat (n mod 256)]"

definition vec8 :: "bytes \<Rightarrow> bytes" where
  "vec8 d = word_of_nat (length d) # d"

definition vec16 :: "bytes \<Rightarrow> bytes" where
  "vec16 d = be16 (length d) @ d"

definition extension :: "nat \<Rightarrow> bytes \<Rightarrow> bytes" where
  "extension tp d = be16 tp @ vec16 d"

definition extension_list :: "(nat \<times> bytes) list \<Rightarrow> bytes" where
  "extension_list es = concat (map (\<lambda>(tp, d). extension tp d) es)"

definition name_list :: "(8 word \<times> bytes) list \<Rightarrow> bytes" where
  "name_list ns = concat (map (\<lambda>(tp, d). tp # vec16 d) ns)"

record hello =
  h_len :: bytes
  h_version :: bytes
  h_random :: bytes
  h_session :: bytes
  h_ciphers :: bytes
  h_compression :: bytes
  h_extensions :: "(nat \<times> bytes) list"

definition hello_bytes :: "hello \<Rightarrow> bytes" where
  "hello_bytes h = [1] @ h_len h @ h_version h @ h_random h @ vec8 (h_session h) @ vec16 (h_ciphers h)
     @ vec8 (h_compression h) @ vec16 (extension_list (h_extensions h))"

definition tls_record :: "8 word \<Rightarrow> bytes \<Rightarrow> bytes" where
  "tls_record minor d = [0x16, 3, minor] @ vec16 d"

definition hello_ok :: "hello \<Rightarrow> bool" where
  "hello_ok h \<longleftrightarrow> length (h_len h) = 3 \<and> length (h_version h) = 2 \<and> length (h_random h) = 32 \<and>
     length (h_session h) \<le> 32 \<and> even (length (h_ciphers h)) \<and> length (h_compression h) < 256 \<and>
     list_all (\<lambda>(tp, d). tp < 2 ^ 16) (h_extensions h) \<and> length (hello_bytes h) < 2 ^ 16"

lemma be16_value: "n < 2 ^ 16 \<Longrightarrow> unat (word_of_nat (n div 256) :: 8 word) * 256 + unat (word_of_nat (n mod 256) :: 8 word) = n"
  by (simp add: unsigned_of_nat take_bit_nat_eq_self less_mult_imp_div_less)

lemma at16_be16 [simp]: "n < 2 ^ 16 \<Longrightarrow> at16 (be16 n @ d) 0 f = f n"
  using be16_value [of n] by (simp add: at16_def at_def be16_def)

lemma at16_be16_next [simp]: "n < 2 ^ 16 \<Longrightarrow> at16 (be16 m @ be16 n @ d) 2 f = f n"
  using be16_value [of n] by (simp add: at16_def at_def be16_def)

lemma at_Cons [simp]: "at (x # d) 0 f = f x"
  by (simp add: at_def)

lemma at16_Cons [simp]: "n < 2 ^ 16 \<Longrightarrow> at16 (x # be16 n @ d) (Suc 0) f = f n"
  using be16_value [of n] by (simp add: at16_def at_def be16_def)

lemma slice_from_append: "length d = n \<Longrightarrow> slice_from (d @ d') n f = f d'"
  by (simp add: slice_def)

lemma slice_rest [simp]: "slice (d @ d') (length d) (length d + length d') f = f d'"
  by (simp add: slice_def)

lemma slice_prefix: "length d = n \<Longrightarrow> slice (d @ d') 0 n f = f d"
  by (simp add: slice_def)

lemma length_be16 [simp]: "length (be16 n) = 2"
  by (simp add: be16_def)

lemma sni_names_step:
  assumes "length n < 2 ^ 16"
  shows "sni_names (tp # vec16 n @ d) =
    (if tp = 0 then if has_suffix (bytes_string n) ''.'' then Error ErrNotClientHello else Value (Some (bytes_string n))
     else sni_names d)"
proof -
  have s: "slice (tp # vec16 n @ d) 3 (length (tp # vec16 n @ d)) f = f (n @ d)" for f :: "bytes \<Rightarrow> (sniff_error, string option) outcome"
    by (simp add: slice_def vec16_def be16_def)
  have "sni_names (tp # vec16 n @ d) = at (tp # vec16 n @ d) 0 (\<lambda>nameType. at16 (tp # vec16 n @ d) 1 (\<lambda>nameLen.
      if length (n @ d) < nameLen then Error ErrNotClientHello
      else if nameType = 0 then
        slice (n @ d) 0 nameLen (\<lambda>n. let serverName = bytes_string n in
          if has_suffix serverName ''.'' then Error ErrNotClientHello else Value (Some serverName))
      else slice_from (n @ d) nameLen sni_names))"
    by (subst sni_names.simps) (simp only: s, simp add: vec16_def)
  then show ?thesis using assms by (simp add: vec16_def slice_prefix Let_def)
qed

lemma sni_names_found:
  assumes "list_all (\<lambda>(tp, n). tp \<noteq> 0 \<and> length n < 2 ^ 16) ns" "length name < 2 ^ 16"
    "\<not> has_suffix (bytes_string name) ''.''"
  shows "sni_names (name_list (ns @ (0, name) # ms)) = Value (Some (bytes_string name))"
  using assms(1)
proof (induction ns)
  case Nil
  show ?case using assms(2,3) by (simp add: name_list_def sni_names_step)
next
  case (Cons e ns)
  then show ?case by (cases e) (simp add: name_list_def sni_names_step)
qed

lemma sni_extension_vec16:
  assumes "length d < 2 ^ 16"
  shows "sni_extension (vec16 d) = sni_names d"
proof -
  have "slice_from (vec16 d) 2 f = f d" for f :: "bytes \<Rightarrow> (sniff_error, string option) outcome"
    unfolding vec16_def by (rule slice_from_append) simp
  then show ?thesis using assms by (simp only: sni_extension_def) (simp add: vec16_def)
qed

lemma extensions_step:
  assumes "tp < 2 ^ 16" "length d < 2 ^ 16"
  shows "extensions (extension tp d @ es) =
    bind_outcome (if tp = 0 then sni_extension d else Value None)
      (\<lambda>r. case r of Some serverName \<Rightarrow> Value serverName | None \<Rightarrow> extensions es)"
proof -
  let ?e = "extension tp d @ es"
  have s: "slice ?e 4 (length ?e) f = f (d @ es)" for f :: "bytes \<Rightarrow> (sniff_error, string) outcome"
    by (simp add: slice_def extension_def vec16_def be16_def)
  have "extensions ?e = at16 ?e 0 (\<lambda>tp. at16 ?e 2 (\<lambda>len.
      if length (d @ es) < len then Error ErrNotClientHello
      else bind_outcome (if tp = 0 then slice (d @ es) 0 len sni_extension else Value None)
        (\<lambda>r. case r of Some serverName \<Rightarrow> Value serverName | None \<Rightarrow> slice_from (d @ es) len extensions)))"
    by (subst extensions.simps) (simp only: s, simp add: extension_def vec16_def)
  then show ?thesis using assms by (simp add: extension_def vec16_def slice_prefix)
qed

lemma extensions_skip:
  assumes "list_all (\<lambda>(tp, d). 0 < tp \<and> tp < 2 ^ 16 \<and> length d < 2 ^ 16) es"
  shows "extensions (extension_list es @ r) = extensions r"
  using assms
proof (induction es)
  case (Cons e es)
  then show ?case by (cases e) (simp add: extension_list_def extensions_step)
qed (simp add: extension_list_def)

lemma extension_list_member: "(tp, d) \<in> set es \<Longrightarrow> length d \<le> length (extension_list es)"
  by (induction es) (auto simp: extension_list_def extension_def vec16_def)

lemma name_list_member: "(tp, d) \<in> set ns \<Longrightarrow> length d \<le> length (name_list ns)"
  by (induction ns) (auto simp: name_list_def vec16_def)

lemma vec8_length: "length d < 256 \<Longrightarrow> unat (word_of_nat (length d) :: 8 word) = length d"
  by (simp add: unsigned_of_nat take_bit_nat_eq_self)

lemma ReadClientHello_extensions:
  assumes "hello_ok h"
  shows "ReadClientHello (hello_bytes h) = extensions (extension_list (h_extensions h))"
proof -
  note ok = assms [unfolded hello_ok_def]
  let ?pre = "[1] @ h_len h @ h_version h @ h_random h"
  let ?c = "vec16 (h_ciphers h)" and ?m = "vec8 (h_compression h)" and ?e = "extension_list (h_extensions h)"
  let ?r = "?c @ ?m @ vec16 ?e"
  have hb: "hello_bytes h = ?pre @ vec8 (h_session h) @ ?r" by (simp add: hello_bytes_def)
  have pre: "length ?pre = 38" using ok by simp
  have total: "length (h_ciphers h) < 2 ^ 16" "length ?e < 2 ^ 16"
    using ok by (simp_all add: hello_bytes_def vec16_def)
  have sid: "unat (word_of_nat (length (h_session h)) :: 8 word) = length (h_session h)"
    using ok by (intro vec8_length) simp
  have comp: "unat (word_of_nat (length (h_compression h)) :: 8 word) = length (h_compression h)"
    using ok by (intro vec8_length) simp
  have len: "length (hello_bytes h) = 39 + length (h_session h) + length ?r"
    unfolding hb using pre by (simp only: length_append) (simp add: vec8_def)
  have r: "5 \<le> length ?r" by (simp add: vec16_def vec8_def)
  have "hello_bytes h ! 38 = word_of_nat (length (h_session h))"
    unfolding hb using pre by (simp only: nth_append) (simp add: vec8_def)
  then have a0: "at (hello_bytes h) 38 f = f (word_of_nat (length (h_session h)))" for f :: "8 word \<Rightarrow> (sniff_error, string) outcome"
    using len r by (simp only: at_def) simp
  have s0: "slice_from (hello_bytes h) (39 + length (h_session h)) f = f ?r" for f :: "bytes \<Rightarrow> (sniff_error, string) outcome"
  proof -
    have "hello_bytes h = (?pre @ vec8 (h_session h)) @ ?r" by (simp add: hb)
    moreover have "length (?pre @ vec8 (h_session h)) = 39 + length (h_session h)"
      using pre by (simp only: length_append) (simp add: vec8_def)
    ultimately show ?thesis by (metis slice_from_append)
  qed
  have s1: "slice_from ?r (2 + length (h_ciphers h)) f = f (?m @ vec16 ?e)" for f :: "bytes \<Rightarrow> (sniff_error, string) outcome"
    by (rule slice_from_append) (simp add: vec16_def)
  have s2: "slice_from (?m @ vec16 ?e) (1 + length (h_compression h)) f = f (vec16 ?e)" for f :: "bytes \<Rightarrow> (sniff_error, string) outcome"
    by (rule slice_from_append) (simp add: vec8_def)
  have s3: "slice_from (vec16 ?e) 2 f = f ?e" for f :: "bytes \<Rightarrow> (sniff_error, string) outcome"
    unfolding vec16_def by (rule slice_from_append) simp
  have a1: "at16 ?r 0 f = f (length (h_ciphers h))" for f :: "nat \<Rightarrow> (sniff_error, string) outcome"
    using total by (simp add: vec16_def)
  have a2: "at (?m @ vec16 ?e) 0 f = f (word_of_nat (length (h_compression h)))" for f :: "8 word \<Rightarrow> (sniff_error, string) outcome"
    by (simp add: vec8_def)
  have a3: "at16 (vec16 ?e) 0 f = f (length ?e)" for f :: "nat \<Rightarrow> (sniff_error, string) outcome"
    using total by (simp add: vec16_def)
  have c: "(length (hello_bytes h) < 42) = False" "(length (h_session h) > 32 \<or> length (hello_bytes h) < 39 + length (h_session h)) = False"
      "(length ?r < 2) = False" "(length (h_ciphers h) mod 2 = 1 \<or> length ?r < 2 + length (h_ciphers h)) = False"
      "(length (?m @ vec16 ?e) < 1) = False" "(length (?m @ vec16 ?e) < 1 + length (h_compression h)) = False"
      "(length (vec16 ?e) = 0) = False" "(length (vec16 ?e) < 2) = False"
    using len r ok by (simp_all add: vec16_def vec8_def)
  show ?thesis
    by (simp only: ReadClientHello_def Let_def sid comp s0 s1 s2 s3 a0 a1 a2 a3 c if_False simp_thms)
qed

text \<open>C23. The sniffer reads the server name of every well-formed client hello whose record is complete,
  whatever follows the record.\<close>

theorem SniffTLS_name:
  assumes "hello_ok h" "h_extensions h = before @ (0, vec16 (name_list (ns @ (0, name) # ms))) # after"
    and "list_all (\<lambda>(tp, d). tp \<noteq> 0) before" "list_all (\<lambda>(tp, n). tp \<noteq> 0) ns"
    and "\<not> has_suffix (bytes_string name) ''.''"
  shows "SniffTLS (tls_record minor (hello_bytes h) @ rest) = Value (bytes_string name)"
proof -
  note ok = assms(1) [unfolded hello_ok_def]
  have lens: "length (hello_bytes h) < 2 ^ 16" "length (extension_list (h_extensions h)) < 2 ^ 16"
    using ok by (simp_all add: hello_bytes_def vec16_def)
  have member: "length d < 2 ^ 16" if "(tp, d) \<in> set (h_extensions h)" for tp d
  proof -
    have "length d \<le> length (extension_list (h_extensions h))"
      using that by (rule extension_list_member)
    with lens(2) show ?thesis by simp
  qed
  let ?ns = "ns @ (0, name) # ms"
  have sni: "length (vec16 (name_list ?ns)) < 2 ^ 16" by (rule member [of 0]) (simp add: assms(2))
  then have names: "length (name_list ?ns) < 2 ^ 16" by (simp add: vec16_def)
  have name: "length n < 2 ^ 16" if "(tp, n) \<in> set ?ns" for tp n
    using name_list_member [OF that] names by simp
  have "list_all (\<lambda>(tp, d). 0 < tp \<and> tp < 2 ^ 16 \<and> length d < 2 ^ 16) before"
  proof -
    have "tp < 2 ^ 16" if "(tp, d) \<in> set before" for tp d
      using assms(1,2) that by (force simp: hello_ok_def list_all_iff)
    moreover have "length d < 2 ^ 16" if "(tp, d) \<in> set before" for tp d
      using member [of tp d] that by (simp add: assms(2))
    ultimately show ?thesis using assms(3) by (fastforce simp: list_all_iff)
  qed
  then have "extensions (extension_list (h_extensions h)) =
      extensions (extension 0 (vec16 (name_list ?ns)) @ extension_list after)"
    using extensions_skip [of before] by (simp add: assms(2) extension_list_def)
  moreover have "list_all (\<lambda>(tp, n). tp \<noteq> 0 \<and> length n < 2 ^ 16) ns"
    using assms(4) name by (auto simp: list_all_iff)
  then have "sni_extension (vec16 (name_list ?ns)) = Value (Some (bytes_string name))"
    using sni_names_found [of ns name ms] name [of 0 name] assms(5) names
    by (simp add: sni_extension_vec16)
  ultimately have "ReadClientHello (hello_bytes h) = Value (bytes_string name)"
    using sni by (simp add: ReadClientHello_extensions [OF assms(1)] extensions_step)
  moreover have "slice (tls_record minor (hello_bytes h) @ rest) 5 (5 + length (hello_bytes h)) f = f (hello_bytes h)"
    for f :: "bytes \<Rightarrow> (sniff_error, string) outcome"
    by (simp add: slice_def tls_record_def vec16_def be16_def)
  moreover have "at16 (tls_record minor (hello_bytes h) @ rest) 3 f = f (length (hello_bytes h))"
    for f :: "nat \<Rightarrow> (sniff_error, string) outcome"
    using be16_value [OF lens(1)] by (simp add: tls_record_def vec16_def at16_def at_def be16_def)
  ultimately show ?thesis
    by (simp add: SniffTLS_def) (simp add: tls_record_def vec16_def at_def IsValidTLSVersion_def)
qed

section \<open>The theorems at work\<close>

definition demo_hello :: hello where
  "demo_hello = \<lparr>h_len = [0, 0, 0], h_version = [3, 3], h_random = replicate 32 7, h_session = [9], h_ciphers = [0x13, 1],
     h_compression = [0], h_extensions = [(10, [0, 2, 0, 29]), (0, vec16 (name_list [(0, string_bytes ''a.io'')])), (16, [])]\<rparr>"

lemma SniffTLS_name_witness: "SniffTLS (tls_record 1 (hello_bytes demo_hello) @ [1, 2]) = Value ''a.io''"
proof -
  have name: "bytes_string (string_bytes ''a.io'') = ''a.io''" by code_simp
  have suf: "\<not> has_suffix ''a.io'' ''.''" by (simp add: has_suffix_def suffix_to_prefix)
  have "hello_ok demo_hello"
    by (simp add: hello_ok_def demo_hello_def hello_bytes_def extension_list_def extension_def name_list_def vec8_def vec16_def string_bytes_def)
  from SniffTLS_name [OF this, of "[(10, [0, 2, 0, 29])]" "[]" "string_bytes ''a.io''" "[]" "[(16, [])]" 1 "[1, 2]"] show ?thesis
    by (simp add: demo_hello_def name suf)
qed

lemma SniffTLS_need_suffices_witness:
  "SniffTLS ([0x16, 3, 1, 0, 3, 1] @ [2, 3, 4]) = SniffTLS (take 8 ([0x16, 3, 1, 0, 3, 1] @ [2, 3, 4]))"
proof -
  have "SniffTLS [0x16, 3, 1, 0, 3, 1] = Error (ErrNeedAtLeastData 8)" by (simp add: SniffTLS_need)
  from SniffTLS_need_suffices [OF this, of "[2, 3, 4]" 0] show ?thesis by simp
qed

end
