(* ===== verification/Sniffer.thy ===== *)
theory Sniffer
  imports TlsSniffer Ranges Metadata LruMemory
begin

text \<open>
  The rest of \<^verbatim>\<open>component/sniffer\<close> for stream connections: \<^verbatim>\<open>http_sniffer.go\<close>, \<^verbatim>\<open>base_sniffer.go\<close> and the
  TCP side of \<^verbatim>\<open>dispatcher.go\<close>, over the buffered reader of \<^verbatim>\<open>common/net/bufconn.go\<close>.

  The standard \<^verbatim>\<open>bufio.Reader\<close> has a buffer of 4096 bytes. What arrives on the connection is a list;
  its end means that nothing arrives before the deadline. A map of sniffers is a list in the order in which a
  loop visits it, and two loops may visit it in different orders. The matchers of the configuration
  and \<^verbatim>\<open>IsDomainName\<close> of a third-party package are parameters.
\<close>

section \<open>HTTP\<close>

definition methods :: "string list" where
  "methods = [''get'', ''post'', ''head'', ''put'', ''delete'', ''options'', ''connect'', ''patch'', ''trace'']"

fun method_loop :: "string list \<Rightarrow> string \<Rightarrow> sniff_error option" where
  "method_loop [] b = Some ErrNotHTTPMethod"
| "method_loop (m # ms) b =
     (if length b \<ge> length m \<and> to_lower (take (length m) b) = m then None
      else if length b < length m then Some ErrNoClue
      else method_loop ms b)"

definition beginWithHTTPMethod :: "string \<Rightarrow> sniff_error option" where
  "beginWithHTTPMethod b = method_loop methods b"

text \<open>\<^verbatim>\<open>net.SplitHostPort\<close> with its error: \<open>True\<close> for the one that says that the port is missing.\<close>

definition split_host_port :: "string \<Rightarrow> bool + string \<times> string" where
  "split_host_port hp =
     (if CHR '':'' \<notin> set hp then Inl True
      else
        let port = rev (takeWhile (\<lambda>ch. ch \<noteq> CHR '':'') (rev hp));
            i = length hp - length port - 1
        in if hd hp = CHR ''['' then
             (if CHR '']'' \<notin> set hp then Inl False
              else let e = length (takeWhile (\<lambda>ch. ch \<noteq> CHR '']'') hp) in
                if e + 1 = length hp then Inl True
                else if e + 1 = i then
                  (if CHR ''['' \<in> set (drop 1 hp) \<or> CHR '']'' \<in> set (drop (e + 1) hp) then Inl False
                   else Inr (take (e - 1) (drop 1 hp), port))
                else if hp ! (e + 1) = CHR '':'' then Inl False else Inl True)
           else if CHR '':'' \<in> set (take i hp) then Inl False
           else if CHR ''['' \<in> set hp \<or> CHR '']'' \<in> set hp then Inl False
           else Inr (take i hp, port))"

definition parseHost :: "string \<Rightarrow> (sniff_error, string) outcome" where
  "parseHost host =
     (if has_prefix host ''['' \<and> has_suffix host '']'' \<and> is_ip_text (take (length host - 2) (drop 1 host)) then Error ErrHostIsIP
      else if is_ip_text host then Error ErrHostIsIP
      else Value host)"

definition sniff_host :: "string \<Rightarrow> (sniff_error, string) outcome" where
  "sniff_host v =
     (let rawHost = to_lower (trim_space v) in
      case split_host_port rawHost of
        Inl missingPort \<Rightarrow> if missingPort then parseHost rawHost else Error ErrAddress
      | Inr (host, _) \<Rightarrow> if is_ip_text host then Error ErrHostIsIP else Value host)"

fun header_loop :: "string list \<Rightarrow> (sniff_error, string) outcome" where
  "header_loop [] = Error ErrNoClue"
| "header_loop (header # headers) =
     (if length header = 0 then Error ErrNoClue
      else if CHR '':'' \<notin> set header then header_loop headers
      else if to_lower (takeWhile (\<lambda>ch. ch \<noteq> CHR '':'') header) = ''host''
      then sniff_host (tl (dropWhile (\<lambda>ch. ch \<noteq> CHR '':'') header))
      else header_loop headers)"

definition SniffHTTP :: "bytes \<Rightarrow> (sniff_error, string) outcome" where
  "SniffHTTP b =
     (case beginWithHTTPMethod (bytes_string b) of
        Some e \<Rightarrow> Error e
      | None \<Rightarrow> header_loop (tl (split_on (CHR 0x0A) (bytes_string b))))"

section \<open>Sniffers\<close>

datatype sniffer_type = SnifferTLS | SnifferHTTP | SnifferQUIC

fun sniffer_type_String :: "sniffer_type \<Rightarrow> string" where
  "sniffer_type_String SnifferTLS = ''TLS''"
| "sniffer_type_String SnifferHTTP = ''HTTP''"
| "sniffer_type_String SnifferQUIC = ''QUIC''"

record SnifferConfig =
  OverrideDest :: bool
  Ports :: "16 word range list"

record sniffer =
  s_type :: sniffer_type
  s_ports :: "16 word range list"
  s_network :: NetWork

fun NewSniffer :: "sniffer_type \<Rightarrow> SnifferConfig \<Rightarrow> sniffer" where
  "NewSniffer SnifferTLS c =
     \<lparr>s_type = SnifferTLS, s_ports = (if length (Ports c) = 0 then [NewRange 443 443] else Ports c), s_network = TCP\<rparr>"
| "NewSniffer SnifferHTTP c =
     \<lparr>s_type = SnifferHTTP, s_ports = (if length (Ports c) = 0 then [NewRange 80 80] else Ports c), s_network = TCP\<rparr>"
| "NewSniffer SnifferQUIC c =
     \<lparr>s_type = SnifferQUIC, s_ports = (if length (Ports c) = 0 then [NewRange 443 443] else Ports c), s_network = UDP\<rparr>"

definition SupportPort :: "sniffer \<Rightarrow> 16 word \<Rightarrow> bool" where
  "SupportPort s port = Check (s_ports s) port"

fun SniffData :: "sniffer_type \<Rightarrow> bytes \<Rightarrow> (sniff_error, string) outcome" where
  "SniffData SnifferTLS b = SniffTLS b"
| "SniffData SnifferHTTP b = SniffHTTP b"
| "SniffData SnifferQUIC b = Error ErrUnsupported"

section \<open>The buffered connection\<close>

datatype read_error = OpError | OtherError | BufferFull

datatype arrival = Arrived bytes | Failed read_error

record conn =
  c_buf :: bytes
  c_arrivals :: "arrival list"
  c_closed :: bool

text \<open>\<^verbatim>\<open>bufio.Reader.Peek\<close>: reads until the buffer has \<open>n\<close> bytes or is full.\<close>

fun peek_fill :: "nat \<Rightarrow> bytes \<Rightarrow> arrival list \<Rightarrow> bytes \<times> arrival list \<times> read_error option" where
  "peek_fill n buf [] = (buf, [], if length buf < n \<and> length buf < 4096 then Some OpError else None)"
| "peek_fill n buf (a # as) =
     (if length buf < n \<and> length buf < 4096 then
        (case a of
           Failed e \<Rightarrow> (buf, as, Some e)
         | Arrived d \<Rightarrow>
             let room = 4096 - length buf in
             if length d \<le> room then peek_fill n (buf @ d) as
             else (buf @ take room d, Arrived (drop room d) # as, None))
      else (buf, a # as, None))"

definition Peek :: "nat \<Rightarrow> conn \<Rightarrow> (read_error + bytes) \<times> conn" where
  "Peek n c =
     (let (buf, as, err) = peek_fill n (c_buf c) (c_arrivals c);
          c = c\<lparr>c_buf := buf, c_arrivals := as\<rparr>
      in (if n > 4096 then Inl BufferFull
          else if length buf < n then Inl (case err of Some e \<Rightarrow> e | None \<Rightarrow> BufferFull)
          else Inr (take n buf), c))"

section \<open>The dispatcher\<close>

type_synonym ('l, 'n) skip_pkg = "(addr \<times> 16 word, 8 word, 'l, 'n) lru_pkg"

type_synonym ('l, 'n) skip_list = "(addr \<times> 16 word, 8 word, 'l, 'n) LruCache"

record Dispatcher =
  enable :: bool
  forceDomain :: "(string \<Rightarrow> bool) list"
  skipSrcAddress :: "(addr \<Rightarrow> bool) list"
  skipDstAddress :: "(addr \<Rightarrow> bool) list"
  skipDomain :: "(string \<Rightarrow> bool) list"
  forceDnsMapping :: bool
  parsePureIp :: bool

definition new_skipList :: "('l, 'n) skip_pkg \<Rightarrow> ('l, 'n) skip_list" where
  "new_skipList pkg = lru_New pkg 600 128 False False False"

definition forceSniff :: "Dispatcher \<Rightarrow> Metadata \<Rightarrow> bool" where
  "forceSniff sd m = list_ex (\<lambda>f. f (Host m)) (forceDomain sd)"

definition shouldOverride :: "Dispatcher \<Rightarrow> Metadata \<Rightarrow> bool" where
  "shouldOverride sd m =
     (if list_ex (\<lambda>f. f (DstIP m)) (skipDstAddress sd) then False
      else if list_ex (\<lambda>f. f (SrcIP m)) (skipSrcAddress sd) then False
      else if Host m = '''' \<and> parsePureIp sd then True
      else if DNSMode m = DNSMapping \<and> forceDnsMapping sd then True
      else forceSniff sd m)"

definition replaceDomain :: "Metadata \<Rightarrow> string \<Rightarrow> bool \<Rightarrow> Metadata" where
  "replaceDomain m host overrideDest =
     (let m = m\<lparr>SniffHost := host\<rparr>;
          m = (if overrideDest then m\<lparr>Host := host, DstIP := NoAddr\<rparr> else m)
      in m\<lparr>DNSMode := DNSNormal\<rparr>)"

definition domainCanReplace :: "(string \<Rightarrow> bool) \<Rightarrow> Dispatcher \<Rightarrow> string \<Rightarrow> bool" where
  "domainCanReplace IsDomainName sd host =
     (if host = ''.'' \<or> \<not> IsDomainName host then False else \<not> list_ex (\<lambda>f. f host) (skipDomain sd))"

definition cacheSniffFailed :: "('l, 'n) skip_pkg \<Rightarrow> int \<Rightarrow> Metadata \<Rightarrow> ('l, 'n) skip_list \<Rightarrow> ('l, 'n) skip_list" where
  "cacheSniffFailed pkg now m skip =
     snd (lru_Compute pkg now (AddrPort m)
       (\<lambda>old. let oldValue = (case old of Some n \<Rightarrow> n | None \<Rightarrow> 0) in
              (if oldValue \<le> 5 then oldValue + 1 else oldValue, False)) skip)"

text \<open>The second try of a sniffer that asked for more data.\<close>

definition sniff_conn :: "sniffer_type \<Rightarrow> conn \<Rightarrow> (sniff_error, string) outcome \<times> conn" where
  "sniff_conn tp c =
     (case Peek (length (c_buf c)) c of
        (Inl e, c) \<Rightarrow> (Error ErrNoClue, c)
      | (Inr b, c) \<Rightarrow>
          (case SniffData tp b of
             Error (ErrNeedAtLeastData n) \<Rightarrow>
               (case Peek n c of
                  (Inl e, c) \<Rightarrow> (Error ErrNoClue, c)
                | (Inr b, c) \<Rightarrow> (SniffData tp b, c))
           | r \<Rightarrow> (r, c)))"

primrec sniffDomain :: "('l, 'n) skip_pkg \<Rightarrow> int \<Rightarrow> Metadata \<Rightarrow> (sniffer \<times> SnifferConfig) list \<Rightarrow> conn \<Rightarrow> ('l, 'n) skip_list \<Rightarrow>
    string option \<times> conn \<times> ('l, 'n) skip_list" where
  "sniffDomain pkg now m [] c skip = (None, c, skip)"
| "sniffDomain pkg now m (sc # ss) c skip =
     (if s_network (fst sc) = TCP \<and> SupportPort (fst sc) (DstPort m) then
        (case Peek 1 c of
           (Inl e, c) \<Rightarrow>
             if e = OpError then (None, c\<lparr>c_closed := True\<rparr>, cacheSniffFailed pkg now m skip)
             else (None, c, skip)
         | (Inr _, c) \<Rightarrow>
             (case sniff_conn (s_type (fst sc)) c of
                (Value host, c) \<Rightarrow>
                  if ParseAddr host \<noteq> None then sniffDomain pkg now m ss c skip else (Some host, c, skip)
              | (_, c) \<Rightarrow> sniffDomain pkg now m ss c skip))
      else sniffDomain pkg now m ss c skip)"

definition stream_sniffer :: "16 word \<Rightarrow> sniffer \<times> SnifferConfig \<Rightarrow> bool" where
  "stream_sniffer port sc \<longleftrightarrow> (s_network (fst sc) = TCP \<or> s_network (fst sc) = ALLNet) \<and> SupportPort (fst sc) port"

text \<open>\<^verbatim>\<open>TCPSniff\<close>: \<open>order\<^sub>1\<close> and \<open>order\<^sub>2\<close> are the orders in which the two loops visit the sniffers.\<close>

definition TCPSniff :: "('l, 'n) skip_pkg \<Rightarrow> (string \<Rightarrow> bool) \<Rightarrow> int \<Rightarrow> Dispatcher \<Rightarrow> (sniffer \<times> SnifferConfig) list \<Rightarrow>
    (sniffer \<times> SnifferConfig) list \<Rightarrow> Metadata \<Rightarrow> conn \<Rightarrow> ('l, 'n) skip_list \<Rightarrow> bool \<times> Metadata \<times> conn \<times> ('l, 'n) skip_list" where
  "TCPSniff pkg IsDomainName now sd order1 order2 m c skip =
     (if shouldOverride sd m then
        (case List.find (stream_sniffer (DstPort m)) order1 of
           None \<Rightarrow> (False, m, c, skip)
         | Some sc \<Rightarrow>
             let overrideDest = OverrideDest (snd sc);
                 forceSniffer = forceSniff sd m;
                 dst = AddrPort m;
                 (count, skip) = (if forceSniffer then (None, skip) else lru_Get pkg now dst skip)
             in if (case count of Some n \<Rightarrow> n > 5 | None \<Rightarrow> False) then (False, m, c, skip)
                else
                  (case sniffDomain pkg now m order2 c skip of
                     (None, c, skip) \<Rightarrow> (False, m, c, if forceSniffer then skip else cacheSniffFailed pkg now m skip)
                   | (Some host, c, skip) \<Rightarrow>
                       if \<not> domainCanReplace IsDomainName sd host then (False, m, c, skip)
                       else (True, replaceDomain m host overrideDest, c, lru_Delete pkg dst skip)))
      else (False, m, c, skip))"

section \<open>What sniffing may do\<close>

text \<open>The bytes of the connection that no one has read: in the buffer and still to arrive.\<close>

definition pending :: "conn \<Rightarrow> bytes" where
  "pending c = c_buf c @ concat (map (\<lambda>a. case a of Arrived d \<Rightarrow> d | Failed e \<Rightarrow> []) (c_arrivals c))"

lemma peek_fill_pending:
  assumes "peek_fill n (c_buf c) (c_arrivals c) = (buf, as, err)"
  shows "pending (c\<lparr>c_buf := buf, c_arrivals := as\<rparr>) = pending c"
proof -
  have "peek_fill n b as0 = (buf, as, err) \<Longrightarrow>
      buf @ concat (map (\<lambda>a. case a of Arrived d \<Rightarrow> d | Failed e \<Rightarrow> []) as) =
      b @ concat (map (\<lambda>a. case a of Arrived d \<Rightarrow> d | Failed e \<Rightarrow> []) as0)" for b as0
    by (induction n b as0 rule: peek_fill.induct)
      (auto simp: Let_def split: if_splits arrival.splits)
  with assms show ?thesis by (simp add: pending_def)
qed

lemma Peek_pending:
  assumes "Peek n c = (r, c')"
  shows "pending c' = pending c \<and> (\<forall>b. r = Inr b \<longrightarrow> prefix b (pending c))"
proof -
  obtain buf as err where p: "peek_fill n (c_buf c) (c_arrivals c) = (buf, as, err)" by (metis prod_cases3)
  note pend = peek_fill_pending [OF p]
  have "c' = c\<lparr>c_buf := buf, c_arrivals := as\<rparr> \<or> (\<exists>e. c' = c\<lparr>c_buf := buf, c_arrivals := Failed e # as\<rparr>)"
    using assms p by (auto simp: Peek_def split: if_splits option.splits)
  then have "pending c' = pending (c\<lparr>c_buf := buf, c_arrivals := as\<rparr>)" by (auto simp: pending_def)
  moreover have "prefix b buf" if "r = Inr b" for b
    using assms p that by (auto simp: Peek_def take_is_prefix split: if_splits)
  moreover have "prefix buf (pending (c\<lparr>c_buf := buf, c_arrivals := as\<rparr>))" by (simp add: pending_def)
  ultimately show ?thesis using pend by (metis prefix_order.trans)
qed

lemma sniff_conn_pending:
  assumes "sniff_conn tp c = (r, c')"
  shows "pending c' = pending c \<and> (\<forall>h. r = Value h \<longrightarrow> (\<exists>b. prefix b (pending c) \<and> SniffData tp b = Value h))"
proof -
  obtain r1 c1 where p1: "Peek (length (c_buf c)) c = (r1, c1)" by fastforce
  note pend1 = Peek_pending [OF p1]
  show ?thesis
  proof (cases r1)
    case (Inl e)
    with assms p1 pend1 show ?thesis by (auto simp: sniff_conn_def)
  next
    case (Inr b)
    show ?thesis
    proof (cases "\<exists>n. SniffData tp b = Error (ErrNeedAtLeastData n)")
      case True
      then obtain n where n: "SniffData tp b = Error (ErrNeedAtLeastData n)" by blast
      obtain r2 c2 where p2: "Peek n c1 = (r2, c2)" by fastforce
      from Peek_pending [OF p2] pend1 assms p1 Inr n p2 show ?thesis
        by (cases r2) (auto simp: sniff_conn_def)
    next
      case False
      then have "(r, c') = (SniffData tp b, c1)"
        using assms p1 Inr by (auto simp: sniff_conn_def split: outcome.splits sniff_error.splits)
      with pend1 Inr show ?thesis by auto
    qed
  qed
qed

lemma sniffDomain_result:
  assumes "sniffDomain pkg now m ss c skip = (r, c', skip')"
  shows "pending c' = pending c \<and> (\<forall>h. r = Some h \<longrightarrow> ParseAddr h = None \<and>
    (\<exists>sc\<in>set ss. s_network (fst sc) = TCP \<and> SupportPort (fst sc) (DstPort m) \<and>
      (\<exists>b. prefix b (pending c) \<and> SniffData (s_type (fst sc)) b = Value h)))"
  using assms
proof (induction ss arbitrary: c)
  case (Cons sc ss)
  show ?case
  proof (cases "s_network (fst sc) = TCP \<and> SupportPort (fst sc) (DstPort m)")
    case False
    with Cons show ?thesis by (auto split: if_splits)
  next
    case True
    obtain r1 c1 where p1: "Peek 1 c = (r1, c1)" by fastforce
    note pend1 = Peek_pending [OF p1]
    show ?thesis
    proof (cases r1)
      case (Inl e)
      have closed: "pending (c1\<lparr>c_closed := True\<rparr>) = pending c1" by (simp add: pending_def)
      from Inl Cons.prems True p1 pend1 closed show ?thesis by (auto split: if_splits)
    next
      case (Inr b)
      obtain r2 c2 where s: "sniff_conn (s_type (fst sc)) c1 = (r2, c2)" by fastforce
      note pend2 = sniff_conn_pending [OF s]
      consider (found) h where "r2 = Value h" "ParseAddr h = None"
        | (skipped) "sniffDomain pkg now m (sc # ss) c skip = sniffDomain pkg now m ss c2 skip"
        using True p1 Inr s by (cases r2; cases "ParseAddr (case r2 of Value h \<Rightarrow> h | _ \<Rightarrow> [])") auto
      then show ?thesis
      proof cases
        case found
        with Cons.prems True p1 Inr s pend1 pend2 show ?thesis by auto
      next
        case skipped
        with Cons.prems have "sniffDomain pkg now m ss c2 skip = (r, c', skip')" by simp
        from Cons.IH [OF this] pend1 pend2 show ?thesis by auto
      qed
    qed
  qed
qed simp

lemma TCPSniff_cases:
  assumes "TCPSniff pkg dn now sd order1 order2 m c skip = (sniffed, m', c', skip')"
  shows "pending c' = pending c \<and>
    (if sniffed then \<exists>h sc1 sc2 b. sc1 \<in> set order1 \<and> stream_sniffer (DstPort m) sc1 \<and> m' = replaceDomain m h (OverrideDest (snd sc1)) \<and>
       sc2 \<in> set order2 \<and> SupportPort (fst sc2) (DstPort m) \<and> prefix b (pending c) \<and> SniffData (s_type (fst sc2)) b = Value h \<and>
       ParseAddr h = None \<and> domainCanReplace dn sd h
     else m' = m)"
proof -
  consider (off) "\<not> shouldOverride sd m" | (none) "List.find (stream_sniffer (DstPort m)) order1 = None"
    | (on) sc where "shouldOverride sd m" "List.find (stream_sniffer (DstPort m)) order1 = Some sc" by fastforce
  then show ?thesis
  proof cases
    case on
    have sc: "sc \<in> set order1" "stream_sniffer (DstPort m) sc" using on(2) by (auto simp: find_Some_iff)
    obtain count skip1 where g: "(if forceSniff sd m then (None, skip) else lru_Get pkg now (AddrPort m) skip) = (count, skip1)"
      by fastforce
    obtain r c2 skip2 where d: "sniffDomain pkg now m order2 c skip1 = (r, c2, skip2)" by (metis prod_cases3)
    note res = sniffDomain_result [OF d]
    have eq: "(sniffed, m', c', skip') =
        (if (case count of Some n \<Rightarrow> n > 5 | None \<Rightarrow> False) then (False, m, c, skip1)
         else (case r of
             None \<Rightarrow> (False, m, c2, if forceSniff sd m then skip2 else cacheSniffFailed pkg now m skip2)
           | Some h \<Rightarrow> if \<not> domainCanReplace dn sd h then (False, m, c2, skip2)
               else (True, replaceDomain m h (OverrideDest (snd sc)), c2, lru_Delete pkg (AddrPort m) skip2)))"
      using assms by (simp only: TCPSniff_def on if_True option.case Let_def g prod.case d)
    show ?thesis
    proof (cases r)
      case None
      with eq res show ?thesis by (auto split: if_splits)
    next
      case (Some h)
      from res Some obtain sc2 b where r: "pending c2 = pending c" "ParseAddr h = None" "sc2 \<in> set order2"
          "SupportPort (fst sc2) (DstPort m)" "prefix b (pending c)" "SniffData (s_type (fst sc2)) b = Value h"
        by blast
      show ?thesis
      proof (cases "(case count of Some n \<Rightarrow> n > 5 | None \<Rightarrow> False) \<or> \<not> domainCanReplace dn sd h")
        case True
        with eq Some r(1) show ?thesis by (auto split: if_splits)
      next
        case False
        with eq Some have "sniffed" "m' = replaceDomain m h (OverrideDest (snd sc))" "c' = c2" by auto
        then show ?thesis using r sc False by (simp only: if_True) blast
      qed
    qed
  qed (use assms in \<open>auto simp: TCPSniff_def split: if_splits\<close>)
qed

lemma TCPSniff_frame:
  assumes "TCPSniff pkg dn now sd order1 order2 m c skip = (sniffed, m', c', skip')"
  shows "if sniffed then \<exists>h. \<exists>sc\<in>set order1. m' = replaceDomain m h (OverrideDest (snd sc)) else m' = m"
  using TCPSniff_cases [OF assms] by (cases sniffed) (simp_all only: if_True if_False, blast+)

text \<open>C25. Sniffing a connection takes no byte from it and changes the metadata only by a name
  that stands at the start of its data, that a sniffer for its port has read, that is no address and that the
  configuration lets replace.\<close>

theorem TCPSniff_result:
  assumes "TCPSniff pkg dn now sd order1 order2 m c skip = (sniffed, m', c', skip')"
  shows "pending c' = pending c \<and>
    (if sniffed then \<exists>h sc1 sc2 b. sc1 \<in> set order1 \<and> stream_sniffer (DstPort m) sc1 \<and> m' = replaceDomain m h (OverrideDest (snd sc1)) \<and>
       sc2 \<in> set order2 \<and> SupportPort (fst sc2) (DstPort m) \<and> prefix b (pending c) \<and> SniffData (s_type (fst sc2)) b = Value h \<and>
       ParseAddr h = None \<and> domainCanReplace dn sd h
     else m' = m)"
  using TCPSniff_cases [OF assms] .

section \<open>The list of destinations to skip\<close>

lemma cacheSniffFailed_counts:
  assumes "list_laws pkg elems ok" "plain_cache elems ok 600 128 skip"
  shows "plain_cache elems ok 600 128 (cacheSniffFailed pkg now m skip)"
    and "remembers elems (AddrPort m) n ex skip \<Longrightarrow> now < ex \<Longrightarrow>
      remembers elems (AddrPort m) (if n \<le> 5 then n + 1 else n) (now + 600) (cacheSniffFailed pkg now m skip)"
    and "lookup_key (AddrPort m) (lru_view elems skip) = None \<Longrightarrow>
      remembers elems (AddrPort m) 1 (now + 600) (cacheSniffFailed pkg now m skip)"
proof -
  let ?f = "\<lambda>old. let oldValue = (case old of Some n \<Rightarrow> n | None \<Rightarrow> (0 :: 8 word)) in if oldValue \<le> 5 then oldValue + 1 else oldValue"
  have f: "?f (Some n) = (if n \<le> 5 then n + 1 else n)" "?f None = 1" by simp_all
  obtain r skip' where c: "lru_Compute pkg now (AddrPort m) (\<lambda>old. (?f old, False)) skip = (r, skip')" by fastforce
  then have s: "cacheSniffFailed pkg now m skip = skip'"
    by (simp add: cacheSniffFailed_def Let_def)
  note comp = plain_cache_Compute [OF assms(1,2) _ _ c]
  show "plain_cache elems ok 600 128 (cacheSniffFailed pkg now m skip)" using comp(1) by (simp add: s)
  show "remembers elems (AddrPort m) n ex skip \<Longrightarrow> now < ex \<Longrightarrow>
      remembers elems (AddrPort m) (if n \<le> 5 then n + 1 else n) (now + 600) (cacheSniffFailed pkg now m skip)"
    using comp(2) [of n ex] f by (simp add: s)
  show "lookup_key (AddrPort m) (lru_view elems skip) = None \<Longrightarrow>
      remembers elems (AddrPort m) 1 (now + 600) (cacheSniffFailed pkg now m skip)"
    using comp(3) f by (simp add: s)
qed

text \<open>A connection on which nothing arrives in time.\<close>

definition silent :: "conn \<Rightarrow> bool" where
  "silent c \<longleftrightarrow> c_buf c = [] \<and> c_arrivals c = []"

lemma Peek_silent: "silent c \<Longrightarrow> Peek 1 c = (Inl OpError, c)"
  by (simp add: silent_def Peek_def)

lemma sniffDomain_silent:
  assumes "silent c" "\<exists>sc\<in>set ss. s_network (fst sc) = TCP \<and> SupportPort (fst sc) (DstPort m)"
  shows "sniffDomain pkg now m ss c skip = (None, c\<lparr>c_closed := True\<rparr>, cacheSniffFailed pkg now m skip)"
  using assms(2) by (induction ss) (auto simp: Peek_silent [OF assms(1), simplified])

lemma TCPSniff_silent:
  assumes "list_laws pkg elems ok" "plain_cache elems ok 600 128 skip"
    and "shouldOverride sd m" "\<not> forceSniff sd m" "\<exists>sc\<in>set order. stream_sniffer (DstPort m) sc \<and> s_network (fst sc) = TCP"
    and "silent c" "TCPSniff pkg dn now sd order order m c skip = (b, m', c', skip')"
    and "lookup_key (AddrPort m) (lru_view elems skip) = None \<and> v = 2 \<or>
      remembers elems (AddrPort m) n ex skip \<and> now < ex \<and> n \<le> 4 \<and> v = n + 2"
  shows "plain_cache elems ok 600 128 skip' \<and> remembers elems (AddrPort m) v (now + 600) skip'"
proof -
  obtain sc where sc: "List.find (stream_sniffer (DstPort m)) order = Some sc"
    using assms(5) by (metis find_None_iff not_Some_eq)
  obtain count skip1 where g: "lru_Get pkg now (AddrPort m) skip = (count, skip1)" by fastforce
  note ok1 = plain_cache_Get(1) [OF assms(1,2) g]
  have small: "n \<le> 4 \<Longrightarrow> \<not> 5 < n" for n :: "8 word" by (simp add: word_le_nat_alt word_less_nat_alt)
  have few: "\<not> (case count of Some n \<Rightarrow> n > 5 | None \<Rightarrow> False)"
    and at1: "lookup_key (AddrPort m) (lru_view elems skip1) = None \<and> v = 2 \<or>
      remembers elems (AddrPort m) n ex skip1 \<and> now < ex \<and> n \<le> 4 \<and> v = n + 2"
    using assms(8) plain_cache_Get(2) [OF assms(1,2) g, of n ex] plain_cache_Get_none [OF assms(1,2) _ g]
    using small by auto
  have d: "sniffDomain pkg now m order c skip1 = (None, c\<lparr>c_closed := True\<rparr>, cacheSniffFailed pkg now m skip1)"
    using assms(5,6) by (intro sniffDomain_silent) (auto simp: stream_sniffer_def)
  have "(b, m', c', skip') = (False, m, c\<lparr>c_closed := True\<rparr>, cacheSniffFailed pkg now m (cacheSniffFailed pkg now m skip1))"
    using assms(7) by (simp only: TCPSniff_def assms(3,4) sc if_True if_False option.case Let_def g prod.case few d)
  then have skip': "skip' = cacheSniffFailed pkg now m (cacheSniffFailed pkg now m skip1)" by (metis snd_conv)
  note f1 = cacheSniffFailed_counts [OF assms(1) ok1, where m = m and now = now]
  note f2 = cacheSniffFailed_counts [OF assms(1) f1(1), where m = m and now = now]
  from at1 show ?thesis
  proof (elim disjE conjE)
    assume none: "lookup_key (AddrPort m) (lru_view elems skip1) = None" "v = 2"
    from f2(2) [OF f1(3) [OF none(1)]] f2(1) none(2) show ?thesis by (simp add: skip')
  next
    assume r: "remembers elems (AddrPort m) n ex skip1" "now < ex" "n \<le> 4" "v = n + 2"
    have n: "n \<le> 5" "n + 1 \<le> 5" using r(3) by (simp_all add: word_le_nat_alt unat_word_ariths)
    from f2(2) [OF f1(2) [OF r(1,2)]] f2(1) n r(4) show ?thesis by (simp add: skip' add.assoc)
  qed
qed

text \<open>A destination is sniffed no more after failures: a silent connection counts twice, so after
  three of them within ten minutes of each other the next connection is let through without sniffing, as
  it came, although the limit is five failures.\<close>

theorem silent_connections_skipped:
  assumes "list_laws pkg elems ok" "plain_cache elems ok 600 128 skip" "lookup_key (AddrPort m) (lru_view elems skip) = None"
    and "shouldOverride sd m" "\<not> forceSniff sd m" "\<exists>sc\<in>set order. stream_sniffer (DstPort m) sc \<and> s_network (fst sc) = TCP"
    and "silent c1" "silent c2" "silent c3" "t2 < t1 + 600" "t3 < t2 + 600" "t4 < t3 + 600"
    and "TCPSniff pkg dn t1 sd order order m c1 skip = (b1, m1, d1, skip1)"
    and "TCPSniff pkg dn t2 sd order order m c2 skip1 = (b2, m2, d2, skip2)"
    and "TCPSniff pkg dn t3 sd order order m c3 skip2 = (b3, m3, d3, skip3)"
  shows "\<exists>skip4. TCPSniff pkg dn t4 sd order order m c skip3 = (False, m, c, skip4)"
proof -
  note silent = TCPSniff_silent [OF assms(1) _ assms(4-6)]
  have 1: "plain_cache elems ok 600 128 skip1 \<and> remembers elems (AddrPort m) 2 (t1 + 600) skip1"
    using silent [OF assms(2,7,13), of 2] assms(3) by blast
  have 2: "plain_cache elems ok 600 128 skip2 \<and> remembers elems (AddrPort m) 4 (t2 + 600) skip2"
    using silent [OF conjunct1 [OF 1] assms(8,14), of 4 2 "t1 + 600"] 1 assms(10) by simp
  have 3: "plain_cache elems ok 600 128 skip3 \<and> remembers elems (AddrPort m) 6 (t3 + 600) skip3"
    using silent [OF conjunct1 [OF 2] assms(9,15), of 6 4 "t2 + 600"] 2 assms(11) by simp
  obtain count skip4 where g: "lru_Get pkg t4 (AddrPort m) skip3 = (count, skip4)" by fastforce
  have "count = Some 6"
    using plain_cache_Get(2) [OF assms(1) conjunct1 [OF 3] g, of 6 "t3 + 600"] 3 assms(12) by blast
  moreover obtain sc where "List.find (stream_sniffer (DstPort m)) order = Some sc"
    using assms(6) by (metis find_None_iff not_Some_eq)
  ultimately show ?thesis
    by (auto simp: TCPSniff_def assms(4,5) g)
qed

section \<open>The host of a request\<close>

lemma header_loop_skips:
  assumes "list_all (\<lambda>h. h \<noteq> '''' \<and> (CHR '':'' \<in> set h \<longrightarrow> to_lower (takeWhile (\<lambda>ch. ch \<noteq> CHR '':'') h) \<noteq> ''host'')) hs"
  shows "header_loop (hs @ r) = header_loop r"
  using assms by (induction hs) auto

lemma takeWhile_colon: "CHR '':'' \<notin> set k \<Longrightarrow> takeWhile (\<lambda>ch. ch \<noteq> CHR '':'') (k @ CHR '':'' # v) = k"
  by (induction k) auto

lemma dropWhile_colon: "CHR '':'' \<notin> set k \<Longrightarrow> dropWhile (\<lambda>ch. ch \<noteq> CHR '':'') (k @ CHR '':'' # v) = CHR '':'' # v"
  by (induction k) auto

lemma split_on_line: "c \<notin> set l \<Longrightarrow> split_on c (l @ c # r) = l # split_on c r"
  by (induction l) (auto)

lemma split_on_lines:
  "\<forall>l\<in>set ls. c \<notin> set l \<Longrightarrow> split_on c (concat (map (\<lambda>l. l @ [c]) ls) @ r) = ls @ split_on c r"
  by (induction ls) (auto simp: split_on_line)

lemma beginWithHTTPMethod_None:
  assumes "m \<in> set methods" "9 \<le> length b" "prefix m (to_lower b)"
  shows "beginWithHTTPMethod b = None"
  using assms by (auto simp: beginWithHTTPMethod_def methods_def prefix_def to_lower_def take_map [symmetric] split: if_splits)

lemma lower_char_other:
  assumes "of_char c < (97::nat)" "\<not> (65 \<le> (of_char c :: nat) \<and> (of_char c :: nat) \<le> 90)"
  shows "lower_char ch = c \<longleftrightarrow> ch = c"
proof (cases "65 \<le> (of_char ch :: nat) \<and> (of_char ch :: nat) \<le> 90")
  case True
  then have "(of_char (lower_char ch) :: nat) = of_char ch + 32" by (simp add: lower_char_def)
  with True assms show ?thesis by auto
qed (auto simp: lower_char_def Let_def)

lemma lower_char_host [simp]:
  "lower_char ch = CHR '':'' \<longleftrightarrow> ch = CHR '':''" "lower_char ch = CHR ''['' \<longleftrightarrow> ch = CHR ''[''" "lower_char ch = CHR '']'' \<longleftrightarrow> ch = CHR '']''"
  "lower_char ch = CHR 0x0A \<longleftrightarrow> ch = CHR 0x0A"
  by (simp_all add: lower_char_other)

lemma to_lower_eq_Nil [simp]: "to_lower s = [] \<longleftrightarrow> s = []"
  by (simp add: to_lower_def)

lemma set_to_lower [simp]:
  "CHR '':'' \<in> set (to_lower s) \<longleftrightarrow> CHR '':'' \<in> set s" "CHR ''['' \<in> set (to_lower s) \<longleftrightarrow> CHR ''['' \<in> set s"
  "CHR '']'' \<in> set (to_lower s) \<longleftrightarrow> CHR '']'' \<in> set s"
  "CHR 0x0A \<in> set (to_lower s) \<longleftrightarrow> CHR 0x0A \<in> set s"
  unfolding to_lower_def by (induction s) (auto simp: eq_commute [of _ "lower_char _"])

lemma trim_by_middle:
  assumes "list_all p a" "list_all p b" "s \<noteq> []" "\<not> p (hd s)" "\<not> p (last s)"
  shows "trim_by p (a @ s @ b) = s"
proof -
  have d: "list_all p a \<Longrightarrow> dropWhile p (a @ r) = dropWhile p r" for a r by (induction a) auto
  have h: "dropWhile p (s @ r) = s @ r" for r using assms(3,4) by (cases s) auto
  have l: "dropWhile p (rev s) = rev s" using assms(3,5) by (cases "rev s") (auto simp: last_rev hd_rev [symmetric])
  show ?thesis using assms(1,2) by (simp add: trim_by_def d h l list_all_rev)
qed

text \<open>A host name as a client writes it, with or without a port.\<close>

definition plain_host :: "string \<Rightarrow> bool" where
  "plain_host h \<longleftrightarrow> h \<noteq> '''' \<and> list_all (\<lambda>ch. \<not> is_space ch \<and> ch \<notin> set '':[]'') h \<and> \<not> is_ip_text (to_lower h)"

definition port_text :: "string \<Rightarrow> bool" where
  "port_text p \<longleftrightarrow> p = '''' \<or> hd p = CHR '':'' \<and> list_all (\<lambda>ch. \<not> is_space ch \<and> ch \<notin> set '':[]'') (tl p)"

lemma sniff_host_plain:
  assumes "plain_host h" "port_text p" "list_all is_space a" "list_all is_space b"
  shows "sniff_host (a @ (h @ p) @ b) = Value (to_lower h)"
proof -
  have hd: "\<not> is_space (hd (h @ p))" using assms(1) by (cases h) (auto simp: plain_host_def)
  have last: "\<not> is_space (last (h @ p))"
  proof (cases p rule: rev_cases)
    case Nil
    with assms(1) show ?thesis by (cases h rule: rev_cases) (auto simp: plain_host_def)
  next
    case (snoc q x)
    then show ?thesis using assms(2) by (cases q) (auto simp: port_text_def is_space_def)
  qed
  have raw: "to_lower (trim_space (a @ (h @ p) @ b)) = to_lower h @ to_lower p"
  proof -
    have "h @ p \<noteq> []" using assms(1) by (simp add: plain_host_def)
    from trim_by_middle [OF assms(3,4) this hd last] show ?thesis by (simp only: trim_space_def to_lower_append)
  qed
  have h: "to_lower h \<noteq> ''''" "CHR '':'' \<notin> set (to_lower h)" "CHR ''['' \<notin> set (to_lower h)" "CHR '']'' \<notin> set (to_lower h)"
  proof -
    have "h \<noteq> ''''" "list_all (\<lambda>ch. \<not> is_space ch \<and> ch \<notin> set '':[]'') h" using assms(1) unfolding plain_host_def by blast+
    then show "to_lower h \<noteq> ''''" "CHR '':'' \<notin> set (to_lower h)" "CHR ''['' \<notin> set (to_lower h)" "CHR '']'' \<notin> set (to_lower h)"
      by (auto simp: list_all_iff)
  qed
  have nb: "hd (to_lower h) \<noteq> CHR ''[''" using hd_in_set [OF h(1)] h(3) by metis
  consider "p = ''''" | q where "p = CHR '':'' # q" "list_all (\<lambda>ch. \<not> is_space ch \<and> ch \<notin> set '':[]'') q"
    using assms(2) by (cases p) (auto simp: port_text_def)
  then show ?thesis
  proof cases
    case 1
    have "\<not> has_prefix (to_lower h) ''[''" using nb by (auto simp: has_prefix_def prefix_def)
    with 1 show ?thesis using h assms(1) raw
      by (simp add: sniff_host_def split_host_port_def parseHost_def plain_host_def)
  next
    case (2 q)
    have q: "CHR '':'' \<notin> set (to_lower q)" "CHR ''['' \<notin> set (to_lower q)" "CHR '']'' \<notin> set (to_lower q)"
      using 2(2) by (auto simp: list_all_iff)
    have low: "to_lower p = CHR '':'' # to_lower q" using 2(1) by (simp add: to_lower_def lower_char_def)
    have port: "rev (takeWhile (\<lambda>ch. ch \<noteq> CHR '':'') (rev (to_lower h @ CHR '':'' # to_lower q))) = to_lower q"
      using takeWhile_colon [of "rev (to_lower q)" "rev (to_lower h)"] q by simp
    have "split_host_port (to_lower h @ CHR '':'' # to_lower q) = Inr (to_lower h, to_lower q)"
      using h q nb by (simp only: split_host_port_def port Let_def) simp
    then show ?thesis using raw low assms(1) by (simp add: sniff_host_def plain_host_def)
  qed
qed

text \<open>The sniffer reads the host of a request from its first \<^verbatim>\<open>Host\<close> line, in any case, with or
  without a port. A line that holds only a carriage return does not end the headers: the line may stand in the
  body.\<close>

theorem SniffHTTP_host:
  assumes "bytes_string b = concat (map (\<lambda>l. l @ [CHR 0x0A]) (line # headers)) @ (k @ CHR '':'' # sp1 @ (h @ p) @ sp2) @ CHR 0x0A # rest"
    and "\<forall>l\<in>set (line # headers). CHR 0x0A \<notin> set l" "m \<in> set methods" "prefix m (to_lower line)" "9 \<le> length line"
    and "list_all (\<lambda>l. l \<noteq> '''' \<and> (CHR '':'' \<in> set l \<longrightarrow> to_lower (takeWhile (\<lambda>ch. ch \<noteq> CHR '':'') l) \<noteq> ''host'')) headers"
    and "to_lower k = ''host''" "plain_host h" "port_text p"
    and "list_all (\<lambda>ch. is_space ch \<and> ch \<noteq> CHR 0x0A) (sp1 @ sp2)"
  shows "SniffHTTP b = Value (to_lower h)"
proof -
  let ?nl = "CHR 0x0A"
  let ?v = "sp1 @ (h @ p) @ sp2"
  have k: "CHR '':'' \<notin> set k" "?nl \<notin> set k"
    using set_to_lower(1,4) [of k] assms(7) by simp_all
  have "?nl \<notin> set h" using assms(8) by (auto simp: plain_host_def list_all_iff is_space_def)
  moreover have "?nl \<notin> set p" using assms(9) by (cases p) (auto simp: port_text_def list_all_iff is_space_def)
  moreover have "?nl \<notin> set (sp1 @ sp2)" using assms(10) by (auto simp: list_all_iff)
  ultimately have "?nl \<notin> set (k @ CHR '':'' # ?v)" using k by simp
  then have "split_on ?nl (bytes_string b) = (line # headers) @ (k @ CHR '':'' # ?v) # split_on ?nl rest"
    unfolding assms(1) using assms(2) by (simp only: split_on_lines split_on_line not_False_eq_True)
  then have "header_loop (tl (split_on ?nl (bytes_string b))) = header_loop ((k @ CHR '':'' # ?v) # split_on ?nl rest)"
    using header_loop_skips [OF assms(6)] by simp
  also have "\<dots> = sniff_host ?v"
    using assms(7) by (simp only: header_loop.simps takeWhile_colon [OF k(1)] dropWhile_colon [OF k(1)] list.sel) simp
  also have "\<dots> = Value (to_lower h)"
    using sniff_host_plain [OF assms(8,9)] assms(10) by (simp add: list_all_iff)
  finally have loop: "header_loop (tl (split_on ?nl (bytes_string b))) = Value (to_lower h)" .
  have "beginWithHTTPMethod (bytes_string b) = None"
  proof (rule beginWithHTTPMethod_None [OF assms(3)])
    show "9 \<le> length (bytes_string b)" unfolding assms(1) using assms(5) by simp
    show "prefix m (to_lower (bytes_string b))" unfolding assms(1) using assms(4) by (simp add: prefix_prefix)
  qed
  with loop show ?thesis by (simp add: SniffHTTP_def)
qed

text \<open>Which sniffer's \<^verbatim>\<open>override-destination\<close> applies depends on the order of the first loop, not on
  the sniffer that read the name.\<close>

lemma override_of_first:
  assumes "TCPSniff pkg dn now sd order1 order2 m c skip = (True, m', c', skip')" "stream_sniffer (DstPort m) sc"
  shows "\<exists>h. SniffHost m' = h \<and> TCPSniff pkg dn now sd (sc # order1) order2 m c skip = (True, replaceDomain m h (OverrideDest (snd sc)), c', skip')"
proof -
  have on: "shouldOverride sd m" using assms(1) by (auto simp: TCPSniff_def split: if_splits)
  obtain sc1 where sc1: "List.find (stream_sniffer (DstPort m)) order1 = Some sc1"
    using assms(1) on by (cases "List.find (stream_sniffer (DstPort m)) order1") (auto simp: TCPSniff_def)
  have f: "List.find (stream_sniffer (DstPort m)) (sc # order1) = Some sc" using assms(2) by simp
  obtain count skip1 where g: "(if forceSniff sd m then (None, skip) else lru_Get pkg now (AddrPort m) skip) = (count, skip1)"
    by fastforce
  obtain r c2 skip2 where d: "sniffDomain pkg now m order2 c skip1 = (r, c2, skip2)" by (metis prod_cases3)
  have eq: "TCPSniff pkg dn now sd order order2 m c skip =
        (if (case count of Some n \<Rightarrow> n > 5 | None \<Rightarrow> False) then (False, m, c, skip1)
         else (case r of
             None \<Rightarrow> (False, m, c2, if forceSniff sd m then skip2 else cacheSniffFailed pkg now m skip2)
           | Some h \<Rightarrow> if \<not> domainCanReplace dn sd h then (False, m, c2, skip2)
               else (True, replaceDomain m h (OverrideDest (snd sc)), c2, lru_Delete pkg (AddrPort m) skip2)))"
    if "List.find (stream_sniffer (DstPort m)) order = Some sc" for order sc
    by (simp only: TCPSniff_def on that if_True option.case Let_def g prod.case d)
  show ?thesis
  proof (cases "case count of Some n \<Rightarrow> n > 5 | None \<Rightarrow> False")
    case True
    then show ?thesis using assms(1) unfolding eq [OF sc1] by simp
  next
    case False
    show ?thesis
    proof (cases r)
      case None
      then show ?thesis using assms(1) False unfolding eq [OF sc1] by simp
    next
      case (Some h)
      have "domainCanReplace dn sd h" "m' = replaceDomain m h (OverrideDest (snd sc1))" "c' = c2" "skip' = lru_Delete pkg (AddrPort m) skip2"
        using assms(1) False Some unfolding eq [OF sc1] by (auto split: if_splits)
      moreover from this have "SniffHost m' = h" by (simp add: replaceDomain_def Let_def)
      ultimately show ?thesis using False Some unfolding eq [OF f] by simp
    qed
  qed
qed

section \<open>The theorems at work\<close>

lemma bytes_string_bytes [simp]: "bytes_string (string_bytes s) = s"
proof -
  have "char_of (unat (word_of_nat (of_char ch) :: 8 word)) = ch" for ch
    by (simp add: unsigned_of_nat take_bit_eq_mod)
  then show ?thesis by (simp add: bytes_string_def string_bytes_def comp_def)
qed

definition demo_request :: string where
  "demo_request = ''GET / HTTP/1.0'' @ [CHR 0x0D, CHR 0x0A, CHR 0x0D, CHR 0x0A] @ ''hoSt: Evil.com:80'' @ [CHR 0x0D, CHR 0x0A]"

lemma SniffHTTP_host_witness: "SniffHTTP (string_bytes demo_request) = Value ''evil.com''"
proof -
  have "SniffHTTP (string_bytes demo_request) = Value (to_lower ''Evil.com'')"
  proof (rule SniffHTTP_host [where line = "''GET / HTTP/1.0'' @ [CHR 0x0D]" and headers = "[[CHR 0x0D]]" and k = "''hoSt''" and m = "''get''"
        and ?sp1.0 = "'' ''" and p = "'':80''" and ?sp2.0 = "[CHR 0x0D]" and rest = "[]"])
    show "plain_host ''Evil.com''" by code_simp
    show "prefix ''get'' (to_lower (''GET / HTTP/1.0'' @ [CHR 0x0D]))" by code_simp
    show "to_lower ''hoSt'' = ''host''" by code_simp
  qed (simp_all add: demo_request_def methods_def port_text_def is_space_def)
  moreover have "to_lower ''Evil.com'' = ''evil.com''" by code_simp
  ultimately show ?thesis by simp
qed

definition demo_dispatcher :: Dispatcher where
  "demo_dispatcher = \<lparr>enable = True, forceDomain = [], skipSrcAddress = [], skipDstAddress = [], skipDomain = [],
     forceDnsMapping = False, parsePureIp = True\<rparr>"

definition demo_order :: "(sniffer \<times> SnifferConfig) list" where
  "demo_order = [(NewSniffer SnifferHTTP \<lparr>OverrideDest = True, Ports = []\<rparr>, \<lparr>OverrideDest = True, Ports = []\<rparr>)]"

definition demo_target :: Metadata where
  "demo_target = zeroMetadata\<lparr>DstIP := V4 0x01020304, DstPort := 80\<rparr>"

definition demo_conn :: "arrival list \<Rightarrow> conn" where
  "demo_conn as = \<lparr>c_buf = [], c_arrivals = as, c_closed = False\<rparr>"

definition demo_sniff :: "int \<Rightarrow> arrival list \<Rightarrow> (nat \<times> (nat \<times> (addr \<times> 16 word, 8 word) entry) list, nat) skip_list \<Rightarrow>
    bool \<times> Metadata \<times> conn \<times> (nat \<times> (nat \<times> (addr \<times> 16 word, 8 word) entry) list, nat) skip_list" where
  "demo_sniff t as skip = TCPSniff slice_pkg (\<lambda>d. True) t demo_dispatcher demo_order demo_order demo_target (demo_conn as) skip"

lemma silent_connections_skipped_witness:
  "\<exists>s. demo_sniff 30 [Arrived [1]] (snd (snd (snd (demo_sniff 20 [] (snd (snd (snd (demo_sniff 10 []
      (snd (snd (snd (demo_sniff 0 [] (new_skipList slice_pkg))))))))))))) = (False, demo_target, demo_conn [Arrived [1]], s)"
proof -
  obtain b1 m1 d1 s1 where 1: "demo_sniff 0 [] (new_skipList slice_pkg) = (b1, m1, d1, s1)" by (metis prod_cases4)
  obtain b2 m2 d2 s2 where 2: "demo_sniff 10 [] s1 = (b2, m2, d2, s2)" by (metis prod_cases4)
  obtain b3 m3 d3 s3 where 3: "demo_sniff 20 [] s2 = (b3, m3, d3, s3)" by (metis prod_cases4)
  have plain: "plain_cache snd slice_ok 600 128 (new_skipList slice_pkg)"
    unfolding new_skipList_def by (rule plain_cache_new [OF slice.list_laws_axioms])
  have none: "lookup_key (AddrPort demo_target) (lru_view snd (new_skipList slice_pkg)) = None"
    by (simp add: new_skipList_def lru_New_def lru_view_def lookup_key_def slice_pkg_def)
  have on: "shouldOverride demo_dispatcher demo_target" "\<not> forceSniff demo_dispatcher demo_target"
    by (simp_all add: shouldOverride_def forceSniff_def demo_dispatcher_def demo_target_def zeroMetadata_def)
  have ex: "\<exists>sc\<in>set demo_order. stream_sniffer (DstPort demo_target) sc \<and> s_network (fst sc) = TCP"
    by (simp add: demo_order_def stream_sniffer_def SupportPort_def demo_target_def Check_def Contains_def NewRange_def)
  have silent: "silent (demo_conn [])" by (simp add: silent_def demo_conn_def)
  have "\<exists>s. demo_sniff 30 [Arrived [1]] s3 = (False, demo_target, demo_conn [Arrived [1]], s)"
    unfolding demo_sniff_def
    by (rule silent_connections_skipped [OF slice.list_laws_axioms plain none on ex silent silent silent _ _ _
          1 [unfolded demo_sniff_def] 2 [unfolded demo_sniff_def] 3 [unfolded demo_sniff_def]]) simp_all
  then show ?thesis by (simp add: 1 2 3)
qed

lemma TCPSniff_result_witness:
  "pending (fst (snd (snd (TCPSniff slice_pkg (\<lambda>d. True) 0 demo_dispatcher demo_order demo_order demo_target
      (demo_conn [Arrived (string_bytes demo_request)]) (new_skipList slice_pkg))))) = string_bytes demo_request"
proof -
  let ?r = "TCPSniff slice_pkg (\<lambda>d. True) 0 demo_dispatcher demo_order demo_order demo_target
      (demo_conn [Arrived (string_bytes demo_request)]) (new_skipList slice_pkg)"
  have "?r = (fst ?r, fst (snd ?r), fst (snd (snd ?r)), snd (snd (snd ?r)))" by simp
  from TCPSniff_result [OF this] have "pending (fst (snd (snd ?r))) = pending (demo_conn [Arrived (string_bytes demo_request)])" ..
  then show ?thesis by (simp only: pending_def [of "demo_conn _"]) (simp add: demo_conn_def)
qed

end
