(* ===== verification/SniffedTunnel.thy ===== *)
theory SniffedTunnel
  imports Sniffer TunnelLaws
begin

text \<open>
  The tunnel of \<^verbatim>\<open>tunnel/tunnel.go\<close> with the dispatcher of \<^verbatim>\<open>component/sniffer\<close> as its sniffer: the
  two components meet in \<^verbatim>\<open>handleTCPConn\<close>, where a sniffed name repairs a connection whose fake
  address has no record.
\<close>

definition sniff_service :: "('l, 'n) skip_pkg \<Rightarrow> (string \<Rightarrow> bool) \<Rightarrow> int \<Rightarrow> Dispatcher \<Rightarrow> (sniffer \<times> SnifferConfig) list \<Rightarrow>
    (sniffer \<times> SnifferConfig) list \<Rightarrow> conn \<Rightarrow> ('l, 'n) skip_list \<Rightarrow> Metadata \<Rightarrow> Metadata \<times> bool" where
  "sniff_service pkg dn now sd order1 order2 c skip m =
     (let (sniffed, m', _) = TCPSniff pkg dn now sd order1 order2 m c skip in (m', sniffed))"

lemma sniff_service_result:
  assumes "sniff_service pkg dn now sd order1 order2 c skip m = (m', sniffed)"
  shows "if sniffed then \<exists>h. \<exists>sc\<in>set order1. m' = replaceDomain m h (OverrideDest (snd sc)) else m' = m"
proof -
  obtain c' skip' where "TCPSniff pkg dn now sd order1 order2 m c skip = (sniffed, m', c', skip')"
    using assms by (auto simp: sniff_service_def split: prod.splits)
  from TCPSniff_frame [OF this] show ?thesis .
qed

lemma route_tcp_sniffed_steps:
  assumes "route_tcp n sv t st = Done (Dial proxy rule dialMetadata, st')"
  obtains x m1 res st1 st2 where
    "preHandleMetadata n sv (fixMetadata (md st)) = Done x"
    "tcp_sniff sv t (case x of Inl e \<Rightarrow> fixMetadata (md st) | Inr m \<Rightarrow> m) (case x of Inl e \<Rightarrow> True | Inr m \<Rightarrow> False) = (m1, False)"
    "resolveMetadata n sv t (st\<lparr>md := m1\<rparr>) = Done (res, st1)"
    "tcp_dial_metadata n sv st1 = Done (dialMetadata, st2)"
proof -
  from assms obtain x where x: "preHandleMetadata n sv (fixMetadata (md st)) = Done x"
    by (auto simp: route_tcp_def Let_def bind_run_Done_eq split: if_splits)
  obtain m1 failed where s: "tcp_sniff sv t (case x of Inl e \<Rightarrow> fixMetadata (md st) | Inr m \<Rightarrow> m) (case x of Inl e \<Rightarrow> True | Inr m \<Rightarrow> False) = (m1, failed)"
    by fastforce
  have on: "isHandle t (Type (md st))" "Valid (md st)" using assms by (auto simp: route_tcp_def split: if_splits)
  have r: "route_tcp n sv t st = (if failed then Done (GivenUp, st\<lparr>md := m1\<rparr>)
      else bind_run (resolveMetadata n sv t (st\<lparr>md := m1\<rparr>)) (\<lambda>(res, st).
               case res of
                 Inl e \<Rightarrow> Done (ParseFailed e, st)
               | Inr (proxy, rule) \<Rightarrow>
                   bind_run (tcp_dial_metadata n sv st) (\<lambda>(m, st). Done (Dial proxy rule m, st))))"
    using on x s by (cases x) (simp_all add: route_tcp_def)
  have f: "\<not> failed" using r assms by auto
  note b = trans [OF sym [OF r [unfolded if_not_P [OF f]]] assms]
  then obtain res st1 where m: "resolveMetadata n sv t (st\<lparr>md := m1\<rparr>) = Done (res, st1)"
    unfolding bind_run_Done_eq by fastforce
  with b obtain p r' where "res = Inr (p, r')" by (cases res) auto
  with b m obtain st2 where d: "tcp_dial_metadata n sv st1 = Done (dialMetadata, st2)"
    by (auto simp: bind_run_Done_eq)
  from f have "failed = False" by simp
  from that [OF x s [unfolded this] m d] show ?thesis .
qed

text \<open>C11. No connection is dialled to a fake address, with or without sniffing, when every sniffer
  overrides the destination: mapping is on, the connection came in with a host or an address, and the
  resolver and the static hosts answer outside the fake range.\<close>

theorem sniffed_route_no_fake:
  assumes "real_answers n sv" "mappingEnabled sv" "Host (md st) = '''' \<or> DstIP (md st) = NoAddr"
    and "tcpSniff sv = sniff_service pkg dn now sd order1 order2 c skip" "\<forall>sc\<in>set order1. OverrideDest (snd sc)"
    and "route_tcp n sv t st = Done (Dial proxy rule dialMetadata, st')"
  shows "\<not> isFakeIP sv (DstIP dialMetadata)"
proof -
  let ?m = "fixMetadata (md st)"
  obtain x m1 res st1 st2 where
    p: "preHandleMetadata n sv ?m = Done x"
    and s: "tcp_sniff sv t (case x of Inl e \<Rightarrow> ?m | Inr m \<Rightarrow> m) (case x of Inl e \<Rightarrow> True | Inr m \<Rightarrow> False) = (m1, False)"
    and r: "resolveMetadata n sv t (st\<lparr>md := m1\<rparr>) = Done (res, st1)"
    and d: "tcp_dial_metadata n sv st1 = Done (dialMetadata, st2)"
    using assms(6) by (rule route_tcp_sniffed_steps)
  have real: "\<not> isFakeIP sv NoAddr" using assms(1) by (simp add: real_answers_def)
  let ?m0 = "case x of Inl e \<Rightarrow> ?m | Inr m \<Rightarrow> m"
  have "\<not> isFakeIP sv (DstIP m1)"
  proof (cases "\<exists>m. x = Inr m \<and> m1 = m")
    case True
    then show ?thesis using preHandle_real [OF assms(1,2) fixMetadata_host_or_ip [OF assms(3)]] p by blast
  next
    case False
    then obtain sniffed where "sniff_service pkg dn now sd order1 order2 c skip ?m0 = (m1, sniffed)" "sniffed \<or> (\<exists>e. x = Inl e \<and> sniffed) \<or> m1 \<noteq> ?m0"
      using s by (cases x) (auto simp: tcp_sniff_def assms(4) split: if_splits prod.splits)
    with sniff_service_result [OF this(1)] obtain h sc where "sc \<in> set order1" "m1 = replaceDomain ?m0 h (OverrideDest (snd sc))"
      by (auto split: if_splits)
    with assms(5) have "DstIP m1 = NoAddr" by (simp add: replaceDomain_def Let_def)
    with real show ?thesis by simp
  qed
  then have "\<not> isFakeIP sv (DstIP (md st1))" using resolve_real [OF assms(1) _ r] by simp
  with d show ?thesis
    by (auto simp: tcp_dial_metadata_def Let_def bind_run_Done_eq split: if_splits)
qed

section \<open>A fake address without a record\<close>

text \<open>A connection to a fake address that no name belongs to, on which an HTTP request arrives; the sniffer
  overrides the destination or not.\<close>

definition override_order :: "bool \<Rightarrow> (sniffer \<times> SnifferConfig) list" where
  "override_order b = [(NewSniffer SnifferHTTP \<lparr>OverrideDest = b, Ports = []\<rparr>, \<lparr>OverrideDest = b, Ports = []\<rparr>)]"

definition sniffing_services :: "bool \<Rightarrow> string services" where
  "sniffing_services b = demo_services\<lparr>dispatcherEnable := True,
     tcpSniff := sniff_service slice_pkg (\<lambda>d. True) 0 demo_dispatcher (override_order b) (override_order b)
       (demo_conn [Arrived (string_bytes demo_request)]) (new_skipList slice_pkg)\<rparr>"

definition sniffing_tunnel :: "string tunnel" where
  "sniffing_tunnel = (demo_tunnel [MatchRule ''PROXY''])\<lparr>sniffingEnable := True\<rparr>"

definition fake_target :: Metadata where
  "fake_target = zeroMetadata\<lparr>DstIP := V4 0xc6120009, DstPort := 80\<rparr>"

definition dialled :: "('p route \<times> mstate) run \<Rightarrow> Metadata option" where
  "dialled r = (case r of Done (Dial proxy rule m, st) \<Rightarrow> Some m | _ \<Rightarrow> None)"

lemma sniffed_host: "sniff_service slice_pkg (\<lambda>d. True) 0 demo_dispatcher (override_order b) (override_order b)
    (demo_conn [Arrived (string_bytes demo_request)]) (new_skipList slice_pkg) fake_target =
  (replaceDomain fake_target ''evil.com'' b, True)"
proof -
  let ?c = "demo_conn [Arrived (string_bytes demo_request)]"
  have len: "length (string_bytes demo_request) = 37" by (simp add: string_bytes_def demo_request_def)
  have ne: "string_bytes demo_request \<noteq> []" by (simp add: string_bytes_def demo_request_def)
  have "SniffHTTP (string_bytes demo_request) = Value ''evil.com''" by code_simp
  moreover have "Peek 1 ?c = (Inr (take 1 (string_bytes demo_request)), ?c\<lparr>c_buf := string_bytes demo_request, c_arrivals := []\<rparr>)"
    using len ne by (simp add: Peek_def demo_conn_def)
  moreover have "Peek 37 (?c\<lparr>c_buf := string_bytes demo_request, c_arrivals := []\<rparr>) =
      (Inr (string_bytes demo_request), ?c\<lparr>c_buf := string_bytes demo_request, c_arrivals := []\<rparr>)"
    using len by (simp add: Peek_def)
  moreover have "ParseAddr ''evil.com'' = None" by code_simp
  ultimately have "sniffDomain slice_pkg 0 fake_target (override_order b) ?c s =
      (Some ''evil.com'', ?c\<lparr>c_buf := string_bytes demo_request, c_arrivals := []\<rparr>, s)" for s
    using len by (simp add: override_order_def sniff_conn_def SupportPort_def Check_def Contains_def NewRange_def fake_target_def)
  moreover have "shouldOverride demo_dispatcher fake_target" "\<not> forceSniff demo_dispatcher fake_target" "domainCanReplace (\<lambda>d. True) demo_dispatcher ''evil.com''"
    by (simp_all add: shouldOverride_def forceSniff_def domainCanReplace_def demo_dispatcher_def fake_target_def zeroMetadata_def)
  moreover have "lru_Get slice_pkg 0 (AddrPort fake_target) (new_skipList slice_pkg) = (None, new_skipList slice_pkg)"
    by (simp add: lru_Get_def lru_get_def new_skipList_def lru_New_def)
  ultimately show ?thesis
    by (simp add: sniff_service_def TCPSniff_def)
      (simp add: override_order_def stream_sniffer_def SupportPort_def Check_def Contains_def NewRange_def fake_target_def)
qed

lemma route_sniffed:
  "route_tcp n (sniffing_services b) sniffing_tunnel (demo_state fake_target) =
    bind_run (resolveMetadata n (sniffing_services b) sniffing_tunnel (demo_state (replaceDomain fake_target ''evil.com'' b))) (\<lambda>(res, st).
      case res of
        Inl e \<Rightarrow> Done (ParseFailed e, st)
      | Inr (proxy, rule) \<Rightarrow>
          bind_run (tcp_dial_metadata n (sniffing_services b) st) (\<lambda>(m, st). Done (Dial proxy rule m, st)))"
proof -
  have "fixMetadata fake_target = fake_target" by code_simp
  moreover have "preHandleMetadata n (sniffing_services b) fake_target = Done (Inl ''fake DNS record missing'')"
    by (simp add: preHandleMetadata_def needLookupIP_def sniffing_services_def demo_services_def fake_target_def zeroMetadata_def)
  moreover have "tcp_sniff (sniffing_services b) sniffing_tunnel fake_target True = (replaceDomain fake_target ''evil.com'' b, False)"
    by (simp add: tcp_sniff_def sniffing_services_def sniffing_tunnel_def sniffed_host)
  moreover have "isHandle sniffing_tunnel (Type (md (demo_state fake_target)))" "Valid (md (demo_state fake_target))"
    by code_simp+
  ultimately show ?thesis
    by (simp add: route_tcp_def demo_state_def)
qed

lemma sniffed_dial: "dialled (route_tcp 3 (sniffing_services b) sniffing_tunnel (demo_state fake_target)) = Some (replaceDomain fake_target ''evil.com'' b)"
  unfolding route_sniffed by (rule bool.induct [of _ b]) code_simp+

text \<open>When the sniffer does not override the destination, a sniffed name lets a connection through whose
  fake address has no record: it is dialled to the fake address.\<close>

theorem fake_address_dialled:
  "case dialled (route_tcp 3 (sniffing_services False) sniffing_tunnel (demo_state fake_target)) of
     Some m \<Rightarrow> DstIP m = V4 0xc6120009 \<and> isFakeIP (sniffing_services False) (DstIP m) | None \<Rightarrow> False"
  unfolding sniffed_dial by (simp add: replaceDomain_def fake_target_def sniffing_services_def demo_services_def)

lemma sniffed_route_no_fake_witness:
  "\<not> isFakeIP (sniffing_services True) (DstIP (replaceDomain fake_target ''evil.com'' True))"
proof -
  have "dialled (route_tcp 3 (sniffing_services True) sniffing_tunnel (demo_state fake_target)) = Some (replaceDomain fake_target ''evil.com'' True)"
    by (rule sniffed_dial)
  then obtain p r st' where d: "route_tcp 3 (sniffing_services True) sniffing_tunnel (demo_state fake_target) =
      Done (Dial p r (replaceDomain fake_target ''evil.com'' True), st')"
    by (auto simp: dialled_def split: run.splits prod.splits route.splits)
  show ?thesis
  proof (rule sniffed_route_no_fake [OF _ _ _ _ _ d])
    show "real_answers 3 (sniffing_services True)"
      unfolding real_answers_def sniffing_services_def using demo_hosts by (auto simp: demo_services_def)
    show "tcpSniff (sniffing_services True) = sniff_service slice_pkg (\<lambda>d. True) 0 demo_dispatcher (override_order True) (override_order True)
       (demo_conn [Arrived (string_bytes demo_request)]) (new_skipList slice_pkg)"
      by (simp add: sniffing_services_def)
  qed (simp_all add: sniffing_services_def demo_services_def demo_state_def fake_target_def zeroMetadata_def override_order_def)
qed

end
