(* ===== verification/Quic.thy ===== *)
theory Quic
  imports TlsSniffer Ranges
begin

text \<open>
  The server name of a QUIC connection: \<^verbatim>\<open>component/sniffer/quic_sniffer.go\<close>. A packet sender decrypts
  the initial packets of a client, stores the data of their CRYPTO frames at their offsets, and reads the
  client hello when it is complete.

  The cursor over the bytes of a packet is the third-party package behind \<^verbatim>\<open>common/buf\<close>, and variable-length
  integers are read by a third-party package: they are a record of operations, with what they promise as a
  locale. The key derivation and the ciphers are parameters. \<open>junk\<close> is what a buffer from the pool
  holds. Other goroutines may close the sender; \<open>closing k\<close> says whether one does so before the \<open>k\<close>-th
  time the lock is taken. \<open>b_PacketCap\<close> is the capacity of the cache \<^verbatim>\<open>buf.NewPacket\<close> gives: extending it further
  panics.
\<close>

section \<open>The cursor\<close>

record 'b buf_pkg =
  b_As :: "bytes \<Rightarrow> 'b"
  b_ReadByte :: "'b \<Rightarrow> (8 word \<times> 'b) option"
  b_ReadBytes :: "nat \<Rightarrow> 'b \<Rightarrow> (bytes \<times> 'b) option"
  b_Read :: "nat \<Rightarrow> 'b \<Rightarrow> (bytes \<times> 'b) option"
  b_Len :: "'b \<Rightarrow> nat"
  b_IsEmpty :: "'b \<Rightarrow> bool"
  b_PacketCap :: nat
  varint_Read :: "'b \<Rightarrow> (64 word \<times> 'b) option"

text \<open>\<^verbatim>\<open>io.ReadFull\<close>.\<close>

fun ReadFull_loop :: "nat \<Rightarrow> 'b buf_pkg \<Rightarrow> nat \<Rightarrow> 'b \<Rightarrow> (bytes \<times> 'b) option" where
  "ReadFull_loop 0 pkg n b = (if n = 0 then Some ([], b) else None)"
| "ReadFull_loop (Suc k) pkg n b =
     (if n = 0 then Some ([], b)
      else case b_Read pkg n b of
        None \<Rightarrow> None
      | Some (d, b) \<Rightarrow> (case ReadFull_loop k pkg (n - length d) b of None \<Rightarrow> None | Some (d', b) \<Rightarrow> Some (d @ d', b)))"

definition ReadFull :: "'b buf_pkg \<Rightarrow> nat \<Rightarrow> 'b \<Rightarrow> (bytes \<times> 'b) option" where
  "ReadFull pkg n b = ReadFull_loop n pkg n b"

primrec skip_varints :: "nat \<Rightarrow> 'b buf_pkg \<Rightarrow> 'b \<Rightarrow> 'b option" where
  "skip_varints 0 pkg b = Some b"
| "skip_varints (Suc n) pkg b = (case varint_Read pkg b of None \<Rightarrow> None | Some (_, b) \<Rightarrow> skip_varints n pkg b)"

section \<open>The sender\<close>

datatype quic_error = ErrNotQuic | ErrNotQuicInitial | UnexpectedEOF | ShortBuffer | ErrCipher | ErrHello sniff_error

text \<open>How a call of \<^verbatim>\<open>readQuicData\<close> ends; \<open>QuicFuel\<close> would be a loop that has not ended.\<close>

datatype quic_end = QuicOk | QuicErr quic_error | QuicPanic | QuicFuel

text \<open>\<^verbatim>\<open>buffer\<close> is a slice: its array and its length. \<^verbatim>\<open>closed\<close> also stands for the closed channel.\<close>

record quicPacketSender =
  q_ranges :: "64 word range list"
  q_buffer :: "(bytes \<times> nat) option"
  q_result :: "string option"
  q_closed :: bool

definition WrapperSender :: quicPacketSender where
  "WrapperSender = \<lparr>q_ranges = [], q_buffer = None, q_result = None, q_closed = False\<rparr>"

definition maxCryptoStreamOffset :: nat where
  "maxCryptoStreamOffset = 16 * 2 ^ 10"

definition closeLocked :: "quicPacketSender \<Rightarrow> quicPacketSender" where
  "closeLocked q = (if \<not> q_closed q then q\<lparr>q_closed := True, q_buffer := None, q_ranges := []\<rparr> else q)"

definition q_lock :: "(nat \<Rightarrow> bool) \<Rightarrow> nat \<Rightarrow> quicPacketSender \<Rightarrow> quicPacketSender" where
  "q_lock closing k q = (if closing k then closeLocked q else q)"

text \<open>The data of a frame goes to its place; \<open>len\<close> is the length the slice must have.\<close>

definition put_at :: "nat \<Rightarrow> bytes \<Rightarrow> bytes \<Rightarrow> bytes" where
  "put_at i d a = take i a @ d @ drop (i + length d) a"

definition grow :: "bytes \<Rightarrow> nat \<Rightarrow> quicPacketSender \<Rightarrow> bytes \<times> nat" where
  "grow junk e q = (case q_buffer q of None \<Rightarrow> (junk, e) | Some (a, len) \<Rightarrow> (a, if e > len then e else len))"

definition store :: "bytes \<Rightarrow> nat \<Rightarrow> bytes \<Rightarrow> nat \<Rightarrow> quicPacketSender \<Rightarrow> quicPacketSender" where
  "store junk off d e q =
     (let (a, len) = grow junk e q
      in q\<lparr>q_buffer := Some (put_at off d a, len),
           q_ranges := Merge (q_ranges q @ [NewRange (word_of_nat off) (word_of_nat e)])\<rparr>)"

definition crypto_frame :: "'b buf_pkg \<Rightarrow> bytes \<Rightarrow> (nat \<Rightarrow> bool) \<Rightarrow> nat \<Rightarrow> 'b \<Rightarrow> quicPacketSender \<Rightarrow>
    (quic_end + 'b) \<times> quicPacketSender" where
  "crypto_frame pkg junk closing k b q =
     (case varint_Read pkg b of
        None \<Rightarrow> (Inl (QuicErr UnexpectedEOF), q)
      | Some (offset, b) \<Rightarrow>
          (case varint_Read pkg b of
             None \<Rightarrow> (Inl (QuicErr UnexpectedEOF), q)
           | Some (len, b) \<Rightarrow>
               if len > word_of_nat (b_Len pkg b) then (Inl (QuicErr UnexpectedEOF), q)
               else
                 let e = offset + len in
                 if e > word_of_nat maxCryptoStreamOffset then (Inl (QuicErr ShortBuffer), q)
                 else
                   let q = q_lock closing k q in
                   if q_closed q then (Inl QuicOk, q)
                   else if \<not> offset \<le> e then (Inl QuicPanic, q)
                   else
                     (case b_Read pkg (unat e - unat offset) b of
                        None \<Rightarrow> (Inl (QuicErr UnexpectedEOF), q\<lparr>q_buffer := Some (grow junk (unat e) q)\<rparr>)
                      | Some (d, b) \<Rightarrow> (Inr b, store junk (unat offset) d (unat e) q))))"

fun next_type :: "nat \<Rightarrow> 'b buf_pkg \<Rightarrow> 8 word \<Rightarrow> 'b \<Rightarrow> 8 word \<times> 'b" where
  "next_type 0 pkg frameType b = (frameType, b)"
| "next_type (Suc n) pkg frameType b =
     (if frameType = 0 \<and> \<not> b_IsEmpty pkg b then
        (case b_ReadByte pkg b of Some (x, b) \<Rightarrow> next_type n pkg x b | None \<Rightarrow> next_type n pkg 0 b)
      else (frameType, b))"

definition ack_frame :: "'b buf_pkg \<Rightarrow> 8 word \<Rightarrow> 'b \<Rightarrow> 'b option" where
  "ack_frame pkg frameType b =
     (case skip_varints 2 pkg b of
        None \<Rightarrow> None
      | Some b \<Rightarrow>
          (case varint_Read pkg b of
             None \<Rightarrow> None
           | Some (ackRangeCount, b) \<Rightarrow>
               (case skip_varints 1 pkg b of
                  None \<Rightarrow> None
                | Some b \<Rightarrow>
                    (case skip_varints (2 * nat (sint ackRangeCount)) pkg b of
                       None \<Rightarrow> None
                     | Some b \<Rightarrow> if frameType = 3 then skip_varints 3 pkg b else Some b))))"

definition close_frame :: "'b buf_pkg \<Rightarrow> 'b \<Rightarrow> 'b option" where
  "close_frame pkg b =
     (case skip_varints 2 pkg b of
        None \<Rightarrow> None
      | Some b \<Rightarrow>
          (case varint_Read pkg b of
             None \<Rightarrow> None
           | Some (len, b) \<Rightarrow> (case b_ReadBytes pkg (unat len) b of None \<Rightarrow> None | Some (_, b) \<Rightarrow> Some b)))"

definition tryAssemble :: "(nat \<Rightarrow> bool) \<Rightarrow> nat \<Rightarrow> quicPacketSender \<Rightarrow> quic_end \<times> quicPacketSender" where
  "tryAssemble closing k q =
     (let q = q_lock closing k q in
      if q_closed q then (QuicOk, q)
      else
        (case (q_ranges q, q_buffer q) of
           ([r], Some (a, len)) \<Rightarrow>
             if range_start r \<noteq> 0 \<or> range_end r \<noteq> word_of_nat len then (QuicOk, q)
             else
               let buffer = take len a in
               if length buffer \<le> 4 \<or> unat (buffer ! 2) * 256 + unat (buffer ! 3) + 4 \<noteq> length buffer then (QuicOk, q)
               else
                 (case ReadClientHello buffer of
                    Error e \<Rightarrow> (QuicErr (ErrHello e), q)
                  | Panic \<Rightarrow> (QuicPanic, q)
                  | Value domain \<Rightarrow>
                      let q = q_lock closing (k + 1) q
                      in (QuicOk, closeLocked (q\<lparr>q_result := Some domain\<rparr>)))
         | _ \<Rightarrow> (QuicOk, q)))"

fun frame_loop :: "nat \<Rightarrow> 'b buf_pkg \<Rightarrow> bytes \<Rightarrow> (nat \<Rightarrow> bool) \<Rightarrow> nat \<Rightarrow> 'b \<Rightarrow> quicPacketSender \<Rightarrow> quic_end \<times> quicPacketSender" where
  "frame_loop 0 pkg junk closing k b q = (if b_IsEmpty pkg b then tryAssemble closing k q else (QuicFuel, q))"
| "frame_loop (Suc n) pkg junk closing k b q =
     (if b_IsEmpty pkg b then tryAssemble closing k q
      else
        let q = q_lock closing k q in
        if q_closed q then (QuicOk, q)
        else
          let (frameType, b) = next_type (b_Len pkg b) pkg 0 b in
          if frameType = 0x00 \<or> frameType = 0x01 then frame_loop n pkg junk closing (k + 2) b q
          else if frameType = 0x02 \<or> frameType = 0x03 then
            (case ack_frame pkg frameType b of
               None \<Rightarrow> (QuicErr UnexpectedEOF, q)
             | Some b \<Rightarrow> frame_loop n pkg junk closing (k + 2) b q)
          else if frameType = 0x06 then
            (case crypto_frame pkg junk closing (k + 1) b q of
               (Inl r, q) \<Rightarrow> (r, q)
             | (Inr b, q) \<Rightarrow> frame_loop n pkg junk closing (k + 2) b q)
          else if frameType = 0x1c then
            (case close_frame pkg b of
               None \<Rightarrow> (QuicErr UnexpectedEOF, q)
             | Some b \<Rightarrow> frame_loop n pkg junk closing (k + 2) b q)
          else (QuicErr ErrNotQuicInitial, q))"

section \<open>The keys and the packet\<close>

record quic_crypto =
  hkdf_Extract :: "bytes \<Rightarrow> bytes \<Rightarrow> bytes"
  hkdf_Expand :: "bytes \<Rightarrow> bytes \<Rightarrow> nat \<Rightarrow> bytes"
  aes_Encrypt :: "bytes \<Rightarrow> bytes \<Rightarrow> bytes"
  gcm_Open :: "bytes \<Rightarrow> bytes \<Rightarrow> bytes \<Rightarrow> bytes \<Rightarrow> bytes option"

definition hkdfExpandLabel :: "quic_crypto \<Rightarrow> bytes \<Rightarrow> bytes \<Rightarrow> string \<Rightarrow> nat \<Rightarrow> bytes" where
  "hkdfExpandLabel cr secret ctx label len =
     hkdf_Expand cr secret
       (be16 len @ [word_of_nat (6 + length label)] @ string_bytes ''tls13 '' @ string_bytes label @ [word_of_nat (length ctx)] @ ctx) len"

definition versionDraft29 :: "32 word" where
  "versionDraft29 = 0xff00001d"

definition version1 :: "32 word" where
  "version1 = 1"

definition quicSaltOld :: bytes where
  "quicSaltOld = [0xaf, 0xbf, 0xec, 0x28, 0x99, 0x93, 0xd2, 0x4c, 0x9e, 0x97, 0x86, 0xf1, 0x9c, 0x61, 0x11, 0xe0, 0x43, 0x90, 0xa8, 0x99]"

definition quicSalt :: bytes where
  "quicSalt = [0x38, 0x76, 0x2c, 0xf7, 0xf5, 0x59, 0x34, 0xb3, 0x4d, 0x17, 0x9a, 0xe6, 0xa4, 0xc8, 0x0c, 0xad, 0xcc, 0xbb, 0x7f, 0x0a]"

definition be32 :: "bytes \<Rightarrow> 32 word" where
  "be32 d = foldl (\<lambda>w x. w * 256 + ucast x) 0 d"

definition initial_secret :: "quic_crypto \<Rightarrow> 32 word \<Rightarrow> bytes \<Rightarrow> bytes" where
  "initial_secret cr ver destConnID =
     hkdfExpandLabel cr (hkdf_Extract cr destConnID (if ver = version1 then quicSalt else quicSaltOld)) [] ''client in'' 32"

definition xor_at :: "nat \<Rightarrow> bytes \<Rightarrow> bytes \<Rightarrow> bytes" where
  "xor_at i d a = take i a @ map2 xor (drop i a) d @ drop (i + length d) a"

text \<open>The header of a long-header packet: \<open>Inl\<close> ends the call, \<open>Inr\<close> has the version, the connection identifier,
  the length field, and how many bytes the header has.\<close>

definition read_header :: "'b buf_pkg \<Rightarrow> bytes \<Rightarrow> quic_end + 32 word \<times> bytes \<times> 64 word \<times> nat" where
  "read_header pkg b =
     (case b_ReadByte pkg (b_As pkg b) of
        None \<Rightarrow> Inl (QuicErr ErrNotQuic)
      | Some (typeByte, buf) \<Rightarrow>
     if and typeByte 0x80 = 0 \<or> and typeByte 0x40 = 0 then Inl (QuicErr ErrNotQuicInitial)
     else (case b_ReadBytes pkg 4 buf of
        None \<Rightarrow> Inl (QuicErr ErrNotQuic)
      | Some (vb, buf) \<Rightarrow>
     let versionNumber = be32 vb in
     if versionNumber \<noteq> versionDraft29 \<and> versionNumber \<noteq> version1 then Inl (QuicErr ErrNotQuic)
     else (case b_ReadByte pkg buf of
        None \<Rightarrow> Inl (QuicErr ErrNotQuic)
      | Some (connIdLen, buf) \<Rightarrow>
     if connIdLen = 0 then Inl (QuicErr ErrNotQuic)
     else (case ReadFull pkg (unat connIdLen) buf of
        None \<Rightarrow> Inl (QuicErr ErrNotQuic)
      | Some (destConnID, buf) \<Rightarrow>
     if drop_bit 4 (and typeByte 0x30) \<noteq> 0 then Inl QuicOk
     else (case b_ReadByte pkg buf of
        None \<Rightarrow> Inl (QuicErr ErrNotQuic)
      | Some (l, buf) \<Rightarrow>
     (case b_ReadBytes pkg (unat l) buf of
        None \<Rightarrow> Inl (QuicErr ErrNotQuic)
      | Some (_, buf) \<Rightarrow>
     (case varint_Read pkg buf of
        None \<Rightarrow> Inl (QuicErr ErrNotQuic)
      | Some (tokenLen, buf) \<Rightarrow>
     if tokenLen > word_of_nat (length b) then Inl (QuicErr ErrNotQuic)
     else (case b_ReadBytes pkg (unat tokenLen) buf of
        None \<Rightarrow> Inl (QuicErr ErrNotQuic)
      | Some (_, buf) \<Rightarrow>
     (case varint_Read pkg buf of
        None \<Rightarrow> Inl (QuicErr ErrNotQuic)
      | Some (packetLen, buf) \<Rightarrow>
     Inr (versionNumber, destConnID, packetLen, length b - b_Len pkg buf))))))))))"

text \<open>The header protection comes off and the payload is decrypted. The cache takes the mask, the header with
  the packet number and the payload, one after the other, and each \<^verbatim>\<open>Extend\<close> panics when the cache is too small. The upper
  bound of the payload may lie before its lower bound: then the slice expression panics.\<close>

definition open_packet :: "'b buf_pkg \<Rightarrow> quic_crypto \<Rightarrow> bytes \<Rightarrow> 32 word \<Rightarrow> bytes \<Rightarrow> 64 word \<Rightarrow> nat \<Rightarrow> quic_end + bytes" where
  "open_packet pkg cr b versionNumber destConnID packetLen hdrLen =
     (if hdrLen + 4 + 16 > length b then Inl (QuicErr ErrNotQuic)
      else if 16 > b_PacketCap pkg then Inl QuicPanic
      else
        let secret = initial_secret cr versionNumber destConnID;
            hpKey = hkdfExpandLabel cr secret [] ''quic hp'' 16;
            mask = aes_Encrypt cr hpKey (take 16 (drop (hdrLen + 4) b));
            firstByte = xor (b ! 0) (and (mask ! 0) 0x0f);
            packetNumberLength = unat (and firstByte 3 + 1);
            extHdrLen = hdrLen + packetNumberLength;
            extHdr = firstByte # tl (take extHdrLen b);
            packetNumber = map2 xor (drop hdrLen extHdr) (drop 1 mask);
            extHdr = take hdrLen extHdr @ packetNumber;
            e = sint packetLen + int hdrLen
        in if 16 + extHdrLen > b_PacketCap pkg then Inl QuicPanic
           else if e > int (length b) \<or> extHdrLen > length b then Inl (QuicErr ErrNotQuic)
           else if e < int extHdrLen then Inl QuicPanic
           else
             let data = take (nat e - extHdrLen) (drop extHdrLen b);
                 key = hkdfExpandLabel cr secret [] ''quic key'' 16;
                 iv = hkdfExpandLabel cr secret [] ''quic iv'' 12;
                 iv = xor_at (length iv - length packetNumber) packetNumber iv
             in if 16 + extHdrLen + length data > b_PacketCap pkg then Inl QuicPanic
                else (case gcm_Open cr key iv data extHdr of None \<Rightarrow> Inl (QuicErr ErrCipher) | Some d \<Rightarrow> Inr d))"

definition readQuicData :: "'b buf_pkg \<Rightarrow> quic_crypto \<Rightarrow> bytes \<Rightarrow> (nat \<Rightarrow> bool) \<Rightarrow> bytes \<Rightarrow> quicPacketSender \<Rightarrow>
    quic_end \<times> quicPacketSender" where
  "readQuicData pkg cr junk closing b q =
     (case read_header pkg b of
        Inl r \<Rightarrow> (r, q)
      | Inr (versionNumber, destConnID, packetLen, hdrLen) \<Rightarrow>
          (case open_packet pkg cr b versionNumber destConnID packetLen hdrLen of
             Inl r \<Rightarrow> (r, q)
           | Inr decrypted \<Rightarrow> frame_loop (length decrypted) pkg junk closing 0 (b_As pkg decrypted) q))"

text \<open>\<^verbatim>\<open>Send\<close>: what it hands on is the packet, unchanged; a panic is not caught.\<close>

definition Send :: "'b buf_pkg \<Rightarrow> quic_crypto \<Rightarrow> bytes \<Rightarrow> (nat \<Rightarrow> bool) \<Rightarrow> bytes \<Rightarrow> quicPacketSender \<Rightarrow> quicPacketSender option" where
  "Send pkg cr junk closing b q =
     (if q_closed q then Some q
      else
        (case readQuicData pkg cr junk closing b q of
           (QuicOk, q) \<Rightarrow> Some q
         | (QuicErr e, q) \<Rightarrow> Some (closeLocked q)
         | (_, q) \<Rightarrow> None))"

section \<open>What the cursor promises\<close>

locale buf_laws =
  fixes pkg :: "'b buf_pkg" and rest :: "'b \<Rightarrow> bytes" and venc :: "nat \<Rightarrow> bytes"
  assumes As: "rest (b_As pkg d) = d"
    and ReadByte_Nil: "rest b = [] \<Longrightarrow> b_ReadByte pkg b = None"
    and ReadByte_Cons: "rest b = x # xs \<Longrightarrow> \<exists>b'. b_ReadByte pkg b = Some (x, b') \<and> rest b' = xs"
    and ReadBytes_short: "length (rest b) < n \<Longrightarrow> b_ReadBytes pkg n b = None"
    and ReadBytes: "n \<le> length (rest b) \<Longrightarrow> \<exists>b'. b_ReadBytes pkg n b = Some (take n (rest b), b') \<and> rest b' = drop n (rest b)"
    and Read_Nil: "rest b = [] \<Longrightarrow> b_Read pkg n b = None"
    and Read: "rest b \<noteq> [] \<Longrightarrow> \<exists>b'. b_Read pkg n b = Some (take n (rest b), b') \<and> rest b' = drop n (rest b)"
    and Len: "b_Len pkg b = length (rest b)"
    and IsEmpty: "b_IsEmpty pkg b \<longleftrightarrow> rest b = []"
    and varint: "varint_Read pkg b = Some (v, b') \<Longrightarrow> unat v < 2 ^ 62 \<and> (\<exists>p. p \<noteq> [] \<and> rest b = p @ rest b')"
    and varint_enc: "n < 2 ^ 62 \<Longrightarrow> rest b = venc n @ xs \<Longrightarrow> \<exists>b'. varint_Read pkg b = Some (word_of_nat n, b') \<and> rest b' = xs"
    and venc_byte: "n < 64 \<Longrightarrow> venc n = [word_of_nat n]"
begin

lemma varint_shorter: "varint_Read pkg b = Some (v, b') \<Longrightarrow> length (rest b') < length (rest b)"
  using varint by fastforce

lemma skip_varints_shorter: "skip_varints n pkg b = Some b' \<Longrightarrow> length (rest b') + n \<le> length (rest b)"
proof (induction n arbitrary: b)
  case (Suc n)
  from Suc.prems obtain v c where v: "varint_Read pkg b = Some (v, c)" "skip_varints n pkg c = Some b'"
    by (auto split: option.splits)
  from varint_shorter [OF v(1)] Suc.IH [OF v(2)] show ?case by simp
qed simp

lemma next_type_shorter:
  assumes "next_type n pkg t b = (t', b')"
  shows "length (rest b') \<le> length (rest b) \<and> (0 < n \<and> t = 0 \<and> rest b \<noteq> [] \<longrightarrow> length (rest b') < length (rest b))"
  using assms
proof (induction n arbitrary: t b)
  case (Suc n)
  show ?case
  proof (cases "t = 0 \<and> rest b \<noteq> []")
    case True
    then obtain x xs where b: "rest b = x # xs" by (cases "rest b") auto
    then obtain c where "b_ReadByte pkg b = Some (x, c)" "rest c = xs" using ReadByte_Cons by blast
    with Suc.IH [of x c] Suc.prems True b show ?thesis by (auto simp: IsEmpty split: if_splits)
  next
    case False
    with Suc.prems show ?thesis by (auto simp: IsEmpty split: if_splits)
  qed
qed simp

lemma ack_frame_shorter: "ack_frame pkg t b = Some b' \<Longrightarrow> length (rest b') \<le> length (rest b)"
  by (auto simp: ack_frame_def dest!: skip_varints_shorter varint_shorter split: option.splits if_splits)

lemma close_frame_shorter: "close_frame pkg b = Some b' \<Longrightarrow> length (rest b') \<le> length (rest b)"
proof -
  assume "close_frame pkg b = Some b'"
  then obtain b1 v b2 d where f: "skip_varints 2 pkg b = Some b1" "varint_Read pkg b1 = Some (v, b2)"
    "b_ReadBytes pkg (unat v) b2 = Some (d, b')"
    by (auto simp: close_frame_def split: option.splits)
  have "length (rest b') \<le> length (rest b2)"
    using f(3) ReadBytes [of "unat v" b2] ReadBytes_short [of b2 "unat v"]
    by (cases "unat v \<le> length (rest b2)") auto
  with skip_varints_shorter [OF f(1)] varint_shorter [OF f(2)] show ?thesis by simp
qed

text \<open>A CRYPTO frame never panics, and takes what it reads from the cursor.\<close>

lemma crypto_frame_shorter:
  assumes "crypto_frame pkg junk closing k b q = (r, q')"
  shows "r \<noteq> Inl QuicPanic \<and> r \<noteq> Inl QuicFuel \<and> (\<forall>b'. r = Inr b' \<longrightarrow> length (rest b') \<le> length (rest b))"
proof (cases "varint_Read pkg b")
  case None
  with assms show ?thesis by (auto simp: crypto_frame_def)
next
  case (Some vb1)
  obtain offset b1 where o: "varint_Read pkg b = Some (offset, b1)" using Some by (cases vb1) auto
  show ?thesis
  proof (cases "varint_Read pkg b1")
    case None
    with assms o show ?thesis by (auto simp: crypto_frame_def)
  next
    case (Some vb2)
    obtain len b2 where l: "varint_Read pkg b1 = Some (len, b2)" using Some by (cases vb2) auto
    have "unat offset + unat len < 2 ^ 64" using varint [OF o] varint [OF l] by simp
    then have le: "offset \<le> offset + len"
      by (simp add: word_le_nat_alt unat_word_ariths)
    let ?q = "q_lock closing k q" and ?n = "unat (offset + len) - unat offset"
    show ?thesis
    proof (cases "b_Read pkg ?n b2")
      case None
      with assms o l le show ?thesis by (auto simp: crypto_frame_def Let_def split: if_splits)
    next
      case (Some db)
      obtain d b3 where r: "b_Read pkg ?n b2 = Some (d, b3)" using Some by (cases db) auto
      then have "length (rest b3) \<le> length (rest b2)" using Read_Nil [of b2 ?n] Read [of b2 ?n] by fastforce
      then have "length (rest b3) \<le> length (rest b)" using varint_shorter [OF o] varint_shorter [OF l] by simp
      with assms o l r le show ?thesis by (auto simp: crypto_frame_def Let_def split: if_splits)
    qed
  qed
qed

lemma tryAssemble_ends: "fst (tryAssemble closing k q) \<noteq> QuicPanic \<and> fst (tryAssemble closing k q) \<noteq> QuicFuel"
  using ReadClientHello_ok
  by (auto simp: tryAssemble_def Let_def split: list.split option.split outcome.split)

lemma frame_loop_ends:
  assumes "length (rest b) \<le> n"
  shows "fst (frame_loop n pkg junk closing k b q) \<noteq> QuicPanic \<and> fst (frame_loop n pkg junk closing k b q) \<noteq> QuicFuel"
  using assms
proof (induction n arbitrary: k b q)
  case 0
  then show ?case by (simp add: IsEmpty tryAssemble_ends)
next
  case (Suc n)
  show ?case
  proof (cases "rest b = []")
    case True
    then show ?thesis by (simp add: IsEmpty tryAssemble_ends)
  next
    case False
    obtain t b1 where t: "next_type (b_Len pkg b) pkg 0 b = (t, b1)" by fastforce
    have "length (rest b1) < length (rest b)" using next_type_shorter [OF t] False by (simp add: Len)
    then have b1: "length (rest b1) \<le> n" using Suc.prems by simp
    have ih: "fst (frame_loop n pkg junk closing k b' q) \<noteq> QuicPanic \<and> fst (frame_loop n pkg junk closing k b' q) \<noteq> QuicFuel"
      if "length (rest b') \<le> length (rest b1)" for k b' q
      using Suc.IH b1 that by (meson order_trans)
    obtain r q1 where c: "crypto_frame pkg junk closing (Suc k) b1 (q_lock closing k q) = (r, q1)" by fastforce
    note crypto = crypto_frame_shorter [OF c]
    show ?thesis
      using False t ih ack_frame_shorter close_frame_shorter crypto
      by (auto simp: IsEmpty Let_def c split: option.split sum.split)
  qed
qed

lemma ReadFull_all:
  assumes "0 < n" "n \<le> length (rest b)"
  shows "\<exists>b'. ReadFull pkg n b = Some (take n (rest b), b') \<and> rest b' = drop n (rest b)"
proof -
  obtain b' where b': "b_Read pkg n b = Some (take n (rest b), b')" "rest b' = drop n (rest b)"
    using Read [of b n] assms by fastforce
  obtain k where "n = Suc k" using assms(1) by (cases n) auto
  with b' assms have "ReadFull pkg n b = Some (take n (rest b), b')"
    by (cases k) (auto simp: ReadFull_def)
  with b'(2) show ?thesis by blast
qed

text \<open>The header of version 1 with an empty second identifier and no token, as read from the cursor.\<close>

lemma read_header_initial:
  assumes "0 < length cid" "length cid < 256" "n < 2 ^ 62"
  shows "read_header pkg ([0xC0, 0, 0, 0, 1, word_of_nat (length cid)] @ cid @ [0, 0] @ venc n @ r) =
    Inr (version1, cid, word_of_nat n, length cid + 8 + length (venc n))"
proof -
  let ?b = "[0xC0, 0, 0, 0, 1, word_of_nat (length cid)] @ cid @ [0, 0] @ venc n @ r"
  obtain b1 where b1: "b_ReadByte pkg (b_As pkg ?b) = Some (0xC0, b1)" "rest b1 = [0, 0, 0, 1, word_of_nat (length cid)] @ cid @ [0, 0] @ venc n @ r"
    using ReadByte_Cons [of "b_As pkg ?b"] by (auto simp: As)
  obtain b2 where b2: "b_ReadBytes pkg 4 b1 = Some ([0, 0, 0, 1], b2)" "rest b2 = [word_of_nat (length cid)] @ cid @ [0, 0] @ venc n @ r"
    using ReadBytes [of 4 b1] by (auto simp: b1)
  obtain b3 where b3: "b_ReadByte pkg b2 = Some (word_of_nat (length cid), b3)" "rest b3 = cid @ [0, 0] @ venc n @ r"
    using ReadByte_Cons [of b2] by (auto simp: b2)
  obtain b4 where b4: "ReadFull pkg (length cid) b3 = Some (cid, b4)" "rest b4 = [0, 0] @ venc n @ r"
    using ReadFull_all [of "length cid" b3] assms(1) by (auto simp: b3)
  obtain b5 where b5: "b_ReadByte pkg b4 = Some (0, b5)" "rest b5 = [0] @ venc n @ r"
    using ReadByte_Cons [of b4] by (auto simp: b4)
  obtain b6 where b6: "b_ReadBytes pkg 0 b5 = Some ([], b6)" "rest b6 = [0] @ venc n @ r"
    using ReadBytes [of 0 b5] by (auto simp: b5)
  obtain b7 where b7: "varint_Read pkg b6 = Some (0, b7)" "rest b7 = venc n @ r"
    using varint_enc [of 0 b6 "venc n @ r"] venc_byte [of 0] by (auto simp: b6)
  obtain b8 where b8: "b_ReadBytes pkg 0 b7 = Some ([], b8)" "rest b8 = venc n @ r"
    using ReadBytes [of 0 b7] by (auto simp: b7)
  obtain b9 where b9: "varint_Read pkg b8 = Some (word_of_nat n, b9)" "rest b9 = r"
    using varint_enc [of n b8 r] assms(3) by (auto simp: b8)
  have u: "unat (word_of_nat (length cid) :: 8 word) = length cid" using assms(2) by (rule vec8_length)
  have nz: "(word_of_nat (length cid) :: 8 word) \<noteq> 0" using u assms(1) by (metis unat_0 less_irrefl)
  have v: "be32 [0, 0, 0, 1] = version1" by (simp add: be32_def version1_def)
  have "and (0xC0 :: 8 word) 0x80 \<noteq> 0" "and (0xC0 :: 8 word) 0x40 \<noteq> 0" "drop_bit 4 (and (0xC0 :: 8 word) 0x30) = 0"
    by simp_all
  then show ?thesis
    using Len [of b9] by (simp add: read_header_def b1 [simplified] b2 b3 b4 b5 b6 b7 b8 b9 u nz v)
qed

lemma read_header_short:
  assumes "0 < length cid" "length cid < 256"
  shows "read_header pkg ([0xC0, 0, 0, 0, 1, word_of_nat (length cid)] @ cid @ [0, 0, 0] @ r) = Inr (version1, cid, 0, length cid + 9)"
  using read_header_initial [OF assms, of 0 r] venc_byte [of 0] by simp

end

text \<open>The packet number has one to four bytes.\<close>

lemma pn_length: "0 < unat (and x 3 + 1)" "unat (and x 3 + 1) \<le> 4" "0 < uint (and x 3 + 1)" "uint (and x 3 + 1) \<le> 4"
  for x :: "8 word"
proof -
  have "unat (and x 3) \<le> 3" using word_le_nat_alt [of "and x 3" 3] word_and_le1 [of x 3] by (simp add: and.commute)
  then show u: "0 < unat (and x 3 + 1)" "unat (and x 3 + 1) \<le> 4" by (simp_all add: unat_word_ariths)
  show "0 < uint (and x 3 + 1)" "uint (and x 3 + 1) \<le> 4" using u unfolding uint_nat by linarith+
qed

lemma open_packet_panics:
  assumes "open_packet pkg cr b ver cid len hdrLen = Inl r"
  shows "r \<noteq> QuicFuel \<and> (r = QuicPanic \<longrightarrow> sint len < 4 \<or> b_PacketCap pkg < length b + 16)"
proof (cases "hdrLen + 4 + 16 > length b \<or> 16 > b_PacketCap pkg")
  case True
  then have "r = QuicErr ErrNotQuic \<or> r = QuicPanic \<and> 16 > b_PacketCap pkg"
    using assms unfolding open_packet_def by (simp only: split: if_splits) simp_all
  then show ?thesis by auto
next
  case False
  define n where "n = unat (and (xor (b ! 0) (and (aes_Encrypt cr (hkdfExpandLabel cr (initial_secret cr ver cid) [] ''quic hp'' 16)
      (take 16 (drop (hdrLen + 4) b)) ! 0) 0x0f)) 3 + 1)"
  have n: "n \<le> 4" unfolding n_def by (rule pn_length)
  define e where "e = sint len + int hdrLen"
  have fits: "e \<le> int (length b) \<Longrightarrow> length (take (nat e - (hdrLen + n)) (drop (hdrLen + n) b)) + (hdrLen + n) \<le> length b"
    using False n by auto
  show ?thesis
    using assms False n fits unfolding open_packet_def Let_def n_def [symmetric] e_def [symmetric]
    by (auto split: if_splits option.splits simp: e_def)
qed

text \<open>C19. The reader of a packet always ends, and it panics only on an initial packet whose length field is
  smaller than the packet number it must hold, which has at most four bytes, or on a datagram that does not fit into
  the cache beside the mask of sixteen bytes.\<close>

theorem quic_panics_only_on_short_packets:
  assumes "buf_laws pkg rest venc"
  shows "fst (readQuicData pkg cr junk closing b q) \<noteq> QuicFuel \<and>
    (fst (readQuicData pkg cr junk closing b q) \<noteq> QuicPanic \<or>
      (\<exists>ver cid len hdrLen. read_header pkg b = Inr (ver, cid, len, hdrLen)
        \<and> (sint len < 4 \<or> b_PacketCap pkg < length b + 16)))"
proof -
  have cursor: "rest (b_As pkg d) = d" for d using buf_laws.As [OF assms] .
  note ends = buf_laws.frame_loop_ends [OF assms]
  show ?thesis
  proof (cases "read_header pkg b")
    case (Inl r)
    then have "r \<noteq> QuicFuel \<and> r \<noteq> QuicPanic"
      by (auto simp: read_header_def Let_def split: option.splits if_splits prod.splits)
    with Inl show ?thesis by (simp add: readQuicData_def)
  next
    case (Inr h)
    obtain ver cid len hdrLen where h: "read_header pkg b = Inr (ver, cid, len, hdrLen)"
      using Inr by (cases h) auto
    show ?thesis
    proof (cases "open_packet pkg cr b ver cid len hdrLen")
      case (Inr d)
      then show ?thesis using h ends [of "b_As pkg d" "length d"] by (simp add: readQuicData_def cursor)
    next
      case (Inl r)
      from open_packet_panics [OF Inl] Inl h show ?thesis by (auto simp: readQuicData_def)
    qed
  qed
qed

text \<open>C20. A datagram with a long header whose length field is zero takes the process down, whatever the keys
  are: the bounds of the payload cross.\<close>

theorem quic_short_packet_crashes:
  assumes "buf_laws pkg rest venc" "0 < length cid" "length cid < 256" "20 \<le> length r" "\<not> q_closed q"
  shows "Send pkg cr junk closing ([0xC0, 0, 0, 0, 1, word_of_nat (length cid)] @ cid @ [0, 0, 0] @ r) q = None"
proof -
  let ?b = "[0xC0, 0, 0, 0, 1, word_of_nat (length cid)] @ cid @ [0, 0, 0] @ r"
  have pn: "0 < unat (and x 3 + 1)" "unat (and x 3 + 1) \<le> 4" for x :: "8 word"
  proof -
    have "unat (and x 3) \<le> 3" using word_le_nat_alt [of "and x 3" 3] word_and_le1 [of x 3] by (simp add: and.commute)
    then show "0 < unat (and x 3 + 1)" "unat (and x 3 + 1) \<le> 4" by (simp_all add: unat_word_ariths)
  qed
  have u: "0 < uint (and x 3 + 1)" for x :: "8 word" using pn(1) [of x] by (simp only: uint_nat of_nat_0_less_iff)
  have u: "0 < uint (and x 3 + 1)" for x :: "8 word" using pn(1) [of x] by (simp only: uint_nat of_nat_0_less_iff)
  have len: "length ?b = length cid + 9 + length r" by simp
  have bounds: "\<not> length cid + 9 + 4 + 16 > length ?b" "\<not> sint (0 :: 64 word) + int (length cid + 9) > int (length ?b)"
    "\<not> length cid + 9 + unat (and x 3 + 1) > length ?b" "sint (0 :: 64 word) + int (length cid + 9) < int (length cid + 9 + unat (and x 3 + 1))" for x :: "8 word"
    using assms(4) pn [of x] u [of x] unfolding len by simp_all
  have "open_packet pkg cr ?b version1 cid 0 (length cid + 9) = Inl QuicPanic"
    unfolding open_packet_def Let_def using bounds by (simp only: if_False if_True simp_thms if_cancel)
  then have "fst (readQuicData pkg cr junk closing ?b q) = QuicPanic"
    using buf_laws.read_header_short [OF assms(1-3)] by (simp add: readQuicData_def)
  then show ?thesis using assms(5)
    by (cases "readQuicData pkg cr junk closing ?b q") (simp add: Send_def)
qed

text \<open>A packet that fills a datagram does not fit into the cache when the datagram leaves no room for the mask.\<close>

theorem quic_large_packet_crashes:
  assumes "read_header pkg b = Inr (ver, cid, len, hdrLen)" "sint len + int hdrLen = int (length b)"
    and "hdrLen + 20 \<le> length b" "b_PacketCap pkg < length b + 16" "\<not> q_closed q"
  shows "Send pkg cr junk closing b q = None"
proof -
  define n where "n = unat (and (xor (b ! 0) (and (aes_Encrypt cr (hkdfExpandLabel cr (initial_secret cr ver cid) [] ''quic hp'' 16)
      (take 16 (drop (hdrLen + 4) b)) ! 0) 0x0f)) 3 + 1)"
  have n: "n \<le> 4" unfolding n_def by (rule pn_length)
  have fits: "length (take (nat (int (length b)) - (hdrLen + n)) (drop (hdrLen + n) b)) + (hdrLen + n) = length b"
    using assms(3) n by auto
  have "open_packet pkg cr b ver cid len hdrLen = Inl QuicPanic"
    unfolding open_packet_def Let_def n_def [symmetric] assms(2) using assms(3,4) n fits by auto
  then have "fst (readQuicData pkg cr junk closing b q) = QuicPanic" using assms(1) by (simp add: readQuicData_def)
  then show ?thesis using assms(5) by (cases "readQuicData pkg cr junk closing b q") (simp add: Send_def)
qed

end
