(* ===== verification/QuicLaws.thy ===== *)
theory QuicLaws
  imports Quic
begin

text \<open>
  The reassembly of \<^verbatim>\<open>quic_sniffer.go\<close>: the CRYPTO frames of a client may come in any order, more than once and
  overlapping. The cursor's laws are shown to hold for lists of bytes with the variable-length integers of
  RFC 9000.
\<close>

section \<open>Merged ranges\<close>

text \<open>A merged list that covers exactly the numbers up to \<open>L\<close> is one range.\<close>

lemma separated_tail:
  "separated (r # rs) \<Longrightarrow> list_all range_ok rs \<Longrightarrow> s \<in> set rs \<Longrightarrow> range_end r + 1 < range_start s"
proof (induction rs arbitrary: r)
  case (Cons r' rs)
  show ?case
  proof (cases "s = r'")
    case False
    with Cons have "range_end r' + 1 < range_start s" by auto
    moreover have "range_end r' < range_end r' + 1" using Cons.prems False by (cases rs) auto
    moreover have "range_start r' \<le> range_end r'" using Cons.prems by (simp add: range_ok_def)
    moreover have "range_end r + 1 < range_start r'" using Cons.prems by simp
    ultimately show ?thesis by (meson order.strict_trans order_le_less_trans order_less_le_trans)
  qed (use Cons.prems in simp)
qed simp

lemma separated_single:
  assumes "separated rs" "list_all range_ok rs" "\<And>x. list_ex (\<lambda>r. Contains r x) rs \<longleftrightarrow> x \<le> L"
  shows "rs = [\<lparr>range_start = 0, range_end = L\<rparr>]"
proof (cases rs)
  case Nil
  with assms(3) [of 0] show ?thesis by simp
next
  case (Cons r l)
  have in_iff: "(\<exists>s\<in>set rs. range_start s \<le> x \<and> x \<le> range_end s) \<longleftrightarrow> x \<le> L" for x
    using assms(3) [of x] by (simp add: list_ex_iff Contains_def)
  have l: "l = []"
  proof (rule ccontr)
    assume "l \<noteq> []"
    then obtain s l' where s: "l = s # l'" by (cases l) auto
    then have e: "range_end r < range_end r + 1" "range_end r + 1 < range_start s"
      using assms(1) Cons by simp_all
    have "range_start s \<le> range_end s" using assms(2) Cons s by (simp add: range_ok_def)
    then have "range_end s \<le> L" "range_start s \<le> range_end s"
      using in_iff [of "range_end s"] Cons s by auto
    then have "range_end r + 1 \<le> L" using e by (meson less_imp_le order_trans)
    then obtain t where t: "t \<in> set rs" "range_start t \<le> range_end r + 1" "range_end r + 1 \<le> range_end t"
      using in_iff by blast
    have "t \<noteq> r" using t(3) e(1) by auto
    with t(1) Cons have "t \<in> set l" by simp
    from separated_tail [OF assms(1) [unfolded Cons] _ this] assms(2) Cons t(2) show False by (simp add: not_le [symmetric])
  qed
  have r: "range_start r \<le> x \<and> x \<le> range_end r \<longleftrightarrow> x \<le> L" for x using in_iff [of x] Cons l by simp
  have "range_start r = 0" using r [of 0] by simp
  moreover have "range_end r = L"
    using r [of "range_end r"] r [of L] \<open>range_start r = 0\<close> by (simp add: order.antisym)
  ultimately show ?thesis using Cons l by (cases r) auto
qed

section \<open>Storing frames\<close>

definition stored :: "bytes \<Rightarrow> (nat \<times> bytes) list \<Rightarrow> quicPacketSender \<Rightarrow> quicPacketSender" where
  "stored junk fs q = fold (\<lambda>(off, d) q. store junk off d (off + length d) q) fs q"

text \<open>The frames carry pieces of the stream \<open>s\<close>.\<close>

definition pieces :: "bytes \<Rightarrow> (nat \<times> bytes) list \<Rightarrow> bool" where
  "pieces s fs \<longleftrightarrow> (\<forall>(off, d)\<in>set fs. d \<noteq> [] \<and> off + length d \<le> length s \<and> d = take (length d) (drop off s))"

definition covered :: "(nat \<times> bytes) list \<Rightarrow> nat \<Rightarrow> bool" where
  "covered fs i \<longleftrightarrow> (\<exists>(off, d)\<in>set fs. off \<le> i \<and> i < off + length d)"

definition within_frame :: "(nat \<times> bytes) list \<Rightarrow> 64 word \<Rightarrow> bool" where
  "within_frame fs x \<longleftrightarrow> (\<exists>(off, d)\<in>set fs. off \<le> unat x \<and> unat x \<le> off + length d)"

definition reassembly :: "bytes \<Rightarrow> bytes \<Rightarrow> (nat \<times> bytes) list \<Rightarrow> quicPacketSender \<Rightarrow> bool" where
  "reassembly s junk fs q \<longleftrightarrow>
     \<not> q_closed q \<and> q_result q = None \<and> list_all range_ok (q_ranges q) \<and> separated (q_ranges q) \<and>
     (\<forall>x. list_ex (\<lambda>r. Contains r x) (q_ranges q) \<longleftrightarrow> within_frame fs x) \<and>
     (case q_buffer q of
        None \<Rightarrow> fs = []
      | Some (a, len) \<Rightarrow> length a = maxCryptoStreamOffset \<and> len \<le> length s \<and>
          (\<forall>(off, d)\<in>set fs. off + length d \<le> len) \<and> (\<forall>i. covered fs i \<longrightarrow> a ! i = s ! i))"

lemma nth_put_at:
  assumes "off + length d \<le> length a" "j < length a"
  shows "put_at off d a ! j = (if off \<le> j \<and> j < off + length d then d ! (j - off) else a ! j)"
  using assms by (auto simp: put_at_def nth_append)

lemma length_put_at [simp]: "off + length d \<le> length a \<Longrightarrow> length (put_at off d a) = length a"
  by (simp add: put_at_def)

lemma Merge_nonempty: "rs \<noteq> [] \<Longrightarrow> Merge rs \<noteq> []"
proof -
  assume "rs \<noteq> []"
  then obtain r l where s: "sort_key range_start rs = r # l"
    by (cases "sort_key range_start rs") (auto simp: sort_key_Nil)
  obtain r' l' where "merge_go r l = r' # l'" using merge_go_start by blast
  with s show ?thesis by (auto simp: Merge_def)
qed

lemma Merge_Contains:
  assumes "list_all range_ok rs" "rs \<noteq> []"
  shows "list_ex (\<lambda>r. Contains r x) (Merge rs) = list_ex (\<lambda>r. Contains r x) rs"
  using Merge_correct [OF assms(1)] Merge_nonempty [OF assms(2)] assms(2) by (simp add: Check_def)

lemma unat_small: "n < 2 ^ 64 \<Longrightarrow> unat (word_of_nat n :: 64 word) = n"
  by (simp add: unsigned_of_nat take_bit_nat_eq_self)

lemma reassembly_new: "reassembly s junk [] WrapperSender"
  by (simp add: reassembly_def WrapperSender_def within_frame_def)

lemma reassembly_store:
  assumes "reassembly s junk fs q" "length junk = maxCryptoStreamOffset" "length s \<le> maxCryptoStreamOffset"
    "pieces s [(off, d)]"
  shows "reassembly s junk (fs @ [(off, d)]) (store junk off d (off + length d) q)"
proof -
  have d: "d \<noteq> []" "off + length d \<le> length s" "d = take (length d) (drop off s)"
    using assms(4) by (auto simp: pieces_def)
  obtain a len where g: "grow junk (off + length d) q = (a, len)" by fastforce
  have a: "length a = maxCryptoStreamOffset" "len \<le> length s" "off + length d \<le> len"
    "\<forall>(off, d)\<in>set fs. off + length d \<le> len" "\<forall>i. covered fs i \<longrightarrow> a ! i = s ! i"
    using assms(1,2) d(2) g
    by (auto simp: reassembly_def grow_def covered_def split: option.splits if_splits prod.splits)
  have small: "off + length d < 2 ^ 64" using d(2) assms(3) by (simp add: maxCryptoStreamOffset_def)
  let ?r = "NewRange (word_of_nat off) (word_of_nat (off + length d)) :: 64 word range"
  have r: "?r = \<lparr>range_start = word_of_nat off, range_end = word_of_nat (off + length d)\<rparr>"
    using small by (simp add: NewRange_def word_less_nat_alt unat_small del: of_nat_add)
  have rc: "Contains ?r x \<longleftrightarrow> off \<le> unat x \<and> unat x \<le> off + length d" for x
    unfolding r using small by (simp add: Contains_def word_le_nat_alt unat_small del: of_nat_add)
  let ?rs = "q_ranges q @ [?r]"
  have ok: "list_all range_ok ?rs" using assms(1) by (simp add: reassembly_def)
  have ranges: "list_ex (\<lambda>r. Contains r x) (Merge ?rs) \<longleftrightarrow> within_frame (fs @ [(off, d)]) x" for x
    using Merge_Contains [OF ok, of x] assms(1) by (auto simp: reassembly_def within_frame_def rc simp del: of_nat_add)
  have bytes: "put_at off d a ! i = s ! i" if "covered (fs @ [(off, d)]) i" for i
  proof -
    have i: "i < length s" "i < length a"
      using that a(1-4) d(2) assms(3) by (auto simp: covered_def)
    have "d ! (i - off) = s ! i" if "off \<le> i" "i < off + length d"
      using that d(2) by (subst d(3)) simp
    moreover have "a ! i = s ! i" if "\<not> (off \<le> i \<and> i < off + length d)"
      using that a(5) \<open>covered (fs @ [(off, d)]) i\<close> by (auto simp: covered_def)
    ultimately show ?thesis using nth_put_at [of off d a i] i a(1,2,3) assms(3) by auto
  qed
  have "store junk off d (off + length d) q = q\<lparr>q_buffer := Some (put_at off d a, len), q_ranges := Merge ?rs\<rparr>"
    by (simp add: store_def g)
  then show ?thesis
    using assms(1,3) a bytes ranges Merge_correct [OF ok] by (auto simp: reassembly_def simp del: of_nat_add)
qed

lemma reassembly_stored:
  assumes "reassembly s junk fs0 q" "length junk = maxCryptoStreamOffset" "length s \<le> maxCryptoStreamOffset" "pieces s fs"
  shows "reassembly s junk (fs0 @ fs) (stored junk fs q)"
  using assms(1,4)
proof (induction fs arbitrary: fs0 q)
  case (Cons f fs)
  obtain off d where f: "f = (off, d)" by fastforce
  have "pieces s [(off, d)]" "pieces s fs" using Cons.prems(2) f by (auto simp: pieces_def)
  from Cons.IH [OF reassembly_store [OF Cons.prems(1) assms(2,3) this(1)] this(2)] show ?case
    by (simp add: stored_def f)
qed (simp add: stored_def)

lemma reassembly_complete:
  assumes "reassembly s junk fs q" "pieces s fs" "length s \<le> maxCryptoStreamOffset" "s \<noteq> []" "\<forall>i < length s. covered fs i"
  shows "\<exists>a. q_buffer q = Some (a, length s) \<and> take (length s) a = s \<and>
    q_ranges q = [\<lparr>range_start = 0, range_end = word_of_nat (length s)\<rparr>]"
proof -
  have small: "length s < 2 ^ 64" using assms(3) by (simp add: maxCryptoStreamOffset_def)
  have "covered fs (length s - 1)" using assms(4,5) by simp
  then obtain off d where f: "(off, d) \<in> set fs" "length s \<le> off + length d"
    using assms(4) by (auto simp: covered_def)
  moreover have "off + length d \<le> length s" using assms(2) f(1) by (auto simp: pieces_def)
  ultimately have last: "off + length d = length s" by simp
  have "fs \<noteq> []" using f(1) by auto
  then obtain a len where b: "q_buffer q = Some (a, len)"
    using assms(1) by (auto simp: reassembly_def split: option.splits)
  have a: "length a = maxCryptoStreamOffset" "len \<le> length s" "\<forall>(off, d)\<in>set fs. off + length d \<le> len" "\<forall>i. covered fs i \<longrightarrow> a ! i = s ! i"
    using assms(1) b by (auto simp: reassembly_def)
  have len: "len = length s" using a(2,3) f(1) last by fastforce
  have "take (length s) a = s"
    using a(1,4) assms(3,5) by (intro nth_equalityI) auto
  moreover have "within_frame fs x \<longleftrightarrow> x \<le> word_of_nat (length s)" for x
  proof
    assume "within_frame fs x"
    then obtain off d where "(off, d) \<in> set fs" "unat x \<le> off + length d" by (auto simp: within_frame_def)
    moreover from this(1) have "off + length d \<le> length s" using assms(2) by (auto simp: pieces_def)
    ultimately show "x \<le> word_of_nat (length s)" using small by (simp add: word_le_nat_alt unat_small)
  next
    assume "x \<le> word_of_nat (length s)"
    then have x: "unat x \<le> length s" using small by (simp add: word_le_nat_alt unat_small)
    show "within_frame fs x"
    proof (cases "unat x = length s")
      case True
      with f(1) last show ?thesis unfolding within_frame_def by (intro bexI [of _ "(off, d)"]) auto
    next
      case False
      with x assms(5) have "covered fs (unat x)" by simp
      then obtain off d where "(off, d) \<in> set fs" "off \<le> unat x" "unat x < off + length d" by (auto simp: covered_def)
      then show ?thesis unfolding within_frame_def by (intro bexI [of _ "(off, d)"]) auto
    qed
  qed
  then have "q_ranges q = [\<lparr>range_start = 0, range_end = word_of_nat (length s)\<rparr>]"
    using assms(1) by (intro separated_single) (auto simp: reassembly_def)
  ultimately show ?thesis using b len by blast
qed

text \<open>No byte is missing between two bytes that are there.\<close>

definition no_hole :: "(nat \<times> bytes) list \<Rightarrow> bool" where
  "no_hole fs \<longleftrightarrow> (\<forall>i. covered fs i \<and> covered fs (i + 2) \<longrightarrow> covered fs (i + 1))"

lemma within_covered:
  assumes "no_hole fs" "pieces s fs" "L < 2 ^ 64" "\<forall>x :: 64 word. unat x \<le> L \<longrightarrow> within_frame fs x" "i < L"
  shows "covered fs i"
proof -
  have within: "\<exists>(off, d)\<in>set fs. d \<noteq> [] \<and> off \<le> j \<and> j \<le> off + length d" if "j \<le> L" for j
  proof -
    have u: "unat (word_of_nat j :: 64 word) = j" using that assms(3) by (intro unat_small) simp
    then have "within_frame fs (word_of_nat j)" using assms(4) that by simp
    then obtain off d where "(off, d) \<in> set fs" "off \<le> j" "j \<le> off + length d" unfolding within_frame_def u by blast
    moreover from this(1) have "d \<noteq> []" using assms(2) by (auto simp: pieces_def)
    ultimately show ?thesis by (intro bexI [of _ "(off, d)"]) simp_all
  qed
  obtain off d where f: "(off, d) \<in> set fs" "d \<noteq> []" "off \<le> i" "i \<le> off + length d" using within [of i] assms(5) by auto
  obtain off' d' where f': "(off', d') \<in> set fs" "d' \<noteq> []" "off' \<le> i + 1" "i + 1 \<le> off' + length d'"
    using within [of "i + 1"] assms(5) by auto
  show ?thesis
  proof (rule ccontr)
    assume n: "\<not> covered fs i"
    have "\<not> (off \<le> i \<and> i < off + length d)" using n f(1) unfolding covered_def by blast
    with f have e: "i = off + length d" by simp
    have "\<not> (off' \<le> i \<and> i < off' + length d')" using n f'(1) unfolding covered_def by blast
    with f' have e': "off' = i + 1" by simp
    have l: "0 < length d" "0 < length d'" using f(2) f'(2) by auto
    have "off \<le> i - 1 \<and> i - 1 < off + length d" using e l by arith
    then have "covered fs (i - 1)" using f(1) unfolding covered_def by (intro bexI [of _ "(off, d)"]) simp_all
    moreover have "off' \<le> i - 1 + 2 \<and> i - 1 + 2 < off' + length d'" using e e' l by arith
    then have "covered fs (i - 1 + 2)" using f'(1) unfolding covered_def by (intro bexI [of _ "(off', d')"]) simp_all
    ultimately have "covered fs (i - 1 + 1)" using assms(1) unfolding no_hole_def by blast
    moreover have "i - 1 + 1 = i" using e l by arith
    ultimately show False using n by simp
  qed
qed

text \<open>A complete stream whose length field fits is read as a client hello.\<close>

definition hello_stream :: "bytes \<Rightarrow> bool" where
  "hello_stream s \<longleftrightarrow> 4 < length s \<and> length s \<le> maxCryptoStreamOffset \<and> unat (s ! 2) * 256 + unat (s ! 3) + 4 = length s"

lemma tryAssemble_complete:
  assumes "reassembly s junk fs q" "pieces s fs" "hello_stream s" "\<forall>i < length s. covered fs i"
    "ReadClientHello s = Value name" "\<forall>k. \<not> closing k"
  shows "tryAssemble closing k q = (QuicOk, closeLocked (q\<lparr>q_result := Some name\<rparr>))"
proof -
  have "s \<noteq> []" "length s \<le> maxCryptoStreamOffset" using assms(3) by (auto simp: hello_stream_def)
  with reassembly_complete [OF assms(1,2) _ _ assms(4)] obtain a where
    a: "q_buffer q = Some (a, length s)" "take (length s) a = s" "q_ranges q = [\<lparr>range_start = 0, range_end = word_of_nat (length s)\<rparr>]"
    by blast
  have "\<not> q_closed q" using assms(1) by (simp add: reassembly_def)
  moreover have "\<not> length s \<le> 4" "unat (s ! 2) * 256 + unat (s ! 3) + 4 = length s"
    using assms(3) by (auto simp: hello_stream_def)
  ultimately show ?thesis
    using a assms(5,6) by (simp add: tryAssemble_def q_lock_def)
qed

text \<open>While a byte is missing, and no single byte is missing between two that are there, the sender waits.\<close>

lemma tryAssemble_waits:
  assumes r: "reassembly s junk fs q" and p: "pieces s fs" and h: "hello_stream s" and n: "no_hole fs"
    and i: "\<not> (\<forall>i < length s. covered fs i)" and "\<forall>k. \<not> closing k"
  shows "tryAssemble closing k q = (QuicOk, q)"
proof -
  have open': "\<not> q_closed q" "q_lock closing k q = q" using r assms(6) by (simp_all add: reassembly_def q_lock_def)
  show ?thesis
  proof (cases "\<exists>rg a len. q_ranges q = [rg] \<and> q_buffer q = Some (a, len) \<and> range_start rg = 0 \<and> range_end rg = word_of_nat len")
    case False
    then show ?thesis using open' by (auto simp: tryAssemble_def Let_def split: list.split option.split)
  next
    case True
    then obtain rg a len where g: "q_ranges q = [rg]" "q_buffer q = Some (a, len)" "range_start rg = 0" "range_end rg = word_of_nat len"
      by blast
    have a: "length a = maxCryptoStreamOffset" "len \<le> length s" "\<forall>i. covered fs i \<longrightarrow> a ! i = s ! i"
      using r g(2) by (auto simp: reassembly_def)
    have s: "length s \<le> maxCryptoStreamOffset" "4 < length s" "unat (s ! 2) * 256 + unat (s ! 3) + 4 = length s"
      using h by (simp_all add: hello_stream_def)
    have small: "len < 2 ^ 64" using a(2) s(1) by (simp add: maxCryptoStreamOffset_def)
    have "within_frame fs x" if "unat x \<le> len" for x
    proof -
      have "Contains rg x" using that small by (simp add: Contains_def g word_le_nat_alt unat_small)
      then show ?thesis using r g(1) by (auto simp: reassembly_def)
    qed
    then have c: "covered fs j" if "j < len" for j using within_covered [OF n p small _ that] by blast
    then have "len \<noteq> length s" using i by blast
    then have "len < length s" using a(2) by simp
    moreover have "take len a ! j = s ! j" if "j < len" for j using that c a(3) by simp
    ultimately have "length (take len a) \<le> 4 \<or> unat (take len a ! 2) * 256 + unat (take len a ! 3) + 4 \<noteq> length (take len a)"
      using s a(1) by auto
    then show ?thesis using open' g by (auto simp: tryAssemble_def Let_def)
  qed
qed

section \<open>A packet of frames\<close>

text \<open>The frames a client sends before it has an answer; an acknowledgement has the largest number, the delay, the first
  range, the further ranges and the three counters of type 3.\<close>

datatype quic_frame =
    Padding
  | Ping
  | Ack nat nat nat "(nat \<times> nat) list" "(nat \<times> nat \<times> nat) option"
  | Crypto nat bytes

fun ack_counts :: "(nat \<times> nat \<times> nat) option \<Rightarrow> nat list" where
  "ack_counts None = []"
| "ack_counts (Some (a, b, c)) = [a, b, c]"

definition vencs :: "(nat \<Rightarrow> bytes) \<Rightarrow> nat list \<Rightarrow> bytes" where
  "vencs venc ns = concat (map venc ns)"

fun frame_bytes :: "(nat \<Rightarrow> bytes) \<Rightarrow> quic_frame list \<Rightarrow> bytes" where
  "frame_bytes venc [] = []"
| "frame_bytes venc (Padding # fs) = 0 # frame_bytes venc fs"
| "frame_bytes venc (Ping # fs) = 1 # frame_bytes venc fs"
| "frame_bytes venc (Ack l dl f rs ecn # fs) =
     (if ecn = None then 2 else 3) # vencs venc [l, dl] @ venc (length rs) @ vencs venc [f]
       @ vencs venc (concat (map (\<lambda>(g, n). [g, n]) rs)) @ vencs venc (ack_counts ecn) @ frame_bytes venc fs"
| "frame_bytes venc (Crypto off d # fs) = 6 # venc off @ venc (length d) @ d @ frame_bytes venc fs"

fun crypto_data :: "quic_frame list \<Rightarrow> (nat \<times> bytes) list" where
  "crypto_data [] = []"
| "crypto_data (Crypto off d # fs) = (off, d) # crypto_data fs"
| "crypto_data (f # fs) = crypto_data fs"

lemma crypto_data_append [simp]: "crypto_data (fs @ gs) = crypto_data fs @ crypto_data gs"
  by (induction fs rule: crypto_data.induct) simp_all

definition numbers :: "quic_frame \<Rightarrow> nat list" where
  "numbers f = (case f of Ack l dl f rs ecn \<Rightarrow> [l, dl, length rs, f] @ concat (map (\<lambda>(g, n). [g, n]) rs) @ ack_counts ecn | _ \<Rightarrow> [])"

text \<open>Frames that carry pieces of the stream \<open>s\<close>, with numbers that can be written.\<close>

definition frames_of :: "bytes \<Rightarrow> quic_frame list \<Rightarrow> bool" where
  "frames_of s fs \<longleftrightarrow> pieces s (crypto_data fs) \<and> (\<forall>f\<in>set fs. \<forall>n\<in>set (numbers f). n < 2 ^ 62)"

lemma frames_of_Cons: "frames_of s (f # fs) \<Longrightarrow> frames_of s fs"
  by (cases f) (auto simp: frames_of_def pieces_def)

context buf_laws
begin

lemma skip_varints_enc:
  "rest b = vencs venc ns @ xs \<Longrightarrow> \<forall>n\<in>set ns. n < 2 ^ 62 \<Longrightarrow> \<exists>b'. skip_varints (length ns) pkg b = Some b' \<and> rest b' = xs"
proof (induction ns arbitrary: b)
  case (Cons n ns)
  then obtain c where "varint_Read pkg b = Some (word_of_nat n, c)" "rest c = vencs venc ns @ xs"
    using varint_enc [of n b "vencs venc ns @ xs"] by (auto simp: vencs_def)
  with Cons.IH [of c] Cons.prems(2) show ?case by simp
qed (simp add: vencs_def)

lemma ack_frame_enc:
  assumes "rest b = vencs venc [l, dl] @ venc (length rs) @ vencs venc [f] @ vencs venc (concat (map (\<lambda>(g, n). [g, n]) rs))
      @ vencs venc (ack_counts ecn) @ xs"
    and n: "\<forall>n\<in>set (numbers (Ack l dl f rs ecn)). n < 2 ^ 62"
  shows "\<exists>b'. ack_frame pkg (if ecn = None then 2 else 3) b = Some b' \<and> rest b' = xs"
proof -
  obtain b1 where b1: "skip_varints 2 pkg b = Some b1" "rest b1 = venc (length rs) @ vencs venc [f]
      @ vencs venc (concat (map (\<lambda>(g, n). [g, n]) rs)) @ vencs venc (ack_counts ecn) @ xs"
    using skip_varints_enc [OF assms(1)] n by (auto simp: numbers_def numeral_2_eq_2)
  obtain b2 where b2: "varint_Read pkg b1 = Some (word_of_nat (length rs), b2)" "rest b2 = vencs venc [f]
      @ vencs venc (concat (map (\<lambda>(g, n). [g, n]) rs)) @ vencs venc (ack_counts ecn) @ xs"
    using varint_enc [OF _ b1(2)] n by (auto simp: numbers_def)
  obtain b3 where b3: "skip_varints 1 pkg b2 = Some b3"
    "rest b3 = vencs venc (concat (map (\<lambda>(g, n). [g, n]) rs)) @ vencs venc (ack_counts ecn) @ xs"
    using skip_varints_enc [OF b2(2)] n by (auto simp: numbers_def)
  have two: "length (concat (map (\<lambda>(g, n). [g, n]) rs)) = 2 * length rs" by (induction rs) auto
  have "length rs < 2 ^ 62" using n by (simp add: numbers_def)
  then have c: "nat (sint (word_of_nat (length rs) :: 64 word)) = length rs"
    by (simp add: signed_of_nat signed_take_bit_int_eq_self)
  have ns: "\<forall>n\<in>set (concat (map (\<lambda>(g, n). [g, n]) rs)). n < 2 ^ 62" "\<forall>n\<in>set (ack_counts ecn). n < 2 ^ 62"
    using n unfolding numbers_def quic_frame.case set_append ball_Un by blast+
  obtain b4 where b4: "skip_varints (2 * length rs) pkg b3 = Some b4" "rest b4 = vencs venc (ack_counts ecn) @ xs"
    using skip_varints_enc [OF b3(2) ns(1)] unfolding two by blast
  obtain b5 where b5: "skip_varints (length (ack_counts ecn)) pkg b4 = Some b5" "rest b5 = xs"
    using skip_varints_enc [OF b4(2) ns(2)] by blast
  show ?thesis
  proof (cases ecn)
    case None
    then show ?thesis using b1 b2 b3 b4 b5 c by (simp add: ack_frame_def)
  next
    case (Some abc)
    then have "length (ack_counts ecn) = 3" by (cases abc) simp
    then show ?thesis using b1 b2 b3 b4 b5 c Some by (simp add: ack_frame_def)
  qed
qed

lemma next_type_frame:
  assumes "rest b = t # xs" "t \<noteq> 0" "0 < n"
  shows "\<exists>b'. next_type n pkg 0 b = (t, b') \<and> rest b' = xs"
proof -
  obtain m where n: "n = Suc m" using assms(3) by (cases n) auto
  obtain c where c: "b_ReadByte pkg b = Some (t, c)" "rest c = xs" using ReadByte_Cons [OF assms(1)] by blast
  have "next_type m pkg t c = (t, c)" using assms(2) by (cases m) auto
  with c n assms(1) show ?thesis by (simp add: IsEmpty)
qed

lemma crypto_frame_stores:
  assumes "rest b = venc off @ venc (length d) @ d @ xs" "d \<noteq> []" "off + length d \<le> maxCryptoStreamOffset"
    "length (rest b) < 2 ^ 62" "\<not> q_closed q" "\<forall>k. \<not> closing k"
  shows "\<exists>b'. crypto_frame pkg junk closing k b q = (Inr b', store junk off d (off + length d) q) \<and> rest b' = xs"
proof -
  have small: "off < 2 ^ 62" "length d < 2 ^ 62" "off + length d < 2 ^ 64"
    using assms(3) by (simp_all add: maxCryptoStreamOffset_def)
  obtain b1 where b1: "varint_Read pkg b = Some (word_of_nat off, b1)" "rest b1 = venc (length d) @ d @ xs"
    using varint_enc [OF small(1) assms(1)] by blast
  obtain b2 where b2: "varint_Read pkg b1 = Some (word_of_nat (length d), b2)" "rest b2 = d @ xs"
    using varint_enc [OF small(2) b1(2)] by blast
  obtain b3 where b3: "b_Read pkg (length d) b2 = Some (d, b3)" "rest b3 = xs"
    using Read [of b2 "length d"] assms(2) b2(2) by auto
  have un: "unat (word_of_nat n :: 64 word) = n" if "n < 2 ^ 64" for n
    using that by (simp add: unsigned_of_nat take_bit_nat_eq_self)
  have bl: "b_Len pkg b2 = length d + length xs" "length d + length xs < 2 ^ 62"
    using Len [of b2] b2(2) assms(1,4) by simp_all
  have c1: "\<not> (word_of_nat (length d) :: 64 word) > word_of_nat (b_Len pkg b2)"
    using small(2) bl by (simp add: word_less_nat_alt un del: of_nat_add)
  have sum: "(word_of_nat off :: 64 word) + word_of_nat (length d) = word_of_nat (off + length d)" by simp
  have c2: "\<not> (word_of_nat (off + length d) :: 64 word) > word_of_nat maxCryptoStreamOffset"
    using assms(3) small(3) by (simp add: word_less_nat_alt un maxCryptoStreamOffset_def del: of_nat_add)
  have c3: "(word_of_nat off :: 64 word) \<le> word_of_nat (off + length d)"
    using small(3) by (simp add: word_le_nat_alt un del: of_nat_add)
  have n: "unat (word_of_nat (off + length d) :: 64 word) - unat (word_of_nat off :: 64 word) = length d"
    using small(3) by (simp add: un del: of_nat_add)
  have e: "unat (word_of_nat (off + length d) :: 64 word) = off + length d" "unat (word_of_nat off :: 64 word) = off"
    using small(3) by (simp_all add: un del: of_nat_add)
  have "crypto_frame pkg junk closing k b q = (Inr b3, store junk off d (off + length d) q)"
    using assms(5,6)
    by (simp only: crypto_frame_def b1(1) b2(1) option.case prod.case sum c1 c2 c3 n add_diff_cancel_left' b3(1) e Let_def q_lock_def if_False simp_thms)
  with b3(2) show ?thesis by blast
qed

lemma store_open: "q_closed (store junk off d e q) = q_closed q"
  by (simp add: store_def grow_def split: option.splits prod.splits)

text \<open>A padding byte is skipped.\<close>

lemma frame_loop_padding:
  assumes "rest b = 0 # xs" "\<not> q_closed q" "\<forall>k. \<not> closing k"
  shows "\<exists>b' k'. rest b' = xs \<and> frame_loop (Suc n) pkg junk closing k b q = frame_loop (Suc n) pkg junk closing k' b' q"
proof -
  obtain c where c: "b_ReadByte pkg b = Some (0, c)" "rest c = xs" using ReadByte_Cons [OF assms(1)] by blast
  have nt: "next_type (b_Len pkg b) pkg 0 b = next_type (b_Len pkg c) pkg 0 c" using c assms(1) by (simp add: Len IsEmpty)
  show ?thesis
  proof (cases "xs = []")
    case True
    then have "next_type (b_Len pkg b) pkg 0 b = (0, c)" unfolding nt using c(2) by (simp add: Len)
    then have "frame_loop (Suc n) pkg junk closing k b q = frame_loop n pkg junk closing (k + 2) c q"
      using assms by (simp add: IsEmpty q_lock_def)
    also have "\<dots> = frame_loop (Suc n) pkg junk closing (k + 2) c q" using c(2) True by (cases n) (simp_all add: IsEmpty)
    finally show ?thesis using c(2) by blast
  next
    case False
    then have "frame_loop (Suc n) pkg junk closing k b q = frame_loop (Suc n) pkg junk closing k c q"
      unfolding frame_loop.simps(2) nt IsEmpty using assms(1) c(2) by simp
    with c(2) show ?thesis by blast
  qed
qed

lemma frame_loop_stores:
  assumes "rest b = frame_bytes venc fs" "length (rest b) \<le> n" "length (rest b) < 2 ^ 62"
    "frames_of s fs" "length s \<le> maxCryptoStreamOffset" "\<not> q_closed q" "\<forall>k. \<not> closing k"
  shows "\<exists>k'. frame_loop n pkg junk closing k b q = tryAssemble closing k' (stored junk (crypto_data fs) q)"
  using assms(1-4,6)
proof (induction fs arbitrary: b n k q)
  case Nil
  then have "frame_loop n pkg junk closing k b q = tryAssemble closing k q" by (cases n) (simp_all add: IsEmpty)
  then show ?case by (auto simp: stored_def)
next
  case (Cons f fs)
  note ok = frames_of_Cons [OF Cons.prems(4)]
  have "rest b \<noteq> []" using Cons.prems(1) by (cases f) auto
  then obtain m where m: "n = Suc m" using Cons.prems(2) by (cases n) auto
  note open' = Cons.prems(5) assms(7)
  have type: "\<exists>b'. next_type (b_Len pkg b) pkg 0 b = (t, b') \<and> rest b' = xs" if "rest b = t # xs" "t \<noteq> 0" for t xs
  proof -
    have "0 < b_Len pkg b" using that(1) by (simp add: Len)
    from next_type_frame [OF that this] show ?thesis .
  qed
  show ?case
  proof (cases f)
    case Padding
    obtain b' k' where "rest b' = frame_bytes venc fs" "frame_loop n pkg junk closing k b q = frame_loop n pkg junk closing k' b' q"
      using frame_loop_padding [of b "frame_bytes venc fs" q closing m junk k] Cons.prems(1) open' Padding m by auto
    with Cons.IH [of b' n q k'] Cons.prems ok Padding show ?thesis by simp
  next
    case Ping
    obtain b' where b': "next_type (b_Len pkg b) pkg 0 b = (1, b')" "rest b' = frame_bytes venc fs"
      using type [of 1 "frame_bytes venc fs"] Cons.prems(1) Ping by auto
    then have "frame_loop n pkg junk closing k b q = frame_loop m pkg junk closing (k + 2) b' q"
      using open' \<open>rest b \<noteq> []\<close> m by (simp add: IsEmpty q_lock_def)
    with Cons.IH [of b' m q "k + 2"] Cons.prems ok Ping b'(2) m show ?thesis by simp
  next
    case (Ack l dl a rs ecn)
    let ?t = "if ecn = None then 2 else 3 :: 8 word"
    have t: "?t \<noteq> 0" "?t = 2 \<or> ?t = 3" by simp_all
    obtain b1 where b1: "next_type (b_Len pkg b) pkg 0 b = (?t, b1)"
      "rest b1 = vencs venc [l, dl] @ venc (length rs) @ vencs venc [a] @ vencs venc (concat (map (\<lambda>(g, n). [g, n]) rs))
        @ vencs venc (ack_counts ecn) @ frame_bytes venc fs"
      using type [OF _ t(1)] Cons.prems(1) Ack by auto
    have "\<forall>n\<in>set (numbers (Ack l dl a rs ecn)). n < 2 ^ 62" using Cons.prems(4) Ack by (simp add: frames_of_def)
    from ack_frame_enc [OF b1(2) this] obtain b' where b': "ack_frame pkg ?t b1 = Some b'" "rest b' = frame_bytes venc fs" by blast
    have "frame_loop n pkg junk closing k b q = frame_loop m pkg junk closing (k + 2) b' q"
      using open' \<open>rest b \<noteq> []\<close> m b1(1) b'(1) t(2) by (cases "ecn = None") (simp_all add: IsEmpty q_lock_def)
    moreover have "length (rest b') \<le> m" "length (rest b') < 2 ^ 62"
      using Cons.prems(1-3) Ack m b'(2) by simp_all
    ultimately show ?thesis using Cons.IH [OF b'(2), of m q "k + 2"] ok Cons.prems(5) Ack by simp
  next
    case (Crypto off d)
    obtain b1 where b1: "next_type (b_Len pkg b) pkg 0 b = (6, b1)" "rest b1 = venc off @ venc (length d) @ d @ frame_bytes venc fs"
      using type [of 6] Cons.prems(1) Crypto by auto
    have d: "d \<noteq> []" "off + length d \<le> maxCryptoStreamOffset"
      using Cons.prems(4) Crypto assms(5) by (auto simp: frames_of_def pieces_def)
    have "length (rest b1) < 2 ^ 62" using Cons.prems(1,3) b1(2) Crypto by simp
    from crypto_frame_stores [OF b1(2) d this open'] obtain b2 where
      b2: "crypto_frame pkg junk closing (Suc k) b1 q = (Inr b2, store junk off d (off + length d) q)" "rest b2 = frame_bytes venc fs"
      by blast
    have "frame_loop n pkg junk closing k b q = frame_loop m pkg junk closing (k + 2) b2 (store junk off d (off + length d) q)"
      using \<open>rest b \<noteq> []\<close> b1(1) b2(1) m open' by (simp add: IsEmpty q_lock_def)
    moreover have "length (rest b2) \<le> m" "length (rest b2) < 2 ^ 62"
      using Cons.prems(1-3) b2(2) m Crypto by simp_all
    moreover have "\<not> q_closed (store junk off d (off + length d) q)" using open'(1) store_open by simp
    ultimately show ?thesis using Cons.IH [OF b2(2), of m "store junk off d (off + length d) q" "k + 2"] ok Crypto
      by (simp add: stored_def)
  qed
qed

end

section \<open>A connection\<close>

text \<open>The datagrams of a connection, one after the other; \<open>None\<close> is a panic.\<close>

primrec sends :: "'b buf_pkg \<Rightarrow> quic_crypto \<Rightarrow> bytes \<Rightarrow> (nat \<Rightarrow> bool) \<Rightarrow> bytes list \<Rightarrow> quicPacketSender \<Rightarrow> quicPacketSender option" where
  "sends pkg cr junk closing [] q = Some q"
| "sends pkg cr junk closing (b # bs) q = Option.bind (Send pkg cr junk closing b q) (sends pkg cr junk closing bs)"

text \<open>The datagram is an initial packet, and \<open>d\<close> is its decrypted payload.\<close>

definition opens :: "'b buf_pkg \<Rightarrow> quic_crypto \<Rightarrow> bytes \<Rightarrow> bytes \<Rightarrow> bool" where
  "opens pkg cr b d \<longleftrightarrow> (\<exists>ver cid len hdrLen. read_header pkg b = Inr (ver, cid, len, hdrLen)
     \<and> open_packet pkg cr b ver cid len hdrLen = Inr d)"

definition complete :: "bytes \<Rightarrow> (nat \<times> bytes) list \<Rightarrow> bool" where
  "complete s fs \<longleftrightarrow> (\<forall>i < length s. covered fs i)"

definition sniffed :: "bytes \<Rightarrow> bytes \<Rightarrow> string \<Rightarrow> (nat \<times> bytes) list \<Rightarrow> quicPacketSender \<Rightarrow> bool" where
  "sniffed s junk name fs q \<longleftrightarrow>
     (if complete s fs then q_result q = Some name \<and> q_closed q else reassembly s junk fs q)"

lemma complete_more: "complete s fs \<Longrightarrow> complete s (fs @ gs)"
  by (auto simp: complete_def covered_def)

lemma Send_sniffs:
  assumes laws: "buf_laws pkg rest venc" and junk: "length junk = maxCryptoStreamOffset" and s: "hello_stream s" "ReadClientHello s = Value name"
    and closing: "\<forall>k. \<not> closing k" and b: "opens pkg cr b (frame_bytes venc fs)" "frames_of s fs" "length (frame_bytes venc fs) < 2 ^ 62"
    and p: "pieces s fs0" and n: "no_hole (fs0 @ crypto_data fs)" and q: "sniffed s junk name fs0 q"
  shows "\<exists>q'. Send pkg cr junk closing b q = Some q' \<and> sniffed s junk name (fs0 @ crypto_data fs) q'"
proof (cases "complete s fs0")
  case True
  with q show ?thesis by (auto simp: sniffed_def Send_def dest: complete_more [of s fs0 "crypto_data fs"])
next
  case False
  have len: "length s \<le> maxCryptoStreamOffset" using s(1) by (simp add: hello_stream_def)
  have r: "reassembly s junk fs0 q" using q False by (simp add: sniffed_def)
  then have open': "\<not> q_closed q" by (simp add: reassembly_def)
  have ps: "pieces s (crypto_data fs)" "pieces s (fs0 @ crypto_data fs)" using b(2) p by (auto simp: frames_of_def pieces_def)
  have r1: "reassembly s junk (fs0 @ crypto_data fs) (stored junk (crypto_data fs) q)"
    by (rule reassembly_stored [OF r junk len ps(1)])
  let ?d = "frame_bytes venc fs"
  have d: "rest (b_As pkg ?d) = ?d" by (rule buf_laws.As [OF laws])
  have "\<exists>k. frame_loop (length ?d) pkg junk closing 0 (b_As pkg ?d) q = tryAssemble closing k (stored junk (crypto_data fs) q)"
    by (rule buf_laws.frame_loop_stores [OF laws d _ _ b(2) len open' closing]) (simp_all only: d b(3))
  then obtain k where "frame_loop (length ?d) pkg junk closing 0 (b_As pkg ?d) q = tryAssemble closing k (stored junk (crypto_data fs) q)"
    by blast
  then have e: "readQuicData pkg cr junk closing b q = tryAssemble closing k (stored junk (crypto_data fs) q)"
    using b(1) by (auto simp: opens_def readQuicData_def)
  show ?thesis
  proof (cases "complete s (fs0 @ crypto_data fs)")
    case True
    from tryAssemble_complete [OF r1 ps(2) s(1) True [unfolded complete_def] s(2) closing] e open' True r1
    show ?thesis by (simp add: Send_def sniffed_def closeLocked_def reassembly_def)
  next
    case False
    from tryAssemble_waits [OF r1 ps(2) s(1) n False [unfolded complete_def] closing] e open' False r1
    show ?thesis by (simp add: Send_def sniffed_def)
  qed
qed

lemma sends_sniff:
  assumes laws: "buf_laws pkg rest venc" and junk: "length junk = maxCryptoStreamOffset" and s: "hello_stream s" "ReadClientHello s = Value name"
    and closing: "\<forall>k. \<not> closing k"
  shows "list_all2 (\<lambda>b fs. opens pkg cr b (frame_bytes venc fs)) bs packets \<Longrightarrow>
    \<forall>fs\<in>set packets. frames_of s fs \<and> length (frame_bytes venc fs) < 2 ^ 62 \<Longrightarrow> pieces s fs0 \<Longrightarrow>
    \<forall>m \<le> length packets. no_hole (fs0 @ crypto_data (concat (take m packets))) \<Longrightarrow> sniffed s junk name fs0 q \<Longrightarrow>
    \<exists>q'. sends pkg cr junk closing bs q = Some q' \<and> sniffed s junk name (fs0 @ crypto_data (concat packets)) q'"
proof (induction arbitrary: fs0 q rule: list_all2_induct)
  case (Cons b bs fs packets)
  have ok: "frames_of s fs" "length (frame_bytes venc fs) < 2 ^ 62" using Cons.prems(1) by simp_all
  have holes: "no_hole (fs0 @ crypto_data (concat (take m (fs # packets))))" if "m \<le> Suc (length packets)" for m
    using Cons.prems(3) that by simp
  have "no_hole (fs0 @ crypto_data fs)" using holes [of 1] by simp
  from Send_sniffs [OF laws junk s closing Cons.hyps(1) ok Cons.prems(2) this Cons.prems(4)]
  obtain q1 where q1: "Send pkg cr junk closing b q = Some q1" "sniffed s junk name (fs0 @ crypto_data fs) q1" by blast
  have "pieces s (fs0 @ crypto_data fs)" using ok(1) Cons.prems(2) by (auto simp: frames_of_def pieces_def)
  moreover have "\<forall>m \<le> length packets. no_hole ((fs0 @ crypto_data fs) @ crypto_data (concat (take m packets)))"
    using holes [of "Suc _"] by simp
  ultimately obtain q2 where "sends pkg cr junk closing bs q1 = Some q2"
    "sniffed s junk name ((fs0 @ crypto_data fs) @ crypto_data (concat packets)) q2"
    using Cons.IH [OF _ _ _ q1(2)] Cons.prems(1) by auto
  with q1(1) show ?case by simp
qed simp

text \<open>C18. Reassembly: the datagrams of a connection carry pieces of the client hello in CRYPTO frames, with padding, pings
  and acknowledgements between them. The sender takes them all without a panic; as soon as the frames so far cover the
  hello it has found the server name and is closed, and until then it has no result and waits. Neither the order, the
  repetition and the overlap of the frames nor what the buffer from the pool held matters. It is required that nobody
  else closes the sender, and that after no datagram a single byte is missing between two bytes that are there:
  \<open>quic_reads_hole\<close> shows what happens then.\<close>

theorem quic_reassembles:
  assumes "buf_laws pkg rest venc" "length junk = maxCryptoStreamOffset" "hello_stream s" "ReadClientHello s = Value name"
    and "\<forall>k. \<not> closing k" "list_all2 (\<lambda>b fs. opens pkg cr b (frame_bytes venc fs)) bs packets"
    and "\<forall>fs\<in>set packets. frames_of s fs \<and> length (frame_bytes venc fs) < 2 ^ 62"
    and "\<forall>m \<le> length packets. no_hole (crypto_data (concat (take m packets)))"
  shows "\<exists>q. sends pkg cr junk closing bs WrapperSender = Some q \<and>
    (if \<forall>i < length s. covered (crypto_data (concat packets)) i then q_result q = Some name \<and> q_closed q
     else q_result q = None \<and> \<not> q_closed q)"
proof -
  have "4 < length s" using assms(3) by (simp add: hello_stream_def)
  then have "\<not> complete s []" unfolding complete_def covered_def by (metis empty_iff list.set(1) not_less_zero neq0_conv)
  then have "sniffed s junk name [] WrapperSender" using reassembly_new by (simp add: sniffed_def)
  from sends_sniff [OF assms(1-7) _ _ this] assms(8)
  obtain q where "sends pkg cr junk closing bs WrapperSender = Some q" "sniffed s junk name (crypto_data (concat packets)) q"
    by (auto simp: pieces_def)
  then show ?thesis
    by (intro exI [of _ q]) (simp add: sniffed_def complete_def reassembly_def split: if_splits)
qed

section \<open>A cursor over a list of bytes\<close>

text \<open>Variable-length integers of RFC 9000: the two top bits of the first byte give the length.\<close>

definition be_bytes :: "nat \<Rightarrow> nat \<Rightarrow> bytes" where
  "be_bytes m n = map (\<lambda>i. word_of_nat (n div 256 ^ i mod 256)) (rev [0..<m])"

definition venc_with :: "nat \<Rightarrow> nat \<Rightarrow> nat \<Rightarrow> bytes" where
  "venc_with tag m n = word_of_nat (n div 256 ^ m + tag * 64) # be_bytes m n"

definition rfc_venc :: "nat \<Rightarrow> bytes" where
  "rfc_venc n = (if n < 64 then venc_with 0 0 n else if n < 2 ^ 14 then venc_with 1 1 n
     else if n < 2 ^ 30 then venc_with 2 3 n else venc_with 3 7 n)"

definition vvalue :: "nat \<Rightarrow> bytes \<Rightarrow> nat" where
  "vvalue v d = foldl (\<lambda>n y. n * 256 + unat y) v d"

definition rfc_varint :: "bytes \<Rightarrow> (64 word \<times> bytes) option" where
  "rfc_varint d = (case d of
     [] \<Rightarrow> None
   | x # xs \<Rightarrow>
       let m = 2 ^ (unat x div 64) - 1
       in if length xs < m then None else Some (word_of_nat (vvalue (unat x mod 64) (take m xs)), drop m xs))"

definition list_buf :: "bytes buf_pkg" where
  "list_buf = \<lparr>b_As = (\<lambda>d. d), b_ReadByte = (\<lambda>d. case d of [] \<Rightarrow> None | x # xs \<Rightarrow> Some (x, xs)),
     b_ReadBytes = (\<lambda>n d. if n \<le> length d then Some (take n d, drop n d) else None),
     b_Read = (\<lambda>n d. if d = [] then None else Some (take n d, drop n d)),
     b_Len = length, b_IsEmpty = (\<lambda>d. d = []), b_PacketCap = 16384, varint_Read = rfc_varint\<rparr>"

lemma length_be_bytes [simp]: "length (be_bytes m n) = m"
  by (simp add: be_bytes_def)

lemma be_bytes_Suc: "be_bytes (Suc m) n = word_of_nat (n div 256 ^ m mod 256) # be_bytes m n"
  by (simp add: be_bytes_def)

lemma vvalue_be_bytes: "vvalue (n div 256 ^ m) (be_bytes m n) = n"
proof (induction m)
  case (Suc m)
  have "unat (word_of_nat (n div 256 ^ m mod 256) :: 8 word) = n div 256 ^ m mod 256"
    by (simp add: unsigned_of_nat take_bit_nat_eq_self)
  moreover have "n div 256 ^ Suc m * 256 + n div 256 ^ m mod 256 = n div 256 ^ m"
    by (metis div_mult2_eq div_mult_mod_eq mult.commute power_Suc)
  ultimately show ?case using Suc by (simp add: be_bytes_Suc vvalue_def)
qed (simp add: be_bytes_def vvalue_def)

lemma vvalue_bound: "v < 64 \<Longrightarrow> vvalue v d < 64 * 256 ^ length d"
proof (induction d rule: rev_induct)
  case (snoc x d)
  have "unat x < 256" using unsigned_less [of x] by simp
  moreover have "vvalue v d + 1 \<le> 64 * 256 ^ length d" using snoc by simp
  then have "(vvalue v d + 1) * 256 \<le> 64 * 256 ^ length d * 256" by (intro mult_le_mono1)
  ultimately show ?case by (simp add: vvalue_def)
qed (simp add: vvalue_def)

lemma rfc_varint_with:
  assumes "n < 64 * 256 ^ m" "tag < 4" "m = 2 ^ tag - 1"
  shows "rfc_varint (venc_with tag m n @ xs) = Some (word_of_nat n, xs)"
proof -
  have top: "n div 256 ^ m < 64" using assms(1) by (simp add: less_mult_imp_div_less)
  then have u: "unat (word_of_nat (n div 256 ^ m + tag * 64) :: 8 word) = n div 256 ^ m + tag * 64"
    using assms(2) by (simp add: unsigned_of_nat take_bit_nat_eq_self del: of_nat_add)
  have k: "2 ^ (unat (word_of_nat (n div 256 ^ m + tag * 64) :: 8 word) div 64) - 1 = m"
    "unat (word_of_nat (n div 256 ^ m + tag * 64) :: 8 word) mod 64 = n div 256 ^ m"
    unfolding u using top assms(3) by simp_all
  show ?thesis
    unfolding rfc_varint_def venc_with_def append_Cons list.case Let_def k using vvalue_be_bytes [of n m] by simp
qed

lemma rfc_varint_enc: "n < 2 ^ 62 \<Longrightarrow> rfc_varint (rfc_venc n @ xs) = Some (word_of_nat n, xs)"
  by (auto simp: rfc_venc_def intro!: rfc_varint_with)

interpretation cursor: buf_laws list_buf "\<lambda>d. d" rfc_venc
proof (unfold_locales, goal_cases)
  case (10 b v b')
  then obtain x xs where b: "b = x # xs" by (cases b) (auto simp: list_buf_def rfc_varint_def)
  define m where "m = 2 ^ (unat x div 64) - (1 :: nat)"
  have v: "v = word_of_nat (vvalue (unat x mod 64) (take m xs))" "b' = drop m xs" "m \<le> length xs"
    using 10 b by (auto simp: list_buf_def rfc_varint_def Let_def m_def split: if_splits)
  have "unat x < 256" using unsigned_less [of x] by simp
  then have "unat x div 64 < 4" by (intro less_mult_imp_div_less) simp
  then have "unat x div 64 \<le> 3" by simp
  then have "(2 :: nat) ^ (unat x div 64) \<le> 2 ^ 3" by (intro power_increasing) auto
  then have m: "m \<le> 7" by (simp add: m_def)
  have "vvalue (unat x mod 64) (take m xs) < 64 * 256 ^ m"
    using vvalue_bound [of "unat x mod 64" "take m xs"] v(3) by simp
  also have "\<dots> \<le> 64 * 256 ^ 7" using m by (intro mult_left_mono power_increasing) auto
  finally have "vvalue (unat x mod 64) (take m xs) < 2 ^ 62" by simp
  moreover from this have "unat v = vvalue (unat x mod 64) (take m xs)"
    by (simp add: v(1) unsigned_of_nat take_bit_nat_eq_self)
  moreover have "b = (x # take m xs) @ b'" by (simp add: b v(2))
  ultimately show ?case by (metis append_Cons list.distinct(1))
next
  case (11 n b xs)
  then show ?case using rfc_varint_enc by (simp add: list_buf_def)
qed (auto simp: list_buf_def rfc_venc_def venc_with_def be_bytes_def)

section \<open>A hole of one byte\<close>

text \<open>The ranges of the frames are stored with their end as the last member, and merging joins ranges
  that only touch: a byte that no frame carries is not missed when the frames before and after it are there.\<close>

lemma merge_hole:
  assumes "i + 1 < n" "n \<le> maxCryptoStreamOffset"
  shows "Merge [NewRange 0 (word_of_nat i), NewRange (word_of_nat (i + 1)) (word_of_nat n)] =
    [\<lparr>range_start = 0, range_end = word_of_nat n :: 64 word\<rparr>]"
proof -
  have small: "n < 2 ^ 64" "i + 1 < 2 ^ 64" "i < 2 ^ 64" using assms by (simp_all add: maxCryptoStreamOffset_def)
  let ?a = "NewRange 0 (word_of_nat i) :: 64 word range" and ?b = "NewRange (word_of_nat (i + 1)) (word_of_nat n) :: 64 word range"
  have ab: "?a = \<lparr>range_start = 0, range_end = word_of_nat i\<rparr>" "?b = \<lparr>range_start = word_of_nat (i + 1), range_end = word_of_nat n\<rparr>"
    using small assms(1) by (simp_all add: NewRange_def word_less_nat_alt unat_small del: of_nat_add of_nat_Suc)
  have ok: "list_all range_ok [?a, ?b]" by simp
  have "list_ex (\<lambda>r. Contains r x) (Merge [?a, ?b]) \<longleftrightarrow> x \<le> word_of_nat n" for x
  proof -
    have "list_ex (\<lambda>r. Contains r x) [?a, ?b] \<longleftrightarrow> unat x \<le> i \<or> i + 1 \<le> unat x \<and> unat x \<le> n"
      unfolding ab using small by (simp add: Contains_def word_le_nat_alt unat_small del: of_nat_add of_nat_Suc)
    also have "\<dots> \<longleftrightarrow> x \<le> word_of_nat n" using small assms(1) by (auto simp: word_le_nat_alt unat_small)
    finally show ?thesis using Merge_Contains [OF ok] by simp
  qed
  then show ?thesis using Merge_correct [OF ok] by (intro separated_single) auto
qed

text \<open>With a hole of one byte between two frames the sender takes the client hello for complete, and reads
  what the buffer from the pool held there.\<close>

theorem quic_reads_hole:
  assumes "hello_stream s" "length junk = maxCryptoStreamOffset" "3 < i" "i + 1 < length s" "\<forall>k. \<not> closing k"
    and "ReadClientHello (s[i := junk ! i]) = Value name"
  shows "q_result (snd (tryAssemble closing k (stored junk [(0, take i s), (i + 1, drop (i + 1) s)] WrapperSender))) = Some name"
proof -
  note s = assms(1) [unfolded hello_stream_def]
  let ?d1 = "take i s" and ?d2 = "drop (i + 1) s"
  have l1: "0 + length ?d1 = i" and l2: "i + 1 + length ?d2 = length s" using assms(4) by simp_all
  let ?a1 = "put_at 0 ?d1 junk"
  let ?a2 = "put_at (i + 1) ?d2 ?a1"
  have la1: "length ?a1 = maxCryptoStreamOffset" using s assms(2,4) by (subst length_put_at) auto
  have la2: "length ?a2 = maxCryptoStreamOffset" using s la1 l2 by (subst length_put_at) auto
  have ranges1: "Merge [NewRange (word_of_nat 0) (word_of_nat i) :: 64 word range] = [NewRange 0 (word_of_nat i)]"
    by (simp add: Merge_def)
  have "stored junk [(0, ?d1), (i + 1, ?d2)] WrapperSender =
      WrapperSender\<lparr>q_buffer := Some (?a2, length s), q_ranges := [\<lparr>range_start = 0, range_end = word_of_nat (length s)\<rparr>]\<rparr>"
    unfolding stored_def fold.simps prod.case comp_apply id_apply l1 l2
    using ranges1 merge_hole [OF assms(4)] s assms(4)
    by (simp add: store_def grow_def WrapperSender_def)
  moreover have "take (length s) ?a2 = s[i := junk ! i]"
  proof (rule nth_equalityI)
    show "length (take (length s) ?a2) = length (s[i := junk ! i])" using s la2 by simp
    fix j assume "j < length (take (length s) ?a2)"
    then have j: "j < length s" by simp
    have "?a2 ! j = (if i + 1 \<le> j then s ! j else if j < i then s ! j else junk ! j)"
      using j s assms(2,4) nth_put_at [of "i + 1" ?d2 ?a1 j] nth_put_at [of 0 ?d1 junk j] by auto
    then show "take (length s) ?a2 ! j = s[i := junk ! i] ! j" using j by (cases "j = i") auto
  qed
  moreover have "unat (s[i := junk ! i] ! 2) * 256 + unat (s[i := junk ! i] ! 3) + 4 = length s"
    using s assms(3) by simp
  ultimately show ?thesis
    using s assms(5,6) by (simp add: tryAssemble_def q_lock_def WrapperSender_def closeLocked_def)
qed

section \<open>The theorems at work\<close>

definition demo_stream :: bytes where
  "demo_stream = hello_bytes (demo_hello\<lparr>h_len := [0, 0, 69]\<rparr>)"

lemmas demo_stream_simps = demo_stream_def hello_bytes_def demo_hello_def vec8_def vec16_def extension_list_def extension_def name_list_def
  string_bytes_def be16_def

lemma demo_stream_ok: "length demo_stream = 73" "hello_stream demo_stream"
proof -
  show len: "length demo_stream = 73" by (simp add: demo_stream_simps)
  have "demo_stream ! 2 = 0" "demo_stream ! 3 = 69" by code_simp+
  with len show "hello_stream demo_stream" by (simp add: hello_stream_def maxCryptoStreamOffset_def)
qed

lemma demo_stream_name: "ReadClientHello demo_stream = Value ''a.io''"
  by code_simp

text \<open>Two datagrams with keys that change nothing; the second repeats a part of the first, with other frames before it.\<close>

definition demo_crypto :: quic_crypto where
  "demo_crypto = \<lparr>hkdf_Extract = \<lambda>a b. [], hkdf_Expand = \<lambda>a b n. replicate n 0, aes_Encrypt = \<lambda>a b. replicate 16 0,
     gcm_Open = \<lambda>k n d a. Some d\<rparr>"

definition demo_datagram :: "bytes \<Rightarrow> bytes" where
  "demo_datagram d = [0xC0, 0, 0, 0, 1, 1] @ [7] @ [0, 0] @ [word_of_nat (Suc (length d))] @ 0 # d"

lemma demo_opens:
  assumes "20 \<le> length d" "length d < 60"
  shows "opens list_buf demo_crypto (demo_datagram d) d"
proof -
  have v: "rfc_venc (Suc (length d)) = [word_of_nat (Suc (length d))]" using assms(2) by (intro cursor.venc_byte) simp
  have h: "read_header list_buf (demo_datagram d) = Inr (version1, [7], word_of_nat (Suc (length d)), 10)"
    using cursor.read_header_initial [of "[7]" "Suc (length d)" "0 # d"] assms(2) unfolding v demo_datagram_def by simp
  have len: "length (demo_datagram d) = length d + 11" by (simp add: demo_datagram_def)
  have n: "sint (word_of_nat (Suc (length d)) :: 64 word) = int (Suc (length d))"
    using assms(2) by (simp add: signed_of_nat signed_take_bit_int_eq_self del: of_nat_Suc)
  have m: "replicate 16 (0 :: 8 word) ! 0 = 0" by simp
  have "open_packet list_buf demo_crypto (demo_datagram d) version1 [7] (word_of_nat (Suc (length d))) 10 = Inr d"
    unfolding open_packet_def Let_def len n using assms
    by (simp add: demo_crypto_def list_buf_def m) (simp add: demo_datagram_def)
  with h show ?thesis unfolding opens_def by blast
qed

lemma quic_reassembles_witness:
  "\<exists>q. sends list_buf demo_crypto (replicate maxCryptoStreamOffset 0) (\<lambda>k. False)
      [demo_datagram (frame_bytes rfc_venc [Crypto 36 (drop 36 demo_stream), Padding, Padding]),
       demo_datagram (frame_bytes rfc_venc [Ping, Padding, Ack 5 1 0 [(1, 2)] None, Crypto 0 (take 40 demo_stream)])] WrapperSender = Some q
    \<and> q_result q = Some ''a.io'' \<and> q_closed q"
proof -
  let ?fs1 = "[Crypto 36 (drop 36 demo_stream), Padding, Padding]"
  let ?fs2 = "[Ping, Padding, Ack 5 1 0 [(1, 2)] None, Crypto 0 (take 40 demo_stream)]"
  have l: "length (frame_bytes rfc_venc ?fs1) = 42" "length (frame_bytes rfc_venc ?fs2) = 52"
    by (simp_all add: vencs_def rfc_venc_def venc_with_def demo_stream_ok)
  have o: "list_all2 (\<lambda>b fs. opens list_buf demo_crypto b (frame_bytes rfc_venc fs))
      [demo_datagram (frame_bytes rfc_venc ?fs1), demo_datagram (frame_bytes rfc_venc ?fs2)] [?fs1, ?fs2]"
    using demo_opens [of "frame_bytes rfc_venc ?fs1"] demo_opens [of "frame_bytes rfc_venc ?fs2"] l by simp
  have c: "covered [(36, drop 36 demo_stream)] i \<longleftrightarrow> 36 \<le> i \<and> i < 73"
    "covered [(36, drop 36 demo_stream), (0, take 40 demo_stream)] i \<longleftrightarrow> i < 73" for i
    by (auto simp: covered_def demo_stream_ok)
  have h: "no_hole []" "no_hole [(36, drop 36 demo_stream)]" "no_hole [(36, drop 36 demo_stream), (0, take 40 demo_stream)]"
    unfolding no_hole_def c by (simp_all add: covered_def)
  have holes: "\<forall>m \<le> length [?fs1, ?fs2]. no_hole (crypto_data (concat (take m [?fs1, ?fs2])))"
  proof (intro allI impI)
    fix m assume "m \<le> length [?fs1, ?fs2]"
    then consider "m = 0" | "m = Suc 0" | "m = Suc (Suc 0)" by fastforce
    then show "no_hole (crypto_data (concat (take m [?fs1, ?fs2])))" by cases (simp_all add: h)
  qed
  have ok: "\<forall>fs\<in>set [?fs1, ?fs2]. frames_of demo_stream fs \<and> length (frame_bytes rfc_venc fs) < 2 ^ 62"
    using l demo_stream_ok(1) by (auto simp: frames_of_def pieces_def numbers_def)
  have all: "\<forall>i < length demo_stream. covered (crypto_data (concat [?fs1, ?fs2])) i" by (simp add: c demo_stream_ok)
  have "length (replicate maxCryptoStreamOffset (0 :: 8 word)) = maxCryptoStreamOffset" "\<forall>k :: nat. \<not> False" by simp_all
  from quic_reassembles [OF cursor.buf_laws_axioms this(1) demo_stream_ok(2) demo_stream_name this(2) o ok holes]
  show ?thesis unfolding if_P [OF all] .
qed

lemma quic_reads_hole_witness:
  "q_result (snd (tryAssemble (\<lambda>k. False) 0
     (stored (replicate maxCryptoStreamOffset 0x62) [(0, take 65 demo_stream), (65 + 1, drop (65 + 1) demo_stream)] WrapperSender))) = Some ''b.io''"
proof (rule quic_reads_hole)
  have "replicate maxCryptoStreamOffset (0x62 :: 8 word) ! 65 = 0x62" by (simp add: maxCryptoStreamOffset_def)
  moreover have "ReadClientHello (demo_stream[65 := 0x62]) = Value ''b.io''" by code_simp
  ultimately show "ReadClientHello (demo_stream[65 := replicate maxCryptoStreamOffset 0x62 ! 65]) = Value ''b.io''" by simp
qed (simp_all add: demo_stream_ok)

lemma quic_short_packet_crashes_witness:
  "\<forall>cr junk closing. Send list_buf cr junk closing
     ([0xC0, 0, 0, 0, 1, word_of_nat (length [7 :: 8 word])] @ [7] @ [0, 0, 0] @ replicate 20 0) WrapperSender = None"
  by (intro allI, rule quic_short_packet_crashes [OF cursor.buf_laws_axioms]) (simp_all add: WrapperSender_def)

lemma quic_panics_only_on_short_packets_witness:
  "fst (readQuicData list_buf \<lparr>hkdf_Extract = \<lambda>a b. [], hkdf_Expand = \<lambda>a b n. replicate n 0, aes_Encrypt = \<lambda>a b. replicate 16 0,
     gcm_Open = \<lambda>k n d a. Some d\<rparr> [] (\<lambda>k. False) [0xC0, 0, 0, 0, 1] WrapperSender) \<noteq> QuicFuel"
  using quic_panics_only_on_short_packets [OF cursor.buf_laws_axioms] by blast

end
