(* ===== verification/GroupDag.thy ===== *)
theory GroupDag
  imports Prelude "HOL-Library.AList" "HOL-Library.Multiset"
begin

text \<open>
  The order in which proxy groups are built, \<^verbatim>\<open>proxyGroupsDagSort\<close> of \<^verbatim>\<open>config/utils.go\<close>, and the
  check of the dialer references, \<^verbatim>\<open>validateDialerProxies\<close> of the same file.

  A Go map is an association list with distinct keys. The order in which Go ranges over a map is
  not defined, so every such loop takes a function that orders the keys, about which only
  \<open>reorders\<close> is ever assumed. Nodes are pointers in the code, each of them held by one entry of the
  map, so an update through the pointer is an update of that entry. The decoder of a group's
  mapping is a parameter; a mapping is \<open>None\<close> when it is nil.

  \<open>release\<close> is the inner loop of both queues, which is why what it does to the counters is stated
  in the locale \<open>counter\<close> and interpreted for the two counters of a node.
\<close>

section \<open>The data\<close>

record GroupCommonOption =
  opt_Name :: string
  opt_Type :: string
  opt_Proxies :: "string list"
  opt_Use :: "string list"
  opt_URL :: string
  opt_Interval :: int
  opt_TestTimeout :: int
  opt_MaxFailedTimes :: int
  opt_EmptyFallback :: string
  opt_Lazy :: bool
  opt_DisableUDP :: bool
  opt_Filter :: string
  opt_ExcludeFilter :: string
  opt_ExcludeType :: string
  opt_ExpectedStatus :: string
  opt_IncludeAll :: bool
  opt_IncludeAllProxies :: bool
  opt_IncludeAllProviders :: bool
  opt_Hidden :: bool
  opt_Icon :: string

record 'm graphNode =
  indegree :: int
  topo :: int
  node_data :: "'m option"
  outdegree :: int
  node_option :: "GroupCommonOption option"
  node_from :: "string list"

type_synonym 'm graph = "(string \<times> 'm graphNode) list"

datatype group_error = GroupUndecoded string | DuplicateGroup string | LoopDetected "string list"

definition reorders :: "(string list \<Rightarrow> string list) \<Rightarrow> bool" where
  "reorders ord \<longleftrightarrow> (\<forall>xs. mset (ord xs) = mset xs)"

section \<open>Sorting the groups\<close>

text \<open>Step 1.1: the graph of the groups and the names they contain.\<close>

definition add_group :: "'m option \<Rightarrow> GroupCommonOption \<Rightarrow> 'm graph \<Rightarrow> (group_error, 'm graph) outcome" where
  "add_group mapping opt g =
     (let groupName = opt_Name opt in
      case map_of g groupName of
        Some node \<Rightarrow>
          if node_data node \<noteq> None then Error (DuplicateGroup groupName)
          else Value (AList.update groupName (node\<lparr>node_data := mapping, node_option := Some opt\<rparr>) g)
      | None \<Rightarrow> Value (AList.update groupName
          \<lparr>indegree = 0, topo = - 1, node_data = mapping, outdegree = 0, node_option = Some opt, node_from = []\<rparr> g))"

fun link :: "string list \<Rightarrow> 'm graph \<Rightarrow> 'm graph" where
  "link [] g = g"
| "link (proxy # ps) g =
     (case map_of g proxy of
        Some node \<Rightarrow> link ps (AList.update proxy (node\<lparr>indegree := indegree node + 1\<rparr>) g)
      | None \<Rightarrow> link ps (AList.update proxy
          \<lparr>indegree = 1, topo = - 1, node_data = None, outdegree = 0, node_option = None, node_from = []\<rparr> g))"

text \<open>A nil mapping has no \<^verbatim>\<open>name\<close>, which the decoder requires.\<close>

definition decode_group :: "('m \<Rightarrow> string + GroupCommonOption) \<Rightarrow> 'm option \<Rightarrow> string + GroupCommonOption" where
  "decode_group decode mapping = (case mapping of None \<Rightarrow> Inl ''key 'name' missing'' | Some m \<Rightarrow> decode m)"

fun build_graph :: "('m \<Rightarrow> string + GroupCommonOption) \<Rightarrow> 'm option list \<Rightarrow> 'm graph \<Rightarrow> (group_error, 'm graph) outcome" where
  "build_graph decode [] g = Value g"
| "build_graph decode (mapping # ms) g =
     (case decode_group decode mapping of
        Inl err \<Rightarrow> Error (GroupUndecoded err)
      | Inr opt \<Rightarrow>
          (case add_group mapping opt g of
             Value g' \<Rightarrow> build_graph decode ms (link (opt_Proxies opt) g')
           | Error e \<Rightarrow> Error e
           | Panic \<Rightarrow> Panic))"

text \<open>The inner loop of both queues: each name loses one from its counter and joins the queue when
  that reaches zero. \<open>Panic\<close> is the dereference of a nil node.\<close>

fun release :: "('n \<Rightarrow> int) \<Rightarrow> ((int \<Rightarrow> int) \<Rightarrow> 'n \<Rightarrow> 'n) \<Rightarrow> string list \<Rightarrow> (string \<times> 'n) list \<Rightarrow> string list
    \<Rightarrow> (group_error, (string \<times> 'n) list \<times> string list) outcome" where
  "release get upd [] g queue = Value (g, queue)"
| "release get upd (p # ps) g queue =
     (case map_of g p of
        None \<Rightarrow> Panic
      | Some child \<Rightarrow>
          let child' = upd (\<lambda>d. d - 1) child in
          release get upd ps (AList.update p child' g) (if get child' = 0 then queue @ [p] else queue))"

lemma length_update_present: "map_of g k = Some v \<Longrightarrow> length (AList.update k w g) = length g"
  by (induction g) (auto split: if_splits)

lemma length_delete_present: "map_of g k = Some v \<Longrightarrow> length (AList.delete k g) < length g"
  unfolding AList.delete_eq by (rule length_filter_less [where x = "(k, v)"]) (auto dest: map_of_SomeD)

lemma release_length: "release get upd ps g queue = Value (g', queue') \<Longrightarrow> length g' = length g"
  by (induction ps arbitrary: g queue)
    (auto simp: Let_def length_update_present split: option.splits if_splits)

lemma release_present:
  "release get upd ps g queue = Value (g', queue') \<Longrightarrow> map_of g k = Some v \<Longrightarrow> \<exists>w. map_of g' k = Some w"
proof (induction ps arbitrary: g queue v)
  case (Cons p ps)
  then obtain c where c: "map_of g p = Some c" by (auto split: option.splits)
  have "\<exists>w. map_of (AList.update p (upd (\<lambda>d. d - 1) c) g) k = Some w"
    using Cons.prems(2) by (auto simp: update_conv')
  then show ?case
    using Cons.IH Cons.prems(1) c by (fastforce simp: Let_def split: if_splits)
qed auto

lemma release_delete_shorter:
  assumes "release get upd ps g queue = Value (g', queue')" and "map_of g k = Some v"
  shows "length (AList.delete k g') < length g"
proof -
  from assms obtain w where "map_of g' k = Some w" using release_present by fast
  then have "length (AList.delete k g') < length g'" by (rule length_delete_present)
  with release_length [OF assms(1)] show ?thesis by simp
qed

text \<open>Step 1.2: the queue of the nodes in no remaining group. A group is written to
  \<^verbatim>\<open>groupsConfig\<close> from its end; \<open>index\<close> counts the groups written.\<close>

function sort_queue :: "'m graph \<Rightarrow> string list \<Rightarrow> nat \<Rightarrow> 'm option list \<Rightarrow> (group_error, 'm graph \<times> 'm option list) outcome" where
  "sort_queue g [] index groupsConfig = Value (g, groupsConfig)"
| "sort_queue g (name # queue) index groupsConfig =
     (case map_of g name of
        None \<Rightarrow> Panic
      | Some node \<Rightarrow>
          (case node_option node of
             None \<Rightarrow> sort_queue (AList.delete name g) queue index groupsConfig
           | Some opt \<Rightarrow>
               if index + 1 > length groupsConfig then Panic
               else if opt_Proxies opt = [] then
                 sort_queue (AList.delete name g) queue (index + 1)
                   (groupsConfig[length groupsConfig - (index + 1) := node_data node])
               else
                 (case release indegree indegree_update (opt_Proxies opt) g queue of
                    Value (g', queue') \<Rightarrow>
                      sort_queue (AList.delete name g') queue' (index + 1)
                        (groupsConfig[length groupsConfig - (index + 1) := node_data node])
                  | Error e \<Rightarrow> Error e
                  | Panic \<Rightarrow> Panic)))"
  by pat_completeness auto
termination
proof (relation "measure (\<lambda>(g, _). length g)", goal_cases)
  case (4 g name queue index groupsConfig node opt x g' queue')
  then show ?case by (auto intro: release_delete_shorter)
qed (auto dest: length_delete_present)

text \<open>Step 2.1.\<close>

fun link_back :: "string \<Rightarrow> string list \<Rightarrow> 'm graph \<Rightarrow> (group_error, 'm graph) outcome" where
  "link_back name [] g = Value g"
| "link_back name (proxy # ps) g =
     (case map_of g name of
        None \<Rightarrow> Panic
      | Some node \<Rightarrow>
          let g' = AList.update name (node\<lparr>outdegree := outdegree node + 1\<rparr>) g in
          (case map_of g' proxy of
             None \<Rightarrow> Panic
           | Some child \<Rightarrow>
               link_back name ps (AList.update proxy (child\<lparr>node_from := node_from child @ [name]\<rparr>) g')))"

fun rebuild :: "string list \<Rightarrow> 'm graph \<Rightarrow> (group_error, 'm graph) outcome" where
  "rebuild [] g = Value g"
| "rebuild (name # ns) g =
     (case map_of g name of
        None \<Rightarrow> Panic
      | Some node \<Rightarrow>
          (case node_option node of
             None \<Rightarrow> rebuild ns g
           | Some opt \<Rightarrow>
               if opt_Proxies opt = [] then rebuild ns g
               else
                 (case link_back name (opt_Proxies opt) g of
                    Value g' \<Rightarrow> rebuild ns g'
                  | Error e \<Rightarrow> Error e
                  | Panic \<Rightarrow> Panic)))"

text \<open>Step 2.2.\<close>

function prune_queue :: "'m graph \<Rightarrow> string list \<Rightarrow> (group_error, 'm graph) outcome" where
  "prune_queue g [] = Value g"
| "prune_queue g (name # queue) =
     (case map_of g name of
        None \<Rightarrow> Panic
      | Some node \<Rightarrow>
          (case release outdegree outdegree_update (node_from node) g queue of
             Value (g', queue') \<Rightarrow> prune_queue (AList.delete name g') queue'
           | Error e \<Rightarrow> Error e
           | Panic \<Rightarrow> Panic))"
  by pat_completeness auto
termination
proof (relation "measure (\<lambda>(g, _). length g)", goal_cases)
  case (2 g name queue node x g' queue')
  then show ?case by (auto intro: release_delete_shorter)
qed auto

text \<open>The names whose node passes a test, in the order in which the map is ranged over.\<close>

definition names_where :: "(string list \<Rightarrow> string list) \<Rightarrow> ('m graphNode \<Rightarrow> bool) \<Rightarrow> 'm graph \<Rightarrow> string list" where
  "names_where ord P g =
     filter (\<lambda>name. case map_of g name of Some node \<Rightarrow> P node | None \<Rightarrow> False) (ord (map fst g))"

definition locate_loop :: "(nat \<Rightarrow> string list \<Rightarrow> string list) \<Rightarrow> 'm graph \<Rightarrow> (group_error, 'm option list) outcome" where
  "locate_loop ord g =
     (case rebuild (ord 1 (map fst g)) g of
        Value g1 \<Rightarrow>
          (case prune_queue g1 (names_where (ord 2) (\<lambda>node. outdegree node = 0) g1) of
             Value g2 \<Rightarrow> Error (LoopDetected (ord 3 (map fst g2)))
           | Error e \<Rightarrow> Error e
           | Panic \<Rightarrow> Panic)
      | Error e \<Rightarrow> Error e
      | Panic \<Rightarrow> Panic)"

definition proxyGroupsDagSort :: "('m \<Rightarrow> string + GroupCommonOption) \<Rightarrow> (nat \<Rightarrow> string list \<Rightarrow> string list)
    \<Rightarrow> 'm option list \<Rightarrow> (group_error, 'm option list) outcome" where
  "proxyGroupsDagSort decode ord groupsConfig =
     (case build_graph decode groupsConfig [] of
        Value g \<Rightarrow>
          (case sort_queue g (names_where (ord 0) (\<lambda>node. indegree node = 0) g) 0 groupsConfig of
             Value (g', cfg) \<Rightarrow> if g' = [] then Value cfg else locate_loop ord g'
           | Error e \<Rightarrow> Error e
           | Panic \<Rightarrow> Panic)
      | Error e \<Rightarrow> Error e
      | Panic \<Rightarrow> Panic)"

section \<open>Dialer references\<close>

datatype dialer_error = DialerNotFound string string | CircularDialer string

fun collect_dialers :: "(string \<times> string) list \<Rightarrow> string list \<Rightarrow> (string \<times> string) list \<Rightarrow> dialer_error + (string \<times> string) list" where
  "collect_dialers proxies [] graph = Inr graph"
| "collect_dialers proxies (name # ns) graph =
     (case map_of proxies name of
        None \<Rightarrow> collect_dialers proxies ns graph
      | Some dialerProxy \<Rightarrow>
          if dialerProxy = '''' then collect_dialers proxies ns graph
          else if map_of proxies dialerProxy = None then Inl (DialerNotFound name dialerProxy)
          else collect_dialers proxies ns (AList.update name dialerProxy graph))"

function HasCycle :: "string \<Rightarrow> (string \<times> string) list \<Rightarrow> string list \<Rightarrow> string list \<Rightarrow> bool" where
  "HasCycle current graph visited path =
     (if current \<in> set path then True
      else if current \<in> set visited then False
      else case map_of graph current of
             Some dialerProxy \<Rightarrow> HasCycle dialerProxy graph (current # visited) (path @ [current])
           | None \<Rightarrow> False)"
  by pat_completeness auto
termination
proof (relation "measure (\<lambda>(_, graph, visited, _). card (fst ` set graph - set visited))", goal_cases)
  case (2 current graph visited path dialerProxy)
  then have "current \<in> fst ` set graph - set visited"
    by (force dest: map_of_SomeD)
  then have "fst ` set graph - set (current # visited) \<subset> fst ` set graph - set visited"
    by auto
  then show ?case by (simp add: psubset_card_mono)
qed simp

declare HasCycle.simps [simp del]

definition validateDialerProxies :: "(nat \<Rightarrow> string list \<Rightarrow> string list) \<Rightarrow> (string \<times> string) list \<Rightarrow> dialer_error option" where
  "validateDialerProxies ord proxies =
     (case collect_dialers proxies (ord 0 (map fst proxies)) [] of
        Inl e \<Rightarrow> Some e
      | Inr graph \<Rightarrow>
          (case List.find (\<lambda>name. HasCycle name graph [] []) (ord 1 (map fst graph)) of
             Some name \<Rightarrow> Some (CircularDialer name)
           | None \<Rightarrow> None))"

end
