(* ===== verification/GroupDagLaws.thy ===== *)
theory GroupDagLaws
  imports GroupDag
begin

text \<open>
  What the sorting of groups and the check of dialers guarantee. \<open>peeling\<close> is the invariant that
  both queues of \<open>proxyGroupsDagSort\<close> share: they take nodes off a graph whose counter is zero.
  The locale \<open>counter\<close> proves its step once for a counter field, and is interpreted for the two
  counters of a node. \<open>peeled_core\<close> says what is left when such a queue is empty.
\<close>

section \<open>Taking nodes off a graph\<close>

text \<open>Nodes are taken off in the order \<open>d\<close>, each after all its predecessors.\<close>

definition peeled :: "('a \<times> 'a) set \<Rightarrow> 'a set \<Rightarrow> 'a list \<Rightarrow> bool" where
  "peeled E V d \<longleftrightarrow> (\<forall>d1 x d2. d = d1 @ x # d2 \<longrightarrow> (\<forall>y\<in>V. (y, x) \<in> E \<longrightarrow> y \<in> set d1))"

lemma peeled_Nil [simp]: "peeled E V []"
  by (simp add: peeled_def)

lemma peeled_snoc: "peeled E V d \<Longrightarrow> (\<And>y. y \<in> V \<Longrightarrow> (y, x) \<in> E \<Longrightarrow> y \<in> set d) \<Longrightarrow> peeled E V (d @ [x])"
  unfolding peeled_def by (auto simp: append_eq_append_conv2 append_eq_Cons_conv Cons_eq_append_conv) 

lemma peeled_trancl:
  assumes "peeled E V d" and "E \<subseteq> V \<times> V" and "(y, x) \<in> E\<^sup>+" and "d = d1 @ x # d2"
  shows "y \<in> set d1"
  using assms(3,4)
proof (induction arbitrary: d1 d2 rule: trancl_induct)
  case (base x)
  then show ?case using assms(1,2) unfolding peeled_def by blast
next
  case (step z x)
  then have "z \<in> set d1" using assms(1,2) unfolding peeled_def by blast
  then obtain e1 e2 where d1: "d1 = e1 @ z # e2" by (auto simp: in_set_conv_decomp)
  then have "y \<in> set e1" using step.IH [of e1 "e2 @ x # d2"] step.prems by simp
  then show ?case using d1 by simp
qed

lemma backward_cycle:
  assumes fin: "finite R" and x: "x \<in> R" and pre: "\<And>x. x \<in> R \<Longrightarrow> \<exists>y\<in>R. (y, x) \<in> E"
  shows "\<exists>y. (y, y) \<in> E\<^sup>+ \<and> (y, x) \<in> E\<^sup>*"
proof (rule ccontr)
  assume no: "\<not> ?thesis"
  define A where "A = {z \<in> R. (z, x) \<in> E\<^sup>*}"
  let ?F = "E \<inter> A \<times> A"
  have "finite A" using fin by (simp add: A_def)
  then have "finite ?F" by simp
  moreover have "acyclic ?F"
  proof (rule acyclicI, intro allI notI)
    fix z assume c: "(z, z) \<in> ?F\<^sup>+"
    then have "z \<in> A" by (induction rule: trancl_induct) auto
    moreover have "(z, z) \<in> E\<^sup>+" using c by (rule trancl_mono) simp
    ultimately show False using no by (auto simp: A_def)
  qed
  ultimately have "wf ?F" by (rule finite_acyclic_wf)
  moreover have "x \<in> A" using x by (simp add: A_def)
  ultimately obtain z where z: "z \<in> A" and min: "\<And>y. (y, z) \<in> ?F \<Longrightarrow> y \<notin> A"
    by (rule wfE_min) blast
  from z obtain y where y: "y \<in> R" "(y, z) \<in> E" using pre by (auto simp: A_def)
  then have "y \<in> A" using z by (auto simp: A_def intro: converse_rtrancl_into_rtrancl)
  with y z min [of y] show False by auto
qed

lemma peeled_core:
  assumes fin: "finite V" and E: "E \<subseteq> V \<times> V" and p: "peeled E V d" and dist: "distinct d"
    and V: "V = R \<union> set d" "R \<inter> set d = {}" and pre: "\<And>x. x \<in> R \<Longrightarrow> \<exists>y\<in>R. (y, x) \<in> E"
  shows "R = {x. \<exists>y. (y, y) \<in> E\<^sup>+ \<and> (y, x) \<in> E\<^sup>*}"
proof (intro set_eqI iffI)
  fix x assume "x \<in> R"
  then show "x \<in> {x. \<exists>y. (y, y) \<in> E\<^sup>+ \<and> (y, x) \<in> E\<^sup>*}"
    using backward_cycle [of R x E] fin V(1) pre by auto
next
  fix x assume "x \<in> {x. \<exists>y. (y, y) \<in> E\<^sup>+ \<and> (y, x) \<in> E\<^sup>*}"
  then obtain y where y: "(y, y) \<in> E\<^sup>+" "(y, x) \<in> E\<^sup>*" by blast
  have yd: "y \<notin> set d"
  proof
    assume "y \<in> set d"
    then obtain d1 d2 where d: "d = d1 @ y # d2" by (auto simp: in_set_conv_decomp)
    with peeled_trancl [OF p E y(1)] have "y \<in> set d1" by blast
    with d dist show False by simp
  qed
  have "y \<in> V" using y(1) E trancl_subset_Sigma [of E V] by blast
  show "x \<in> R"
  proof (cases "x = y")
    case True
    then show ?thesis using \<open>y \<in> V\<close> yd V(1) by blast
  next
    case False
    then have yx: "(y, x) \<in> E\<^sup>+" using y(2) by (simp add: rtrancl_eq_or_trancl)
    have "x \<in> V" using yx E trancl_subset_Sigma [of E V] by blast
    moreover have "x \<notin> set d"
    proof
      assume "x \<in> set d"
      then obtain d1 d2 where d: "d = d1 @ x # d2" by (auto simp: in_set_conv_decomp)
      with peeled_trancl [OF p E yx] have "y \<in> set d1" by blast
      with d yd show False by simp
    qed
    ultimately show ?thesis using V(1) by blast
  qed
qed

section \<open>Counters\<close>

definition peeling :: "('n \<Rightarrow> int) \<Rightarrow> ('n \<Rightarrow> string list) \<Rightarrow> (string \<Rightarrow> string list) \<Rightarrow> string set
    \<Rightarrow> (string \<times> 'n) list \<Rightarrow> string list \<Rightarrow> string list \<Rightarrow> bool" where
  "peeling get succs out V g queue d \<longleftrightarrow>
     distinct (map fst g) \<and> distinct d \<and> V = dom (map_of g) \<union> set d \<and> dom (map_of g) \<inter> set d = {} \<and>
     (\<forall>x n. map_of g x = Some n \<longrightarrow>
        succs n = out x \<and> get n = (\<Sum>y\<in>dom (map_of g). int (count_list (out y) x))) \<and>
     distinct queue \<and> set queue = {x. \<exists>n. map_of g x = Some n \<and> get n = 0} \<and>
     (\<forall>y\<in>dom (map_of g). set (out y) \<subseteq> dom (map_of g)) \<and>
     peeled {(y, x). x \<in> set (out y)} V d"

lemma peelingD:
  assumes "peeling get succs out V g queue d"
  shows "distinct (map fst g)" and "distinct d" and "V = dom (map_of g) \<union> set d" and "dom (map_of g) \<inter> set d = {}"
    and "\<And>x n. map_of g x = Some n \<Longrightarrow> succs n = out x"
    and "\<And>x n. map_of g x = Some n \<Longrightarrow> get n = (\<Sum>y\<in>dom (map_of g). int (count_list (out y) x))"
    and "distinct queue" and "\<And>x. x \<in> set queue \<longleftrightarrow> (\<exists>n. map_of g x = Some n \<and> get n = 0)"
    and "\<And>y. y \<in> dom (map_of g) \<Longrightarrow> set (out y) \<subseteq> dom (map_of g)"
    and "peeled {(y, x). x \<in> set (out y)} V d"
  using assms unfolding peeling_def by (blast, blast, blast, blast, blast, blast, blast, blast, blast, blast)

locale counter =
  fixes get :: "'n \<Rightarrow> int" and upd :: "(int \<Rightarrow> int) \<Rightarrow> 'n \<Rightarrow> 'n" and succs :: "'n \<Rightarrow> string list"
  assumes get_upd: "get (upd f n) = f (get n)"
    and upd_upd: "upd f (upd h n) = upd (\<lambda>d. f (h d)) n"
    and upd_id: "upd (\<lambda>d. d) n = n"
    and succs_upd: "succs (upd f n) = succs n"
begin

lemma release_runs:
  "(\<And>p. p \<in> set ps \<Longrightarrow> \<exists>n. map_of g p = Some n \<and> int (count_list ps p) \<le> get n) \<Longrightarrow>
   \<exists>g' new. release get upd ps g queue = Value (g', queue @ new) \<and> map fst g' = map fst g \<and>
     map_of g' = (\<lambda>z. map_option (upd (\<lambda>d. d - int (count_list ps z))) (map_of g z)) \<and>
     distinct new \<and> set new = {z \<in> set ps. \<exists>n. map_of g z = Some n \<and> get n = int (count_list ps z)}"
proof (induction ps arbitrary: g queue)
  case Nil
  then show ?case by (simp add: upd_id option.map_ident)
next
  case (Cons p ps)
  obtain c where c: "map_of g p = Some c" "int (count_list ps p) + 1 \<le> get c"
    using Cons.prems [of p] by auto
  let ?c = "upd (\<lambda>d. d - 1) c"
  let ?g = "AList.update p ?c g"
  let ?q = "if get ?c = 0 then queue @ [p] else queue"
  have "\<exists>n. map_of ?g z = Some n \<and> int (count_list ps z) \<le> get n" if "z \<in> set ps" for z
    using Cons.prems [of z] that c by (auto simp: update_conv' get_upd split: if_splits)
  from Cons.IH [OF this, where queue = ?q] obtain g' new where
    r: "release get upd ps ?g ?q = Value (g', ?q @ new)" and
    k: "map fst g' = map fst ?g" and
    m: "map_of g' = (\<lambda>z. map_option (upd (\<lambda>d. d - int (count_list ps z))) (map_of ?g z))" and
    n: "distinct new" "set new = {z \<in> set ps. \<exists>n. map_of ?g z = Some n \<and> get n = int (count_list ps z)}"
    by blast
  have keys: "map fst ?g = map fst g"
    using c by (auto simp: AList.update_keys dest: map_of_SomeD intro: rev_image_eqI)
  let ?new = "if get ?c = 0 then p # new else new"
  have "release get upd (p # ps) g queue = Value (g', queue @ ?new)"
    using c(1) r by (simp add: Let_def)
  moreover have "map fst g' = map fst g" using k keys by simp
  moreover have "map_of g' = (\<lambda>z. map_option (upd (\<lambda>d. d - int (count_list (p # ps) z))) (map_of g z))"
    using c(1) by (auto simp: m update_conv' upd_upd fun_eq_iff algebra_simps)
  moreover have "distinct ?new" using n c by (auto simp: get_upd count_list_0_iff)
  moreover have "set ?new = {z \<in> set (p # ps). \<exists>n. map_of g z = Some n \<and> get n = int (count_list (p # ps) z)}"
  proof (intro set_eqI)
    fix z
    have "z \<in> set new \<longleftrightarrow> z \<in> set ps \<and> (\<exists>n. map_of g z = Some n \<and> get n = int (count_list (p # ps) z))"
      using c(1) by (cases "z = p") (auto simp: n(2) update_conv' get_upd)
    then show "z \<in> set ?new \<longleftrightarrow> z \<in> {z \<in> set (p # ps). \<exists>n. map_of g z = Some n \<and> get n = int (count_list (p # ps) z)}"
      using c by (cases "z = p") (auto simp: get_upd count_list_0_iff)
  qed
  ultimately show ?case by blast
qed

lemma peel_step:
  assumes p: "peeling get succs out V g (x # queue) d"
  obtains n g' queue' where "map_of g x = Some n"
    and "release get upd (succs n) g queue = Value (g', queue')"
    and "peeling get succs out V (AList.delete x g') queue' (d @ [x])"
    and "\<And>z m. map_of g' z = Some m \<Longrightarrow> \<exists>m0 f. map_of g z = Some m0 \<and> m = upd f m0"
proof -
  let ?D = "dom (map_of g)"
  note P = peelingD [OF p]
  have fin: "finite ?D" by (rule finite_dom_map_of)
  obtain n where n: "map_of g x = Some n" "get n = 0" using P(8) [of x] by auto
  have sn: "succs n = out x" and dg: "\<And>z m. map_of g z = Some m \<Longrightarrow> get m = (\<Sum>y\<in>?D. int (count_list (out y) z))"
    using P(5) [OF n(1)] P(6) by auto
  have "(\<Sum>y\<in>?D. int (count_list (out y) x)) = 0" using dg [OF n(1)] n(2) by simp
  then have nox: "x \<notin> set (out y)" if "y \<in> ?D" for y
    using that fin by (simp add: sum_nonneg_eq_0_iff count_list_0_iff)
  have xD: "x \<in> ?D" using n by auto
  have le: "int (count_list (out x) z) \<le> get m" if "map_of g z = Some m" for z m
    using dg [OF that] member_le_sum [OF xD _ fin, of "\<lambda>y. int (count_list (out y) z)"] by simp
  have "\<exists>m. map_of g z = Some m \<and> int (count_list (succs n) z) \<le> get m" if "z \<in> set (succs n)" for z
    using that P(9) [OF xD] le unfolding sn by (metis (no_types, lifting) domD subsetD)
  from release_runs [OF this, where queue = queue] obtain g' new where
    r: "release get upd (succs n) g queue = Value (g', queue @ new)" and
    k: "map fst g' = map fst g" and
    m: "map_of g' = (\<lambda>z. map_option (upd (\<lambda>d. d - int (count_list (succs n) z))) (map_of g z))" and
    new: "distinct new" "set new = {z \<in> set (succs n). \<exists>m. map_of g z = Some m \<and> get m = int (count_list (succs n) z)}"
    by blast
  let ?g = "AList.delete x g'"
  have mg: "map_of ?g = (map_of g')(x := None)" by (rule delete_conv')
  have D: "dom (map_of ?g) = ?D - {x}" by (auto simp: mg m dom_def)
  have "distinct (map fst ?g)" using P(1) k by (metis distinct_delete)
  moreover have "distinct (d @ [x])" "V = dom (map_of ?g) \<union> set (d @ [x])" "dom (map_of ?g) \<inter> set (d @ [x]) = {}"
    using P(2,3,4) xD unfolding D by auto
  moreover have "succs w = out z \<and> get w = (\<Sum>y\<in>dom (map_of ?g). int (count_list (out y) z))"
    if w: "map_of ?g z = Some w" for z w
  proof -
    from w obtain w0 where w0: "map_of g z = Some w0" "w = upd (\<lambda>d. d - int (count_list (out x) z)) w0"
      by (auto simp: mg m sn split: if_splits)
    have "(\<Sum>y\<in>?D. int (count_list (out y) z)) = int (count_list (out x) z) + (\<Sum>y\<in>?D - {x}. int (count_list (out y) z))"
      using sum.remove [OF fin xD] .
    then show ?thesis using P(5) [OF w0(1)] w0(2) dg [OF w0(1)] by (simp add: succs_upd get_upd D)
  qed
  moreover have "distinct (queue @ new)"
  proof -
    have "z \<notin> set new" if "z \<in> set queue" for z
      using P(8) [of z] that new(2) by (auto simp: count_list_0_iff)
    then show ?thesis using P(7) new(1) by auto
  qed
  moreover have "\<forall>z. z \<in> set (queue @ new) \<longleftrightarrow> (\<exists>w. map_of ?g z = Some w \<and> get w = 0)"
  proof (intro allI iffI)
    fix z assume "z \<in> set (queue @ new)"
    then consider "z \<in> set queue" | "z \<in> set new" by auto
    then show "\<exists>w. map_of ?g z = Some w \<and> get w = 0"
    proof cases
      case 1
      then obtain w where w: "map_of g z = Some w" "get w = 0" "z \<noteq> x" using P(7,8) by auto
      then have "count_list (out x) z = 0" using le [OF w(1)] by simp
      then show ?thesis using w by (auto simp: mg m sn get_upd)
    next
      case 2
      then have "z \<noteq> x" using new(2) nox [OF xD] sn by auto
      then show ?thesis using 2 new(2) by (auto simp: mg m get_upd)
    qed
  next
    fix z assume "\<exists>w. map_of ?g z = Some w \<and> get w = 0"
    then obtain w where w: "z \<noteq> x" "map_of g z = Some w" "get w = int (count_list (succs n) z)"
      by (auto simp: mg m get_upd split: if_splits)
    show "z \<in> set (queue @ new)"
    proof (cases "z \<in> set (succs n)")
      case True
      then show ?thesis using w new(2) by auto
    next
      case False
      then have "get w = 0" using w(3) by (simp add: count_list_0_iff)
      then have "z \<in> set (x # queue)" using P(8) w(2) by blast
      then show ?thesis using w(1) by auto
    qed
  qed
  moreover have "set (out y) \<subseteq> dom (map_of ?g)" if "y \<in> dom (map_of ?g)" for y
    using that P(9) [of y] nox unfolding D by blast
  moreover have "peeled {(y, x). x \<in> set (out y)} V (d @ [x])"
    using P(3) nox by (intro peeled_snoc P(10)) auto
  ultimately have "peeling get succs out V ?g (queue @ new) (d @ [x])"
    unfolding peeling_def by (auto simp del: map_of_eq_Some_iff)
  moreover have "\<exists>m0 f. map_of g z = Some m0 \<and> w = upd f m0" if "map_of g' z = Some w" for z w
    using that by (auto simp: m)
  ultimately show thesis using that n(1) r by blast
qed

end

text \<open>What is left when the queue is empty.\<close>

lemma peeling_left:
  assumes p: "peeling get succs out V g [] d" and V: "\<And>y. y \<in> V \<Longrightarrow> set (out y) \<subseteq> V"
  defines "E \<equiv> {(y, x). y \<in> V \<and> x \<in> set (out y)}"
  shows "dom (map_of g) = {x. \<exists>y. (y, y) \<in> E\<^sup>+ \<and> (y, x) \<in> E\<^sup>*}"
proof (rule peeled_core [of V E d])
  note P = peelingD [OF p]
  show "finite V" unfolding P(3) by (simp add: finite_dom_map_of)
  show "E \<subseteq> V \<times> V" using V by (auto simp: E_def)
  show "peeled E V d" using P(10) by (simp add: E_def peeled_def)
  show "distinct d" "V = dom (map_of g) \<union> set d" "dom (map_of g) \<inter> set d = {}" by (fact P)+
  fix x assume "x \<in> dom (map_of g)"
  then obtain n where n: "map_of g x = Some n" by auto
  then have "get n \<noteq> 0" using P(8) by auto
  then have "(\<Sum>y\<in>dom (map_of g). int (count_list (out y) x)) \<noteq> 0" using P(6) n by auto
  then obtain y where "y \<in> dom (map_of g)" "int (count_list (out y) x) \<noteq> 0"
    by (rule sum.not_neutral_contains_not_neutral)
  then show "\<exists>y\<in>dom (map_of g). (y, x) \<in> E"
    using P(3) by (auto simp: E_def count_list_0_iff)
qed

section \<open>The graph of the groups\<close>

text \<open>The groups of a configuration: each mapping with what it decodes to.\<close>

definition decoded :: "('m \<Rightarrow> string + GroupCommonOption) \<Rightarrow> 'm option list \<Rightarrow> ('m \<times> GroupCommonOption) list \<Rightarrow> bool" where
  "decoded decode ms gs \<longleftrightarrow> ms = map (\<lambda>(m, opt). Some m) gs \<and> list_all (\<lambda>(m, opt). decode m = Inr opt) gs"

definition group_names :: "('m \<times> GroupCommonOption) list \<Rightarrow> string list" where
  "group_names gs = map (\<lambda>g. opt_Name (snd g)) gs"

definition group_named :: "('m \<times> GroupCommonOption) list \<Rightarrow> string \<Rightarrow> ('m \<times> GroupCommonOption) option" where
  "group_named gs = map_of (map (\<lambda>g. (opt_Name (snd g), g)) gs)"

definition members :: "('m \<times> GroupCommonOption) list \<Rightarrow> string \<Rightarrow> string list" where
  "members gs x = (case group_named gs x of None \<Rightarrow> [] | Some g \<Rightarrow> opt_Proxies (snd g))"

definition all_names :: "('m \<times> GroupCommonOption) list \<Rightarrow> string set" where
  "all_names gs = set (group_names gs) \<union> (\<Union>g\<in>set gs. set (opt_Proxies (snd g)))"

definition uses :: "('m \<times> GroupCommonOption) list \<Rightarrow> string \<Rightarrow> int" where
  "uses gs x = sum_list (map (\<lambda>g. int (count_list (opt_Proxies (snd g)) x)) gs)"

text \<open>A group points to what it contains.\<close>

definition contains :: "('m \<times> GroupCommonOption) list \<Rightarrow> (string \<times> string) set" where
  "contains gs = {(opt_Name opt, p) | m opt p. (m, opt) \<in> set gs \<and> p \<in> set (opt_Proxies opt)}"

definition built :: "('m \<times> GroupCommonOption) list \<Rightarrow> 'm graph \<Rightarrow> bool" where
  "built gs g \<longleftrightarrow> distinct (map fst g) \<and> distinct (group_names gs) \<and> dom (map_of g) = all_names gs \<and>
     (\<forall>x nd. map_of g x = Some nd \<longrightarrow>
        node_data nd = map_option fst (group_named gs x) \<and> node_option nd = map_option snd (group_named gs x) \<and>
        indegree nd = uses gs x \<and> outdegree nd = 0 \<and> node_from nd = [])"

lemma link_spec:
  "map_of (link ps g) z =
     (case map_of g z of
        Some nd \<Rightarrow> Some (nd\<lparr>indegree := indegree nd + int (count_list ps z)\<rparr>)
      | None \<Rightarrow> if z \<in> set ps then Some \<lparr>indegree = int (count_list ps z), topo = - 1, node_data = None,
                                   outdegree = 0, node_option = None, node_from = []\<rparr> else None)"
  by (induction ps arbitrary: g)
    (auto simp: update_conv' count_list_0_iff split: option.splits)

lemma distinct_link: "distinct (map fst g) \<Longrightarrow> distinct (map fst (link ps g))"
  by (induction ps arbitrary: g) (auto split: option.splits intro!: distinct_update)

lemma uses_outside: "x \<notin> all_names gs \<Longrightarrow> uses gs x = 0"
  unfolding uses_def all_names_def
  by (subst map_cong [OF refl, of _ _ "\<lambda>_. 0"]) (auto simp: count_list_0_iff)

lemma group_named_None: "group_named gs x = None \<longleftrightarrow> x \<notin> set (group_names gs)"
  by (simp add: group_named_def group_names_def map_of_eq_None_iff image_image)

lemma group_named_Some:
  assumes "distinct (group_names gs)"
  shows "group_named gs x = Some (m, opt) \<longleftrightarrow> (m, opt) \<in> set gs \<and> opt_Name opt = x"
proof -
  have "distinct (map fst (map (\<lambda>g. (opt_Name (snd g), g)) gs))"
    using assms by (simp add: group_names_def comp_def)
  then show ?thesis
    by (force simp: group_named_def map_of_eq_Some_iff image_iff simp del: map_map)
qed

lemma built_step:
  assumes b: "built gs g"
  shows "case add_group (Some m) opt g of
           Value g' \<Rightarrow> built (gs @ [(m, opt)]) (link (opt_Proxies opt) g')
         | Error e \<Rightarrow> e = DuplicateGroup (opt_Name opt) \<and> opt_Name opt \<in> set (group_names gs)
         | Panic \<Rightarrow> False"
proof (cases "opt_Name opt \<in> set (group_names gs)")
  case True
  then have "opt_Name opt \<in> dom (map_of g)" using b by (simp add: built_def all_names_def)
  then obtain nd where nd: "map_of g (opt_Name opt) = Some nd" by blast
  then have "node_data nd = map_option fst (group_named gs (opt_Name opt))" using b by (simp add: built_def del: map_of_eq_Some_iff)
  then have "node_data nd \<noteq> None" using True group_named_None [of gs "opt_Name opt"] by auto
  then show ?thesis using True nd by (simp add: add_group_def)
next
  case False
  let ?n = "opt_Name opt" and ?gs = "gs @ [(m, opt)]"
  note B = b [unfolded built_def]
  have gn: "group_named ?gs x = (if x = ?n then Some (m, opt) else group_named gs x)" for x
    using False group_named_None [of gs ?n]
    by (auto simp: group_named_def map_of_append map_add_def split: option.splits)
  have us: "uses ?gs x = uses gs x + int (count_list (opt_Proxies opt) x)" for x
    by (simp add: uses_def)
  have an: "all_names ?gs = insert ?n (all_names gs \<union> set (opt_Proxies opt))"
    by (auto simp: all_names_def group_names_def)
  have free: "group_named gs ?n = None" using False by (simp add: group_named_None)
  obtain nd where a: "add_group (Some m) opt g = Value (AList.update ?n nd g)"
    and nd: "node_data nd = Some m" "node_option nd = Some opt" "indegree nd = uses gs ?n" "outdegree nd = 0" "node_from nd = []"
  proof (cases "map_of g ?n")
    case None
    then have "?n \<notin> all_names gs" using B by (metis domIff)
    then have "uses gs ?n = 0" by (rule uses_outside)
    with None that show thesis by (simp add: add_group_def)
  next
    case (Some nd)
    then have "node_data nd = None" "indegree nd = uses gs ?n" "outdegree nd = 0" "node_from nd = []"
      using B free by (auto simp del: map_of_eq_Some_iff)
    with Some that show thesis by (simp add: add_group_def)
  qed
  let ?g = "link (opt_Proxies opt) (AList.update ?n nd g)"
  have "distinct (map fst ?g)" using B by (intro distinct_link distinct_update) simp
  moreover have "distinct (group_names ?gs)" using B False by (simp add: group_names_def)
  moreover have "dom (map_of ?g) = all_names ?gs"
  proof -
    have "dom (map_of ?g) = dom (map_of (AList.update ?n nd g)) \<union> set (opt_Proxies opt)"
      by (auto simp: link_spec dom_def split: option.splits if_splits)
    then show ?thesis using B by (auto simp: an update_conv')
  qed
  moreover have "node_data w = map_option fst (group_named ?gs x) \<and> node_option w = map_option snd (group_named ?gs x) \<and>
        indegree w = uses ?gs x \<and> outdegree w = 0 \<and> node_from w = []" if w: "map_of ?g x = Some w" for x w
  proof (cases "map_of (AList.update ?n nd g) x")
    case None
    then have "map_of g x = None" "x \<noteq> ?n" by (auto simp: update_conv' split: if_splits)
    then have "x \<notin> all_names gs" using B by (metis domIff)
    then have "uses gs x = 0" "group_named gs x = None"
      by (auto simp: uses_outside group_named_None all_names_def)
    then show ?thesis using None w \<open>x \<noteq> ?n\<close> by (auto simp: link_spec gn us split: if_splits)
  next
    case (Some v)
    then show ?thesis
      using w nd B by (cases "x = ?n") (auto simp: link_spec gn us update_conv' simp del: map_of_eq_Some_iff)
  qed
  ultimately show ?thesis unfolding built_def a outcome.case by blast
qed

lemma build_graph_runs:
  "built gs g \<Longrightarrow>
   (\<exists>gs' g'. build_graph decode ms g = Value g' \<and> decoded decode ms gs' \<and> built (gs @ gs') g') \<or>
   (\<exists>e mp. build_graph decode ms g = Error (GroupUndecoded e) \<and> mp \<in> set ms \<and> decode_group decode mp = Inl e) \<or>
   (\<exists>gs' m opt. build_graph decode ms g = Error (DuplicateGroup (opt_Name opt)) \<and>
      decoded decode (take (length gs' + 1) ms) (gs' @ [(m, opt)]) \<and> opt_Name opt \<in> set (group_names (gs @ gs')))"
proof (induction ms arbitrary: gs g)
  case Nil
  then show ?case by (auto simp: decoded_def)
next
  case (Cons mp ms)
  show ?case
  proof (cases "decode_group decode mp")
    case (Inl e)
    then show ?thesis by auto
  next
    case (Inr opt)
    then obtain m where m: "mp = Some m" "decode m = Inr opt"
      by (auto simp: decode_group_def split: option.splits)
    show ?thesis
    proof (cases "add_group (Some m) opt g")
      case (Value g1)
      then have "built (gs @ [(m, opt)]) (link (opt_Proxies opt) g1)"
        using built_step [OF Cons.prems, of m opt] by simp
      note IH = Cons.IH [OF this]
      have eq: "build_graph decode (mp # ms) g = build_graph decode ms (link (opt_Proxies opt) g1)"
        using Value Inr m by simp
      from IH consider
        (ok) gs' g' where "build_graph decode ms (link (opt_Proxies opt) g1) = Value g'" "decoded decode ms gs'"
          "built ((gs @ [(m, opt)]) @ gs') g'"
      | (undec) e mp' where "build_graph decode ms (link (opt_Proxies opt) g1) = Error (GroupUndecoded e)"
          "mp' \<in> set ms" "decode_group decode mp' = Inl e"
      | (dup) gs' m' opt' where "build_graph decode ms (link (opt_Proxies opt) g1) = Error (DuplicateGroup (opt_Name opt'))"
          "decoded decode (take (length gs' + 1) ms) (gs' @ [(m', opt')])"
          "opt_Name opt' \<in> set (group_names ((gs @ [(m, opt)]) @ gs'))"
        by blast
      then show ?thesis
      proof cases
        case ok
        moreover have "decoded decode (mp # ms) ((m, opt) # gs')" using ok m by (simp add: decoded_def)
        ultimately show ?thesis unfolding eq by (intro disjI1 exI [of _ "(m, opt) # gs'"]) simp
      next
        case undec
        then show ?thesis unfolding eq by auto
      next
        case dup
        have "decoded decode (take (length ((m, opt) # gs') + 1) (mp # ms)) (((m, opt) # gs') @ [(m', opt')])"
          using dup(2) m by (simp add: decoded_def)
        moreover have "opt_Name opt' \<in> set (group_names (gs @ (m, opt) # gs'))" using dup(3) by simp
        ultimately show ?thesis using dup(1) unfolding eq by blast
      qed
    next
      case (Error e)
      then have "e = DuplicateGroup (opt_Name opt)" "opt_Name opt \<in> set (group_names gs)"
        using built_step [OF Cons.prems, of m opt] by simp_all
      then have "build_graph decode (mp # ms) g = Error (DuplicateGroup (opt_Name opt))"
        "decoded decode (take (length [] + 1) (mp # ms)) ([] @ [(m, opt)])" "opt_Name opt \<in> set (group_names (gs @ []))"
        using Inr m Error by (simp_all add: decoded_def)
      then show ?thesis by blast
    next
      case Panic
      then show ?thesis using built_step [OF Cons.prems, of m opt] by simp
    qed
  qed
qed

text \<open>What a node of the graph points to, and the names of the groups in a list of names.\<close>

definition node_succs :: "'m graphNode \<Rightarrow> string list" where
  "node_succs nd = (case node_option nd of None \<Rightarrow> [] | Some opt \<Rightarrow> opt_Proxies opt)"

definition only_groups :: "('m \<times> GroupCommonOption) list \<Rightarrow> string list \<Rightarrow> string list" where
  "only_groups gs d = filter (\<lambda>x. x \<in> set (group_names gs)) d"

definition group_data :: "('m \<times> GroupCommonOption) list \<Rightarrow> string list \<Rightarrow> 'm option list" where
  "group_data gs d = rev (map (\<lambda>x. map_option fst (group_named gs x)) (only_groups gs d))"

interpretation ins: counter indegree indegree_update node_succs
  by unfold_locales (simp_all add: node_succs_def comp_def)

interpretation outs: counter outdegree outdegree_update node_from
  by unfold_locales (simp_all add: comp_def)

lemma finite_all_names: "finite (all_names gs)"
  by (auto simp: all_names_def)

lemma builtD:
  assumes "built gs g"
  shows "distinct (map fst g)" and "distinct (group_names gs)" and "dom (map_of g) = all_names gs"
    and "\<And>x nd. map_of g x = Some nd \<Longrightarrow> node_data nd = map_option fst (group_named gs x)"
    and "\<And>x nd. map_of g x = Some nd \<Longrightarrow> node_option nd = map_option snd (group_named gs x)"
    and "\<And>x nd. map_of g x = Some nd \<Longrightarrow> indegree nd = uses gs x"
    and "\<And>x nd. map_of g x = Some nd \<Longrightarrow> outdegree nd = 0 \<and> node_from nd = []"
  using assms unfolding built_def by (blast, blast, blast, blast, blast, blast, blast)

lemma members_outside: "y \<notin> set (group_names gs) \<Longrightarrow> members gs y = []"
  using group_named_None [of gs y] by (simp add: members_def)

lemma uses_sum:
  assumes "distinct (group_names gs)"
  shows "uses gs x = (\<Sum>y\<in>all_names gs. int (count_list (members gs y) x))"
proof -
  let ?f = "\<lambda>y. int (count_list (members gs y) x)"
  have "members gs (opt_Name (snd g)) = opt_Proxies (snd g)" if "g \<in> set gs" for g
    using group_named_Some [OF assms, of "opt_Name (snd g)" "fst g" "snd g"] that by (simp add: members_def)
  then have "uses gs x = sum_list (map ?f (group_names gs))"
    unfolding uses_def group_names_def by (simp add: comp_def cong: map_cong)
  also have "\<dots> = sum ?f (set (group_names gs))"
    using assms by (rule sum_list_distinct_conv_sum_set)
  also have "\<dots> = sum ?f (all_names gs)"
  proof (rule sum.mono_neutral_left [OF finite_all_names])
    show "set (group_names gs) \<subseteq> all_names gs" by (simp add: all_names_def)
    show "\<forall>y\<in>all_names gs - set (group_names gs). ?f y = 0"
      by (simp add: members_outside)
  qed
  finally show ?thesis .
qed

lemma contains_members:
  assumes "distinct (group_names gs)"
  shows "contains gs = {(y, x). y \<in> all_names gs \<and> x \<in> set (members gs y)}"
proof -
  have "(y, x) \<in> contains gs \<longleftrightarrow> y \<in> all_names gs \<and> x \<in> set (members gs y)" for y x
  proof (cases "group_named gs y")
    case None
    then have "y \<notin> set (group_names gs)" by (simp add: group_named_None)
    moreover from this have "members gs y = []" by (rule members_outside)
    ultimately show ?thesis by (force simp: contains_def group_names_def)
  next
    case (Some mo)
    obtain m opt where mo: "mo = (m, opt)" by (cases mo)
    then have g: "(m, opt) \<in> set gs" "opt_Name opt = y" using Some group_named_Some [OF assms] by auto
    have same: "opt' = opt" if "(m', opt') \<in> set gs" "opt_Name opt' = y" for m' opt'
      using group_named_Some [OF assms, of y m' opt'] that Some mo by simp
    have "(y, x) \<in> contains gs \<longleftrightarrow> x \<in> set (opt_Proxies opt)"
    proof
      assume "(y, x) \<in> contains gs"
      then obtain m' opt' where "(m', opt') \<in> set gs" "opt_Name opt' = y" "x \<in> set (opt_Proxies opt')"
        unfolding contains_def by blast
      then show "x \<in> set (opt_Proxies opt)" using same by blast
    next
      assume "x \<in> set (opt_Proxies opt)"
      then show "(y, x) \<in> contains gs" using g unfolding contains_def by blast
    qed
    moreover have "y \<in> all_names gs" using g by (force simp: all_names_def group_names_def)
    ultimately show ?thesis using Some mo by (simp add: members_def)
  qed
  then show ?thesis by auto
qed

lemma members_all_names:
  assumes "distinct (group_names gs)"
  shows "set (members gs y) \<subseteq> all_names gs"
proof (cases "group_named gs y")
  case (Some g)
  then have "g \<in> set gs" using group_named_Some [OF assms, of y "fst g" "snd g"] by simp
  then show ?thesis using Some by (auto simp: members_def all_names_def)
qed (simp add: members_def)

lemma reorders_set: "reorders ord \<Longrightarrow> set (ord xs) = set xs"
  unfolding reorders_def by (metis set_mset_mset)

lemma reorders_distinct: "reorders ord \<Longrightarrow> distinct (ord xs) = distinct xs"
  unfolding reorders_def by (metis mset_eq_imp_distinct_iff)

lemma set_names_where:
  "reorders ord \<Longrightarrow> x \<in> set (names_where ord P g) \<longleftrightarrow> (\<exists>nd. map_of g x = Some nd \<and> P nd)"
  using domI [of "map_of g" x] by (auto simp: names_where_def reorders_set dom_map_of_conv_image_fst split: option.splits)

lemma distinct_names_where:
  "reorders ord \<Longrightarrow> distinct (map fst g) \<Longrightarrow> distinct (names_where ord P g)"
  by (simp add: names_where_def reorders_distinct)

lemma peel_start:
  assumes b: "built gs g" and ord: "reorders ord"
  shows "peeling indegree node_succs (members gs) (all_names gs) g (names_where ord (\<lambda>nd. indegree nd = 0) g) []"
proof -
  note B = builtD [OF b]
  have n: "node_succs nd = members gs x \<and> indegree nd = (\<Sum>y\<in>dom (map_of g). int (count_list (members gs y) x))"
    if "map_of g x = Some nd" for x nd
  proof -
    show ?thesis using B(5) [OF that] B(6) [OF that] uses_sum [OF B(2), of x]
      by (cases "group_named gs x") (simp_all add: node_succs_def members_def B(3))
  qed
  have m: "set (members gs y) \<subseteq> dom (map_of g)" for y
    using members_all_names [OF B(2)] B(3) by simp
  show ?thesis
    unfolding peeling_def
  proof (intro conjI allI impI ballI)
    show "distinct (map fst g)" "all_names gs = dom (map_of g) \<union> set []" using B(1,3) by simp_all
    show "distinct (names_where ord (\<lambda>nd. indegree nd = 0) g)" by (rule distinct_names_where [OF ord B(1)])
    show "set (names_where ord (\<lambda>nd. indegree nd = 0) g) = {x. \<exists>nd. map_of g x = Some nd \<and> indegree nd = 0}"
      by (rule set_eqI) (simp only: set_names_where [OF ord] mem_Collect_eq)
    fix x nd assume "map_of g x = Some nd"
    from n [OF this] show "node_succs nd = members gs x"
      and "indegree nd = (\<Sum>y\<in>dom (map_of g). int (count_list (members gs y) x))" by blast+
  qed (rule m | simp)+
qed

lemma drop_list_update: "k < length xs \<Longrightarrow> drop k (xs[k := v]) = v # drop (Suc k) xs"
  by (simp add: Cons_nth_drop_Suc [symmetric])

lemma sort_queue_step:
  assumes "map_of g x = Some n" and "release indegree indegree_update (node_succs n) g queue = Value (g', queue')"
  shows "sort_queue g (x # queue) index cfg =
     (case node_option n of
        None \<Rightarrow> sort_queue (AList.delete x g') queue' index cfg
      | Some opt \<Rightarrow>
          if index + 1 > length cfg then Panic
          else sort_queue (AList.delete x g') queue' (index + 1) (cfg[length cfg - (index + 1) := node_data n]))"
  using assms by (auto simp: node_succs_def split: option.splits)

lemma sort_queue_runs:
  assumes b: "built gs g0"
  shows "peeling indegree node_succs (members gs) (all_names gs) g queue d \<Longrightarrow>
    (\<And>z nd. map_of g z = Some nd \<Longrightarrow> \<exists>f nd0. map_of g0 z = Some nd0 \<and> nd = indegree_update f nd0) \<Longrightarrow>
    length cfg = length gs \<Longrightarrow> index = length (only_groups gs d) \<Longrightarrow>
    drop (length gs - index) cfg = group_data gs d \<Longrightarrow>
    \<exists>g' cfg' d'. sort_queue g queue index cfg = Value (g', cfg') \<and>
      peeling indegree node_succs (members gs) (all_names gs) g' [] d' \<and>
      (\<forall>z nd. map_of g' z = Some nd \<longrightarrow> (\<exists>f nd0. map_of g0 z = Some nd0 \<and> nd = indegree_update f nd0)) \<and>
      length cfg' = length gs \<and> drop (length gs - length (only_groups gs d')) cfg' = group_data gs d'"
proof (induction "length g" arbitrary: g queue d cfg index rule: less_induct)
  case less
  show ?case
  proof (cases queue)
    case Nil
    then show ?thesis using less.prems by auto
  next
    case (Cons x queue1)
    from ins.peel_step [OF less.prems(1) [unfolded Cons]] obtain n g' queue' where
      n: "map_of g x = Some n" and r: "release indegree indegree_update (node_succs n) g queue1 = Value (g', queue')" and
      p: "peeling indegree node_succs (members gs) (all_names gs) (AList.delete x g') queue' (d @ [x])" and
      u: "\<And>z m. map_of g' z = Some m \<Longrightarrow> \<exists>m0 f. map_of g z = Some m0 \<and> m = indegree_update f m0" by blast
    have shorter: "length (AList.delete x g') < length g" by (rule release_delete_shorter [OF r n])
    have nodes: "\<exists>f nd0. map_of g0 z = Some nd0 \<and> nd = indegree_update f nd0"
      if "map_of (AList.delete x g') z = Some nd" for z nd
    proof -
      from that have "map_of g' z = Some nd" by (auto simp: delete_conv' split: if_splits)
      from u [OF this] obtain m0 f where m0: "map_of g z = Some m0" "nd = indegree_update f m0" by blast
      from less.prems(2) [OF m0(1)] obtain h nd0 where "map_of g0 z = Some nd0" "m0 = indegree_update h nd0" by blast
      then show ?thesis using m0(2) by (intro exI [of _ "f \<circ> h"] exI [of _ nd0]) simp
    qed
    from less.prems(2) [OF n] obtain f nd0 where nd0: "map_of g0 x = Some nd0" "n = indegree_update f nd0" by blast
    then have dat: "node_data n = map_option fst (group_named gs x)" "node_option n = map_option snd (group_named gs x)"
      using b unfolding built_def by (simp_all del: map_of_eq_Some_iff)
    note step = sort_queue_step [OF n r, of index cfg]
    show ?thesis
    proof (cases "group_named gs x")
      case None
      then have og: "only_groups gs (d @ [x]) = only_groups gs d"
        by (simp add: only_groups_def group_named_None)
      have "sort_queue g queue index cfg = sort_queue (AList.delete x g') queue' index cfg"
        using step None dat Cons by simp
      moreover have "index = length (only_groups gs (d @ [x]))" "drop (length gs - index) cfg = group_data gs (d @ [x])"
        using less.prems(4,5) og by (simp_all add: group_data_def)
      ultimately show ?thesis using less.hyps [OF shorter p nodes less.prems(3)] by simp
    next
      case (Some mo)
      then have "x \<in> set (group_names gs)" using group_named_None [of gs x] by auto
      then have og: "only_groups gs (d @ [x]) = only_groups gs d @ [x]" by (simp add: only_groups_def)
      have "distinct (only_groups gs (d @ [x]))" "set (only_groups gs (d @ [x])) \<subseteq> set (group_names gs)"
        using peelingD(2) [OF p] by (auto simp: only_groups_def)
      then have "length (only_groups gs (d @ [x])) \<le> length (group_names gs)"
        by (metis card_length card_mono distinct_card finite_set le_trans)
      then have le: "index + 1 \<le> length cfg" using og less.prems(3,4) by (simp add: group_names_def)
      let ?cfg = "cfg[length cfg - (index + 1) := node_data n]"
      have "sort_queue g queue index cfg = sort_queue (AList.delete x g') queue' (index + 1) ?cfg"
        using step Some dat Cons le by simp
      moreover have "index + 1 = length (only_groups gs (d @ [x]))" using og less.prems(4) by simp
      moreover have "drop (length gs - (index + 1)) ?cfg = group_data gs (d @ [x])"
      proof -
        have "drop (length cfg - (index + 1)) ?cfg = node_data n # drop (Suc (length cfg - (index + 1))) cfg"
          using le by (intro drop_list_update) simp
        moreover have "Suc (length cfg - (index + 1)) = length gs - index" using le less.prems(3) by simp
        ultimately show ?thesis using less.prems(3,5) og dat by (simp add: group_data_def)
      qed
      ultimately show ?thesis using less.hyps [OF shorter p nodes, of ?cfg "index + 1"] less.prems(3) by simp
    qed
  qed
qed

section \<open>Locating a loop\<close>

text \<open>What a node of the rebuilt graph points to: every remaining group that contains it, once for
  each occurrence.\<close>

definition holders :: "(string \<Rightarrow> string list) \<Rightarrow> string list \<Rightarrow> string \<Rightarrow> string list" where
  "holders out ns z = concat (map (\<lambda>y. replicate (count_list (out y) z) y) ns)"

lemma count_replicate: "count_list (replicate n a) b = (if a = b then n else 0)"
  by (induction n) auto

lemma count_holders: "distinct ns \<Longrightarrow> count_list (holders out ns z) y = (if y \<in> set ns then count_list (out y) z else 0)"
  unfolding holders_def by (induction ns) (auto simp: count_replicate)

lemma set_holders: "distinct ns \<Longrightarrow> y \<in> set (holders out ns z) \<longleftrightarrow> y \<in> set ns \<and> z \<in> set (out y)"
  using count_holders [of ns out z y] by (metis count_list_0_iff)

lemma link_back_runs:
  "name \<in> dom (map_of g) \<Longrightarrow> set ps \<subseteq> dom (map_of g) \<Longrightarrow>
   \<exists>g'. link_back name ps g = Value g' \<and> map fst g' = map fst g \<and>
     map_of g' = (\<lambda>z. map_option (\<lambda>nd. nd\<lparr>outdegree := outdegree nd + (if z = name then int (length ps) else 0),
        node_from := node_from nd @ replicate (count_list ps z) name\<rparr>) (map_of g z))"
proof (induction ps arbitrary: g)
  case Nil
  have "map_of g = (\<lambda>z. map_option (\<lambda>nd. nd\<lparr>outdegree := outdegree nd + (if z = name then int (length []) else 0),
      node_from := node_from nd @ replicate (count_list [] z) name\<rparr>) (map_of g z))"
  proof (rule ext)
    fix z
    show "map_of g z = map_option (\<lambda>nd. nd\<lparr>outdegree := outdegree nd + (if z = name then int (length []) else 0),
      node_from := node_from nd @ replicate (count_list [] z) name\<rparr>) (map_of g z)"
      by (cases "map_of g z") simp_all
  qed
  then show ?case by simp
next
  case (Cons p ps)
  obtain nd where nd: "map_of g name = Some nd" using Cons.prems(1) by blast
  let ?g1 = "AList.update name (nd\<lparr>outdegree := outdegree nd + 1\<rparr>) g"
  obtain c0 where c0: "map_of g p = Some c0" using Cons.prems(2) by auto
  obtain c where c: "map_of ?g1 p = Some c" using c0 by (cases "p = name") (auto simp: update_conv')
  let ?g2 = "AList.update p (c\<lparr>node_from := node_from c @ [name]\<rparr>) ?g1"
  have k1: "map fst ?g1 = map fst g"
    using nd by (auto simp: AList.update_keys dest: map_of_SomeD intro: rev_image_eqI)
  have k2: "map fst ?g2 = map fst ?g1"
    using c by (subst AList.update_keys) (auto dest!: map_of_SomeD simp del: map_of_eq_Some_iff intro: rev_image_eqI)
  have m2: "map_of ?g2 = (\<lambda>z. map_option (\<lambda>nd. nd\<lparr>outdegree := outdegree nd + (if z = name then 1 else 0),
        node_from := node_from nd @ (if z = p then [name] else [])\<rparr>) (map_of g z))"
    using nd c by (auto simp: fun_eq_iff update_conv' option.map_ident split: if_splits)
  have "name \<in> dom (map_of ?g2)" "set ps \<subseteq> dom (map_of ?g2)"
    using Cons.prems by (auto simp: update_conv')
  from Cons.IH [OF this] obtain g' where g': "link_back name ps ?g2 = Value g'" "map fst g' = map fst ?g2"
    "map_of g' = (\<lambda>z. map_option (\<lambda>nd. nd\<lparr>outdegree := outdegree nd + (if z = name then int (length ps) else 0),
        node_from := node_from nd @ replicate (count_list ps z) name\<rparr>) (map_of ?g2 z))" by blast
  have "link_back name (p # ps) g = Value g'" using nd c g'(1) by (simp add: Let_def)
  moreover have "map fst g' = map fst g" using g'(2) k1 k2 by simp
  moreover have "map_of g' z = map_option (\<lambda>nd. nd\<lparr>outdegree := outdegree nd + (if z = name then int (length (p # ps)) else 0),
        node_from := node_from nd @ replicate (count_list (p # ps) z) name\<rparr>) (map_of g z)" for z
    unfolding g'(3) m2 by (cases "map_of g z") auto
  ultimately show ?case by blast
qed

lemma rebuild_runs:
  "set ns \<subseteq> dom (map_of g) \<Longrightarrow>
   (\<And>z nd. map_of g z = Some nd \<Longrightarrow> node_succs nd = out z \<and> set (out z) \<subseteq> dom (map_of g)) \<Longrightarrow> distinct ns \<Longrightarrow>
   \<exists>g'. rebuild ns g = Value g' \<and> map fst g' = map fst g \<and>
     map_of g' = (\<lambda>z. map_option (\<lambda>nd. nd\<lparr>outdegree := outdegree nd + (if z \<in> set ns then int (length (out z)) else 0),
        node_from := node_from nd @ holders out ns z\<rparr>) (map_of g z))"
proof (induction ns arbitrary: g)
  case Nil
  then show ?case by (simp add: option.map_ident holders_def)
next
  case (Cons n ns)
  obtain nd where nd: "map_of g n = Some nd" using Cons.prems(1) by auto
  have out: "node_succs nd = out n" "set (out n) \<subseteq> dom (map_of g)" using Cons.prems(2) [OF nd] by auto
  obtain g1 where g1: "link_back n (out n) g = Value g1" "map fst g1 = map fst g"
    "map_of g1 = (\<lambda>z. map_option (\<lambda>nd. nd\<lparr>outdegree := outdegree nd + (if z = n then int (length (out n)) else 0),
        node_from := node_from nd @ replicate (count_list (out n) z) n\<rparr>) (map_of g z))"
    using link_back_runs [of n g "out n"] nd out by auto
  have "rebuild (n # ns) g = rebuild ns g1"
  proof (cases "out n = []")
    case True
    then have "g1 = g" using g1(1) by simp
    then show ?thesis using nd out True by (auto simp: node_succs_def split: option.splits)
  next
    case False
    then show ?thesis using nd out g1(1) by (auto simp: node_succs_def split: option.splits)
  qed
  moreover have "set ns \<subseteq> dom (map_of g1)" using Cons.prems(1) by (auto simp: g1(3) dom_def)
  moreover have "node_succs w = out z \<and> set (out z) \<subseteq> dom (map_of g1)" if "map_of g1 z = Some w" for z w
  proof -
    from that obtain w0 where w0: "map_of g z = Some w0" "node_option w = node_option w0" by (auto simp: g1(3))
    then show ?thesis using Cons.prems(2) [OF w0(1)] by (auto simp: g1(3) dom_def node_succs_def)
  qed
  moreover have "distinct ns" using Cons.prems(3) by simp
  ultimately obtain g' where g': "rebuild (n # ns) g = Value g'" "map fst g' = map fst g1"
    "map_of g' = (\<lambda>z. map_option (\<lambda>nd. nd\<lparr>outdegree := outdegree nd + (if z \<in> set ns then int (length (out z)) else 0),
        node_from := node_from nd @ holders out ns z\<rparr>) (map_of g1 z))"
    using Cons.IH [of g1] by (simp only:) blast
  moreover have "map_of g' z = map_option (\<lambda>nd. nd\<lparr>outdegree := outdegree nd + (if z \<in> set (n # ns) then int (length (out z)) else 0),
        node_from := node_from nd @ holders out (n # ns) z\<rparr>) (map_of g z)" for z
    unfolding g'(3) g1(3) using Cons.prems(3) by (cases "map_of g z") (auto simp: holders_def)
  ultimately show ?case using g1(2) by auto
qed

lemma prune_queue_runs:
  "peeling outdegree node_from inn V g queue d \<Longrightarrow>
   \<exists>g' d'. prune_queue g queue = Value g' \<and> peeling outdegree node_from inn V g' [] d'"
proof (induction "length g" arbitrary: g queue d rule: less_induct)
  case less
  show ?case
  proof (cases queue)
    case Nil
    then show ?thesis using less.prems by auto
  next
    case (Cons x queue1)
    obtain n g' queue' where
      n: "map_of g x = Some n" and r: "release outdegree outdegree_update (node_from n) g queue1 = Value (g', queue')" and
      p: "peeling outdegree node_from inn V (AList.delete x g') queue' (d @ [x])"
      by (rule outs.peel_step [OF less.prems [unfolded Cons]]) (rule that)
    have shorter: "length (AList.delete x g') < length g" by (rule release_delete_shorter [OF r n])
    have "\<exists>g2 d2. prune_queue (AList.delete x g') queue' = Value g2 \<and> peeling outdegree node_from inn V g2 [] d2"
      by (rule less.hyps [OF shorter p])
    moreover have "prune_queue g queue = prune_queue (AList.delete x g') queue'"
      unfolding Cons prune_queue.simps n r option.case outcome.case prod.case by (rule refl)
    ultimately show ?thesis by (simp only: simp_thms)
  qed
qed

text \<open>What is reported: the names that a cycle leads to and that lead to a cycle.\<close>

definition on_loops :: "('a \<times> 'a) set \<Rightarrow> 'a set" where
  "on_loops E = {x. (\<exists>y. (y, y) \<in> E\<^sup>+ \<and> (y, x) \<in> E\<^sup>*) \<and> (\<exists>z. (x, z) \<in> E\<^sup>* \<and> (z, z) \<in> E\<^sup>+)}"

lemma on_loops_restrict:
  assumes R: "R = {x. \<exists>y. (y, y) \<in> E\<^sup>+ \<and> (y, x) \<in> E\<^sup>*}"
    and D: "D = {x. \<exists>y. (y, y) \<in> ((E \<inter> R \<times> R)\<inverse>)\<^sup>+ \<and> (y, x) \<in> ((E \<inter> R \<times> R)\<inverse>)\<^sup>*}" and "D \<subseteq> R"
  shows "D = on_loops E"
proof -
  let ?F = "E \<inter> R \<times> R"
  have D': "D = {x. \<exists>z. (z, z) \<in> ?F\<^sup>+ \<and> (x, z) \<in> ?F\<^sup>*}"
    unfolding D trancl_converse rtrancl_converse by simp
  have closed: "z \<in> R" if "x \<in> R" "(x, z) \<in> E\<^sup>*" for x z
    using that unfolding R by (blast intro: rtrancl_trans)
  have stays: "(x, z) \<in> ?F\<^sup>*" if "(x, z) \<in> E\<^sup>*" "x \<in> R" for x z
    using that
  proof (induction rule: rtrancl_induct)
    case (step y z)
    then have "y \<in> R" "z \<in> R" using closed by (meson rtrancl.rtrancl_into_rtrancl)+
    with step show ?case by (meson IntI SigmaI rtrancl.rtrancl_into_rtrancl)
  qed simp
  have stays1: "(x, z) \<in> ?F\<^sup>+" if "(x, z) \<in> E\<^sup>+" "x \<in> R" for x z
  proof -
    from that(1) obtain y where y: "(x, y) \<in> E" "(y, z) \<in> E\<^sup>*" by (meson tranclD)
    then have "y \<in> R" using closed that(2) by blast
    then show ?thesis using y stays that(2) by (meson IntI SigmaI rtrancl_into_trancl2)
  qed
  have down: "?F\<^sup>* \<subseteq> E\<^sup>*" "?F\<^sup>+ \<subseteq> E\<^sup>+" by (auto intro: rtrancl_mono [THEN subsetD] trancl_mono)
  show ?thesis
  proof
    show "D \<subseteq> on_loops E" using \<open>D \<subseteq> R\<close> down unfolding D' R on_loops_def by blast
    show "on_loops E \<subseteq> D"
    proof
      fix x assume "x \<in> on_loops E"
      then obtain z where x: "x \<in> R" and z: "(x, z) \<in> E\<^sup>*" "(z, z) \<in> E\<^sup>+" unfolding on_loops_def R by blast
      then have "z \<in> R" using closed by blast
      with x z show "x \<in> D" unfolding D' using stays stays1 by blast
    qed
  qed
qed

lemma on_loops_empty: "on_loops E = {} \<longleftrightarrow> acyclic E"
  unfolding on_loops_def acyclic_def by blast

section \<open>The sorted groups\<close>

text \<open>A group comes after the groups it contains.\<close>

definition members_first :: "('m \<times> GroupCommonOption) list \<Rightarrow> bool" where
  "members_first gs \<longleftrightarrow>
     (\<forall>i<length gs. \<forall>j<length gs. opt_Name (snd (gs ! j)) \<in> set (opt_Proxies (snd (gs ! i))) \<longrightarrow> j < i)"

lemma decoded_unique: "decoded decode ms gs \<Longrightarrow> decoded decode ms gs' \<Longrightarrow> gs = gs'"
proof (induction ms arbitrary: gs gs')
  case Nil
  then show ?case by (simp add: decoded_def)
next
  case (Cons mp ms)
  then obtain m o1 t1 o2 t2 where g: "gs = (m, o1) # t1" "gs' = (m, o2) # t2"
    by (auto simp: decoded_def Cons_eq_map_conv)
  then have "decoded decode ms t1" "decoded decode ms t2" "o1 = o2" using Cons.prems by (simp_all add: decoded_def)
  with Cons.IH g show ?case by blast
qed

lemma filter_split: "filter P d = d1 @ x # d2 \<Longrightarrow> \<exists>e1 e2. d = e1 @ x # e2 \<and> filter P e1 = d1"
proof (induction d arbitrary: d1)
  case (Cons a d)
  show ?case
  proof (cases "P a \<and> d1 \<noteq> []")
    case True
    then obtain d1' where "d1 = a # d1'" "filter P d = d1' @ x # d2" using Cons.prems by (cases d1) auto
    with Cons.IH [of d1'] True obtain e1 e2 where "d = e1 @ x # e2" "filter P e1 = d1'" by blast
    then show ?thesis using True \<open>d1 = a # d1'\<close> by (intro exI [of _ "a # e1"] exI [of _ e2]) simp
  next
    case False
    show ?thesis
    proof (cases "P a")
      case True
      then show ?thesis using False Cons.prems by (intro exI [of _ "[]"] exI [of _ d]) auto
    next
      case no: False
      then obtain e1 e2 where "d = e1 @ x # e2" "filter P e1 = d1" using Cons by auto
      then show ?thesis using no by (intro exI [of _ "a # e1"] exI [of _ e2]) simp
    qed
  qed
qed simp

lemma peeled_filter:
  assumes "peeled E (set d) d"
  shows "peeled E (set (filter P d)) (filter P d)"
  unfolding peeled_def
proof (intro allI impI ballI)
  fix d1 x d2 y
  assume f: "filter P d = d1 @ x # d2" and y: "y \<in> set (filter P d)" "(y, x) \<in> E"
  from filter_split [OF f] obtain e1 e2 where e: "d = e1 @ x # e2" "filter P e1 = d1" by blast
  moreover have "y \<in> set d" "P y" using y(1) by simp_all
  ultimately have "y \<in> set e1" using assms y(2) unfolding peeled_def by blast
  then show "y \<in> set d1" using e(2) \<open>P y\<close> by auto
qed

lemma peeled_index:
  assumes "peeled E (set e) e" and "distinct e" and "i < length e" and "k < length e" and "(e ! i, e ! k) \<in> E"
  shows "i < k"
proof -
  have "e = take k e @ e ! k # drop (Suc k) e" using assms(4) by (rule id_take_nth_drop)
  then have "e ! i \<in> set (take k e)" using assms(1,3,5) unfolding peeled_def by (metis nth_mem)
  then obtain i' where "i' < k" "e ! i' = e ! i" "i' < length e" by (auto simp: in_set_conv_nth)
  then show ?thesis using assms(2,3) by (simp add: nth_eq_iff_index_eq)
qed

lemma sorted_groups:
  assumes dist: "distinct (group_names gs)" and dec: "decoded decode ms gs"
    and d: "set d = all_names gs" "distinct d" "peeled {(y, x). x \<in> set (members gs y)} (set d) d"
  obtains gs' where "decoded decode (group_data gs d) gs'" and "mset gs' = mset gs" and "members_first gs'"
proof -
  define e where "e = only_groups gs d"
  have e: "set e = set (group_names gs)" "distinct e" "peeled {(y, x). x \<in> set (members gs y)} (set e) e"
    using d peeled_filter [OF d(3)] by (auto simp: e_def only_groups_def all_names_def)
  define gs' where "gs' = rev (map (\<lambda>x. the (group_named gs x)) e)"
  have named: "\<exists>g\<in>set gs. group_named gs x = Some g \<and> opt_Name (snd g) = x" if "x \<in> set e" for x
  proof -
    from that e(1) obtain g where "g \<in> set gs" "opt_Name (snd g) = x" by (auto simp: group_names_def)
    then show ?thesis using group_named_Some [OF dist, of x "fst g" "snd g"] by auto
  qed
  have "mset e = mset (group_names gs)" using e dist by (simp add: set_eq_iff_mset_eq_distinct)
  then have "mset (map (\<lambda>x. the (group_named gs x)) e) = mset (map (\<lambda>x. the (group_named gs x)) (group_names gs))"
    by (simp only: mset_map)
  also have "map (\<lambda>x. the (group_named gs x)) (group_names gs) = gs"
    unfolding group_names_def map_map comp_def
    using group_named_Some [OF dist] by (intro map_idI) (metis option.sel surjective_pairing)
  finally have perm: "mset gs' = mset gs" by (simp add: gs'_def)
  have sg: "set gs' = set gs" using perm by (metis set_mset_mset)
  have "group_data gs d = map (\<lambda>(m, opt). Some m) gs'"
    unfolding group_data_def gs'_def rev_map [symmetric] e_def [symmetric] map_map comp_def rev_is_rev_conv
    using named by (intro map_cong refl) (fastforce split: prod.splits)
  moreover have "list_all (\<lambda>(m, opt). decode m = Inr opt) gs'"
    using dec sg by (simp add: decoded_def list_all_iff)
  ultimately have "decoded decode (group_data gs d) gs'" by (simp add: decoded_def)
  moreover have "members_first gs'"
    unfolding members_first_def
  proof (intro allI impI)
    fix i j assume ij: "i < length gs'" "j < length gs'" "opt_Name (snd (gs' ! j)) \<in> set (opt_Proxies (snd (gs' ! i)))"
    let ?n = "length e"
    have n: "?n - Suc i < ?n" "?n - Suc j < ?n" "i < ?n" "j < ?n" using ij by (simp_all add: gs'_def)
    have at: "gs' ! k = the (group_named gs (e ! (?n - Suc k)))" if "k < ?n" for k
      using that by (simp add: gs'_def rev_nth)
    have "opt_Name (snd (gs' ! j)) = e ! (?n - Suc j)" using at [OF n(4)] named [OF nth_mem [OF n(2)]] by auto
    moreover have "members gs (e ! (?n - Suc i)) = opt_Proxies (snd (gs' ! i))"
      using at [OF n(3)] named [OF nth_mem [OF n(1)]] by (auto simp: members_def)
    ultimately have "(e ! (?n - Suc i), e ! (?n - Suc j)) \<in> {(y, x). x \<in> set (members gs y)}" using ij(3) by simp
    from peeled_index [OF e(3,2) n(1,2) this] n show "j < i" by simp
  qed
  ultimately show thesis using perm that by blast
qed

lemma locate_loop_runs:
  assumes ord: "\<And>i. reorders (ord i)" and dist: "distinct (group_names gs)"
    and p: "peeling indegree node_succs (members gs) (all_names gs) g [] d"
    and fresh: "\<And>z nd. map_of g z = Some nd \<Longrightarrow> outdegree nd = 0 \<and> node_from nd = []"
  shows "\<exists>L. locate_loop ord g = Error (LoopDetected L) \<and> distinct L \<and> set L = on_loops (contains gs)"
proof -
  note P = peelingD [OF p]
  let ?E = "contains gs" and ?R = "dom (map_of g)" and ?ns = "ord 1 (map fst g)"
  have R: "?R = {x. \<exists>y. (y, y) \<in> ?E\<^sup>+ \<and> (y, x) \<in> ?E\<^sup>*}"
    unfolding contains_members [OF dist] by (rule peeling_left [OF p]) (rule members_all_names [OF dist])
  have ns: "set ?ns = ?R" "distinct ?ns"
    using P(1) by (simp_all add: reorders_set [OF ord] reorders_distinct [OF ord] dom_map_of_conv_image_fst)
  have succs: "node_succs nd = members gs z \<and> set (members gs z) \<subseteq> ?R" if "map_of g z = Some nd" for z nd
    using P(5) [OF that] P(9) [OF domI, OF that] by blast
  have "\<exists>g1. rebuild ?ns g = Value g1 \<and> map fst g1 = map fst g \<and>
    map_of g1 = (\<lambda>z. map_option (\<lambda>nd. nd\<lparr>outdegree := outdegree nd + (if z \<in> set ?ns then int (length (members gs z)) else 0),
        node_from := node_from nd @ holders (members gs) ?ns z\<rparr>) (map_of g z))"
    by (rule rebuild_runs) (use ns succs in blast)+
  then obtain g1 where g1: "rebuild ?ns g = Value g1" "map fst g1 = map fst g"
    "map_of g1 = (\<lambda>z. map_option (\<lambda>nd. nd\<lparr>outdegree := outdegree nd + (if z \<in> set ?ns then int (length (members gs z)) else 0),
        node_from := node_from nd @ holders (members gs) ?ns z\<rparr>) (map_of g z))" by blast
  have D1: "dom (map_of g1) = ?R" by (auto simp: g1(3) dom_def)
  let ?q = "names_where (ord 2) (\<lambda>nd. outdegree nd = 0) g1"
  let ?H = "holders (members gs) ?ns"
  have start: "peeling outdegree node_from ?H ?R g1 ?q []"
    unfolding peeling_def
  proof (intro conjI allI impI ballI)
    show d1: "distinct (map fst g1)" using g1(2) P(1) by simp
    show "?R = dom (map_of g1) \<union> set []" using D1 by simp
    show "distinct ?q" by (rule distinct_names_where [OF ord d1])
    show "set ?q = {x. \<exists>nd. map_of g1 x = Some nd \<and> outdegree nd = 0}"
      by (rule set_eqI) (simp only: set_names_where [OF ord] mem_Collect_eq)
    fix y assume "y \<in> dom (map_of g1)"
    then show "set (?H y) \<subseteq> dom (map_of g1)" using set_holders [OF ns(2)] ns(1) D1 by blast
  next
    fix x nd assume nd: "map_of g1 x = Some nd"
    then obtain n0 where n0: "map_of g x = Some n0" "node_from nd = node_from n0 @ ?H x"
      "outdegree nd = outdegree n0 + (if x \<in> set ?ns then int (length (members gs x)) else 0)"
      unfolding g1(3) by auto
    then have x: "x \<in> ?R" by blast
    show "node_from nd = ?H x" using n0 fresh [OF n0(1)] by simp
    have "outdegree nd = int (length (members gs x))" using n0 fresh [OF n0(1)] x ns(1) by simp
    also have "length (members gs x) = sum (count_list (members gs x)) ?R"
      using P(9) [OF x] finite_dom_map_of by (intro sum_count_set [symmetric])
    also have "int (sum (count_list (members gs x)) ?R) = (\<Sum>y\<in>dom (map_of g1). int (count_list (?H y) x))"
      unfolding D1 of_nat_sum using count_holders [OF ns(2), of "members gs" _ x] ns(1) x by (intro sum.cong refl) simp
    finally show "outdegree nd = (\<Sum>y\<in>dom (map_of g1). int (count_list (?H y) x))" .
  qed simp_all
  obtain g2 d2 where g2: "prune_queue g1 ?q = Value g2" "peeling outdegree node_from ?H ?R g2 [] d2"
    using prune_queue_runs [OF start] by (elim exE conjE) (rule that)
  let ?D = "dom (map_of g2)"
  have "?D = {x. \<exists>y. (y, y) \<in> {(y, x). y \<in> ?R \<and> x \<in> set (?H y)}\<^sup>+ \<and> (y, x) \<in> {(y, x). y \<in> ?R \<and> x \<in> set (?H y)}\<^sup>*}"
    using set_holders [OF ns(2)] ns(1) by (intro peeling_left [OF g2(2)]) blast
  moreover have "{(y, x). y \<in> ?R \<and> x \<in> set (?H y)} = (?E \<inter> ?R \<times> ?R)\<inverse>"
    using set_holders [OF ns(2), of _ "members gs"] ns(1) P(3) unfolding contains_members [OF dist] by auto
  moreover have "?D \<subseteq> ?R" using peelingD(3) [OF g2(2)] by blast
  ultimately have D: "?D = on_loops ?E" using on_loops_restrict [OF R, of ?D] by simp
  have "distinct (ord 3 (map fst g2))" "set (ord 3 (map fst g2)) = ?D"
    using peelingD(1) [OF g2(2)] by (simp_all add: reorders_distinct [OF ord] reorders_set [OF ord] dom_map_of_conv_image_fst)
  then show ?thesis using D g1(1) g2(1) by (simp add: locate_loop_def)
qed

lemma dag_sort_runs:
  assumes ord: "\<And>i. reorders (ord i)" and dec: "decoded decode ms gs" and g: "build_graph decode ms [] = Value g" and b: "built gs g"
  shows "if acyclic (contains gs)
         then \<exists>ms' gs'. proxyGroupsDagSort decode ord ms = Value ms' \<and> decoded decode ms' gs' \<and> mset gs' = mset gs \<and> members_first gs'
         else \<exists>L. proxyGroupsDagSort decode ord ms = Error (LoopDetected L) \<and> distinct L \<and> set L = on_loops (contains gs)"
proof -
  note B = builtD [OF b]
  let ?q = "names_where (ord 0) (\<lambda>nd. indegree nd = 0) g"
  have len: "length ms = length gs" using dec by (simp add: decoded_def)
  have "\<exists>f nd0. map_of g z = Some nd0 \<and> nd = indegree_update f nd0" if "map_of g z = Some nd" for z nd
    using that by (intro exI [of _ "\<lambda>d. d"] exI [of _ nd]) simp
  from sort_queue_runs [OF b peel_start [OF b ord] this len, of 0 0]
  obtain g' ms' d where q: "sort_queue g ?q 0 ms = Value (g', ms')"
    and p: "peeling indegree node_succs (members gs) (all_names gs) g' [] d"
    and nodes: "\<And>z nd. map_of g' z = Some nd \<Longrightarrow> \<exists>f nd0. map_of g z = Some nd0 \<and> nd = indegree_update f nd0"
    and len': "length ms' = length gs" and drop: "drop (length gs - length (only_groups gs d)) ms' = group_data gs d"
    using len by (auto simp: only_groups_def group_data_def)
  note P = peelingD [OF p]
  have R: "dom (map_of g') = {x. \<exists>y. (y, y) \<in> (contains gs)\<^sup>+ \<and> (y, x) \<in> (contains gs)\<^sup>*}"
    unfolding contains_members [OF B(2)] by (rule peeling_left [OF p]) (rule members_all_names [OF B(2)])
  have empty: "g' = [] \<longleftrightarrow> acyclic (contains gs)"
  proof -
    have "g' = [] \<longleftrightarrow> dom (map_of g') = {}" by (auto simp: dom_map_of_conv_image_fst)
    then show ?thesis unfolding R acyclic_def by blast
  qed
  show ?thesis
  proof (cases "acyclic (contains gs)")
    case True
    then have g': "g' = []" using empty by simp
    have d: "set d = all_names gs" "distinct d" "peeled {(y, x). x \<in> set (members gs y)} (set d) d"
      using P(2,3,10) g' by simp_all
    have "set (only_groups gs d) = set (group_names gs)" "distinct (only_groups gs d)"
      using d by (auto simp: only_groups_def all_names_def)
    then have "length (only_groups gs d) = length gs"
      using B(2) by (metis distinct_card group_names_def length_map)
    then have "ms' = group_data gs d" using drop by simp
    moreover obtain gs' where "decoded decode (group_data gs d) gs'" "mset gs' = mset gs" "members_first gs'"
      by (rule sorted_groups [OF B(2) dec d]) (rule that)
    moreover have "proxyGroupsDagSort decode ord ms = Value ms'"
      using g q g' by (simp add: proxyGroupsDagSort_def)
    ultimately show ?thesis using True by auto
  next
    case False
    then have g': "g' \<noteq> []" using empty by simp
    have "outdegree nd = 0 \<and> node_from nd = []" if "map_of g' z = Some nd" for z nd
      using nodes [OF that] B(7) by auto
    then have "\<exists>L. locate_loop ord g' = Error (LoopDetected L) \<and> distinct L \<and> set L = on_loops (contains gs)"
      by (intro locate_loop_runs [OF ord B(2) p])
    then show ?thesis using False g q g' by (auto simp: proxyGroupsDagSort_def)
  qed
qed

lemma built_Nil: "built [] []"
  by (simp add: built_def all_names_def group_names_def)

lemma dag_sort_cases:
  assumes ord: "\<And>i. reorders (ord i)"
  obtains (built) gs g where "decoded decode ms gs" "distinct (group_names gs)" "build_graph decode ms [] = Value g" "built gs g"
  | (undecoded) e mp where "proxyGroupsDagSort decode ord ms = Error (GroupUndecoded e)" "mp \<in> set ms" "decode_group decode mp = Inl e"
  | (duplicate) gs m opt where "proxyGroupsDagSort decode ord ms = Error (DuplicateGroup (opt_Name opt))"
      "decoded decode (take (length gs + 1) ms) (gs @ [(m, opt)])" "opt_Name opt \<in> set (group_names gs)"
proof -
  from build_graph_runs [OF built_Nil, of decode ms] consider
    (ok) gs g where "build_graph decode ms [] = Value g" "decoded decode ms gs" "built gs g"
  | (undec) e mp where "build_graph decode ms [] = Error (GroupUndecoded e)" "mp \<in> set ms" "decode_group decode mp = Inl e"
  | (dup) gs m opt where "build_graph decode ms [] = Error (DuplicateGroup (opt_Name opt))"
      "decoded decode (take (length gs + 1) ms) (gs @ [(m, opt)])" "opt_Name opt \<in> set (group_names gs)"
    unfolding append_Nil by blast
  then show thesis
  proof cases
    case ok
    then show thesis using built builtD(2) by blast
  next
    case undec
    then show thesis using undecoded by (simp add: proxyGroupsDagSort_def)
  next
    case dup
    then show thesis using duplicate [of opt gs m] by (simp add: proxyGroupsDagSort_def)
  qed
qed

section \<open>Dialers\<close>

text \<open>A proxy points to its dialer.\<close>

definition dials :: "(string \<times> string) list \<Rightarrow> (string \<times> string) set" where
  "dials proxies = {(n, d). map_of proxies n = Some d \<and> d \<noteq> ''''}"

lemma HasCycle_iff:
  "set visited = set path \<Longrightarrow> (\<And>x. x \<in> set path \<Longrightarrow> (x, c) \<in> {(a, b). map_of graph a = Some b}\<^sup>+) \<Longrightarrow>
   HasCycle c graph visited path \<longleftrightarrow>
     (\<exists>y. (c, y) \<in> {(a, b). map_of graph a = Some b}\<^sup>* \<and> (y, y) \<in> {(a, b). map_of graph a = Some b}\<^sup>+)"
proof (induction c graph visited path rule: HasCycle.induct)
  case (1 c graph visited path)
  let ?E = "{(a, b). map_of graph a = Some b}"
  show ?case
  proof (cases "c \<in> set path")
    case True
    then show ?thesis using "1.prems"(2) by (subst HasCycle.simps) auto
  next
    case False
    show ?thesis
    proof (cases "map_of graph c")
      case None
      then have "(c, y) \<notin> ?E\<^sup>+" for y by (auto dest: tranclD)
      then have "\<not> (\<exists>y. (c, y) \<in> ?E\<^sup>* \<and> (y, y) \<in> ?E\<^sup>+)" by (metis rtranclD)
      then show ?thesis using None False "1.prems"(1) by (subst HasCycle.simps) simp
    next
      case (Some d)
      then have cd: "(c, d) \<in> ?E" by simp
      have "HasCycle c graph visited path \<longleftrightarrow> HasCycle d graph (c # visited) (path @ [c])"
        using Some False "1.prems"(1) by (subst HasCycle.simps) simp
      also have "\<dots> \<longleftrightarrow> (\<exists>y. (d, y) \<in> ?E\<^sup>* \<and> (y, y) \<in> ?E\<^sup>+)"
      proof (rule "1.IH")
        show "c \<notin> set path" "c \<notin> set visited" "map_of graph c = Some d" using False "1.prems"(1) Some by auto
        show "set (c # visited) = set (path @ [c])" using "1.prems"(1) by auto
        show "(x, d) \<in> ?E\<^sup>+" if "x \<in> set (path @ [c])" for x
          using that "1.prems"(2) [of x] cd by (auto intro: trancl_into_trancl)
      qed
      also have "\<dots> \<longleftrightarrow> (\<exists>y. (c, y) \<in> ?E\<^sup>* \<and> (y, y) \<in> ?E\<^sup>+)"
      proof
        assume "\<exists>y. (c, y) \<in> ?E\<^sup>* \<and> (y, y) \<in> ?E\<^sup>+"
        then obtain y where y: "(c, y) \<in> ?E\<^sup>*" "(y, y) \<in> ?E\<^sup>+" by blast
        have via: "(d, z) \<in> ?E\<^sup>*" if "(c, z) \<in> ?E\<^sup>+" for z
          using tranclD [OF that] Some by auto
        have "(c, y) \<in> ?E\<^sup>+" using y by (cases "c = y") (auto dest: rtranclD)
        with via y show "\<exists>y. (d, y) \<in> ?E\<^sup>* \<and> (y, y) \<in> ?E\<^sup>+" by blast
      qed (use cd in \<open>blast intro: converse_rtrancl_into_rtrancl\<close>)
      finally show ?thesis .
    qed
  qed
qed

lemma collect_dialers_runs:
  "case collect_dialers proxies ns graph of
     Inl e \<Rightarrow> \<exists>n\<in>set ns. \<exists>d. e = DialerNotFound n d \<and> (n, d) \<in> dials proxies \<and> map_of proxies d = None
   | Inr graph' \<Rightarrow> (\<forall>n\<in>set ns. \<forall>d. (n, d) \<in> dials proxies \<longrightarrow> map_of proxies d \<noteq> None) \<and>
       map_of graph' = (\<lambda>z. if z \<in> set ns \<and> (\<exists>d. (z, d) \<in> dials proxies) then map_of proxies z else map_of graph z) \<and>
       (distinct (map fst graph) \<longrightarrow> distinct (map fst graph'))"
proof (induction ns arbitrary: graph)
  case (Cons n ns)
  show ?case
  proof (cases "map_of proxies n = None \<or> map_of proxies n = Some ''''")
    case True
    then have "collect_dialers proxies (n # ns) graph = collect_dialers proxies ns graph"
      and no: "\<And>d. (n, d) \<notin> dials proxies" by (auto simp: dials_def)
    with Cons.IH [of graph] show ?thesis
      by (cases "collect_dialers proxies ns graph") (auto simp: fun_eq_iff)
  next
    case False
    then obtain d where d: "map_of proxies n = Some d" "d \<noteq> ''''" by auto
    show ?thesis
    proof (cases "map_of proxies d")
      case None
      with d show ?thesis by (auto simp: dials_def)
    next
      case (Some dd)
      with d have "collect_dialers proxies (n # ns) graph = collect_dialers proxies ns (AList.update n d graph)" by simp
      with Cons.IH [of "AList.update n d graph"] d Some show ?thesis
        by (cases "collect_dialers proxies ns (AList.update n d graph)")
          (auto simp: fun_eq_iff dials_def update_conv' distinct_update)
    qed
  qed
qed simp

lemma dialers_valid:
  assumes ord: "\<And>i. reorders (ord i)"
  shows "validateDialerProxies ord proxies = None \<longleftrightarrow>
    (\<forall>n d. (n, d) \<in> dials proxies \<longrightarrow> map_of proxies d \<noteq> None) \<and> acyclic (dials proxies)"
proof -
  note R = collect_dialers_runs [where proxies = proxies and ns = "ord 0 (map fst proxies)" and graph = "[]"]
  have keys: "n \<in> set (ord 0 (map fst proxies))" if "(n, d) \<in> dials proxies" for n d
    using that by (auto simp: dials_def reorders_set [OF ord] dest!: map_of_SomeD intro: rev_image_eqI)
  show ?thesis
  proof (cases "collect_dialers proxies (ord 0 (map fst proxies)) []")
    case (Inl e)
    then show ?thesis using R by (auto simp: validateDialerProxies_def)
  next
    case (Inr graph)
    have "map_of graph = (\<lambda>z. if z \<in> set (ord 0 (map fst proxies)) \<and> (\<exists>d. (z, d) \<in> dials proxies) then map_of proxies z else None)"
      using R unfolding Inr sum.case map_of.simps by blast
    then have E: "{(a, b). map_of graph a = Some b} = dials proxies"
      using keys by (fastforce simp: dials_def split: if_splits)
    have exist: "\<forall>n d. (n, d) \<in> dials proxies \<longrightarrow> map_of proxies d \<noteq> None"
      using R Inr keys by simp blast
    have "HasCycle n graph [] [] \<longleftrightarrow> (\<exists>y. (n, y) \<in> (dials proxies)\<^sup>* \<and> (y, y) \<in> (dials proxies)\<^sup>+)" for n
      using HasCycle_iff [of "[]" "[]" n graph] unfolding E by simp
    moreover have dom: "set (ord 1 (map fst graph)) = Domain (dials proxies)"
      unfolding E [symmetric] by (auto simp: reorders_set [OF ord] dom_map_of_conv_image_fst [symmetric])
    ultimately have "(\<forall>n\<in>set (ord 1 (map fst graph)). \<not> HasCycle n graph [] []) \<longleftrightarrow> acyclic (dials proxies)"
      unfolding acyclic_def by (metis Domain.DomainI rtrancl.rtrancl_refl tranclD converse_rtranclE)
    then show ?thesis using Inr exist by (simp add: validateDialerProxies_def find_None split: option.split)
        (metis find_None not_None_eq)
  qed
qed

section \<open>What is promised\<close>

text \<open>A group with a name and members, for the witnesses.\<close>

definition plain_group :: "string \<times> string list \<Rightarrow> string + GroupCommonOption" where
  "plain_group g = Inr
     \<lparr>opt_Name = fst g, opt_Type = ''select'', opt_Proxies = snd g, opt_Use = [], opt_URL = [], opt_Interval = 0,
      opt_TestTimeout = 0, opt_MaxFailedTimes = 0, opt_EmptyFallback = [], opt_Lazy = True, opt_DisableUDP = False,
      opt_Filter = [], opt_ExcludeFilter = [], opt_ExcludeType = [], opt_ExpectedStatus = [], opt_IncludeAll = False,
      opt_IncludeAllProxies = False, opt_IncludeAllProviders = False, opt_Hidden = False, opt_Icon = []\<rparr>"

lemma reorders_id [simp]: "reorders (\<lambda>xs. xs)"
  by (simp add: reorders_def)

text \<open>C7. When \<^verbatim>\<open>proxyGroupsDagSort\<close> returns no error, whatever the order of Go's map
  iterations, the groups it leaves are those of the configuration, and each comes after every
  group it contains, so that the loop that builds them finds each member already built.\<close>

theorem groups_sorted:
  assumes ord: "\<And>i. reorders (ord i)" and v: "proxyGroupsDagSort decode ord ms = Value ms'"
  shows "\<exists>gs gs'. decoded decode ms gs \<and> decoded decode ms' gs' \<and> mset gs' = mset gs \<and> members_first gs'"
proof (rule dag_sort_cases [where ord = ord and decode = decode and ms = ms, OF ord])
  fix gs g assume "decoded decode ms gs" "build_graph decode ms [] = Value g" "built gs g"
  with dag_sort_runs [where ord = ord, OF ord, of decode ms gs g] v show ?thesis by (auto split: if_splits)
qed (use v in auto)

theorem groups_sorted_witness:
  "\<exists>ms'. proxyGroupsDagSort plain_group (\<lambda>i xs. xs) [Some (''a'', [''b'']), Some (''b'', [''d''])] = Value ms' \<and>
     (\<exists>gs gs'. decoded plain_group [Some (''a'', [''b'']), Some (''b'', [''d''])] gs \<and> decoded plain_group ms' gs' \<and>
        mset gs' = mset gs \<and> members_first gs')"
proof -
  have "proxyGroupsDagSort plain_group (\<lambda>i xs. xs) [Some (''a'', [''b'']), Some (''b'', [''d''])] =
      Value [Some (''b'', [''d'']), Some (''a'', [''b''])]"
    by code_simp
  then show ?thesis using groups_sorted [OF reorders_id] by blast
qed

text \<open>C12. For groups that can be decoded and have different names, \<^verbatim>\<open>proxyGroupsDagSort\<close>
  succeeds exactly if no group contains itself through others; otherwise it reports, each once,
  the names between loops: those that a loop leads to and that lead to a loop.\<close>

theorem group_loops:
  assumes ord: "\<And>i. reorders (ord i)" and dec: "decoded decode ms gs" and dist: "distinct (group_names gs)"
  shows "if acyclic (contains gs) then \<exists>ms'. proxyGroupsDagSort decode ord ms = Value ms'
         else \<exists>L. proxyGroupsDagSort decode ord ms = Error (LoopDetected L) \<and> distinct L \<and> set L = on_loops (contains gs)"
proof (rule dag_sort_cases [where ord = ord and decode = decode and ms = ms, OF ord])
  fix gs' g assume b: "decoded decode ms gs'" "build_graph decode ms [] = Value g" "built gs' g"
  then have "gs' = gs" using dec decoded_unique by blast
  with b dag_sort_runs [where ord = ord, OF ord, of decode ms gs g] show ?thesis by (auto split: if_splits)
next
  fix e mp assume "mp \<in> set ms" "decode_group decode mp = Inl e"
  then show ?thesis using dec by (auto simp: decoded_def decode_group_def list_all_iff)
next
  fix gs' m opt
  assume d: "decoded decode (take (length gs' + 1) ms) (gs' @ [(m, opt)])" and dup: "opt_Name opt \<in> set (group_names gs')"
  have "decoded decode (take (length gs' + 1) ms) (take (length gs' + 1) gs)"
    using dec by (auto simp: decoded_def take_map list_all_iff dest: in_set_takeD)
  with d have "take (length gs' + 1) gs = gs' @ [(m, opt)]" by (rule decoded_unique [symmetric])
  then have "distinct (group_names (gs' @ [(m, opt)]))"
    using dist by (metis distinct_take group_names_def take_map)
  then show ?thesis using dup by (simp add: group_names_def)
qed

theorem group_loops_witness:
  "\<exists>gs. decoded plain_group [Some (''a'', [''a'', ''b'']), Some (''b'', [''d''])] gs \<and>
     (if acyclic (contains gs)
      then \<exists>ms'. proxyGroupsDagSort plain_group (\<lambda>i xs. xs) [Some (''a'', [''a'', ''b'']), Some (''b'', [''d''])] = Value ms'
      else \<exists>L. proxyGroupsDagSort plain_group (\<lambda>i xs. xs) [Some (''a'', [''a'', ''b'']), Some (''b'', [''d''])] = Error (LoopDetected L) \<and>
        distinct L \<and> set L = on_loops (contains gs))"
proof -
  let ?gs = "[((''a'', [''a'', ''b'']), projr (plain_group (''a'', [''a'', ''b'']))), ((''b'', [''d'']), projr (plain_group (''b'', [''d''])))]"
  have "decoded plain_group [Some (''a'', [''a'', ''b'']), Some (''b'', [''d''])] ?gs"
    by (simp add: decoded_def plain_group_def)
  moreover have "distinct (group_names ?gs)" by (simp add: group_names_def plain_group_def)
  ultimately show ?thesis using group_loops [OF reorders_id] by blast
qed

text \<open>\<^verbatim>\<open>proxyGroupsDagSort\<close> never dereferences a missing node or writes outside
  \<^verbatim>\<open>groupsConfig\<close>; it ends in the sorted list or in an error, and an error of decoding or of a
  duplicate name is due to such a mapping.\<close>

theorem dag_sort_safe:
  assumes ord: "\<And>i. reorders (ord i)"
  shows "case proxyGroupsDagSort decode ord ms of
           Value ms' \<Rightarrow> True
         | Error (LoopDetected L) \<Rightarrow> L \<noteq> []
         | Error (GroupUndecoded e) \<Rightarrow> \<exists>mp\<in>set ms. decode_group decode mp = Inl e
         | Error (DuplicateGroup n) \<Rightarrow> \<exists>i j. i < j \<and> j < length ms \<and>
             list_all (\<lambda>mp. case decode_group decode mp of Inr opt \<Rightarrow> opt_Name opt = n | Inl e \<Rightarrow> False) [ms ! i, ms ! j]
         | Panic \<Rightarrow> False"
proof (rule dag_sort_cases [where ord = ord and decode = decode and ms = ms, OF ord])
  fix gs g assume b: "decoded decode ms gs" "build_graph decode ms [] = Value g" "built gs g"
  then show ?thesis
    using dag_sort_runs [where ord = ord, OF ord, of decode ms gs g] on_loops_empty [of "contains gs"] by (auto split: if_splits)
next
  fix gs m opt
  assume e: "proxyGroupsDagSort decode ord ms = Error (DuplicateGroup (opt_Name opt))"
    and d: "decoded decode (take (length gs + 1) ms) (gs @ [(m, opt)])" and dup: "opt_Name opt \<in> set (group_names gs)"
  from d have t: "take (length gs + 1) ms = map (\<lambda>(m, opt). Some m) (gs @ [(m, opt)])" by (simp add: decoded_def)
  from arg_cong [OF t, of length] have len: "length gs < length ms" by simp
  have at: "decode_group decode (ms ! k) = Inr (snd ((gs @ [(m, opt)]) ! k))" if "k \<le> length gs" for k
  proof -
    have "ms ! k = take (length gs + 1) ms ! k" using that by simp
    also have "\<dots> = (\<lambda>(m, opt). Some m) ((gs @ [(m, opt)]) ! k)" unfolding t using that by (subst nth_map) auto
    finally have "ms ! k = Some (fst ((gs @ [(m, opt)]) ! k))" by (simp add: case_prod_beta)
    moreover have "(gs @ [(m, opt)]) ! k \<in> set (gs @ [(m, opt)])" using that by (intro nth_mem) simp
    ultimately show ?thesis using d by (auto simp: decoded_def decode_group_def list_all_iff case_prod_beta)
  qed
  from dup obtain i where "i < length gs" "opt_Name (snd (gs ! i)) = opt_Name opt"
    by (auto simp: group_names_def in_set_conv_nth)
  then have "i < length gs \<and> length gs < length ms \<and>
      list_all (\<lambda>mp. case decode_group decode mp of Inr o' \<Rightarrow> opt_Name o' = opt_Name opt | Inl e \<Rightarrow> False) [ms ! i, ms ! length gs]"
    using len at [of i] at [of "length gs"] by (simp add: nth_append)
  then show ?thesis unfolding e outcome.case group_error.case by blast
qed auto

theorem dag_sort_safe_witness:
  "case proxyGroupsDagSort plain_group (\<lambda>i xs. xs) [Some (''a'', [''b'']), Some (''a'', [])] of
           Value ms' \<Rightarrow> True
         | Error (LoopDetected L) \<Rightarrow> L \<noteq> []
         | Error (GroupUndecoded e) \<Rightarrow> \<exists>mp. mp \<in> set [Some (''a'', [''b'']), Some (''a'', [])] \<and> decode_group plain_group mp = Inl e
         | Error (DuplicateGroup n) \<Rightarrow> \<exists>i j. i < j \<and> j < length [Some (''a'', [''b'']), Some (''a'', [])] \<and>
             list_all (\<lambda>mp. case decode_group plain_group mp of Inr opt \<Rightarrow> opt_Name opt = n | Inl e \<Rightarrow> False)
               [[Some (''a'', [''b'']), Some (''a'', [])] ! i, [Some (''a'', [''b'']), Some (''a'', [])] ! j]
         | Panic \<Rightarrow> False"
  using dag_sort_safe [OF reorders_id, where decode = plain_group and ms = "[Some (''a'', [''b'']), Some (''a'', [])]"]
  by (simp only: Bex_def)

text \<open>C35. \<^verbatim>\<open>validateDialerProxies\<close> accepts exactly the tables of proxies in which every
  dialer that is named exists and no chain of dialers comes back to a proxy.\<close>

theorem dialers_checked:
  assumes "\<And>i. reorders (ord i)"
  shows "validateDialerProxies ord proxies = None \<longleftrightarrow>
    (\<forall>n d. (n, d) \<in> dials proxies \<longrightarrow> map_of proxies d \<noteq> None) \<and> acyclic (dials proxies)"
  using assms by (rule dialers_valid)

theorem dialers_checked_witness:
  "validateDialerProxies (\<lambda>i xs. xs) [(''a'', ''b''), (''b'', [])] = None \<longleftrightarrow>
    (\<forall>n d. map_of [(''a'', ''b''), (''b'', [])] d \<noteq> None \<or> (n, d) \<notin> dials [(''a'', ''b''), (''b'', [])]) \<and>
    acyclic (dials [(''a'', ''b''), (''b'', [])])"
  using dialers_checked [OF reorders_id, of "[(''a'', ''b''), (''b'', [])]"] by blast

end
