(* ===== verification/HealthChecks.thy ===== *)
theory HealthChecks
  imports ProxyGroups Ranges "HOL-Library.AList"
begin

text \<open>
  The health checks of \<^verbatim>\<open>adapter/provider/healthcheck.go\<close> and the parts of the providers of
  \<^verbatim>\<open>adapter/provider/provider.go\<close> that groups use: which proxies are tested with which URL, given the
  tasks that groups register.

  \<^verbatim>\<open>extra\<close> is an association list; \<open>order\<close> is the order in which Go ranges over it and over a set of
  filters. A set of filters is a list without repetition. The regular expression package is given
  by \<open>compiles\<close> and \<open>matchString\<close>; \<^verbatim>\<open>MustCompile\<close> of a text that does not compile is \<open>Panic\<close>. A
  duration is a signed 64 bit number of nanoseconds.
\<close>

section \<open>Health checks\<close>

record extraOption =
  xo_expectedStatus :: "16 word range list"
  xo_filters :: "string list"

record 'h HealthCheck =
  hc_url :: string
  hc_extra :: "(string \<times> extraOption) list"
  hc_proxies :: "'h list"
  hc_interval :: "64 word"
  hc_lazy :: bool
  hc_expectedStatus :: "16 word range list"
  hc_lastTouch :: int
  hc_singleDo :: "unit single"
  hc_timeout :: "64 word"

definition NewHealthCheck :: "'h list \<Rightarrow> string \<Rightarrow> 64 word \<Rightarrow> 64 word \<Rightarrow> bool \<Rightarrow> 16 word range list \<Rightarrow> 'h HealthCheck" where
  "NewHealthCheck ps url timeout interval lzy expectedStatus =
     (let expectedStatus = (if url = '''' then [] else expectedStatus);
          interval = (if url = '''' then 0 else interval);
          timeout = (if timeout = 0 then 5000 else timeout)
      in \<lparr>hc_url = url, hc_extra = [], hc_proxies = ps, hc_interval = interval * 1000000000, hc_lazy = lzy,
          hc_expectedStatus = expectedStatus, hc_lastTouch = 0, hc_singleDo = NewSingle 1000000000,
          hc_timeout = timeout * 1000000\<rparr>)"

definition hc_setProxies :: "'h list \<Rightarrow> 'h HealthCheck \<Rightarrow> 'h HealthCheck" where
  "hc_setProxies ps hc = hc\<lparr>hc_proxies := ps\<rparr>"

fun add_filters :: "string list \<Rightarrow> string list \<Rightarrow> string list" where
  "add_filters [] filters = filters"
| "add_filters (regex # rs) filters =
     (let regex = trim_space regex in
      add_filters rs (if regex \<noteq> '''' \<and> regex \<notin> set filters then filters @ [regex] else filters))"

definition splitAndAddFiltersToExtra :: "string \<Rightarrow> extraOption \<Rightarrow> extraOption" where
  "splitAndAddFiltersToExtra flt option =
     (let flt = trim_space flt in
      if flt \<noteq> '''' then option\<lparr>xo_filters := add_filters (split_on CHR ''`'' flt) (xo_filters option)\<rparr> else option)"

definition registerHealthCheckTask :: "string \<Rightarrow> 16 word range list \<Rightarrow> string \<Rightarrow> 64 word \<Rightarrow> 'h HealthCheck \<Rightarrow> 'h HealthCheck" where
  "registerHealthCheckTask url expectedStatus flt interval hc =
     (let url = trim_space url in
      if url = '''' \<or> url = hc_url hc then hc
      else
        let hc = (if hc_interval hc = 0 then hc\<lparr>hc_interval := interval * 1000000000\<rparr> else hc) in
        (case map_of (hc_extra hc) url of
           Some option \<Rightarrow>
             if url \<noteq> hc_url hc \<and> flt \<noteq> ''''
             then hc\<lparr>hc_extra := AList.update url (splitAndAddFiltersToExtra flt option) (hc_extra hc)\<rparr>
             else hc
         | None \<Rightarrow>
             hc\<lparr>hc_extra := AList.update url
               (splitAndAddFiltersToExtra flt \<lparr>xo_expectedStatus = expectedStatus, xo_filters = []\<rparr>) (hc_extra hc)\<rparr>))"

definition hc_auto :: "'h HealthCheck \<Rightarrow> bool" where
  "hc_auto hc \<longleftrightarrow> hc_interval hc \<noteq> 0"

definition hc_touch :: "int \<Rightarrow> 'h HealthCheck \<Rightarrow> 'h HealthCheck" where
  "hc_touch now hc = hc\<lparr>hc_lastTouch := now\<rparr>"

text \<open>What a tick of \<^verbatim>\<open>process\<close> decides.\<close>

definition tick_checks :: "int \<Rightarrow> 'h HealthCheck \<Rightarrow> bool" where
  "tick_checks now hc \<longleftrightarrow> \<not> hc_lazy hc \<or> now - hc_lastTouch hc < sint (hc_interval hc)"

text \<open>\<^verbatim>\<open>execute\<close>: the tests it starts, each of a proxy with a URL and the status expected.\<close>

definition execute :: "(string \<Rightarrow> bool) \<Rightarrow> (string \<Rightarrow> string \<Rightarrow> bool) \<Rightarrow> (string list \<Rightarrow> string list) \<Rightarrow> ('h \<Rightarrow> string)
    \<Rightarrow> 'h list \<Rightarrow> string \<Rightarrow> extraOption \<Rightarrow> (unit, ('h \<times> string \<times> 16 word range list) list) outcome" where
  "execute compiles matchString order nm ps url option =
     (let url = trim_space url in
      if url = '''' then Value []
      else if xo_filters option = [] then Value (map (\<lambda>p. (p, url, xo_expectedStatus option)) ps)
      else
        let pattern = join_with ''|'' (order (xo_filters option)) in
        if \<not> compiles pattern then Panic
        else Value (map (\<lambda>p. (p, url, xo_expectedStatus option)) (filter (\<lambda>p. matchString pattern (nm p)) ps)))"

fun execute_extra :: "(string \<Rightarrow> bool) \<Rightarrow> (string \<Rightarrow> string \<Rightarrow> bool) \<Rightarrow> (string list \<Rightarrow> string list) \<Rightarrow> ('h \<Rightarrow> string)
    \<Rightarrow> 'h HealthCheck \<Rightarrow> string list \<Rightarrow> (unit, ('h \<times> string \<times> 16 word range list) list) outcome" where
  "execute_extra compiles matchString order nm hc [] = Value []"
| "execute_extra compiles matchString order nm hc (url # urls) =
     (case map_of (hc_extra hc) url of
        None \<Rightarrow> execute_extra compiles matchString order nm hc urls
      | Some option \<Rightarrow>
          (case execute compiles matchString order nm (hc_proxies hc) url option of
             Value ts \<Rightarrow>
               (case execute_extra compiles matchString order nm hc urls of
                  Value us \<Rightarrow> Value (ts @ us) | Error e \<Rightarrow> Error e | Panic \<Rightarrow> Panic)
           | Error e \<Rightarrow> Error e
           | Panic \<Rightarrow> Panic))"

text \<open>The function that \<^verbatim>\<open>check\<close> hands to \<^verbatim>\<open>singleDo\<close>.\<close>

definition check_tests :: "(string \<Rightarrow> bool) \<Rightarrow> (string \<Rightarrow> string \<Rightarrow> bool) \<Rightarrow> (string list \<Rightarrow> string list) \<Rightarrow> ('h \<Rightarrow> string)
    \<Rightarrow> 'h HealthCheck \<Rightarrow> (unit, ('h \<times> string \<times> 16 word range list) list) outcome" where
  "check_tests compiles matchString order nm hc =
     (if hc_proxies hc = [] then Value []
      else
        (case execute compiles matchString order nm (hc_proxies hc) (hc_url hc)
                \<lparr>xo_expectedStatus = hc_expectedStatus hc, xo_filters = []\<rparr> of
           Value ts \<Rightarrow>
             (case execute_extra compiles matchString order nm hc (order (map fst (hc_extra hc))) of
                Value us \<Rightarrow> Value (ts @ us) | Error e \<Rightarrow> Error e | Panic \<Rightarrow> Panic)
         | Error e \<Rightarrow> Error e
         | Panic \<Rightarrow> Panic))"

section \<open>Providers\<close>

record 'h provider =
  pv_name :: string
  pv_vehicle :: VehicleType
  pv_proxies :: "'h list"
  pv_version :: "32 word"
  pv_healthCheck :: "'h HealthCheck"

definition HealthCheckURL :: "'h provider \<Rightarrow> string" where
  "HealthCheckURL pd = hc_url (pv_healthCheck pd)"

definition RegisterHealthCheckTask :: "string \<Rightarrow> 16 word range list \<Rightarrow> string \<Rightarrow> 64 word \<Rightarrow> 'h provider \<Rightarrow> 'h provider" where
  "RegisterHealthCheckTask url expectedStatus flt interval pd =
     pd\<lparr>pv_healthCheck := registerHealthCheckTask url expectedStatus flt interval (pv_healthCheck pd)\<rparr>"

text \<open>\<^verbatim>\<open>setProxies\<close>; the result says whether a check is started.\<close>

definition pv_setProxies :: "'h list \<Rightarrow> 'h provider \<Rightarrow> bool \<times> 'h provider" where
  "pv_setProxies ps pd =
     (let pd = pd\<lparr>pv_proxies := ps, pv_version := pv_version pd + 1,
                  pv_healthCheck := hc_setProxies ps (pv_healthCheck pd)\<rparr>
      in (hc_auto (pv_healthCheck pd), pd))"

definition NewCompatibleProvider :: "string \<Rightarrow> 'h list \<Rightarrow> 'h HealthCheck \<Rightarrow> string + 'h provider" where
  "NewCompatibleProvider name ps hc =
     (if ps = [] then Inl ''provider need one proxy at least''
      else Inr \<lparr>pv_name = name, pv_vehicle = VehicleCompatible, pv_proxies = ps, pv_version = 0, pv_healthCheck = hc\<rparr>)"

section \<open>What is tested\<close>

text \<open>The texts of a filter, as they are kept, and a task of a group.\<close>

definition filter_texts :: "string \<Rightarrow> string list" where
  "filter_texts flt = filter (\<lambda>r. r \<noteq> '''') (map trim_space (split_on CHR ''`'' (trim_space flt)))"

record task =
  tk_url :: string
  tk_expected :: "16 word range list"
  tk_filter :: string
  tk_interval :: "64 word"

definition register :: "task \<Rightarrow> 'h HealthCheck \<Rightarrow> 'h HealthCheck" where
  "register t = registerHealthCheckTask (tk_url t) (tk_expected t) (tk_filter t) (tk_interval t)"

definition tasks_for :: "string \<Rightarrow> task list \<Rightarrow> task list" where
  "tasks_for u ts = filter (\<lambda>t. trim_space (tk_url t) = u) ts"

lemma set_add_filters: "set (add_filters rs fs) = set fs \<union> (set (map trim_space rs) - {''''})"
  by (induction rs arbitrary: fs) (auto simp: Let_def)

lemma trim_space_Nil [simp]: "trim_space [] = []"
  by (simp add: trim_space_def trim_by_def)

lemma set_split_filters:
  "set (xo_filters (splitAndAddFiltersToExtra flt option)) = set (xo_filters option) \<union> set (filter_texts flt)"
proof (cases "trim_space flt = []")
  case True
  then show ?thesis by (simp add: splitAndAddFiltersToExtra_def filter_texts_def)
next
  case False
  then show ?thesis by (auto simp: splitAndAddFiltersToExtra_def filter_texts_def set_add_filters)
qed

lemma xo_expectedStatus_split [simp]:
  "xo_expectedStatus (splitAndAddFiltersToExtra flt option) = xo_expectedStatus option"
  by (simp add: splitAndAddFiltersToExtra_def Let_def)

lemma register_frame [simp]:
  "hc_url (register t hc) = hc_url hc" "hc_proxies (register t hc) = hc_proxies hc"
  "hc_expectedStatus (register t hc) = hc_expectedStatus hc"
  by (auto simp: register_def registerHealthCheckTask_def Let_def split: option.splits)

text \<open>The entry of a URL after some registrations: the status of the first, the filters of all.\<close>

definition entry_ok :: "string \<Rightarrow> task list \<Rightarrow> 'h HealthCheck \<Rightarrow> bool" where
  "entry_ok u ts hc \<longleftrightarrow>
     (case map_of (hc_extra hc) u of
        None \<Rightarrow> tasks_for u ts = [] \<or> u = '''' \<or> u = hc_url hc
      | Some option \<Rightarrow> u \<noteq> '''' \<and> u \<noteq> hc_url hc \<and> tasks_for u ts \<noteq> [] \<and>
          xo_expectedStatus option = tk_expected (hd (tasks_for u ts)) \<and>
          set (xo_filters option) = (\<Union>t\<in>set (tasks_for u ts). set (filter_texts (tk_filter t))))"

lemma filter_texts_Nil [simp]: "filter_texts [] = []"
  by (simp add: filter_texts_def)

lemma register_extra:
  "map_of (hc_extra (register t hc)) u =
     (if trim_space (tk_url t) = u \<and> u \<noteq> '''' \<and> u \<noteq> hc_url hc
      then (case map_of (hc_extra hc) u of
              Some option \<Rightarrow> Some (if tk_filter t = '''' then option else splitAndAddFiltersToExtra (tk_filter t) option)
            | None \<Rightarrow> Some (splitAndAddFiltersToExtra (tk_filter t) \<lparr>xo_expectedStatus = tk_expected t, xo_filters = []\<rparr>))
      else map_of (hc_extra hc) u)"
  by (auto simp: register_def registerHealthCheckTask_def Let_def update_conv' split: option.splits)

lemma entry_ok_register:
  assumes "entry_ok u ts hc"
  shows "entry_ok u (ts @ [t]) (register t hc)"
proof (cases "trim_space (tk_url t) = u \<and> u \<noteq> '''' \<and> u \<noteq> hc_url hc")
  case False
  then have "map_of (hc_extra (register t hc)) u = map_of (hc_extra hc) u" by (simp only: register_extra if_False)
  moreover have "tasks_for u (ts @ [t]) = tasks_for u ts \<or> u = '''' \<or> u = hc_url hc"
    using False by (auto simp: tasks_for_def)
  ultimately show ?thesis using assms by (auto simp: entry_ok_def split: option.splits)
next
  case True
  then have ts: "tasks_for u (ts @ [t]) = tasks_for u ts @ [t]" by (simp add: tasks_for_def)
  show ?thesis
  proof (cases "map_of (hc_extra hc) u")
    case None
    then have "tasks_for u ts = []" using assms True by (auto simp: entry_ok_def)
    then show ?thesis using None True ts by (simp add: entry_ok_def register_extra set_split_filters)
  next
    case (Some option)
    then have "tasks_for u ts \<noteq> []" "xo_expectedStatus option = tk_expected (hd (tasks_for u ts))"
      "set (xo_filters option) = (\<Union>t\<in>set (tasks_for u ts). set (filter_texts (tk_filter t)))"
      using assms by (auto simp: entry_ok_def)
    then show ?thesis using Some True ts by (auto simp: entry_ok_def register_extra set_split_filters)
  qed
qed

lemma entry_ok_fold:
  "entry_ok u ts0 hc \<Longrightarrow> entry_ok u (ts0 @ ts) (fold register ts hc)"
proof (induction ts arbitrary: ts0 hc)
  case (Cons t ts)
  from Cons.IH [OF entry_ok_register [OF Cons.prems]] show ?case by simp
qed simp

lemma fold_register_frame:
  "hc_url (fold register ts hc) = hc_url hc" "hc_proxies (fold register ts hc) = hc_proxies hc"
  "hc_expectedStatus (fold register ts hc) = hc_expectedStatus hc"
  by (induction ts arbitrary: hc) simp_all

lemma last_dropWhile_stop: "\<exists>x\<in>set xs. \<not> P x \<Longrightarrow> last (dropWhile P xs) = last xs"
  by (metis append_Nil2 dropWhile_eq_Nil_conv last_append takeWhile_dropWhile_id)

lemma trim_by_idem: "trim_by P (trim_by P s) = trim_by P s"
proof (cases "trim_by P s = []")
  case True
  show ?thesis unfolding True by (simp add: trim_by_def)
next
  case False
  let ?d = "dropWhile P s"
  have t: "trim_by P s = rev (dropWhile P (rev ?d))" by (simp add: trim_by_def)
  have ne: "dropWhile P (rev ?d) \<noteq> []" using False t by simp
  then have "\<not> P (hd (dropWhile P (rev ?d)))" by (rule hd_dropWhile)
  then have l: "\<not> P (last (trim_by P s))" unfolding t by (simp add: last_rev)
  have "\<exists>x\<in>set (rev ?d). \<not> P x" using ne unfolding dropWhile_eq_Nil_conv by blast
  then have "last (dropWhile P (rev ?d)) = last (rev ?d)" by (rule last_dropWhile_stop)
  moreover have "?d \<noteq> []"
  proof
    assume "?d = []"
    then show False using ne by (simp only: rev.simps dropWhile.simps simp_thms)
  qed
  ultimately have "hd (trim_by P s) = hd ?d" unfolding t by (simp add: hd_rev last_rev)
  then have "\<not> P (hd (trim_by P s))" using hd_dropWhile [OF \<open>?d \<noteq> []\<close>] by simp
  then show ?thesis using False l by (intro trim_by_nonempty_ends)
qed

lemma trim_space_idem [simp]: "trim_space (trim_space s) = trim_space s"
  by (simp add: trim_space_def trim_by_idem)

definition tests_proxy :: "(string \<Rightarrow> string \<Rightarrow> bool) \<Rightarrow> string list \<Rightarrow> string \<Rightarrow> bool" where
  "tests_proxy matchString filters n \<longleftrightarrow> filters = [] \<or> list_ex (\<lambda>f. matchString f n) filters"

text \<open>What the two loops use of the regular expression package and of Go's map iteration: an
  alternative of texts matches what one of them matches, and an iteration visits each key.\<close>

definition plain_regexps :: "(string \<Rightarrow> bool) \<Rightarrow> (string \<Rightarrow> string \<Rightarrow> bool) \<Rightarrow> bool" where
  "plain_regexps compiles matchString \<longleftrightarrow>
     (\<forall>fs s. fs \<noteq> [] \<longrightarrow> compiles (join_with ''|'' fs) \<and> matchString (join_with ''|'' fs) s = list_ex (\<lambda>f. matchString f s) fs)"

definition visits_all :: "(string list \<Rightarrow> string list) \<Rightarrow> bool" where
  "visits_all order \<longleftrightarrow> (\<forall>xs. set (order xs) = set xs)"

lemma execute_runs:
  assumes re: "plain_regexps compiles matchString" and ord: "visits_all order"
  shows "\<exists>tests. execute compiles matchString order nm ps url option = Value tests \<and>
    (\<forall>p u st. (p, u, st) \<in> set tests \<longleftrightarrow>
       p \<in> set ps \<and> u = trim_space url \<and> u \<noteq> '''' \<and> st = xo_expectedStatus option \<and> tests_proxy matchString (xo_filters option) (nm p))"
proof -
  have o: "set (order (xo_filters option)) = set (xo_filters option)" using ord by (simp add: visits_all_def)
  consider "trim_space url = ''''" | "trim_space url \<noteq> ''''" "xo_filters option = []"
    | "trim_space url \<noteq> ''''" "xo_filters option \<noteq> []" by blast
  then show ?thesis
  proof cases
    case 3
    then have ne: "order (xo_filters option) \<noteq> []" using o by auto
    with re have "compiles (join_with ''|'' (order (xo_filters option)))"
      "\<And>s. matchString (join_with ''|'' (order (xo_filters option))) s = list_ex (\<lambda>f. matchString f s) (order (xo_filters option))"
      unfolding plain_regexps_def by blast+
    then show ?thesis using 3 o by (auto simp: execute_def tests_proxy_def list_ex_iff)
  qed (auto simp: execute_def tests_proxy_def)
qed

lemma execute_extra_runs:
  assumes re: "plain_regexps compiles matchString" and ord: "visits_all order"
  shows "\<exists>tests. execute_extra compiles matchString order nm hc urls = Value tests \<and>
    (\<forall>p u st. (p, u, st) \<in> set tests \<longleftrightarrow>
       p \<in> set (hc_proxies hc) \<and> u \<noteq> '''' \<and>
       (\<exists>url\<in>set urls. u = trim_space url \<and> (\<exists>option. map_of (hc_extra hc) url = Some option \<and>
          st = xo_expectedStatus option \<and> tests_proxy matchString (xo_filters option) (nm p))))"
proof (induction urls)
  case (Cons url urls)
  then obtain us where us: "execute_extra compiles matchString order nm hc urls = Value us"
    "\<And>p u st. (p, u, st) \<in> set us \<longleftrightarrow> p \<in> set (hc_proxies hc) \<and> u \<noteq> '''' \<and>
       (\<exists>url\<in>set urls. u = trim_space url \<and> (\<exists>option. map_of (hc_extra hc) url = Some option \<and>
          st = xo_expectedStatus option \<and> tests_proxy matchString (xo_filters option) (nm p)))" by blast
  show ?case
  proof (cases "map_of (hc_extra hc) url")
    case None
    then show ?thesis using us by auto
  next
    case (Some option)
    obtain ts where ts: "execute compiles matchString order nm (hc_proxies hc) url option = Value ts"
      "\<And>p u st. (p, u, st) \<in> set ts \<longleftrightarrow> p \<in> set (hc_proxies hc) \<and> u = trim_space url \<and> u \<noteq> '''' \<and>
         st = xo_expectedStatus option \<and> tests_proxy matchString (xo_filters option) (nm p)"
      using execute_runs [OF re ord, of nm "hc_proxies hc" url option] by (elim exE conjE) (rule that, assumption, simp)
    have "execute_extra compiles matchString order nm hc (url # urls) = Value (ts @ us)"
      using Some ts(1) us(1) by simp
    then show ?thesis using ts(2) us(2) Some by auto
  qed
qed simp

lemma tests_registered:
  fixes ps :: "'h list" and url :: string and timeout interval :: "64 word" and lzy :: bool
    and es :: "16 word range list" and ts :: "task list"
  assumes re: "plain_regexps compiles matchString" and ord: "visits_all order"
  defines "hc \<equiv> fold register ts (NewHealthCheck ps url timeout interval lzy es)"
  shows "\<exists>tests. check_tests compiles matchString order nm hc = Value tests \<and>
    (\<forall>p u st. (p, u, st) \<in> set tests \<longleftrightarrow>
       p \<in> set ps \<and> u \<noteq> '''' \<and>
       (u = trim_space url \<and> st = es \<or>
        u \<noteq> url \<and> tasks_for u ts \<noteq> [] \<and> st = tk_expected (hd (tasks_for u ts)) \<and>
        tests_proxy matchString (concat (map (\<lambda>t. filter_texts (tk_filter t)) (tasks_for u ts))) (nm p)))"
proof -
  let ?hc0 = "NewHealthCheck ps url timeout interval lzy es"
  have "entry_ok u [] ?hc0" for u by (simp add: entry_ok_def NewHealthCheck_def Let_def tasks_for_def)
  from entry_ok_fold [OF this, of _ ts] have entry: "entry_ok u ts hc" for u by (simp add: hc_def)
  have frame: "hc_url hc = url" "hc_proxies hc = ps" "url \<noteq> '''' \<Longrightarrow> hc_expectedStatus hc = es"
    by (simp_all add: hc_def fold_register_frame NewHealthCheck_def Let_def)
  have extra: "(\<exists>key\<in>set (order (map fst (hc_extra hc))). u = trim_space key \<and>
      (\<exists>option. map_of (hc_extra hc) key = Some option \<and> st = xo_expectedStatus option \<and> tests_proxy matchString (xo_filters option) n))
    \<longleftrightarrow> u \<noteq> url \<and> tasks_for u ts \<noteq> [] \<and> st = tk_expected (hd (tasks_for u ts)) \<and>
        tests_proxy matchString (concat (map (\<lambda>t. filter_texts (tk_filter t)) (tasks_for u ts))) n" (is "?L \<longleftrightarrow> ?R")
    if u: "u \<noteq> ''''" for u st n
  proof -
    have same: "tests_proxy matchString fs n = tests_proxy matchString gs n" if "set fs = set gs" for fs gs
      using that by (cases fs; cases gs) (auto simp: tests_proxy_def list_ex_iff)
    have key: "trim_space key = key" if "map_of (hc_extra hc) key = Some option" for key option
      using entry [of key] that by (auto simp: entry_ok_def tasks_for_def filter_empty_conv)
    have "?L \<longleftrightarrow> (\<exists>option. map_of (hc_extra hc) u = Some option \<and> st = xo_expectedStatus option \<and> tests_proxy matchString (xo_filters option) n)"
    proof
      assume ?L
      then show "\<exists>option. map_of (hc_extra hc) u = Some option \<and> st = xo_expectedStatus option \<and> tests_proxy matchString (xo_filters option) n"
        using key by metis
    next
      assume "\<exists>option. map_of (hc_extra hc) u = Some option \<and> st = xo_expectedStatus option \<and> tests_proxy matchString (xo_filters option) n"
      then obtain option where o: "map_of (hc_extra hc) u = Some option" "st = xo_expectedStatus option"
        "tests_proxy matchString (xo_filters option) n" by blast
      then have "u \<in> set (order (map fst (hc_extra hc)))"
        using ord by (auto simp: visits_all_def dest!: map_of_SomeD intro: rev_image_eqI)
      then show ?L using o key [OF o(1)] by (intro bexI [of _ u]) auto
    qed
    also have "\<dots> \<longleftrightarrow> ?R"
    proof (cases "map_of (hc_extra hc) u")
      case None
      then show ?thesis using entry [of u] u frame by (auto simp: entry_ok_def)
    next
      case (Some option)
      then have e: "u \<noteq> url" "tasks_for u ts \<noteq> []" "xo_expectedStatus option = tk_expected (hd (tasks_for u ts))"
        "set (xo_filters option) = set (concat (map (\<lambda>t. filter_texts (tk_filter t)) (tasks_for u ts)))"
        using entry [of u] frame by (auto simp: entry_ok_def)
      show ?thesis using Some e(1,2,3) same [OF e(4)] by simp
    qed
    finally show ?thesis .
  qed
  show ?thesis
  proof (cases "ps = []")
    case True
    then show ?thesis using frame by (simp add: check_tests_def)
  next
    case False
    let ?own = "\<lparr>xo_expectedStatus = hc_expectedStatus hc, xo_filters = []\<rparr>"
    obtain t1 where t1: "execute compiles matchString order nm ps url ?own = Value t1"
      "\<And>p u st. (p, u, st) \<in> set t1 \<longleftrightarrow> p \<in> set ps \<and> u = trim_space url \<and> u \<noteq> '''' \<and>
         st = xo_expectedStatus ?own \<and> tests_proxy matchString (xo_filters ?own) (nm p)"
      using execute_runs [OF re ord, of nm ps url ?own] by (elim exE conjE) (rule that, assumption, simp)
    obtain t2 where t2: "execute_extra compiles matchString order nm hc (order (map fst (hc_extra hc))) = Value t2"
      "\<And>p u st. (p, u, st) \<in> set t2 \<longleftrightarrow> p \<in> set (hc_proxies hc) \<and> u \<noteq> '''' \<and>
       (\<exists>url\<in>set (order (map fst (hc_extra hc))). u = trim_space url \<and> (\<exists>option. map_of (hc_extra hc) url = Some option \<and>
          st = xo_expectedStatus option \<and> tests_proxy matchString (xo_filters option) (nm p)))"
      using execute_extra_runs [OF re ord, of nm hc "order (map fst (hc_extra hc))"] by (elim exE conjE) (rule that, assumption, simp)
    have "check_tests compiles matchString order nm hc = Value (t1 @ t2)"
      using False frame t1(1) t2(1) by (simp add: check_tests_def)
    moreover have "(p, u, st) \<in> set (t1 @ t2) \<longleftrightarrow> p \<in> set ps \<and> u \<noteq> '''' \<and>
       (u = trim_space url \<and> st = es \<or>
        u \<noteq> url \<and> tasks_for u ts \<noteq> [] \<and> st = tk_expected (hd (tasks_for u ts)) \<and>
        tests_proxy matchString (concat (map (\<lambda>t. filter_texts (tk_filter t)) (tasks_for u ts))) (nm p))" for p u st
    proof (cases "u = ''''")
      case True
      then show ?thesis by (auto simp: t1(2) t2(2))
    next
      case ne: False
      have "(p, u, st) \<in> set t1 \<longleftrightarrow> p \<in> set ps \<and> u = trim_space url \<and> st = es"
        using ne frame(3) by (cases "url = ''''") (auto simp: t1(2) tests_proxy_def)
      moreover have "(p, u, st) \<in> set t2 \<longleftrightarrow> p \<in> set ps \<and> (u \<noteq> url \<and> tasks_for u ts \<noteq> [] \<and> st = tk_expected (hd (tasks_for u ts)) \<and>
        tests_proxy matchString (concat (map (\<lambda>t. filter_texts (tk_filter t)) (tasks_for u ts))) (nm p))"
        unfolding t2(2) frame(2) extra [OF ne] using ne by blast
      ultimately show ?thesis using ne by auto
    qed
    ultimately show ?thesis by blast
  qed
qed

section \<open>What is promised\<close>

text \<open>Literal texts, of which one has to be the name, satisfy the assumption on regular expressions.\<close>

definition literal :: "string \<Rightarrow> string \<Rightarrow> bool" where
  "literal pattern s \<longleftrightarrow> s \<in> set (split_on CHR ''|'' pattern)"

lemma split_on_append: "split_on c (s @ c # t) = split_on c s @ split_on c t"
  by (induction s) (auto split: list.splits)

lemma split_on_join: "fs \<noteq> [] \<Longrightarrow> set (split_on c (join_with [c] fs)) = (\<Union>f\<in>set fs. set (split_on c f))"
  by (induction "[c]" fs rule: join_with.induct) (auto simp: split_on_append)

lemma plain_literal: "plain_regexps (\<lambda>r. True) literal"
  by (auto simp: plain_regexps_def literal_def split_on_join list_ex_iff)

lemma visits_all_id: "visits_all (\<lambda>xs. xs)"
  by (simp add: visits_all_def)

text \<open>A health check tests a proxy of its provider at its own URL, and at any other URL that some
  group registered; there it expects the status that the first group registered, and when groups
  gave filters it tests the proxies that one of all their filters matches. A group that registers
  without a filter after one with a filter therefore does not widen what is tested.\<close>

theorem registered_tests:
  assumes "plain_regexps compiles matchString" and "visits_all order"
  shows "\<exists>tests. check_tests compiles matchString order nm (fold register ts (NewHealthCheck ps url timeout interval lzy es)) = Value tests \<and>
    (\<forall>p u st. (p, u, st) \<in> set tests \<longleftrightarrow>
       p \<in> set ps \<and> u \<noteq> '''' \<and>
       (u = trim_space url \<and> st = es \<or>
        u \<noteq> url \<and> tasks_for u ts \<noteq> [] \<and> st = tk_expected (hd (tasks_for u ts)) \<and>
        tests_proxy matchString (concat (map (\<lambda>t. filter_texts (tk_filter t)) (tasks_for u ts))) (nm p)))"
  using tests_registered [OF assms] .

theorem registered_tests_witness:
  "let ts = [\<lparr>tk_url = ''u'', tk_expected = [], tk_filter = ''a'', tk_interval = 300\<rparr>,
             \<lparr>tk_url = ''u'', tk_expected = [], tk_filter = [], tk_interval = 300\<rparr>];
       hc = fold register ts (NewHealthCheck [''a'', ''b''] [] 0 0 True [])
   in \<exists>tests. check_tests (\<lambda>r. True) literal (\<lambda>xs. xs) (\<lambda>p. p) hc = Value tests \<and>
        (''a'', ''u'', []) \<in> set tests \<and> (''b'', ''u'', []) \<notin> set tests"
proof -
  let ?ts = "[\<lparr>tk_url = ''u'', tk_expected = [], tk_filter = ''a'', tk_interval = 300\<rparr>,
             \<lparr>tk_url = ''u'', tk_expected = [], tk_filter = [], tk_interval = 300\<rparr>]"
  have t: "tasks_for ''u'' ?ts = ?ts" by code_simp
  have f: "concat (map (\<lambda>t. filter_texts (tk_filter t)) ?ts) = [''a'']" by code_simp
  obtain tests where v: "check_tests (\<lambda>r. True) literal (\<lambda>xs. xs) (\<lambda>p. p) (fold register ?ts (NewHealthCheck [''a'', ''b''] [] 0 0 True [])) = Value tests"
    and m: "\<And>p u st. (p, u, st) \<in> set tests \<longleftrightarrow> p \<in> set [''a'', ''b''] \<and> u \<noteq> [] \<and>
       (u = trim_space [] \<and> st = [] \<or>
        u \<noteq> [] \<and> tasks_for u ?ts \<noteq> [] \<and> st = tk_expected (hd (tasks_for u ?ts)) \<and>
        tests_proxy literal (concat (map (\<lambda>t. filter_texts (tk_filter t)) (tasks_for u ?ts))) p)"
    using registered_tests [OF plain_literal visits_all_id, of "\<lambda>p. p" ?ts "[''a'', ''b'']" "[]" 0 0 True "[]"]
    by (elim exE conjE) (rule that, assumption, simp)
  have "(''a'', ''u'', []) \<in> set tests" "(''b'', ''u'', []) \<notin> set tests"
    unfolding m t f by (simp_all add: tests_proxy_def literal_def)
  with v show ?thesis by (simp add: Let_def)
qed

end
