(* ===== verification/GroupParse.thy ===== *)
theory GroupParse
  imports GroupDagLaws HealthChecks LoadBalance "HOL-Library.List_Lexorder" "HOL-Library.Char_ord"
begin

text \<open>
  How the groups of a configuration are built: \<^verbatim>\<open>ParseProxyGroup\<close> of
  \<^verbatim>\<open>adapter/outboundgroup/parser.go\<close> and \<^verbatim>\<open>parseProxies\<close> of \<^verbatim>\<open>config/config.go\<close>, which enters the
  outbounds, sorts the groups, builds them one after the other and checks the dialers.

  A mapping of the configuration is given by what the decoder makes of it and by the entries that
  the code looks up itself. Proxies and providers are pointers in the code and are entered in
  their tables once, under their name, so the name stands for the pointer. A table is an
  association list. \<open>compiles\<close> and \<open>matchString\<close> are the regular expression package, as in
  HealthChecks. What the outbounds themselves are does not matter here: \<open>Leaf\<close> is one, with its
  type and its dialer.
\<close>

section \<open>The data\<close>

record group_mapping =
  gm_name :: "string option"
  gm_option :: "string + GroupCommonOption"
  gm_tolerance :: "int option"
  gm_strategy :: "string option"

datatype group_kind =
    KSelector string
  | KURLTest "16 word"
  | KFallback
  | KLoadBalance strategy

record proxy_group =
  pg_name :: string
  pg_kind :: group_kind
  pg_base :: "string GroupBase"
  pg_providers :: "string list"
  pg_testUrl :: string
  pg_expectedStatus :: string
  pg_disableUDP :: bool
  pg_hidden :: bool
  pg_icon :: string

datatype proxy_entry = Leaf AdapterType string | Grouped proxy_group

type_synonym proxy_table = "(string \<times> proxy_entry) list"
type_synonym provider_table = "(string \<times> string provider) list"

datatype parse_error =
    GroupFormat
  | FallbackNotFound string string
  | MissProxy string
  | BadStatus string string
  | ProxyNotFound string string
  | ProviderNotFound string string
  | GroupInUse string string
  | DuplicateProvider string
  | NeedOneProxy string
  | RelayRemoved string
  | UnsupportedType string
  | UnsupportedStrategy string

definition DefaultTestURL :: string where
  "DefaultTestURL = ''https://www.gstatic.com/generate_204''"

section \<open>Parsing one group\<close>

fun getProxies :: "string \<Rightarrow> proxy_table \<Rightarrow> string list \<Rightarrow> (parse_error, string list) outcome" where
  "getProxies groupName table [] = Value []"
| "getProxies groupName table (name # ns) =
     (case map_of table name of
        None \<Rightarrow> Error (ProxyNotFound groupName name)
      | Some p \<Rightarrow> bind_outcome (getProxies groupName table ns) (\<lambda>ps. Value (name # ps)))"

fun getProviders :: "string \<Rightarrow> provider_table \<Rightarrow> string list \<Rightarrow> (parse_error, string list) outcome" where
  "getProviders groupName table [] = Value []"
| "getProviders groupName table (name # ns) =
     (case map_of table name of
        None \<Rightarrow> Error (ProviderNotFound groupName name)
      | Some p \<Rightarrow>
          if pv_vehicle p = VehicleCompatible then Error (GroupInUse groupName name)
          else bind_outcome (getProviders groupName table ns) (\<lambda>ps. Value (name # ps)))"

definition update_provider :: "string \<Rightarrow> (string provider \<Rightarrow> string provider) \<Rightarrow> provider_table \<Rightarrow> provider_table" where
  "update_provider name f table = map (\<lambda>(n, p). if n = name then (n, f p) else (n, p)) table"

definition addTestUrlToProviders :: "string list \<Rightarrow> string \<Rightarrow> 16 word range list \<Rightarrow> string \<Rightarrow> 64 word \<Rightarrow> provider_table \<Rightarrow> provider_table" where
  "addTestUrlToProviders pds url expectedStatus flt interval table =
     (if pds = [] \<or> url = '''' then table
      else fold (\<lambda>pd. update_provider pd (RegisterHealthCheckTask url expectedStatus flt interval)) pds table)"

text \<open>The first health check URL of the providers in use, or the default.\<close>

definition first_url :: "provider_table \<Rightarrow> string list \<Rightarrow> string" where
  "first_url table pds =
     (case List.find (\<lambda>u. u \<noteq> '''') (map (\<lambda>n. case map_of table n of Some p \<Rightarrow> HealthCheckURL p | None \<Rightarrow> '''') pds) of
        Some u \<Rightarrow> u | None \<Rightarrow> DefaultTestURL)"

text \<open>\<^verbatim>\<open>include-all\<close>: the options with the providers and proxies it adds. \<open>Panic\<close> is a filter that
  does not compile.\<close>

definition include_all :: "(string \<Rightarrow> bool) \<Rightarrow> (string \<Rightarrow> string \<Rightarrow> bool) \<Rightarrow> string list \<Rightarrow> string list
    \<Rightarrow> GroupCommonOption \<Rightarrow> (parse_error, GroupCommonOption) outcome" where
  "include_all compiles matchString AllProxies AllProviders opt =
     (let opt = (if opt_IncludeAll opt then opt\<lparr>opt_IncludeAllProviders := True, opt_IncludeAllProxies := True\<rparr> else opt);
          opt = (if opt_IncludeAllProviders opt then opt\<lparr>opt_Use := AllProviders\<rparr> else opt)
      in if \<not> opt_IncludeAllProxies opt then Value opt
         else if opt_Filter opt \<noteq> '''' \<and> \<not> list_all compiles (split_on CHR ''`'' (opt_Filter opt)) then Panic
         else
           let added = (if opt_Filter opt \<noteq> ''''
                 then concat (map (\<lambda>p. map (\<lambda>f. p) (filter (\<lambda>f. matchString f p) (split_on CHR ''`'' (opt_Filter opt)))) AllProxies)
                 else AllProxies);
               opt = opt\<lparr>opt_Proxies := opt_Proxies opt @ added\<rparr>
           in Value (if opt_Proxies opt = [] \<and> opt_Use opt = [] then opt\<lparr>opt_Proxies := [opt_EmptyFallback opt]\<rparr> else opt))"

text \<open>The providers named in \<^verbatim>\<open>use\<close>, with the URL to test: the result is their names, the URL and the
  table with the tasks registered.\<close>

definition use_providers :: "GroupCommonOption \<Rightarrow> 16 word range list \<Rightarrow> provider_table
    \<Rightarrow> (parse_error, string list \<times> string \<times> provider_table) outcome" where
  "use_providers opt expectedStatus table =
     (if opt_Use opt = [] then Value ([], opt_URL opt, table)
      else bind_outcome (getProviders (opt_Name opt) table (opt_Use opt)) (\<lambda>pds.
        Value (if opt_URL opt = '''' then (pds, first_url table pds, table)
               else (pds, opt_URL opt,
                     addTestUrlToProviders pds (opt_URL opt) expectedStatus (opt_Filter opt) (word_of_int (opt_Interval opt)) table))))"

text \<open>The proxies of the group, in a provider of their own that is entered under the group's name.\<close>

definition own_provider :: "GroupCommonOption \<Rightarrow> string \<Rightarrow> 16 word range list \<Rightarrow> proxy_table \<Rightarrow> provider_table \<Rightarrow> string list
    \<Rightarrow> (parse_error, string list \<times> string \<times> provider_table) outcome" where
  "own_provider opt url expectedStatus proxyMap table pds =
     (if opt_Proxies opt = [] then Value (pds, url, table)
      else bind_outcome (getProxies (opt_Name opt) proxyMap (opt_Proxies opt)) (\<lambda>ps.
        if map_of table (opt_Name opt) \<noteq> None then Error (DuplicateProvider (opt_Name opt))
        else
          let url = (if url = '''' then DefaultTestURL else url);
              interval = (if opt_Type opt \<noteq> ''select'' \<and> opt_Type opt \<noteq> ''relay'' \<and> opt_Interval opt = 0 then 300 else opt_Interval opt);
              hc = NewHealthCheck ps url (word_of_int (opt_TestTimeout opt)) (word_of_int interval) (opt_Lazy opt) expectedStatus
          in (case NewCompatibleProvider (opt_Name opt) ps hc of
                Inl e \<Rightarrow> Error (NeedOneProxy (opt_Name opt))
              | Inr pd \<Rightarrow> Value (opt_Name opt # pds, url, AList.update (opt_Name opt) pd table))))"

text \<open>\<^verbatim>\<open>NewGroupBase\<close> panics for a filter that does not compile.\<close>

definition filters_compile :: "(string \<Rightarrow> bool) \<Rightarrow> GroupCommonOption \<Rightarrow> bool" where
  "filters_compile compiles opt \<longleftrightarrow>
     (opt_ExcludeFilter opt = '''' \<or> list_all compiles (split_on CHR ''`'' (opt_ExcludeFilter opt))) \<and>
     (opt_Filter opt = '''' \<or> list_all compiles (split_on CHR ''`'' (opt_Filter opt)))"

definition make_group :: "(string \<Rightarrow> bool) \<Rightarrow> GroupCommonOption \<Rightarrow> string \<Rightarrow> string \<Rightarrow> string list \<Rightarrow> group_kind \<Rightarrow> (parse_error, proxy_group) outcome" where
  "make_group compiles opt url fallbackName pds kind =
     (if \<not> filters_compile compiles opt then Panic
      else Value
        \<lparr>pg_name = opt_Name opt, pg_kind = kind,
         pg_base = NewGroupBase (opt_Filter opt) (opt_ExcludeFilter opt) (opt_ExcludeType opt)
           (opt_TestTimeout opt) (opt_MaxFailedTimes opt) fallbackName,
         pg_providers = pds, pg_testUrl = url, pg_expectedStatus = opt_ExpectedStatus opt,
         pg_disableUDP = opt_DisableUDP opt, pg_hidden = opt_Hidden opt, pg_icon = opt_Icon opt\<rparr>)"

text \<open>The switch over the type of the group.\<close>

definition group_of_type :: "(string \<Rightarrow> bool) \<Rightarrow> group_mapping \<Rightarrow> GroupCommonOption \<Rightarrow> string \<Rightarrow> string list \<Rightarrow> (parse_error, proxy_group) outcome" where
  "group_of_type compiles config opt url pds =
     (let make = make_group compiles opt url (opt_EmptyFallback opt) pds in
      if opt_Type opt = ''url-test'' then
        make (KURLTest (case gm_tolerance config of Some t \<Rightarrow> word_of_int t | None \<Rightarrow> 0))
      else if opt_Type opt = ''select'' then make (KSelector (opt_EmptyFallback opt))
      else if opt_Type opt = ''fallback'' then make KFallback
      else if opt_Type opt = ''load-balance'' then
        (case NewLoadBalance (parseStrategy (gm_strategy config)) of
           Inl e \<Rightarrow> Error (UnsupportedStrategy e)
         | Inr strategy \<Rightarrow> make (KLoadBalance strategy))
      else if opt_Type opt = ''relay'' then Error (RelayRemoved (opt_Name opt))
      else Error (UnsupportedType (opt_Type opt)))"

definition ParseProxyGroup :: "(string \<Rightarrow> bool) \<Rightarrow> (string \<Rightarrow> string \<Rightarrow> bool) \<Rightarrow> group_mapping \<Rightarrow> proxy_table \<Rightarrow> provider_table
    \<Rightarrow> string list \<Rightarrow> string list \<Rightarrow> (parse_error, proxy_group \<times> provider_table) outcome" where
  "ParseProxyGroup compiles matchString config proxyMap providersMap AllProxies AllProviders =
     (case gm_option config of
        Inl e \<Rightarrow> Error GroupFormat
      | Inr opt \<Rightarrow>
          if opt_Type opt = '''' \<or> opt_Name opt = '''' then Error GroupFormat
          else
            let opt = (if opt_EmptyFallback opt = '''' then opt\<lparr>opt_EmptyFallback := ''COMPATIBLE''\<rparr> else opt) in
            if map_of proxyMap (opt_EmptyFallback opt) = None then Error (FallbackNotFound (opt_Name opt) (opt_EmptyFallback opt))
            else bind_outcome (include_all compiles matchString AllProxies AllProviders opt) (\<lambda>opt.
              if opt_Proxies opt = [] \<and> opt_Use opt = [] then Error (MissProxy (opt_Name opt))
              else
                (case NewUnsignedRanges (opt_ExpectedStatus opt) of
                   Inl e \<Rightarrow> Error (BadStatus (opt_Name opt) e)
                 | Inr expectedStatus \<Rightarrow>
                     let status = trim_space (opt_ExpectedStatus opt);
                         opt = opt\<lparr>opt_ExpectedStatus := (if status = '''' then ''*'' else status)\<rparr>
                     in bind_outcome (use_providers opt expectedStatus providersMap) (\<lambda>(pds, url, table).
                          bind_outcome (own_provider opt url expectedStatus proxyMap table pds) (\<lambda>(pds, url, table).
                            bind_outcome (group_of_type compiles config opt url pds) (\<lambda>g. Value (g, table)))))))"

section \<open>Building the groups of a configuration\<close>

datatype config_error =
    ProxyError nat string
  | DuplicateProxy string
  | ReservedProvider
  | ProviderError string string
  | DialerError dialer_error
  | MissingName nat
  | SortError group_error
  | GroupError nat parse_error
  | DuplicateName string

fun group_list :: "nat \<Rightarrow> group_mapping option list \<Rightarrow> (config_error, string list) outcome" where
  "group_list idx [] = Value []"
| "group_list idx (mapping # ms) =
     (case (case mapping of Some m \<Rightarrow> gm_name m | None \<Rightarrow> None) of
        None \<Rightarrow> Error (MissingName idx)
      | Some name \<Rightarrow> bind_outcome (group_list (idx + 1) ms) (\<lambda>ns. Value (name # ns)))"

text \<open>A nil mapping does not decode.\<close>

fun build_groups :: "(string \<Rightarrow> bool) \<Rightarrow> (string \<Rightarrow> string \<Rightarrow> bool) \<Rightarrow> string list \<Rightarrow> string list \<Rightarrow> nat \<Rightarrow> group_mapping option list
    \<Rightarrow> proxy_table \<Rightarrow> provider_table \<Rightarrow> (config_error, proxy_table \<times> provider_table) outcome" where
  "build_groups compiles matchString AllProxies AllProviders idx [] table providersMap = Value (table, providersMap)"
| "build_groups compiles matchString AllProxies AllProviders idx (mapping # ms) table providersMap =
     (case mapping of
        None \<Rightarrow> Error (GroupError idx GroupFormat)
      | Some config \<Rightarrow>
          (case ParseProxyGroup compiles matchString config table providersMap AllProxies AllProviders of
             Error e \<Rightarrow> Error (GroupError idx e)
           | Panic \<Rightarrow> Panic
           | Value (g, providersMap) \<Rightarrow>
               if map_of table (pg_name g) \<noteq> None then Error (DuplicateName (pg_name g))
               else build_groups compiles matchString AllProxies AllProviders (idx + 1) ms
                      (AList.update (pg_name g) (Grouped g) table) providersMap))"

text \<open>The outbounds of the program.\<close>

definition builtin_table :: proxy_table where
  "builtin_table =
     [(''DIRECT'', Leaf Direct ''''), (''REJECT'', Leaf Reject ''''), (''REJECT-DROP'', Leaf RejectDrop ''''),
      (''COMPATIBLE'', Leaf Compatible ''''), (''PASS'', Leaf Pass ''''), (''PASS-RULE'', Leaf PassRule '''')]"

text \<open>The outbounds of the configuration. \<open>parse_proxy\<close> is \<^verbatim>\<open>adapter.ParseProxy\<close>: the name, the type and
  the dialer of an outbound. The state is the table, \<^verbatim>\<open>proxyList\<close> and \<^verbatim>\<open>AllProxies\<close>.\<close>

fun parse_leaves :: "('m \<Rightarrow> string + string \<times> AdapterType \<times> string) \<Rightarrow> nat \<Rightarrow> 'm list \<Rightarrow> proxy_table \<Rightarrow> string list
    \<Rightarrow> (config_error, proxy_table \<times> string list) outcome" where
  "parse_leaves parse_proxy idx [] table AllProxies = Value (table, AllProxies)"
| "parse_leaves parse_proxy idx (mapping # ms) table AllProxies =
     (case parse_proxy mapping of
        Inl e \<Rightarrow> Error (ProxyError idx e)
      | Inr (name, typ, dialer) \<Rightarrow>
          if map_of table name \<noteq> None then Error (DuplicateProxy name)
          else parse_leaves parse_proxy (idx + 1) ms (AList.update name (Leaf typ dialer) table) (AllProxies @ [name]))"

text \<open>The providers, in the order in which the map of the configuration is ranged over.
  \<open>parse_provider\<close> is \<^verbatim>\<open>ParseProxyProvider\<close>.\<close>

fun parse_providers :: "(string \<Rightarrow> string + string provider) \<Rightarrow> string list \<Rightarrow> provider_table \<Rightarrow> string list
    \<Rightarrow> (config_error, provider_table \<times> string list) outcome" where
  "parse_providers parse_provider [] table AllProviders = Value (table, AllProviders)"
| "parse_providers parse_provider (name # ns) table AllProviders =
     (if name = ''default'' then Error ReservedProvider
      else
        (case parse_provider name of
           Inl e \<Rightarrow> Error (ProviderError name e)
         | Inr pd \<Rightarrow> parse_providers parse_provider ns (AList.update name pd table) (AllProviders @ [name])))"

definition entry_type :: "proxy_entry \<Rightarrow> AdapterType" where
  "entry_type e =
     (case e of Leaf t d \<Rightarrow> t
      | Grouped g \<Rightarrow> (case pg_kind g of KSelector sel \<Rightarrow> Selector | KURLTest t \<Rightarrow> URLTest | KFallback \<Rightarrow> Fallback
                     | KLoadBalance strategy \<Rightarrow> LoadBalance))"

definition entry_dialer :: "proxy_entry \<Rightarrow> string" where
  "entry_dialer e = (case e of Leaf t d \<Rightarrow> d | Grouped g \<Rightarrow> '''')"

text \<open>The proxies of the default provider; a name that is not in the table is a nil proxy.\<close>

fun listed_proxies :: "proxy_table \<Rightarrow> string list \<Rightarrow> (config_error, string list) outcome" where
  "listed_proxies table [] = Value []"
| "listed_proxies table (v # vs) =
     (case map_of table v of
        None \<Rightarrow> Panic
      | Some e \<Rightarrow>
          if entry_type e = Pass \<or> entry_type e = PassRule then listed_proxies table vs
          else bind_outcome (listed_proxies table vs) (\<lambda>ps. Value (v # ps)))"

definition default_provider :: "string list \<Rightarrow> string provider" where
  "default_provider ps =
     \<lparr>pv_name = ''default'', pv_vehicle = VehicleCompatible, pv_proxies = ps, pv_version = 0,
      pv_healthCheck = NewHealthCheck ps '''' 5000 0 True []\<rparr>"

definition global_group :: proxy_group where
  "global_group =
     \<lparr>pg_name = ''GLOBAL'', pg_kind = KSelector ''COMPATIBLE'', pg_base = NewGroupBase '''' '''' '''' 0 0 ''COMPATIBLE'',
      pg_providers = [''default''], pg_testUrl = '''', pg_expectedStatus = '''', pg_disableUDP = False,
      pg_hidden = False, pg_icon = ''''\<rparr>"

definition finish_proxies :: "(nat \<Rightarrow> string list \<Rightarrow> string list) \<Rightarrow> bool \<Rightarrow> string list \<Rightarrow> proxy_table \<Rightarrow> provider_table
    \<Rightarrow> (config_error, proxy_table \<times> provider_table) outcome" where
  "finish_proxies ord hasGlobal proxyList table providersMap =
     bind_outcome (listed_proxies table proxyList) (\<lambda>ps.
       let providersMap = AList.update ''default'' (default_provider ps) providersMap;
           table = (if hasGlobal then table else AList.update ''GLOBAL'' (Grouped global_group) table)
       in (case validateDialerProxies ord (map (\<lambda>(n, e). (n, entry_dialer e)) table) of
             Some e \<Rightarrow> Error (DialerError e)
           | None \<Rightarrow> Value (table, providersMap)))"

definition parseProxies :: "(string \<Rightarrow> bool) \<Rightarrow> (string \<Rightarrow> string \<Rightarrow> bool) \<Rightarrow> (nat \<Rightarrow> string list \<Rightarrow> string list)
    \<Rightarrow> ('m \<Rightarrow> string + string \<times> AdapterType \<times> string) \<Rightarrow> (string \<Rightarrow> string + string provider)
    \<Rightarrow> 'm list \<Rightarrow> group_mapping option list \<Rightarrow> string list \<Rightarrow> (config_error, proxy_table \<times> provider_table) outcome" where
  "parseProxies compiles matchString ord parse_proxy parse_provider proxiesConfig groupsConfig providersConfig =
     bind_outcome (parse_leaves parse_proxy 0 proxiesConfig builtin_table []) (\<lambda>(table, AllProxies).
       bind_outcome (group_list 0 groupsConfig) (\<lambda>groupNames.
         case proxyGroupsDagSort gm_option ord groupsConfig of
           Error e \<Rightarrow> Error (SortError e)
         | Panic \<Rightarrow> Panic
         | Value sorted_config \<Rightarrow>
             bind_outcome (parse_providers parse_provider (ord 4 providersConfig) [] []) (\<lambda>(providersMap, AllProviders).
               bind_outcome (build_groups compiles matchString (sort AllProxies) (sort AllProviders) 0 sorted_config table providersMap)
                 (\<lambda>(table, providersMap).
                    finish_proxies (\<lambda>i. ord (i + 5)) (''GLOBAL'' \<in> set groupNames)
                      ([''DIRECT'', ''REJECT''] @ AllProxies @ groupNames) table providersMap))))"

end
