(* ===== verification/GroupParseLaws.thy ===== *)
theory GroupParseLaws
  imports GroupParse
begin

text \<open>
  What building the groups guarantees: the tables it leaves refer only to what they hold, and a
  group fails for a missing member only when nothing of that name is defined. The order in which
  the groups come from the sort is what the second rests on.
\<close>

section \<open>Results of the steps\<close>

lemma bind_outcome_eq_Error:
  "bind_outcome r f = Error e \<longleftrightarrow> r = Error e \<or> (\<exists>a. r = Value a \<and> f a = Error e)"
  by (cases r) auto

lemma getProxies_Value: "getProxies n table ns = Value ps \<longleftrightarrow> ps = ns \<and> set ns \<subseteq> dom (map_of table)"
  by (induction ns arbitrary: ps) (auto split: option.splits)

lemma getProxies_Error:
  "getProxies n table ns = Error e \<Longrightarrow> \<exists>x\<in>set ns. e = ProxyNotFound n x \<and> x \<notin> dom (map_of table)"
  by (induction ns) (auto simp: bind_outcome_eq_Error domIff split: option.splits)

lemma getProviders_Value: "getProviders n table ns = Value ps \<Longrightarrow> ps = ns \<and> set ns \<subseteq> dom (map_of table)"
  by (induction ns arbitrary: ps) (auto split: option.splits if_splits)

lemma getProviders_Error: "getProviders n table ns = Error e \<Longrightarrow> \<exists>x. e = ProviderNotFound n x \<or> e = GroupInUse n x"
  by (induction ns) (auto simp: bind_outcome_eq_Error split: option.splits if_splits)

lemma map_of_update_provider:
  "map_of (update_provider q f table) n = (if n = q then map_option f (map_of table n) else map_of table n)"
  by (induction table) (auto simp: update_provider_def)

text \<open>Registering tasks leaves the proxies of the providers alone.\<close>

definition same_proxies :: "provider_table \<Rightarrow> provider_table \<Rightarrow> bool" where
  "same_proxies t t' \<longleftrightarrow> (\<forall>n. map_option pv_proxies (map_of t' n) = map_option pv_proxies (map_of t n))"

lemma same_proxies_refl [simp]: "same_proxies t t"
  by (simp add: same_proxies_def)

lemma same_proxies_dom: "same_proxies t t' \<Longrightarrow> dom (map_of t') = dom (map_of t)"
  unfolding same_proxies_def by (metis (mono_tags) domIff map_option_is_None subsetI subset_antisym)

lemma same_proxies_add: "same_proxies t (addTestUrlToProviders pds url es flt i t)"
proof -
  have "same_proxies t (fold (\<lambda>pd. update_provider pd (RegisterHealthCheckTask url es flt i)) pds t)"
  proof (induction pds arbitrary: t)
    case (Cons pd pds)
    have "same_proxies t (update_provider pd (RegisterHealthCheckTask url es flt i) t)"
      by (auto simp: same_proxies_def map_of_update_provider RegisterHealthCheckTask_def option.map_comp comp_def)
    with Cons [of "update_provider pd (RegisterHealthCheckTask url es flt i) t"] show ?case
      by (simp add: same_proxies_def)
  qed simp
  then show ?thesis by (simp add: addTestUrlToProviders_def)
qed

lemma include_all_Value:
  assumes "include_all compiles mat AllProxies AllProviders opt = Value opt'"
  shows "opt_Name opt' = opt_Name opt" and "opt_EmptyFallback opt' = opt_EmptyFallback opt"
    and "set (opt_Proxies opt') \<subseteq> set (opt_Proxies opt) \<union> set AllProxies \<union> {opt_EmptyFallback opt}"
  using assms unfolding include_all_def Let_def by (auto split: if_splits)

lemma include_all_Error: "include_all compiles mat AllProxies AllProviders opt \<noteq> Error e"
  by (simp add: include_all_def Let_def)

lemma use_providers_Value:
  assumes "use_providers opt es t = Value (pds, url, t')"
  shows "set pds \<subseteq> dom (map_of t)" and "same_proxies t t'" and "opt_Use opt \<noteq> [] \<Longrightarrow> pds \<noteq> []"
  using assms
  by (auto simp: use_providers_def same_proxies_add split: if_splits dest!: getProviders_Value)

lemma use_providers_Error:
  "use_providers opt es t = Error e \<Longrightarrow> \<exists>x. e = ProviderNotFound (opt_Name opt) x \<or> e = GroupInUse (opt_Name opt) x"
  by (auto simp: use_providers_def bind_outcome_eq_Error dest!: getProviders_Error split: if_splits)

lemma own_provider_Value:
  assumes "own_provider opt url es proxyMap t pds = Value (pds', url', t')"
  obtains "opt_Proxies opt = []" "pds' = pds" "t' = t"
  | pd where "opt_Proxies opt \<noteq> []" "pds' = opt_Name opt # pds" "set (opt_Proxies opt) \<subseteq> dom (map_of proxyMap)"
      "map_of t (opt_Name opt) = None" "pv_proxies pd = opt_Proxies opt" "map_of t' = (map_of t)(opt_Name opt \<mapsto> pd)"
proof (cases "opt_Proxies opt = []")
  case True
  then show thesis using assms that(1) by (simp add: own_provider_def)
next
  case False
  then have "pds' = opt_Name opt # pds \<and> set (opt_Proxies opt) \<subseteq> dom (map_of proxyMap) \<and> map_of t (opt_Name opt) = None \<and>
      map_of t' = (map_of t)(opt_Name opt \<mapsto> the (map_of t' (opt_Name opt))) \<and>
      pv_proxies (the (map_of t' (opt_Name opt))) = opt_Proxies opt"
    using assms by (auto simp: own_provider_def getProxies_Value NewCompatibleProvider_def Let_def update_conv' split: if_splits)
  with False show thesis by (elim conjE) (rule that(2))
qed

lemma own_provider_Error:
  "own_provider opt url es proxyMap t pds = Error (ProxyNotFound n x) \<Longrightarrow>
   n = opt_Name opt \<and> x \<in> set (opt_Proxies opt) \<and> x \<notin> dom (map_of proxyMap)"
  by (auto simp: own_provider_def bind_outcome_eq_Error Let_def NewCompatibleProvider_def getProxies_Value
      dest!: getProxies_Error split: if_splits)

lemma group_of_type_Value:
  "group_of_type compiles config opt url pds = Value g \<Longrightarrow>
   pg_name g = opt_Name opt \<and> pg_providers g = pds \<and> emptyFallback (pg_base g) = opt_EmptyFallback opt"
  by (auto simp: group_of_type_def make_group_def NewGroupBase_def Let_def split: if_splits sum.splits)

lemma group_of_type_Error: "group_of_type compiles config opt url pds \<noteq> Error (ProxyNotFound n x)"
  by (auto simp: group_of_type_def make_group_def Let_def split: sum.splits)

section \<open>One group\<close>

text \<open>The options after the empty fallback got its default.\<close>

definition with_fallback :: "GroupCommonOption \<Rightarrow> GroupCommonOption" where
  "with_fallback opt = (if opt_EmptyFallback opt = '''' then opt\<lparr>opt_EmptyFallback := ''COMPATIBLE''\<rparr> else opt)"

lemma with_fallback_simps [simp]:
  "opt_Name (with_fallback opt) = opt_Name opt" "opt_Proxies (with_fallback opt) = opt_Proxies opt"
  by (simp_all add: with_fallback_def)

lemma ParseProxyGroup_Value:
  assumes "ParseProxyGroup compiles mat config proxyMap t AllProxies AllProviders = Value (g, t')"
  obtains opt where "gm_option config = Inr opt" and "pg_name g = opt_Name opt" and "pg_name g \<noteq> ''''"
    and "emptyFallback (pg_base g) \<in> dom (map_of proxyMap)" and "pg_providers g \<noteq> []"
    and "set (pg_providers g) \<subseteq> dom (map_of t')" and "dom (map_of t) \<subseteq> dom (map_of t')"
    and "\<And>n pd. n \<noteq> pg_name g \<Longrightarrow> map_of t' n = Some pd \<Longrightarrow> \<exists>pd0. map_of t n = Some pd0 \<and> pv_proxies pd = pv_proxies pd0"
    and "pg_name g \<notin> dom (map_of t) \<Longrightarrow> pg_name g \<in> dom (map_of t') \<Longrightarrow>
       \<exists>pd. map_of t' (pg_name g) = Some pd \<and> pv_proxies pd \<noteq> [] \<and> set (pv_proxies pd) \<subseteq> dom (map_of proxyMap)"
    and "pg_name g \<in> dom (map_of t) \<Longrightarrow> map_option pv_proxies (map_of t' (pg_name g)) = map_option pv_proxies (map_of t (pg_name g))"
proof -
  from assms obtain opt0 where o0: "gm_option config = Inr opt0" "opt_Name opt0 \<noteq> ''''"
    "map_of proxyMap (opt_EmptyFallback (with_fallback opt0)) \<noteq> None"
    and b: "bind_outcome (include_all compiles mat AllProxies AllProviders (with_fallback opt0)) (\<lambda>opt.
              if opt_Proxies opt = [] \<and> opt_Use opt = [] then Error (MissProxy (opt_Name opt))
              else
                (case NewUnsignedRanges (opt_ExpectedStatus opt) of
                   Inl e \<Rightarrow> Error (BadStatus (opt_Name opt) e)
                 | Inr expectedStatus \<Rightarrow>
                     let status = trim_space (opt_ExpectedStatus opt);
                         opt = opt\<lparr>opt_ExpectedStatus := (if status = '''' then ''*'' else status)\<rparr>
                     in bind_outcome (use_providers opt expectedStatus t) (\<lambda>(pds, url, table).
                          bind_outcome (own_provider opt url expectedStatus proxyMap table pds) (\<lambda>(pds, url, table).
                            bind_outcome (group_of_type compiles config opt url pds) (\<lambda>g. Value (g, table)))))) = Value (g, t')"
    unfolding ParseProxyGroup_def with_fallback_def [symmetric] Let_def [of "with_fallback _"]
    by (auto split: sum.splits if_splits)
  from b obtain opt1 es where o1: "include_all compiles mat AllProxies AllProviders (with_fallback opt0) = Value opt1"
    "\<not> (opt_Proxies opt1 = [] \<and> opt_Use opt1 = [])" and rest: "NewUnsignedRanges (opt_ExpectedStatus opt1) = Inr es"
    "(let status = trim_space (opt_ExpectedStatus opt1);
          opt = opt1\<lparr>opt_ExpectedStatus := (if status = '''' then ''*'' else status)\<rparr>
      in bind_outcome (use_providers opt es t) (\<lambda>(pds, url, table).
           bind_outcome (own_provider opt url es proxyMap table pds) (\<lambda>(pds, url, table).
             bind_outcome (group_of_type compiles config opt url pds) (\<lambda>g. Value (g, table))))) = Value (g, t')"
    by (auto split: if_splits sum.splits simp del: bind_outcome.simps)
  define opt where "opt = opt1\<lparr>opt_ExpectedStatus := (if trim_space (opt_ExpectedStatus opt1) = '''' then ''*'' else trim_space (opt_ExpectedStatus opt1))\<rparr>"
  have same: "opt_Name opt = opt_Name opt0" "opt_Proxies opt = opt_Proxies opt1" "opt_Use opt = opt_Use opt1"
    "opt_EmptyFallback opt = opt_EmptyFallback (with_fallback opt0)"
    using include_all_Value(1,2) [OF o1(1)] by (simp_all add: opt_def)
  from rest(2) obtain pds url t1 pds2 url2 where
    u: "use_providers opt es t = Value (pds, url, t1)" and
    w: "own_provider opt url es proxyMap t1 pds = Value (pds2, url2, t')" and
    gt: "group_of_type compiles config opt url2 pds2 = Value g"
    unfolding Let_def opt_def by auto
  note U = use_providers_Value [OF u] and G = group_of_type_Value [OF gt]
  have d1: "dom (map_of t1) = dom (map_of t)" by (rule same_proxies_dom [OF U(2)])
  have t1: "map_option pv_proxies (map_of t1 n) = map_option pv_proxies (map_of t n)" for n
    using U(2) by (simp add: same_proxies_def)
  show thesis
  proof (rule that [OF o0(1)])
    show "pg_name g = opt_Name opt0" "pg_name g \<noteq> ''''" using G same o0 by simp_all
    show "emptyFallback (pg_base g) \<in> dom (map_of proxyMap)" using G same o0(3) by (simp add: domIff)
    show "pg_providers g \<noteq> []"
      by (rule own_provider_Value [OF w]) (use G U(3) o1(2) same in auto)
    show "set (pg_providers g) \<subseteq> dom (map_of t')"
      by (rule own_provider_Value [OF w]) (use G U(1) d1 in auto)
    show "dom (map_of t) \<subseteq> dom (map_of t')"
      by (rule own_provider_Value [OF w]) (use d1 in auto)
    show "\<exists>pd0. map_of t n = Some pd0 \<and> pv_proxies pd = pv_proxies pd0" if "n \<noteq> pg_name g" "map_of t' n = Some pd" for n pd
    proof -
      have "map_of t1 n = Some pd"
        by (rule own_provider_Value [OF w]) (use that G in auto)
      then show ?thesis using t1 [of n] by (cases "map_of t n") auto
    qed
    show "\<exists>pd. map_of t' (pg_name g) = Some pd \<and> pv_proxies pd \<noteq> [] \<and> set (pv_proxies pd) \<subseteq> dom (map_of proxyMap)"
      if "pg_name g \<notin> dom (map_of t)" "pg_name g \<in> dom (map_of t')"
      by (rule own_provider_Value [OF w]) (use that G d1 in auto)
    show "map_option pv_proxies (map_of t' (pg_name g)) = map_option pv_proxies (map_of t (pg_name g))"
      if "pg_name g \<in> dom (map_of t)"
      by (rule own_provider_Value [OF w]) (use that G d1 t1 [of "pg_name g"] in auto)
  qed
qed

lemma ParseProxyGroup_missing:
  assumes "ParseProxyGroup compiles mat config proxyMap t AllProxies AllProviders = Error (ProxyNotFound n x)"
    and "set AllProxies \<subseteq> dom (map_of proxyMap)"
  obtains opt where "gm_option config = Inr opt" and "x \<in> set (opt_Proxies opt)" and "x \<notin> dom (map_of proxyMap)"
proof -
  from assms(1) obtain opt0 where o0: "gm_option config = Inr opt0"
    "map_of proxyMap (opt_EmptyFallback (with_fallback opt0)) \<noteq> None"
    and b: "bind_outcome (include_all compiles mat AllProxies AllProviders (with_fallback opt0)) (\<lambda>opt.
              if opt_Proxies opt = [] \<and> opt_Use opt = [] then Error (MissProxy (opt_Name opt))
              else
                (case NewUnsignedRanges (opt_ExpectedStatus opt) of
                   Inl e \<Rightarrow> Error (BadStatus (opt_Name opt) e)
                 | Inr expectedStatus \<Rightarrow>
                     let status = trim_space (opt_ExpectedStatus opt);
                         opt = opt\<lparr>opt_ExpectedStatus := (if status = '''' then ''*'' else status)\<rparr>
                     in bind_outcome (use_providers opt expectedStatus t) (\<lambda>(pds, url, table).
                          bind_outcome (own_provider opt url expectedStatus proxyMap table pds) (\<lambda>(pds, url, table).
                            bind_outcome (group_of_type compiles config opt url pds) (\<lambda>g. Value (g, table)))))) = Error (ProxyNotFound n x)"
    unfolding ParseProxyGroup_def with_fallback_def [symmetric] Let_def [of "with_fallback _"]
    by (auto split: sum.splits if_splits)
  then obtain opt1 es where o1: "include_all compiles mat AllProxies AllProviders (with_fallback opt0) = Value opt1"
    and c: "(let status = trim_space (opt_ExpectedStatus opt1);
          opt = opt1\<lparr>opt_ExpectedStatus := (if status = '''' then ''*'' else status)\<rparr>
      in bind_outcome (use_providers opt es t) (\<lambda>(pds, url, table).
           bind_outcome (own_provider opt url es proxyMap table pds) (\<lambda>(pds, url, table).
             bind_outcome (group_of_type compiles config opt url pds) (\<lambda>g. Value (g, table))))) = Error (ProxyNotFound n x)"
    by (auto simp: bind_outcome_eq_Error [of "include_all _ _ _ _ _"] include_all_Error split: if_splits sum.splits)
  define opt where "opt = opt1\<lparr>opt_ExpectedStatus := (if trim_space (opt_ExpectedStatus opt1) = '''' then ''*'' else trim_space (opt_ExpectedStatus opt1))\<rparr>"
  have opt: "opt_Proxies opt = opt_Proxies opt1" by (simp add: opt_def)
  from c have "bind_outcome (use_providers opt es t) (\<lambda>(pds, url, table).
           bind_outcome (own_provider opt url es proxyMap table pds) (\<lambda>(pds, url, table).
             bind_outcome (group_of_type compiles config opt url pds) (\<lambda>g. Value (g, table)))) = Error (ProxyNotFound n x)"
    unfolding Let_def opt_def .
  then obtain pds url t1 where w: "own_provider opt url es proxyMap t1 pds = Error (ProxyNotFound n x)"
    by (auto simp: bind_outcome_eq_Error group_of_type_Error split: prod.splits dest!: use_providers_Error)
  from own_provider_Error [OF w] opt include_all_Value(3) [OF o1] o0(2) assms(2)
  have "x \<in> set (opt_Proxies opt0)" "x \<notin> dom (map_of proxyMap)" by (auto simp: domIff)
  with o0(1) that show thesis by blast
qed

section \<open>All groups\<close>

lemma dom_update: "dom (map_of (AList.update k v t)) = insert k (dom (map_of t))"
  by (auto simp: update_conv')

text \<open>Tables that refer only to what they hold. \<open>P\<close> is the set of configured providers; every other
  provider is the one of a group, or the default one.\<close>

definition closed_tables :: "string set \<Rightarrow> proxy_table \<Rightarrow> provider_table \<Rightarrow> bool" where
  "closed_tables P table pm \<longleftrightarrow>
     (\<forall>n g. map_of table n = Some (Grouped g) \<longrightarrow>
        pg_name g = n \<and> emptyFallback (pg_base g) \<in> dom (map_of table) \<and> pg_providers g \<noteq> [] \<and>
        set (pg_providers g) \<subseteq> dom (map_of pm)) \<and>
     (\<forall>n pd. map_of pm n = Some pd \<longrightarrow> n \<notin> P \<longrightarrow>
        (n \<in> dom (map_of table) \<or> n = ''default'') \<and> pv_proxies pd \<noteq> [] \<and> set (pv_proxies pd) \<subseteq> dom (map_of table))"

definition group_tables :: "string set \<Rightarrow> proxy_table \<Rightarrow> provider_table \<Rightarrow> bool" where
  "group_tables P table pm \<longleftrightarrow> closed_tables P table pm \<and>
     (\<forall>n. n \<in> dom (map_of pm) \<longrightarrow> n \<notin> P \<longrightarrow> n \<in> dom (map_of table))"

lemma group_tables_step:
  assumes inv: "group_tables P table pm"
    and v: "ParseProxyGroup compiles mat config table pm AllProxies AllProviders = Value (g, pm')"
    and new: "map_of table (pg_name g) = None"
  shows "group_tables P (AList.update (pg_name g) (Grouped g) table) pm'"
proof -
  from ParseProxyGroup_Value [OF v] obtain
    fb: "emptyFallback (pg_base g) \<in> dom (map_of table)" and ne: "pg_providers g \<noteq> []"
    and ps: "set (pg_providers g) \<subseteq> dom (map_of pm')" and dom: "dom (map_of pm) \<subseteq> dom (map_of pm')"
    and other: "\<And>n pd. n \<noteq> pg_name g \<Longrightarrow> map_of pm' n = Some pd \<Longrightarrow> \<exists>pd0. map_of pm n = Some pd0 \<and> pv_proxies pd = pv_proxies pd0"
    and own: "pg_name g \<notin> dom (map_of pm) \<Longrightarrow> pg_name g \<in> dom (map_of pm') \<Longrightarrow>
       \<exists>pd. map_of pm' (pg_name g) = Some pd \<and> pv_proxies pd \<noteq> [] \<and> set (pv_proxies pd) \<subseteq> dom (map_of table)"
    by metis
  let ?t = "AList.update (pg_name g) (Grouped g) table"
  have t: "dom (map_of table) \<subseteq> dom (map_of ?t)" "pg_name g \<in> dom (map_of ?t)" by (auto simp: update_conv')
  have inP: "pg_name g \<in> P" if "pg_name g \<in> dom (map_of pm)"
    using inv new that by (auto simp: group_tables_def)
  have "pg_name h = n \<and> emptyFallback (pg_base h) \<in> dom (map_of ?t) \<and> pg_providers h \<noteq> [] \<and> set (pg_providers h) \<subseteq> dom (map_of pm')"
    if h: "map_of ?t n = Some (Grouped h)" for n h
  proof (cases "n = pg_name g")
    case True
    then have "h = g" using h by (simp add: update_conv')
    then show ?thesis using True fb ne ps t by blast
  next
    case False
    then have "map_of table n = Some (Grouped h)" using h by (simp add: update_conv')
    then show ?thesis using inv t dom unfolding group_tables_def closed_tables_def by blast
  qed
  moreover have "n \<in> dom (map_of ?t) \<and> pv_proxies pd \<noteq> [] \<and> set (pv_proxies pd) \<subseteq> dom (map_of ?t)"
    if pd: "map_of pm' n = Some pd" "n \<notin> P" for n pd
  proof (cases "n = pg_name g")
    case True
    then have "pg_name g \<notin> dom (map_of pm)" "pg_name g \<in> dom (map_of pm')" using inP pd by auto
    with own True pd(1) have "pv_proxies pd \<noteq> [] \<and> set (pv_proxies pd) \<subseteq> dom (map_of table)" by auto
    then show ?thesis using True t by blast
  next
    case False
    then obtain pd0 where pd0: "map_of pm n = Some pd0" "pv_proxies pd = pv_proxies pd0" using other pd by blast
    then have "n \<in> dom (map_of table)" "pv_proxies pd0 \<noteq> []" "set (pv_proxies pd0) \<subseteq> dom (map_of table)"
      using inv pd(2) unfolding group_tables_def closed_tables_def by blast+
    then show ?thesis using pd0 t by auto
  qed
  ultimately show ?thesis unfolding group_tables_def closed_tables_def by blast
qed

lemma build_groups_tables:
  "group_tables P table pm \<Longrightarrow> build_groups compiles mat AP APr idx ms table pm = Value (table', pm') \<Longrightarrow>
   group_tables P table' pm' \<and> dom (map_of table) \<subseteq> dom (map_of table')"
proof (induction ms arbitrary: idx table pm)
  case (Cons mp ms)
  then obtain config g pm1 where c: "mp = Some config"
    "ParseProxyGroup compiles mat config table pm AP APr = Value (g, pm1)" "map_of table (pg_name g) = None"
    "build_groups compiles mat AP APr (idx + 1) ms (AList.update (pg_name g) (Grouped g) table) pm1 = Value (table', pm')"
    by (auto split: option.splits outcome.splits if_splits)
  from Cons.IH [OF group_tables_step [OF Cons.prems(1) c(2,3)] c(4)]
  show ?case unfolding dom_update by blast
qed simp

text \<open>Every member that a group of the rest names and that is the name of a group is built, or
  comes before it.\<close>

definition ready :: "string set \<Rightarrow> string set \<Rightarrow> (group_mapping \<times> GroupCommonOption) list \<Rightarrow> bool" where
  "ready N D gs \<longleftrightarrow>
     (\<forall>i<length gs. \<forall>x\<in>set (opt_Proxies (snd (gs ! i))). x \<in> N \<longrightarrow> x \<in> D \<or> (\<exists>j<i. opt_Name (snd (gs ! j)) = x))"

lemma ready_step:
  assumes "ready N D (g # gs)"
  shows "ready N (insert (opt_Name (snd g)) D) gs"
  unfolding ready_def
proof (intro allI impI ballI)
  fix i x assume i: "i < length gs" "x \<in> set (opt_Proxies (snd (gs ! i)))" "x \<in> N"
  with assms have "x \<in> D \<or> (\<exists>j<Suc i. opt_Name (snd ((g # gs) ! j)) = x)"
    unfolding ready_def by (metis Suc_less_eq length_Cons nth_Cons_Suc)
  then show "x \<in> insert (opt_Name (snd g)) D \<or> (\<exists>j<i. opt_Name (snd (gs ! j)) = x)"
    by (auto simp: less_Suc_eq_0_disj)
qed

lemma build_groups_missing:
  "build_groups compiles mat AP APr idx ms table pm = Error (GroupError i (ProxyNotFound n x)) \<Longrightarrow>
   decoded gm_option ms gs \<Longrightarrow> ready N (dom (map_of table)) gs \<Longrightarrow> set AP \<subseteq> dom (map_of table) \<Longrightarrow>
   x \<notin> N \<and> x \<notin> dom (map_of table)"
proof (induction ms arbitrary: idx table pm gs)
  case (Cons mp ms)
  from Cons.prems(2) obtain config opt gs' where g: "gs = (config, opt) # gs'" "mp = Some config" "gm_option config = Inr opt"
    "decoded gm_option ms gs'"
    by (cases gs) (auto simp: decoded_def)
  show ?case
  proof (cases "ParseProxyGroup compiles mat config table pm AP APr")
    case (Error e)
    then have "e = ProxyNotFound n x" using Cons.prems(1) g(2) by simp
    with Error obtain opt' where "gm_option config = Inr opt'" "x \<in> set (opt_Proxies opt')" "x \<notin> dom (map_of table)"
      using ParseProxyGroup_missing Cons.prems(4) by metis
    then show ?thesis using g Cons.prems(3) unfolding ready_def by fastforce
  next
    case Panic
    then show ?thesis using Cons.prems(1) g(2) by simp
  next
    case (Value gp)
    obtain g1 pm1 where gp: "gp = (g1, pm1)" by (cases gp)
    with Value have v: "ParseProxyGroup compiles mat config table pm AP APr = Value (g1, pm1)" by simp
    then have nm: "pg_name g1 = opt_Name opt" using ParseProxyGroup_Value [OF v] g(3) by (metis sum.inject(2))
    let ?t = "AList.update (pg_name g1) (Grouped g1) table"
    have r: "build_groups compiles mat AP APr (idx + 1) ms ?t pm1 = Error (GroupError i (ProxyNotFound n x))"
      using Cons.prems(1) v g(2) by (auto split: if_splits)
    have d: "dom (map_of ?t) = insert (opt_Name opt) (dom (map_of table))" using nm by (simp add: dom_update)
    have rd: "ready N (dom (map_of ?t)) gs'" unfolding d using ready_step [of N "dom (map_of table)" "(config, opt)" gs'] Cons.prems(3) g(1) by simp
    have "set AP \<subseteq> dom (map_of ?t)" using Cons.prems(4) unfolding d by blast
    from Cons.IH [OF r g(4) rd this] show ?thesis unfolding d by blast
  qed
qed simp

lemma ready_start: "members_first gs \<Longrightarrow> ready (set (group_names gs)) D gs"
  by (fastforce simp: ready_def members_first_def group_names_def in_set_conv_nth)

section \<open>The whole configuration\<close>

lemma parse_leaves_tables:
  "parse_leaves pp idx ms table AP = Value (table', AP') \<Longrightarrow>
   \<forall>n g. map_of table n \<noteq> Some (Grouped g) \<Longrightarrow> set AP \<subseteq> dom (map_of table) \<Longrightarrow>
   (\<forall>n g. map_of table' n \<noteq> Some (Grouped g)) \<and> set AP' \<subseteq> dom (map_of table') \<and> dom (map_of table) \<subseteq> dom (map_of table')"
proof (induction ms arbitrary: idx table AP)
  case (Cons m ms)
  then obtain n ty d where p: "pp m = Inr (n, ty, d)"
    "parse_leaves pp (idx + 1) ms (AList.update n (Leaf ty d) table) (AP @ [n]) = Value (table', AP')"
    by (auto split: sum.splits if_splits)
  have "\<forall>k g. map_of (AList.update n (Leaf ty d) table) k \<noteq> Some (Grouped g)"
    "set (AP @ [n]) \<subseteq> dom (map_of (AList.update n (Leaf ty d) table))"
    using Cons.prems by (auto simp: update_conv')
  from Cons.IH [OF p(2) this] show ?case unfolding dom_update by blast
qed simp

lemma parse_providers_dom:
  "parse_providers pp ns t AP = Value (t', AP') \<Longrightarrow> dom (map_of t') = dom (map_of t) \<union> set ns"
proof (induction ns arbitrary: t AP)
  case (Cons n ns)
  then obtain pd where "parse_providers pp ns (AList.update n pd t) (AP @ [n]) = Value (t', AP')"
    by (auto split: sum.splits if_splits)
  from Cons.IH [OF this] show ?case unfolding dom_update by simp
qed simp

lemma listed_proxies_dom:
  "listed_proxies table vs = Value ps \<Longrightarrow> set ps \<subseteq> dom (map_of table)"
  by (induction vs arbitrary: ps) (auto split: option.splits if_splits)

lemma map_of_dialers: "map_of (map (\<lambda>(n, e). (n, entry_dialer e)) table) n = map_option entry_dialer (map_of table n)"
  by (induction table) auto

lemma finish_closed:
  assumes t: "group_tables P table pm" and v: "finish_proxies ord hasG pl table pm = Value (table', pm')"
    and c: "''COMPATIBLE'' \<in> dom (map_of table)" and d: "''DIRECT'' \<in> set pl" "map_of table ''DIRECT'' = Some (Leaf Direct '''')"
  shows "closed_tables P table' pm'"
proof -
  from v obtain ps where ps: "listed_proxies table pl = Value ps"
    and pm': "pm' = AList.update ''default'' (default_provider ps) pm"
    and table': "table' = (if hasG then table else AList.update ''GLOBAL'' (Grouped global_group) table)"
    unfolding finish_proxies_def by (auto simp: Let_def split: option.splits)
  have sub: "set ps \<subseteq> dom (map_of table)" by (rule listed_proxies_dom [OF ps])
  have "''DIRECT'' \<in> set ps" using ps d
    by (induction pl arbitrary: ps) (auto simp: entry_type_def split: option.splits if_splits)
  then have ne: "ps \<noteq> []" by auto
  have dom: "dom (map_of table) \<subseteq> dom (map_of table')" by (auto simp: table' dom_update)
  have "pg_name g = n \<and> emptyFallback (pg_base g) \<in> dom (map_of table') \<and> pg_providers g \<noteq> [] \<and> set (pg_providers g) \<subseteq> dom (map_of pm')"
    if g: "map_of table' n = Some (Grouped g)" for n g
  proof (cases "\<not> hasG \<and> n = ''GLOBAL''")
    case True
    then have "g = global_group" using g by (simp add: table' update_conv')
    then show ?thesis using True c dom by (auto simp: global_group_def NewGroupBase_def pm' dom_update)
  next
    case False
    then have "map_of table n = Some (Grouped g)" using g by (auto simp: table' update_conv' split: if_splits)
    then have "pg_name g = n \<and> emptyFallback (pg_base g) \<in> dom (map_of table) \<and> pg_providers g \<noteq> [] \<and> set (pg_providers g) \<subseteq> dom (map_of pm)"
      using t unfolding group_tables_def closed_tables_def by blast
    then show ?thesis using dom by (auto simp: pm' dom_update)
  qed
  moreover have "(n \<in> dom (map_of table') \<or> n = ''default'') \<and> pv_proxies pd \<noteq> [] \<and> set (pv_proxies pd) \<subseteq> dom (map_of table')"
    if pd: "map_of pm' n = Some pd" "n \<notin> P" for n pd
  proof (cases "n = ''default''")
    case True
    then have "pd = default_provider ps" using pd by (simp add: pm' update_conv')
    then have "pv_proxies pd = ps" by (simp add: default_provider_def)
    then show ?thesis using True ne subset_trans [OF sub dom] by blast
  next
    case False
    then have "map_of pm n = Some pd" using pd by (simp add: pm' update_conv')
    then have "n \<in> dom (map_of table)" "pv_proxies pd \<noteq> []" "set (pv_proxies pd) \<subseteq> dom (map_of table)"
      using t pd(2) False unfolding group_tables_def closed_tables_def by blast+
    then show ?thesis using dom by blast
  qed
  ultimately show ?thesis unfolding closed_tables_def by blast
qed

lemma finish_dialers:
  assumes ord: "\<And>i. reorders (ord i)" and v: "finish_proxies ord hasG pl table pm = Value (table', pm')"
  shows "\<forall>n d. (n, d) \<in> dials (map (\<lambda>(n, e). (n, entry_dialer e)) table') \<longrightarrow> d \<in> dom (map_of table')"
    and "acyclic (dials (map (\<lambda>(n, e). (n, entry_dialer e)) table'))"
proof -
  from v have "validateDialerProxies ord (map (\<lambda>(n, e). (n, entry_dialer e)) table') = None"
    unfolding finish_proxies_def by (auto simp: Let_def split: option.splits)
  then show "\<forall>n d. (n, d) \<in> dials (map (\<lambda>(n, e). (n, entry_dialer e)) table') \<longrightarrow> d \<in> dom (map_of table')"
    "acyclic (dials (map (\<lambda>(n, e). (n, entry_dialer e)) table'))"
    unfolding dialers_valid [where ord = ord, OF ord] map_of_dialers by auto
qed

lemma builtin_leaves:
  "\<forall>n g. map_of builtin_table n \<noteq> Some (Grouped g)"
  "''COMPATIBLE'' \<in> dom (map_of builtin_table)" "map_of builtin_table ''DIRECT'' = Some (Leaf Direct '''')"
  by (auto simp: builtin_table_def dom_def)

text \<open>A name that is in the table keeps its entry.\<close>

lemma parse_leaves_keeps:
  "parse_leaves pp idx ms table AP = Value (table', AP') \<Longrightarrow> map_of table n = Some e \<Longrightarrow> map_of table' n = Some e"
proof (induction ms arbitrary: idx table AP)
  case (Cons m ms)
  then obtain k ty d where p: "map_of table k = None"
    "parse_leaves pp (idx + 1) ms (AList.update k (Leaf ty d) table) (AP @ [k]) = Value (table', AP')"
    by (auto split: sum.splits if_splits)
  have "map_of (AList.update k (Leaf ty d) table) n = Some e" using Cons.prems(2) p(1) by (auto simp: update_conv')
  from Cons.IH [OF p(2) this] show ?case .
qed simp

lemma build_groups_keeps:
  "build_groups compiles mat AP APr idx ms table pm = Value (table', pm') \<Longrightarrow> map_of table n = Some e \<Longrightarrow> map_of table' n = Some e"
proof (induction ms arbitrary: idx table pm)
  case (Cons mp ms)
  then obtain g pm1 where c: "map_of table (pg_name g) = None"
    "build_groups compiles mat AP APr (idx + 1) ms (AList.update (pg_name g) (Grouped g) table) pm1 = Value (table', pm')"
    by (auto split: option.splits outcome.splits if_splits)
  have "map_of (AList.update (pg_name g) (Grouped g) table) n = Some e" using Cons.prems(2) c(1) by (auto simp: update_conv')
  from Cons.IH [OF c(2) this] show ?case .
qed simp

lemma reorders_shift: "(\<And>i. reorders (ord i)) \<Longrightarrow> reorders (ord (i + k))"
  by simp

lemma parsed_tables:
  assumes ord: "\<And>i. reorders (ord i)" and v: "parseProxies compiles mat ord pp pv pcfg gcfg vcfg = Value (table, pm)"
  shows "closed_tables (set vcfg) table pm"
    and "\<forall>n d. (n, d) \<in> dials (map (\<lambda>(n, e). (n, entry_dialer e)) table) \<longrightarrow> d \<in> dom (map_of table)"
    and "acyclic (dials (map (\<lambda>(n, e). (n, entry_dialer e)) table))"
proof -
  from v obtain ms' where s: "proxyGroupsDagSort gm_option ord gcfg = Value ms'"
    unfolding parseProxies_def by (cases "proxyGroupsDagSort gm_option ord gcfg") auto
  from v obtain t1 AP names pm1 APr t2 pm2 where
    l: "parse_leaves pp 0 pcfg builtin_table [] = Value (t1, AP)" and
    p: "parse_providers pv (ord 4 vcfg) [] [] = Value (pm1, APr)" and
    b: "build_groups compiles mat (sort AP) (sort APr) 0 ms' t1 pm1 = Value (t2, pm2)" and
    f: "finish_proxies (\<lambda>i. ord (i + 5)) (''GLOBAL'' \<in> set names) ([''DIRECT'', ''REJECT''] @ AP @ names) t2 pm2 = Value (table, pm)"
    unfolding parseProxies_def s by (auto split: prod.splits)
  note L = parse_leaves_tables [OF l builtin_leaves(1)]
  have "dom (map_of pm1) = set vcfg" using parse_providers_dom [OF p] by (simp add: reorders_set [OF ord])
  then have "group_tables (set vcfg) t1 pm1" using L by (auto simp: group_tables_def closed_tables_def)
  from build_groups_tables [OF this b] have t2: "group_tables (set vcfg) t2 pm2" by blast
  obtain c where "map_of builtin_table ''COMPATIBLE'' = Some c" using builtin_leaves(2) by blast
  with parse_leaves_keeps [OF l] build_groups_keeps [OF b] have "''COMPATIBLE'' \<in> dom (map_of t2)" by blast
  moreover have "map_of t2 ''DIRECT'' = Some (Leaf Direct '''')"
    using build_groups_keeps [OF b parse_leaves_keeps [OF l builtin_leaves(3)]] .
  ultimately show "closed_tables (set vcfg) table pm" by (intro finish_closed [OF t2 f]) simp_all
  from finish_dialers [OF _ f] ord
  show "\<forall>n d. (n, d) \<in> dials (map (\<lambda>(n, e). (n, entry_dialer e)) table) \<longrightarrow> d \<in> dom (map_of table)"
    "acyclic (dials (map (\<lambda>(n, e). (n, entry_dialer e)) table))" by blast+
qed

lemma finish_no_group_error: "finish_proxies ord hasG pl table pm \<noteq> Error (GroupError i e)"
proof -
  have "listed_proxies table pl \<noteq> Error e" for e :: config_error
    by (induction pl) (auto simp: bind_outcome_eq_Error split: option.splits)
  then show ?thesis by (auto simp: finish_proxies_def bind_outcome_eq_Error Let_def split: option.splits)
qed

lemma parse_leaves_Error: "parse_leaves pp idx ms table AP \<noteq> Error (GroupError i e)"
  by (induction ms arbitrary: idx table AP) (auto split: sum.splits)

lemma group_list_Error: "group_list idx ms \<noteq> Error (GroupError i e)"
  by (induction ms arbitrary: idx) (auto simp: bind_outcome_eq_Error split: option.splits)

lemma parse_providers_Error: "parse_providers pv ns t AP \<noteq> Error (GroupError i e)"
  by (induction ns arbitrary: t AP) (auto split: sum.splits)

lemma missing_member:
  assumes ord: "\<And>i. reorders (ord i)"
    and e: "parseProxies compiles mat ord pp pv pcfg gcfg vcfg = Error (GroupError i (ProxyNotFound n x))"
  obtains table AP gs where "parse_leaves pp 0 pcfg builtin_table [] = Value (table, AP)" and "x \<notin> dom (map_of table)"
    and "decoded gm_option gcfg gs" and "x \<notin> set (group_names gs)"
proof -
  from e obtain ms' where s: "proxyGroupsDagSort gm_option ord gcfg = Value ms'"
    unfolding parseProxies_def
    by (cases "proxyGroupsDagSort gm_option ord gcfg")
      (auto simp: bind_outcome_eq_Error parse_leaves_Error group_list_Error split: prod.splits)
  from e obtain t1 AP pm1 APr where
    l: "parse_leaves pp 0 pcfg builtin_table [] = Value (t1, AP)" and
    b: "build_groups compiles mat (sort AP) (sort APr) 0 ms' t1 pm1 = Error (GroupError i (ProxyNotFound n x))"
    unfolding parseProxies_def s
    by (auto simp: bind_outcome_eq_Error parse_leaves_Error group_list_Error parse_providers_Error finish_no_group_error
        split: prod.splits)
  obtain gs gs' where gs: "decoded gm_option gcfg gs" "decoded gm_option ms' gs'" "mset gs' = mset gs" "members_first gs'"
  proof (rule dag_sort_cases [where ord = ord and decode = gm_option and ms = gcfg, OF ord])
    fix gs g assume "decoded gm_option gcfg gs" "build_graph gm_option gcfg [] = Value g" "built gs g"
    with dag_sort_runs [where ord = ord, OF ord, of gm_option gcfg gs g] s show thesis by (auto split: if_splits intro: that)
  qed (use s in auto)
  have "set (group_names gs') = set (group_names gs)"
    using arg_cong [OF gs(3), of set_mset] by (simp add: group_names_def)
  moreover have "set (sort AP) \<subseteq> dom (map_of t1)" using parse_leaves_tables [OF l builtin_leaves(1)] by simp
  moreover note build_groups_missing [OF b gs(2) ready_start [OF gs(4)]]
  ultimately show thesis using that [OF l _ gs(1)] by simp
qed

section \<open>What is promised\<close>

text \<open>A configuration for the witnesses: the group \<open>A\<close> falls back on the group \<open>B\<close>.\<close>

definition select_group :: "string \<Rightarrow> string list \<Rightarrow> string \<Rightarrow> group_mapping option" where
  "select_group name ps fallback = Some
     \<lparr>gm_name = Some name,
      gm_option = Inr
       \<lparr>opt_Name = name, opt_Type = ''select'', opt_Proxies = ps, opt_Use = [], opt_URL = [], opt_Interval = 0,
        opt_TestTimeout = 0, opt_MaxFailedTimes = 0, opt_EmptyFallback = fallback, opt_Lazy = True, opt_DisableUDP = False,
        opt_Filter = [], opt_ExcludeFilter = [], opt_ExcludeType = [], opt_ExpectedStatus = [], opt_IncludeAll = False,
        opt_IncludeAllProxies = False, opt_IncludeAllProviders = False, opt_Hidden = False, opt_Icon = []\<rparr>,
      gm_tolerance = None, gm_strategy = None\<rparr>"

definition no_leaf :: "unit \<Rightarrow> string + string \<times> AdapterType \<times> string" where
  "no_leaf m = Inl ''no outbound''"

definition no_provider :: "string \<Rightarrow> string + string provider" where
  "no_provider name = Inl ''no provider''"

definition parse_example :: "(nat \<Rightarrow> string list \<Rightarrow> string list) \<Rightarrow> group_mapping option list \<Rightarrow> (config_error, proxy_table \<times> provider_table) outcome" where
  "parse_example ord groups = parseProxies (\<lambda>r. True) literal ord no_leaf no_provider [] groups []"

text \<open>C6. When \<^verbatim>\<open>parseProxies\<close> succeeds, its tables refer only to what they hold: each group is entered
  under its name, has a fallback and at least one provider in the tables, and the proxies of the
  providers made for groups are in the table. Every dialer is in the table, and no chain of
  dialers comes back to a proxy.\<close>

theorem parsed_proxies_closed:
  assumes "\<And>i. reorders (ord i)" and "parseProxies compiles mat ord pp pv pcfg gcfg vcfg = Value (table, pm)"
  shows "closed_tables (set vcfg) table pm \<and>
    (\<forall>n d. (n, d) \<in> dials (map (\<lambda>(n, e). (n, entry_dialer e)) table) \<longrightarrow> d \<in> dom (map_of table)) \<and>
    acyclic (dials (map (\<lambda>(n, e). (n, entry_dialer e)) table))"
  using parsed_tables [where ord = ord, OF assms] by blast

lemma example_runs:
  "\<exists>table pm. parse_example (\<lambda>i xs. xs) [select_group ''A'' [''DIRECT''] ''B'', select_group ''B'' [''DIRECT''] []] = Value (table, pm)"
proof -
  have "case parse_example (\<lambda>i xs. xs) [select_group ''A'' [''DIRECT''] ''B'', select_group ''B'' [''DIRECT''] []] of
      Value r \<Rightarrow> True | Error e \<Rightarrow> False | Panic \<Rightarrow> False"
    by code_simp
  then show ?thesis by (auto split: outcome.splits)
qed

theorem parsed_proxies_closed_witness:
  "\<exists>table pm. parse_example (\<lambda>i xs. xs) [select_group ''A'' [''DIRECT''] ''B'', select_group ''B'' [''DIRECT''] []] = Value (table, pm) \<and>
     closed_tables {} table pm \<and> acyclic (dials (map (\<lambda>(n, e). (n, entry_dialer e)) table))"
proof -
  from example_runs obtain table pm where
    v: "parse_example (\<lambda>i xs. xs) [select_group ''A'' [''DIRECT''] ''B'', select_group ''B'' [''DIRECT''] []] = Value (table, pm)" by blast
  from parsed_proxies_closed [OF reorders_id v [unfolded parse_example_def]]
  have "closed_tables {} table pm" "acyclic (dials (map (\<lambda>(n, e). (n, entry_dialer e)) table))" by simp_all
  with v show ?thesis by blast
qed

text \<open>C13. When building a group fails because a member is missing, nothing of that name is defined: it is
  no outbound of the program or the configuration and no group, wherever in the configuration that
  group stands.\<close>

theorem missing_member_undefined:
  assumes "\<And>i. reorders (ord i)"
    and "parseProxies compiles mat ord pp pv pcfg gcfg vcfg = Error (GroupError i (ProxyNotFound n x))"
  shows "\<exists>table AP gs. parse_leaves pp 0 pcfg builtin_table [] = Value (table, AP) \<and> x \<notin> dom (map_of table) \<and>
    decoded gm_option gcfg gs \<and> x \<notin> set (group_names gs)"
  by (rule missing_member [where ord = ord, OF assms]) blast

theorem missing_member_undefined_witness:
  "parse_example (\<lambda>i xs. xs) [select_group ''A'' [''x''] []] = Error (GroupError 0 (ProxyNotFound ''A'' ''x'')) \<and>
   (\<exists>gs. decoded gm_option [select_group ''A'' [''x''] []] gs \<and> ''x'' \<notin> set (group_names gs))"
proof -
  have e: "parse_example (\<lambda>i xs. xs) [select_group ''A'' [''x''] []] = Error (GroupError 0 (ProxyNotFound ''A'' ''x''))"
    by code_simp
  from missing_member_undefined [OF reorders_id e [unfolded parse_example_def]] e show ?thesis by blast
qed

text \<open>C39. A fallback that is a group is not counted as a dependency, so whether \<^verbatim>\<open>parseProxies\<close> accepts
  such a configuration depends on the order in which Go ranges over a map.\<close>

theorem fallback_depends_on_order:
  "\<exists>ord ord' groups. (\<forall>i. reorders (ord i) \<and> reorders (ord' i)) \<and>
     (\<exists>table pm. parse_example ord groups = Value (table, pm)) \<and>
     parse_example ord' groups = Error (GroupError 0 (FallbackNotFound ''A'' ''B''))"
proof -
  let ?g = "[select_group ''A'' [''DIRECT''] ''B'', select_group ''B'' [''DIRECT''] []]"
  have "parse_example (\<lambda>i. rev) ?g = Error (GroupError 0 (FallbackNotFound ''A'' ''B''))" by code_simp
  moreover have "reorders rev" by (simp add: reorders_def)
  ultimately show ?thesis using example_runs
    by (intro exI [of _ "\<lambda>i xs. xs"] exI [of _ "\<lambda>i. rev"] exI [of _ ?g]) simp
qed

end
