(* ===== verification/DnsMessage.thy ===== *)
theory DnsMessage
  imports LruMemory Netip
begin

text \<open>
  DNS messages and the helpers of \<^verbatim>\<open>dns/util.go\<close>, \<^verbatim>\<open>dns/edns0_subnet.go\<close> and \<^verbatim>\<open>dns/rcode.go\<close>: times to
  live, the message cache, the EDNS client subnet, and the clients that wrap other clients.

  The messages are those of the package \<^verbatim>\<open>miekg/dns\<close>, with their public fields. What the code calls of
  that package, of \<^verbatim>\<open>samber/lo\<close> and of \<^verbatim>\<open>x/exp/slices\<close> is the record \<open>dns_pkgs\<close>; the locale \<open>dns_laws\<close>
  states what their documentation says of it. A copy of a message is deep, so a message is a value.

  Times are in nanoseconds. The seconds of a duration are exact: Go computes them in floating point,
  which can round up for more than three months.
\<close>

unbundle bit_operations_syntax

section \<open>Messages\<close>

datatype svcb_value = SVCBECHConfig "8 word list" | SVCBOther

record EDNS0_SUBNET =
  sn_Code :: "16 word"
  sn_Family :: "16 word"
  sn_SourceNetmask :: "8 word"
  sn_SourceScope :: "8 word"
  sn_Address :: "8 word list"

datatype edns_option = Subnet EDNS0_SUBNET | OtherOption

datatype rdata = RR_A "8 word list" | RR_AAAA "8 word list" | RR_CNAME string | RR_HTTPS "svcb_value list"
  | RR_OPT "edns_option list" | RR_Other

record rr =
  rr_Name :: string
  Rrtype :: "16 word"
  Class :: "16 word"
  Ttl :: "32 word"
  rdata :: rdata

record question =
  q_Name :: string
  Qtype :: "16 word"
  Qclass :: "16 word"

record msg =
  Id :: "16 word"
  Response :: bool
  Opcode :: int
  Authoritative :: bool
  RecursionDesired :: bool
  RecursionAvailable :: bool
  CheckingDisabled :: bool
  Rcode :: int
  Question :: "question list"
  Answer :: "rr list"
  Ns :: "rr list"
  Extra :: "rr list"

definition zeroMsg :: msg where
  "zeroMsg = \<lparr>Id = 0, Response = False, Opcode = 0, Authoritative = False, RecursionDesired = False,
     RecursionAvailable = False, CheckingDisabled = False, Rcode = 0, Question = [], Answer = [], Ns = [], Extra = []\<rparr>"

text \<open>The assigned numbers.\<close>

abbreviation (input) "TypeA \<equiv> 1 :: 16 word"
abbreviation (input) "TypeCNAME \<equiv> 5 :: 16 word"
abbreviation (input) "TypeTXT \<equiv> 16 :: 16 word"
abbreviation (input) "TypeAAAA \<equiv> 28 :: 16 word"
abbreviation (input) "TypeOPT \<equiv> 41 :: 16 word"
abbreviation (input) "TypeSVCB \<equiv> 64 :: 16 word"
abbreviation (input) "TypeHTTPS \<equiv> 65 :: 16 word"
abbreviation (input) "ClassINET \<equiv> 1 :: 16 word"
abbreviation (input) "EDNS0SUBNET \<equiv> 8 :: 16 word"
abbreviation (input) "RcodeSuccess \<equiv> 0 :: int"
abbreviation (input) "RcodeFormatError \<equiv> 1 :: int"
abbreviation (input) "RcodeServerFailure \<equiv> 2 :: int"
abbreviation (input) "RcodeNameError \<equiv> 3 :: int"
abbreviation (input) "RcodeNotImplemented \<equiv> 4 :: int"
abbreviation (input) "RcodeRefused \<equiv> 5 :: int"

section \<open>The packages\<close>

record dns_pkgs =
  SetRcode :: "msg \<Rightarrow> msg \<Rightarrow> int \<Rightarrow> msg"
  SetQuestion :: "msg \<Rightarrow> string \<Rightarrow> 16 word \<Rightarrow> msg"
  Fqdn :: "string \<Rightarrow> string"
  QString :: "question \<Rightarrow> string"
  RcodeToString :: "int \<Rightarrow> string"
  TypeToRR :: "16 word \<Rightarrow> bool"
  MinBy :: "rr list \<Rightarrow> (rr \<Rightarrow> rr \<Rightarrow> bool) \<Rightarrow> rr option"
  Clamp :: "32 word \<Rightarrow> 32 word \<Rightarrow> 32 word \<Rightarrow> 32 word"
  FilterRR :: "rr list \<Rightarrow> (rr \<Rightarrow> bool) \<Rightarrow> rr list"
  ConcatRR :: "rr list list \<Rightarrow> rr list"
  EveryBy :: "addr list \<Rightarrow> (addr \<Rightarrow> bool) \<Rightarrow> bool"
  ContainsFunc :: "question list \<Rightarrow> (question \<Rightarrow> bool) \<Rightarrow> bool"
  DeleteFunc :: "rr list \<Rightarrow> (rr \<Rightarrow> bool) \<Rightarrow> rr list"

text \<open>\<open>rr_min\<close> is a record that comes before no other one under the comparison.\<close>

locale dns_laws =
  fixes P :: dns_pkgs
  assumes SetRcode: "Answer (SetRcode P m req c) = Answer m" "Ns (SetRcode P m req c) = Ns m"
      "Extra (SetRcode P m req c) = Extra m" "Rcode (SetRcode P m req c) = c" "Id (SetRcode P m req c) = Id req"
      "Response (SetRcode P m req c)" "Question req = q # qs \<Longrightarrow> Question (SetRcode P m req c) = [q]"
    and SetQuestion: "Question (SetQuestion P m name t) = [\<lparr>q_Name = name, Qtype = t, Qclass = ClassINET\<rparr>]"
    and MinBy: "MinBy P rs before = None \<longleftrightarrow> rs = []"
      "MinBy P rs (\<lambda>a b. Ttl a < Ttl b) = Some r \<Longrightarrow> r \<in> set rs \<and> (\<forall>s\<in>set rs. Ttl r \<le> Ttl s)"
    and Clamp: "Clamp P v lo hi = (if v < lo then lo else if hi < v then hi else v)"
    and FilterRR: "FilterRR P rs keep = filter keep rs"
    and ConcatRR: "ConcatRR P rss = concat rss"
    and EveryBy: "EveryBy P ips good \<longleftrightarrow> list_all good ips"
    and ContainsFunc: "ContainsFunc P qs bad \<longleftrightarrow> list_ex bad qs"
    and DeleteFunc: "DeleteFunc P rs drop_it = filter (\<lambda>r. \<not> drop_it r) rs"

text \<open>The packages exist.\<close>

definition reply_to :: "msg \<Rightarrow> msg \<Rightarrow> int \<Rightarrow> msg" where
  "reply_to m r c =
     (let m = m\<lparr>Id := Id r, Response := True, Opcode := Opcode r, Rcode := c,
            Question := (case Question r of [] \<Rightarrow> Question m | q # qs \<Rightarrow> [q])\<rparr>
      in if Opcode r = 0 then m\<lparr>RecursionDesired := RecursionDesired r, CheckingDisabled := CheckingDisabled r\<rparr> else m)"

fun first_min :: "rr list \<Rightarrow> (rr \<Rightarrow> rr \<Rightarrow> bool) \<Rightarrow> rr option" where
  "first_min [] before = None"
| "first_min (r # rs) before =
     (case first_min rs before of None \<Rightarrow> Some r | Some s \<Rightarrow> Some (if before s r then s else r))"

definition list_pkgs :: dns_pkgs where
  "list_pkgs =
     \<lparr>SetRcode = reply_to,
      SetQuestion = (\<lambda>m name t. m\<lparr>RecursionDesired := True, Question := [\<lparr>q_Name = name, Qtype = t, Qclass = ClassINET\<rparr>]\<rparr>),
      Fqdn = (\<lambda>s. if has_suffix s ''.'' then s else s @ ''.''),
      QString = q_Name, RcodeToString = (\<lambda>c. []), TypeToRR = (\<lambda>t. t \<noteq> 0), MinBy = first_min,
      Clamp = (\<lambda>v lo hi. if v < lo then lo else if hi < v then hi else v),
      FilterRR = (\<lambda>rs keep. filter keep rs), ConcatRR = concat, EveryBy = (\<lambda>ips good. list_all good ips),
      ContainsFunc = (\<lambda>qs bad. list_ex bad qs), DeleteFunc = (\<lambda>rs bad. filter (\<lambda>r. \<not> bad r) rs)\<rparr>"

lemma first_min_ttl:
  "first_min rs (\<lambda>a b. Ttl a < Ttl b) = Some r \<Longrightarrow> r \<in> set rs \<and> (\<forall>s\<in>set rs. Ttl r \<le> Ttl s)"
proof (induction rs arbitrary: r)
  case (Cons s rs)
  show ?case
  proof (cases "first_min rs (\<lambda>a b. Ttl a < Ttl b)")
    case None
    then have "rs = []" by (cases rs) (auto split: option.splits)
    with Cons.prems show ?thesis by simp
  next
    case (Some t)
    from Cons.IH [OF this] Cons.prems Some show ?thesis by (auto split: if_splits)
  qed
qed simp

lemma first_min_None: "first_min rs before = None \<longleftrightarrow> rs = []"
  by (cases rs) (auto split: option.splits)

interpretation pkgs: dns_laws list_pkgs
  by unfold_locales (auto simp: list_pkgs_def reply_to_def Let_def first_min_None dest: first_min_ttl)

section \<open>Times to live\<close>

definition serverFailureCacheTTL :: "32 word" where "serverFailureCacheTTL = 5"

definition minimalTTL :: "dns_pkgs \<Rightarrow> rr list \<Rightarrow> 32 word" where
  "minimalTTL P records =
     (case MinBy P records (\<lambda>r1 r2. Ttl r1 < Ttl r2) of None \<Rightarrow> 0 | Some r \<Rightarrow> Ttl r)"

definition updateTTL :: "dns_pkgs \<Rightarrow> rr list \<Rightarrow> 32 word \<Rightarrow> rr list" where
  "updateTTL P records ttl =
     (if length records = 0 then records
      else let delta = minimalTTL P records - ttl
           in map (\<lambda>r. r\<lparr>Ttl := Clamp P (Ttl r - delta) 1 (Ttl r)\<rparr>) records)"

definition updateMsgTTL :: "dns_pkgs \<Rightarrow> msg \<Rightarrow> 32 word \<Rightarrow> msg" where
  "updateMsgTTL P m ttl =
     m\<lparr>Answer := updateTTL P (Answer m) ttl, Ns := updateTTL P (Ns m) ttl, Extra := updateTTL P (Extra m) ttl\<rparr>"

definition setMsgTTL :: "msg \<Rightarrow> 32 word \<Rightarrow> msg" where
  "setMsgTTL m ttl =
     m\<lparr>Answer := map (\<lambda>r. r\<lparr>Ttl := ttl\<rparr>) (Answer m), Ns := map (\<lambda>r. r\<lparr>Ttl := ttl\<rparr>) (Ns m),
       Extra := map (\<lambda>r. if Rrtype r = TypeOPT then r else r\<lparr>Ttl := ttl\<rparr>) (Extra m)\<rparr>"

section \<open>The message cache\<close>

text \<open>The interface \<^verbatim>\<open>dnsCache\<close>; a time it takes or gives is in nanoseconds.\<close>

record 'c dnsCache =
  GetWithExpire :: "int \<Rightarrow> string \<Rightarrow> 'c \<Rightarrow> (msg \<times> int) option \<times> 'c"
  SetWithExpire :: "int \<Rightarrow> string \<Rightarrow> msg \<Rightarrow> int \<Rightarrow> 'c \<Rightarrow> 'c"
  ClearCache :: "'c \<Rightarrow> 'c"

abbreviation (input) second :: int where "second \<equiv> 1000000000"

definition getMsgFromCache :: "dns_pkgs \<Rightarrow> 'c dnsCache \<Rightarrow> int \<Rightarrow> question \<Rightarrow> 'c \<Rightarrow> (msg \<times> int) option \<times> 'c" where
  "getMsgFromCache P ops now q c = GetWithExpire ops now (QString P q) c"

definition putMsgToCache :: "dns_pkgs \<Rightarrow> 'c dnsCache \<Rightarrow> int \<Rightarrow> question \<Rightarrow> msg \<Rightarrow> 'c \<Rightarrow> 'c" where
  "putMsgToCache P ops now q m c =
     (if Qtype q = TypeTXT \<and> has_prefix (q_Name q) ''_acme-challenge.'' then c
      else
        let m = m\<lparr>Extra := FilterRR P (Extra m) (\<lambda>r. Rrtype r \<noteq> TypeOPT)\<rparr>;
            ttl = (if Rcode m = RcodeServerFailure then serverFailureCacheTTL
                   else minimalTTL P (ConcatRR P [Answer m, Ns m, Extra m]))
        in if ttl = 0 then c
           else SetWithExpire ops now (QString P q) m (now + uint ttl * second) c)"

text \<open>The answer to a hit, and whether the resolver goes on to fetch the message again.\<close>

definition cached_reply :: "dns_pkgs \<Rightarrow> int \<Rightarrow> msg \<times> int \<Rightarrow> msg \<times> bool" where
  "cached_reply P now hit =
     (if snd hit < now then (setMsgTTL (fst hit) 1, True)
      else (updateMsgTTL P (fst hit) (word_of_int ((snd hit - now) div second)), False))"

text \<open>An LRU cache as a message cache; it keeps whole seconds.\<close>

definition lru_dns :: "(string, msg, 'l, 'h) lru_pkg \<Rightarrow> (string, msg, 'l, 'h) LruCache dnsCache" where
  "lru_dns pkg =
     \<lparr>GetWithExpire = (\<lambda>now k c. let (r, c) = lru_GetWithExpire pkg (now div second) k c
        in (map_option (\<lambda>(m, ex). (m, ex * second)) r, c)),
      SetWithExpire = (\<lambda>now k m ex c. setWithExpire pkg (now div second) k m (ex div second) c),
      ClearCache = lru_Clear pkg\<rparr>"

text \<open>\<^verbatim>\<open>newCache\<close>, with the constructors of the two kinds of cache.\<close>

definition newCache :: "(int \<Rightarrow> 'c) \<Rightarrow> (int \<Rightarrow> bool \<Rightarrow> 'c) \<Rightarrow> string \<Rightarrow> int \<Rightarrow> 'c" where
  "newCache arcNew lruNew algorithm maxSz =
     (let maxSz = (if maxSz = 0 then 4096 else maxSz)
      in if algorithm = ''arc'' then arcNew maxSz else lruNew maxSz True)"

text \<open>What the resolver relies on: \<open>stored\<close> is what a key may still lead to. An entry may be dropped at
  any time, and its expiry may be rounded down.\<close>

locale dns_cache =
  fixes ops :: "'c dnsCache" and ok :: "'c \<Rightarrow> bool" and stored :: "'c \<Rightarrow> string \<Rightarrow> (msg \<times> int) option"
  assumes Get: "ok c \<Longrightarrow> GetWithExpire ops now k c = (r, c') \<Longrightarrow>
      ok c' \<and> r \<in> {None, stored c k} \<and> (\<forall>k'. stored c' k' \<in> {None, stored c k'})"
    and Set: "ok c \<Longrightarrow> SetWithExpire ops now k m ex c = c' \<Longrightarrow>
      ok c' \<and> (\<forall>k'. k' \<noteq> k \<longrightarrow> stored c' k' \<in> {None, stored c k'})
      \<and> (\<forall>m' ex'. stored c' k = Some (m', ex') \<longrightarrow> m' = m \<and> second dvd ex' \<and> ex' \<le> ex)"
    and Clear: "ok c \<Longrightarrow> ok (ClearCache ops c) \<and> stored (ClearCache ops c) = Map.empty"

section \<open>Reading messages\<close>

definition isIPRequest :: "question \<Rightarrow> bool" where
  "isIPRequest q \<longleftrightarrow> Qclass q = ClassINET \<and> (Qtype q = TypeA \<or> Qtype q = TypeAAAA \<or> Qtype q = TypeCNAME)"

definition handleMsgWithEmptyAnswer :: "dns_pkgs \<Rightarrow> msg \<Rightarrow> msg" where
  "handleMsgWithEmptyAnswer P r =
     (SetRcode P (zeroMsg\<lparr>Answer := []\<rparr>) r RcodeSuccess)\<lparr>Authoritative := True, RecursionAvailable := True\<rparr>"

text \<open>\<^verbatim>\<open>netip.AddrFromSlice\<close>, the zero address when the length is wrong.\<close>

definition AddrFromSlice :: "8 word list \<Rightarrow> addr" where
  "AddrFromSlice bs =
     (if length bs = 4 then V4 (foldl (\<lambda>w b. w * 256 + ucast b) 0 bs)
      else if length bs = 16 then V6 (foldl (\<lambda>w b. w * 256 + ucast b) 0 bs) ''''
      else NoAddr)"

definition answer_addr :: "rr \<Rightarrow> addr option" where
  "answer_addr r = (case rdata r of RR_AAAA bs \<Rightarrow> Some (AddrFromSlice bs) | RR_A bs \<Rightarrow> Some (AddrFromSlice bs) | _ \<Rightarrow> None)"

fun answer_ips :: "rr list \<Rightarrow> addr list" where
  "answer_ips [] = []"
| "answer_ips (r # rs) =
     (case answer_addr r of
        None \<Rightarrow> answer_ips rs
      | Some ip \<Rightarrow> if \<not> IsValid ip then answer_ips rs else Unmap ip # answer_ips rs)"

definition msgToIP :: "msg \<Rightarrow> addr list" where
  "msgToIP m = answer_ips (Answer m)"

definition msgToDomain :: "msg \<Rightarrow> string" where
  "msgToDomain m = (case Question m of [] \<Rightarrow> '''' | q # qs \<Rightarrow> trim_right ''.'' (q_Name q))"

section \<open>The client subnet\<close>

text \<open>The search of \<^verbatim>\<open>setEdns0Subnet\<close>: the OPT record and the subnet option that its variables hold at
  the end, by their positions. A record that is not an OPT record resets the first variable.\<close>

fun find_option :: "nat \<Rightarrow> edns_option list \<Rightarrow> nat option" where
  "find_option j [] = None"
| "find_option j (Subnet s # os) = Some j"
| "find_option j (OtherOption # os) = find_option (Suc j) os"

fun findExists :: "nat \<Rightarrow> rr list \<Rightarrow> nat option \<Rightarrow> nat option \<times> nat option" where
  "findExists i [] optRecord = (optRecord, None)"
| "findExists i (r # rs) optRecord =
     (case rdata r of
        RR_OPT os \<Rightarrow> (case find_option 0 os of Some j \<Rightarrow> (Some i, Some j) | None \<Rightarrow> findExists (Suc i) rs (Some i))
      | _ \<Rightarrow> findExists (Suc i) rs None)"

definition set_option :: "edns_option \<Rightarrow> nat option \<Rightarrow> rr \<Rightarrow> rr" where
  "set_option opt j r =
     (case rdata r of
        RR_OPT os \<Rightarrow> r\<lparr>rdata := RR_OPT (case j of None \<Rightarrow> os @ [opt] | Some j \<Rightarrow> os[j := opt])\<rparr>
      | _ \<Rightarrow> r)"

definition old_subnet :: "rr list \<Rightarrow> nat option \<Rightarrow> nat option \<Rightarrow> EDNS0_SUBNET" where
  "old_subnet extra i j =
     (case (i, j) of
        (Some i, Some j) \<Rightarrow> (case rdata (extra ! i) of RR_OPT os \<Rightarrow> (case os ! j of Subnet s \<Rightarrow> s
            | _ \<Rightarrow> \<lparr>sn_Code = 0, sn_Family = 0, sn_SourceNetmask = 0, sn_SourceScope = 0, sn_Address = []\<rparr>)
          | _ \<Rightarrow> \<lparr>sn_Code = 0, sn_Family = 0, sn_SourceNetmask = 0, sn_SourceScope = 0, sn_Address = []\<rparr>)
      | _ \<Rightarrow> \<lparr>sn_Code = 0, sn_Family = 0, sn_SourceNetmask = 0, sn_SourceScope = 0, sn_Address = []\<rparr>)"

definition setEdns0Subnet :: "msg \<Rightarrow> prefix \<Rightarrow> bool \<Rightarrow> msg \<times> bool" where
  "setEdns0Subnet m clientSubnet override =
     (let (i, j) = findExists 0 (Extra m) None
      in if j \<noteq> None \<and> \<not> override then (m, False)
         else
           let subnet = (old_subnet (Extra m) i j)
                 \<lparr>sn_Code := EDNS0SUBNET, sn_Family := if Is4 (prefix_addr clientSubnet) then 1 else 2,
                  sn_SourceNetmask := word_of_nat (prefix_bits clientSubnet),
                  sn_Address := AsSlice (prefix_addr clientSubnet)\<rparr>;
               extra = (case i of None \<Rightarrow> Extra m @ [\<lparr>rr_Name = ''.'', Rrtype = TypeOPT, Class = 0, Ttl = 0, rdata = RR_OPT []\<rparr>]
                 | Some i \<Rightarrow> Extra m);
               at = (case i of None \<Rightarrow> length (Extra m) | Some i \<Rightarrow> i)
           in (m\<lparr>Extra := extra[at := set_option (Subnet subnet) j (extra ! at)]\<rparr>, True))"

section \<open>Clients\<close>

text \<open>A client that talks to a server is known by the server's entry; its exchange is the function \<open>net\<close>.
  A client of response codes answers with the request itself, changed in place; the callers that read
  the request afterwards read its name and its questions only. The proxy of an entry is known by a number.\<close>

record NameServer =
  Net :: string
  Addr :: string
  ProxyAdapter :: "nat option"
  ProxyName :: string
  Params :: "(string \<times> string) list"
  PreferH3 :: bool

datatype dnsClient =
    rcodeClient int string
  | networkClient NameServer
  | clientWithDisableTypes dnsClient "16 word list"
  | clientWithEdns0Subnet dnsClient prefix bool

text \<open>\<open>None\<close> is the panic on an unknown name.\<close>

definition newRCodeClient :: "string \<Rightarrow> dnsClient option" where
  "newRCodeClient addr0 =
     map_option (\<lambda>c. rcodeClient c (''rcode://'' @ addr0))
       (map_of [(''success'', RcodeSuccess), (''format_error'', RcodeFormatError),
          (''server_failure'', RcodeServerFailure), (''name_error'', RcodeNameError),
          (''not_implemented'', RcodeNotImplemented), (''refused'', RcodeRefused)] addr0)"

definition inQuestion :: "16 word list \<Rightarrow> question \<Rightarrow> bool" where
  "inQuestion disableTypes q \<longleftrightarrow> Qtype q \<in> set disableTypes"

definition inRR :: "16 word list \<Rightarrow> rr \<Rightarrow> bool" where
  "inRR disableTypes r \<longleftrightarrow> Rrtype r \<in> set disableTypes"

definition rcode_exchange :: "int \<Rightarrow> msg \<Rightarrow> msg" where
  "rcode_exchange code m = m\<lparr>Response := True, Rcode := code\<rparr>"

definition disable_exchange :: "dns_pkgs \<Rightarrow> (msg \<Rightarrow> string + msg) \<Rightarrow> 16 word list \<Rightarrow> msg \<Rightarrow> string + msg" where
  "disable_exchange P exchange disableTypes m =
     (if ContainsFunc P (Question m) (inQuestion disableTypes) then Inr (handleMsgWithEmptyAnswer P m)
      else case exchange m of
             Inl err \<Rightarrow> Inl err
           | Inr m \<Rightarrow> Inr (m\<lparr>Answer := DeleteFunc P (Answer m) (inRR disableTypes),
               Ns := DeleteFunc P (Ns m) (inRR disableTypes), Extra := DeleteFunc P (Extra m) (inRR disableTypes)\<rparr>))"

definition subnet_exchange :: "(msg \<Rightarrow> string + msg) \<Rightarrow> prefix \<Rightarrow> bool \<Rightarrow> msg \<Rightarrow> string + msg" where
  "subnet_exchange exchange ecsPrefix ecsOverride m = exchange (fst (setEdns0Subnet m ecsPrefix ecsOverride))"

fun client_exchange :: "dns_pkgs \<Rightarrow> (NameServer \<Rightarrow> msg \<Rightarrow> string + msg) \<Rightarrow> dnsClient \<Rightarrow> msg \<Rightarrow> string + msg" where
  "client_exchange P net (rcodeClient code addr0) m = Inr (rcode_exchange code m)"
| "client_exchange P net (networkClient s) m = net s m"
| "client_exchange P net (clientWithDisableTypes c types) m = disable_exchange P (client_exchange P net c) types m"
| "client_exchange P net (clientWithEdns0Subnet c p ov) m = subnet_exchange (client_exchange P net c) p ov m"

text \<open>The parameters of a server are a map, in the order of its iteration.\<close>

definition param :: "(string \<times> string) list \<Rightarrow> string \<Rightarrow> string" where
  "param params k = (case map_of params k of None \<Rightarrow> '''' | Some v \<Rightarrow> v)"

definition qtype_param :: "dns_pkgs \<Rightarrow> string \<times> string \<Rightarrow> 16 word list" where
  "qtype_param P kv =
     (if has_prefix (fst kv) ''disable-qtype-'' \<and> snd kv = ''true'' then
        (case parse_uint 16 (drop (length ''disable-qtype-'') (fst kv)) of
           None \<Rightarrow> []
         | Some t \<Rightarrow> if TypeToRR P (word_of_nat t) then [word_of_nat t] else [])
      else [])"

definition warpClientWithDisableTypes :: "dns_pkgs \<Rightarrow> dnsClient \<Rightarrow> (string \<times> string) list \<Rightarrow> dnsClient" where
  "warpClientWithDisableTypes P c params =
     (let disableTypes = (if param params ''disable-ipv4'' = ''true'' then [TypeA] else [])
            @ (if param params ''disable-ipv6'' = ''true'' then [TypeAAAA] else [])
            @ concat (map (qtype_param P) params)
      in if length disableTypes > 0 then clientWithDisableTypes c disableTypes else c)"

definition warpClientWithEdns0Subnet :: "dnsClient \<Rightarrow> (string \<times> string) list \<Rightarrow> dnsClient" where
  "warpClientWithEdns0Subnet c params =
     (let ecs = param params ''ecs'';
          ecsPrefix =
            (if ecs \<noteq> '''' then
               (case ParsePrefix ecs of
                  Some p \<Rightarrow> Some p
                | None \<Rightarrow> (case ParseAddr ecs of
                    None \<Rightarrow> None
                  | Some a \<Rightarrow> Some \<lparr>prefix_addr = WithoutZone a, prefix_bits = if Is4 a then 32 else 128\<rparr>))
             else None)
      in case ecsPrefix of
           Some p \<Rightarrow> clientWithEdns0Subnet c p (param params ''ecs-override'' = ''true'')
         | None \<Rightarrow> c)"

text \<open>\<^verbatim>\<open>transform\<close>; \<open>None\<close> is the panic of \<open>newRCodeClient\<close>.\<close>

definition transform_one :: "dns_pkgs \<Rightarrow> NameServer \<Rightarrow> dnsClient option" where
  "transform_one P s =
     map_option (\<lambda>c. warpClientWithDisableTypes P (warpClientWithEdns0Subnet c (Params s)) (Params s))
       (if Net s = ''rcode'' then newRCodeClient (Addr s) else Some (networkClient s))"

definition transform :: "dns_pkgs \<Rightarrow> NameServer list \<Rightarrow> dnsClient list option" where
  "transform P servers = all_some (map (transform_one P) servers)"

end
