(* ===== verification/DnsCache.thy ===== *)
theory DnsCache
  imports DnsMessage
begin

text \<open>
  What a message served from the cache says about its age. The LRU cache is a message cache
  (\<open>dns_cache\<close>), and no record of an answer it gives has a longer time to live than the record of the
  message that was put had left.
\<close>

section \<open>The LRU cache is a message cache\<close>

definition dns_stored :: "('l \<Rightarrow> ('h \<times> (string, msg) entry) list) \<Rightarrow> (string, msg, 'l, 'h) LruCache \<Rightarrow>
    string \<Rightarrow> (msg \<times> int) option" where
  "dns_stored elems c k = map_option (\<lambda>e. (val e, expires e * second)) (lookup_key k (lru_view elems c))"

definition dns_ok :: "('l \<Rightarrow> ('h \<times> (string, msg) entry) list) \<Rightarrow> ('l \<Rightarrow> bool) \<Rightarrow> (string, msg, 'l, 'h) LruCache \<Rightarrow> bool" where
  "dns_ok elems ok c \<longleftrightarrow> lru_linked elems ok c \<and> maxAge c = 0"

lemma lookup_key_simps [simp]: "lookup_key k [] = None" "lookup_key k (e # es) = (if key e = k then Some e else lookup_key k es)"
  by (simp_all add: lookup_key_def)

lemma lookup_key_absent: "lookup_key k es = None \<longleftrightarrow> k \<notin> key ` set es"
  by (induction es) auto

lemma lookup_key_append: "lookup_key k (xs @ ys) = (case lookup_key k xs of Some e \<Rightarrow> Some e | None \<Rightarrow> lookup_key k ys)"
  by (induction xs) auto

lemma lookup_key_remove: "lookup_key k (remove_key k' es) = (if k = k' then None else lookup_key k es)"
  by (induction es) (auto simp: remove_key_def)

lemma lookup_key_tl: "distinct (map key es) \<Longrightarrow> lookup_key k (tl es) \<in> {None, lookup_key k es}"
  by (cases es) (auto simp: lookup_key_absent)

lemma spec_set_no_age:
  assumes "distinct (map key es)"
  shows "lookup_key k' (spec_set 0 cap stale now k v ex es) \<in> (if k' = k then {None, Some \<lparr>key = k, val = v, expires = ex\<rparr>}
    else {None, lookup_key k' es})"
proof -
  let ?es = "remove_key k es @ [\<lparr>key = k, val = v, expires = ex\<rparr>]"
  have d: "distinct (map key ?es)" using assms remove_key_fresh [of k es] distinct_remove_key by auto
  have l: "lookup_key k' ?es = (if k' = k then Some \<lparr>key = k, val = v, expires = ex\<rparr> else lookup_key k' es)"
    by (auto simp: lookup_key_append lookup_key_remove split: option.splits)
  show ?thesis using lookup_key_tl [OF d, of k'] l by (auto simp: spec_set_def spec_oldest_def Let_def)
qed

locale dns_lru = lru_list pkg elems ok
  for pkg :: "(string, msg, 'l, 'h) lru_pkg" and elems ok

sublocale dns_lru \<subseteq> dns_cache "lru_dns pkg" "dns_ok elems ok" "dns_stored elems"
proof (unfold_locales, goal_cases)
  case (1 c now k r c')
  obtain e d where g: "lru_get pkg (now div second) k c = (e, d)" by fastforce
  have r: "r = map_option (\<lambda>e. (val e, expires e * second)) e" "c' = d"
    using 1(2) g by (auto simp: lru_dns_def lru_GetWithExpire_def option.map_comp o_def)
  have l: "linked c" "maxAge c = 0" using 1(1) by (simp_all add: dns_ok_def)
  have d: "spec_get 0 (updateAgeOnGet c) (staleReturn c) (now div second) k (view c) = (e, view d)" "linked d" "cfg d = cfg c"
    using lru_get_cfg [OF l(1), of "now div second" k] g l(2) by (auto simp: cfg_def split: prod.splits)
  have e: "e = lookup_key k (view c)" using d(1) by (auto simp: spec_get_def split: option.splits)
  have "lookup_key k' (view d) = lookup_key k' (view c)" for k'
  proof (cases "lookup_key k (view c)")
    case (Some x)
    then have "key x = k" by (auto simp: lookup_key_def dest: find_SomeD)
    moreover have "view d = remove_key k (view c) @ [x]" using d(1) Some by (simp add: spec_get_def)
    ultimately show ?thesis using Some
      by (auto simp: lookup_key_append lookup_key_remove split: option.splits)
  qed (use d(1) in \<open>simp add: spec_get_def\<close>)
  then show ?case using r e d(2,3) l(2) by (simp add: dns_ok_def dns_stored_def cfg_def)
next
  case (2 c now k m ex c')
  have l: "linked c" "maxAge c = 0" using 2(1) by (simp_all add: dns_ok_def)
  have c': "c' = setWithExpire pkg (now div second) k m (ex div second) c" using 2(2) by (simp add: lru_dns_def)
  have d: "linked c'" "cfg c' = cfg c"
    "view c' = spec_set 0 (maxSize c) (staleReturn c) (now div second) k m (ex div second) (view c)"
    using setWithExpire_cfg [OF l(1), of "now div second" k m "ex div second"] l(2) by (simp_all add: c' cfg_def)
  have "distinct (map key (view c))" using l(1) by (simp add: linked_def view_def o_def)
  note look = spec_set_no_age [OF this, of _ "maxSize c" "staleReturn c" "now div second" k m "ex div second", folded d(3)]
  have "ex div second * second \<le> ex" by simp
  with look [of k] have "dns_stored elems c' k = Some (m', ex') \<longrightarrow> m' = m \<and> second dvd ex' \<and> ex' \<le> ex" for m' ex'
    by (auto simp: dns_stored_def)
  moreover have "k' \<noteq> k \<longrightarrow> dns_stored elems c' k' \<in> {None, dns_stored elems c k'}" for k'
    using look [of k'] by (auto simp: dns_stored_def)
  ultimately show ?case using d(1,2) l(2) by (simp add: dns_ok_def cfg_def)
next
  case (3 c)
  then show ?case by (auto simp: dns_ok_def dns_stored_def lru_dns_def lru_Clear_def linked_def view_def New lookup_key_def)
qed

interpretation slice_dns: dns_lru slice_pkg snd slice_ok
  by unfold_locales



section \<open>The age of an answer\<close>

text \<open>A record given \<open>age\<close> nanoseconds after the record \<open>old\<close> was put; \<open>strict\<close> unless the message is a
  server failure, which is kept for five seconds whatever its records say.\<close>

definition aged :: "bool \<Rightarrow> int \<Rightarrow> rr \<Rightarrow> rr \<Rightarrow> bool" where
  "aged strict age old r \<longleftrightarrow> r = old\<lparr>Ttl := Ttl r\<rparr> \<and> uint (Ttl r) \<le> max 1 (uint (Ttl old))
     \<and> (strict \<longrightarrow> uint (Ttl r) * second \<le> max second (uint (Ttl old) * second - age))"

definition no_opt :: "rr list \<Rightarrow> rr list" where
  "no_opt rs = filter (\<lambda>r. Rrtype r \<noteq> TypeOPT) rs"

lemma no_opt_ttl:
  "map (\<lambda>r. if Rrtype r = TypeOPT then r else r\<lparr>Ttl := 1\<rparr>) (no_opt rs) = map (\<lambda>r. r\<lparr>Ttl := 1\<rparr>) (no_opt rs)"
  unfolding no_opt_def by (rule map_cong) simp_all

definition aged_msg :: "int \<Rightarrow> msg \<Rightarrow> msg \<Rightarrow> bool" where
  "aged_msg age old m \<longleftrightarrow> m = old\<lparr>Answer := Answer m, Ns := Ns m, Extra := Extra m\<rparr>
     \<and> list_all2 (aged (Rcode old \<noteq> RcodeServerFailure) age) (Answer old) (Answer m)
     \<and> list_all2 (aged (Rcode old \<noteq> RcodeServerFailure) age) (Ns old) (Ns m)
     \<and> list_all2 (aged (Rcode old \<noteq> RcodeServerFailure) age) (no_opt (Extra old)) (Extra m)"

text \<open>An entry made from a put: the message without its OPT records, and an expiry in whole seconds.\<close>

definition entry_of :: "dns_pkgs \<Rightarrow> int \<times> question \<times> msg \<Rightarrow> msg \<times> int \<Rightarrow> bool" where
  "entry_of P e hit = (case e of (t, q, m) \<Rightarrow>
     fst hit = m\<lparr>Extra := no_opt (Extra m)\<rparr> \<and>
     (Rcode m \<noteq> RcodeServerFailure \<longrightarrow> snd hit \<le> t + uint (minimalTTL P (Answer m @ Ns m @ no_opt (Extra m))) * second))"

lemma clamp_le:
  fixes v hi :: "32 word"
  shows "uint (if v < 1 then 1 else if hi < v then hi else v) \<le> max 1 (uint hi)"
    and "uint (if v < 1 then 1 else if hi < v then hi else v) \<le> max 1 (uint v)"
  by (auto simp: word_less_def not_less)

context dns_laws begin

lemma minimalTTL_le: "r \<in> set rs \<Longrightarrow> minimalTTL P rs \<le> Ttl r"
  using MinBy by (auto simp: minimalTTL_def split: option.splits)

lemma minimalTTL_mono:
  assumes "set rs \<subseteq> set ss" "rs \<noteq> []"
  shows "minimalTTL P ss \<le> minimalTTL P rs"
proof -
  obtain r where r: "MinBy P rs (\<lambda>a b. Ttl a < Ttl b) = Some r" using MinBy(1) assms(2) by fastforce
  then have "r \<in> set ss" using MinBy(2) assms(1) by blast
  with minimalTTL_le [OF this] r show ?thesis by (simp add: minimalTTL_def)
qed

lemma updateTTL_aged:
  assumes "strict \<Longrightarrow> set rs \<subseteq> set all \<and> uint left' * second \<le> uint (minimalTTL P all) * second - age \<and> 0 \<le> age"
  shows "list_all2 (aged strict age) rs (updateTTL P rs left')"
proof (cases "rs = []")
  case False
  define delta where "delta = minimalTTL P rs - left'"
  have "aged strict age r (r\<lparr>Ttl := Clamp P (Ttl r - delta) 1 (Ttl r)\<rparr>)" if "r \<in> set rs" for r
  proof -
    have "uint (Ttl r - delta) * second \<le> uint (Ttl r) * second - age" if s: strict
    proof -
      have m: "uint (minimalTTL P rs) \<le> uint (Ttl r)" "uint (minimalTTL P all) \<le> uint (minimalTTL P rs)"
        using minimalTTL_le [OF \<open>r \<in> set rs\<close>] minimalTTL_mono [of rs all] False assms [OF s]
        by (auto simp: word_le_def)
      have "uint left' * second \<le> uint (minimalTTL P all) * second" using assms [OF s] by linarith
      then have l: "uint left' \<le> uint (minimalTTL P all)" by simp
      then have d: "uint delta = uint (minimalTTL P rs) - uint left'"
        unfolding delta_def using m by (intro uint_minus_simple_alt [THEN iffD1]) (simp add: word_le_def)
      then have "delta \<le> Ttl r" unfolding word_le_def using m uint_ge_0 [of left'] by linarith
      then have "uint (Ttl r - delta) = uint (Ttl r) - uint delta" by (simp add: uint_minus_simple_alt)
      then have "uint (Ttl r - delta) * second = uint (Ttl r) * second - uint (minimalTTL P rs) * second + uint left' * second"
        unfolding d by (simp add: algebra_simps)
      moreover have "uint (minimalTTL P all) * second \<le> uint (minimalTTL P rs) * second" using m(2) by simp
      ultimately show ?thesis using assms [OF s] by linarith
    qed
    then show ?thesis
      unfolding aged_def Clamp using clamp_le [of "Ttl r - delta" "Ttl r"] by (auto simp: max_def split: if_splits)
  qed
  then show ?thesis using False by (auto simp: updateTTL_def delta_def [symmetric] list_all2_conv_all_nth Let_def)
qed (simp add: updateTTL_def)

end


text \<open>The message cache in use.\<close>

locale cached_dns = dns_laws P + dns_cache ops ok stored
  for P :: dns_pkgs and ops :: "'c dnsCache" and ok stored
begin

text \<open>Every entry was made from one of the messages of \<open>H\<close>, which are listed with the time and the question.\<close>

definition explained :: "(int \<times> question \<times> msg) set \<Rightarrow> 'c \<Rightarrow> bool" where
  "explained H c \<longleftrightarrow> ok c \<and> (\<forall>k hit. stored c k = Some hit \<longrightarrow>
     (\<exists>e\<in>H. QString P (fst (snd e)) = k \<and> entry_of P e hit))"

lemma explained_more: "explained H c \<Longrightarrow> H \<subseteq> K \<Longrightarrow> explained K c"
  unfolding explained_def by (meson subsetD)

lemma explained_weaken:
  assumes "explained H c" "ok c'" "\<forall>k. stored c' k \<in> {None, stored c k}"
  shows "explained H c'"
proof -
  have "stored c k = Some hit" if "stored c' k = Some hit" for k hit
    using assms(3) that by (metis empty_iff insert_iff option.distinct(1))
  with assms(1,2) show ?thesis by (auto simp: explained_def)
qed

lemma explained_get: "explained H c \<Longrightarrow> getMsgFromCache P ops t q c = (r, c') \<Longrightarrow> explained H c'"
  using Get by (intro explained_weaken [of H c c']) (auto simp: explained_def getMsgFromCache_def)

lemma explained_clear: "explained H c \<Longrightarrow> explained {} (ClearCache ops c)"
  using Clear by (simp add: explained_def)

lemma explained_put:
  assumes "explained H c" "(t, q, m) \<in> H"
  shows "explained H (putMsgToCache P ops t q m c)"
proof -
  define m' where "m' = m\<lparr>Extra := no_opt (Extra m)\<rparr>"
  define ttl where "ttl = (if Rcode m' = RcodeServerFailure then serverFailureCacheTTL
    else minimalTTL P (Answer m' @ Ns m' @ Extra m'))"
  have p: "putMsgToCache P ops t q m c = c \<or>
      putMsgToCache P ops t q m c = SetWithExpire ops t (QString P q) m' (t + uint ttl * second) c"
    by (simp add: putMsgToCache_def FilterRR ConcatRR m'_def ttl_def no_opt_def Let_def)
  show ?thesis
  proof (cases "putMsgToCache P ops t q m c = c")
    case True
    with assms(1) show ?thesis by simp
  next
    case False
    with p have c': "SetWithExpire ops t (QString P q) m' (t + uint ttl * second) c = putMsgToCache P ops t q m c" by simp
    have "ok c" using assms(1) by (simp add: explained_def)
    note set = Set [OF this c']
    have new: "entry_of P (t, q, m) hit" if h: "stored (putMsgToCache P ops t q m c) (QString P q) = Some hit" for hit
    proof -
      have "fst hit = m'" "snd hit \<le> t + uint ttl * second" using set h by (cases hit; simp)+
      then show ?thesis by (cases "Rcode m = RcodeServerFailure") (simp_all add: entry_of_def m'_def ttl_def)
    qed
    have old: "\<exists>e\<in>H. QString P (fst (snd e)) = k \<and> entry_of P e hit"
      if h: "stored (putMsgToCache P ops t q m c) k = Some hit" "k \<noteq> QString P q" for k hit
    proof -
      have "stored c k = Some hit" using set h by (metis empty_iff insert_iff option.distinct(1))
      with assms(1) show ?thesis unfolding explained_def by blast
    qed
    show ?thesis unfolding explained_def
    proof (intro conjI allI impI)
      fix k hit assume h: "stored (putMsgToCache P ops t q m c) k = Some hit"
      show "\<exists>e\<in>H. QString P (fst (snd e)) = k \<and> entry_of P e hit"
      proof (cases "k = QString P q")
        case True
        with new h show ?thesis by (intro bexI [OF _ assms(2)]) simp
      qed (use old h in blast)
    qed (use set in blast)
  qed
qed

lemma reply_aged:
  assumes "entry_of P (t, q, m) hit" "t \<le> now"
  shows "aged_msg (now - t) m (fst (cached_reply P now hit))"
proof (cases "snd hit < now")
  case True
  have "aged strict (now - t) r (r\<lparr>Ttl := 1\<rparr>)" for strict r using assms(2) by (simp add: aged_def max_def)
  then have "list_all2 (aged strict (now - t)) rs (map (\<lambda>r. r\<lparr>Ttl := 1\<rparr>) rs)" for strict and rs :: "rr list"
    by (simp add: list_all2_conv_all_nth)
  then show ?thesis using True assms(1) by (simp add: no_opt_ttl cached_reply_def aged_msg_def setMsgTTL_def entry_of_def)
next
  case False
  let ?all = "Answer m @ Ns m @ no_opt (Extra m)" and ?left = "(snd hit - now) div second"
  have ex: "uint (word_of_int ?left :: 32 word) * second \<le> uint (minimalTTL P ?all) * second - (now - t)"
    if "Rcode m \<noteq> RcodeServerFailure"
  proof -
    have "snd hit \<le> t + uint (minimalTTL P ?all) * second" using assms(1) that by (simp add: entry_of_def)
    then have le: "snd hit - now \<le> uint (minimalTTL P ?all) * second - (now - t)" by simp
    have "?left * second \<le> snd hit - now" by simp
    with le have "?left * second \<le> uint (minimalTTL P ?all) * second - (now - t)" by linarith
    moreover have "uint (word_of_int ?left :: 32 word) \<le> ?left"
      using False by (simp add: unsigned_of_int take_bit_int_less_eq_self_iff pos_imp_zdiv_nonneg_iff)
    ultimately show ?thesis by linarith
  qed
  have "list_all2 (aged (Rcode m \<noteq> RcodeServerFailure) (now - t)) rs (updateTTL P rs (word_of_int ?left))"
    if "set rs \<subseteq> set ?all" for rs
    using ex assms(2) that by (intro updateTTL_aged [where all = ?all]) auto
  then show ?thesis using False assms(1) by (auto simp: cached_reply_def aged_msg_def updateMsgTTL_def entry_of_def)
qed

lemma cached_reply_aged:
  assumes "explained H c" "\<forall>e\<in>H. fst e \<le> now" "getMsgFromCache P ops now q c = (Some hit, c')"
  shows "\<exists>t q' m. (t, q', m) \<in> H \<and> QString P q' = QString P q \<and> aged_msg (now - t) m (fst (cached_reply P now hit))"
proof -
  have "stored c (QString P q) = Some hit"
    using Get assms(1,3) by (fastforce simp: getMsgFromCache_def explained_def)
  then obtain t q' m where h: "(t, q', m) \<in> H" "QString P q' = QString P q" "entry_of P (t, q', m) hit"
    using assms(1) unfolding explained_def by fastforce
  then have "t \<le> now" using assms(2) by fastforce
  with h reply_aged show ?thesis by blast
qed

end

interpretation slice_cached: cached_dns list_pkgs "lru_dns slice_pkg" "dns_ok snd slice_ok" "dns_stored snd"
  by unfold_locales

end
