(* ===== verification/DnsResolver.thy ===== *)
theory DnsResolver
  imports DnsMessage Trie
begin

text \<open>
  The resolver: \<^verbatim>\<open>dns/resolver.go\<close>, \<^verbatim>\<open>dns/policy.go\<close> and \<^verbatim>\<open>batchExchange\<close> of \<^verbatim>\<open>dns/util.go\<close> with the picker of
  \<^verbatim>\<open>common/picker\<close>. What a call finds outside is a \<open>world\<close>: the time, the replies of the servers, the
  order in which the clients of a list finish, and which errors are an expired or cancelled context.

  One caller asks at a time: the sharing of one exchange between callers (\<^verbatim>\<open>common/singleflight\<close>) and a
  caller whose context ends before the exchange are not modelled. The retry after a failed exchange and
  the fetch after a stale answer run in the background in Go; here they follow, in their own worlds.
\<close>

record world =
  now :: int
  net :: "NameServer \<Rightarrow> msg \<Rightarrow> string + msg"
  race :: "dnsClient list \<Rightarrow> nat list"
  timed_out :: "string \<Rightarrow> bool"

section \<open>Asking several servers\<close>

text \<open>The picker: the first result without an error wins, and the first error is kept.\<close>

fun pick :: "(string + msg) list \<Rightarrow> msg option \<times> string option" where
  "pick [] = (None, None)"
| "pick (r # rs) =
     (let (p, e) = pick rs in case r of Inr m \<Rightarrow> (Some m, e) | Inl err \<Rightarrow> (p, Some err))"

definition batch_client :: "dns_pkgs \<Rightarrow> world \<Rightarrow> msg \<Rightarrow> dnsClient \<Rightarrow> string + msg" where
  "batch_client P w m c =
     (case client_exchange P (net w) c m of
        Inl err \<Rightarrow> Inl err
      | Inr r \<Rightarrow> if Rcode r = RcodeServerFailure \<or> Rcode r = RcodeRefused 
          then Inl (''server failure: '' @ RcodeToString P (Rcode r)) else Inr r)"

definition is_rcode :: "dnsClient \<Rightarrow> bool" where
  "is_rcode c = (case c of rcodeClient _ _ \<Rightarrow> True | _ \<Rightarrow> False)"

text \<open>\<^verbatim>\<open>batchExchange\<close>, with the flag that the answer may be cached. Every client runs to its end, so the
  order of \<open>race\<close> is one of all positions.\<close>

definition batchExchange :: "dns_pkgs \<Rightarrow> world \<Rightarrow> dnsClient list \<Rightarrow> msg \<Rightarrow> (string + msg) \<times> bool" where
  "batchExchange P w clients m =
     (case List.find is_rcode clients of
        Some c \<Rightarrow> (client_exchange P (net w) c m, False)
      | None \<Rightarrow>
          (case pick (map (\<lambda>i. batch_client P w m (clients ! i)) (race w clients)) of
             (Some r, _) \<Rightarrow> (Inr r, True)
           | (None, None) \<Rightarrow> (Inl ''all DNS requests failed'', True)
           | (None, Some err) \<Rightarrow> (Inl (''all DNS requests failed, first error: '' @ err), True)))"

section \<open>The resolver\<close>

datatype dnsPolicy =
    domainTriePolicy "dnsClient list node"
  | domainMatcherPolicy "string \<Rightarrow> bool" "dnsClient list"

fun policy_Match :: "dnsPolicy \<Rightarrow> string \<Rightarrow> dnsClient list" where
  "policy_Match (domainTriePolicy t) domain =
     (case Trie_Search t domain of
        Some record' \<Rightarrow> (case data record' of Some cs \<Rightarrow> cs | None \<Rightarrow> [])
      | None \<Rightarrow> [])"
| "policy_Match (domainMatcherPolicy matcher cs) domain = (if matcher domain then cs else [])"

text \<open>A nil list is the empty list.\<close>

record 'c Resolver =
  r_ipv6 :: bool
  ipv6Timeout :: int
  main_clients :: "dnsClient list"
  fallback :: "dnsClient list"
  fallbackDomainFilters :: "(string \<Rightarrow> bool) list"
  fallbackIPFilters :: "(addr \<Rightarrow> bool) list"
  r_cache :: 'c
  policy :: "dnsPolicy list"

definition shouldIPFallback :: "'c Resolver \<Rightarrow> addr \<Rightarrow> bool" where
  "shouldIPFallback r ip \<longleftrightarrow> list_ex (\<lambda>f. f ip) (fallbackIPFilters r)"

fun first_match :: "dnsPolicy list \<Rightarrow> string \<Rightarrow> dnsClient list" where
  "first_match [] domain = []"
| "first_match (p # ps) domain =
     (if length (policy_Match p domain) > 0 then policy_Match p domain else first_match ps domain)"

definition matchPolicy :: "'c Resolver \<Rightarrow> msg \<Rightarrow> dnsClient list" where
  "matchPolicy r m =
     (if policy r = [] then []
      else let domain = msgToDomain m in if domain = '''' then [] else first_match (policy r) domain)"

definition shouldOnlyQueryFallback :: "'c Resolver \<Rightarrow> msg \<Rightarrow> bool" where
  "shouldOnlyQueryFallback r m =
     (if fallback r = [] \<or> length (fallbackDomainFilters r) = 0 then False
      else let domain = msgToDomain m
           in if domain = '''' then False else list_ex (\<lambda>df. df domain) (fallbackDomainFilters r))"

definition asyncExchange :: "dns_pkgs \<Rightarrow> world \<Rightarrow> dnsClient list \<Rightarrow> msg \<Rightarrow> string + msg" where
  "asyncExchange P w clients m = fst (batchExchange P w clients m)"

definition ipExchange :: "dns_pkgs \<Rightarrow> world \<Rightarrow> 'c Resolver \<Rightarrow> msg \<Rightarrow> string + msg" where
  "ipExchange P w r m =
     (let matched = matchPolicy r m in
      if length matched \<noteq> 0 then asyncExchange P w matched m
      else if shouldOnlyQueryFallback r m then asyncExchange P w (fallback r) m
      else
        let res = asyncExchange P w (main_clients r) m in
        if fallback r = [] \<or> length (fallback r) = 0 then res
        else
          (case res of
             Inr reply \<Rightarrow>
               let ips = msgToIP reply in
               if length ips \<noteq> 0 \<and> EveryBy P ips (\<lambda>ip. \<not> shouldIPFallback r ip) then res
               else asyncExchange P w (fallback r) m
           | Inl err \<Rightarrow> asyncExchange P w (fallback r) m))"

text \<open>The function \<^verbatim>\<open>fn\<close> of \<^verbatim>\<open>exchangeWithoutCache\<close>: one exchange, and the cache put that follows it.\<close>

definition exchange_fn :: "dns_pkgs \<Rightarrow> 'c dnsCache \<Rightarrow> world \<Rightarrow> question \<Rightarrow> msg \<Rightarrow> 'c Resolver \<Rightarrow> (string + msg) \<times> 'c Resolver" where
  "exchange_fn P ops w q m r =
     (let (res, cache) =
            (if isIPRequest q then (ipExchange P w r m, True)
             else if length (matchPolicy r m) \<noteq> 0 then batchExchange P w (matchPolicy r m) m
             else batchExchange P w (main_clients r) m)
      in case res of
           Inl err \<Rightarrow> (res, r)
         | Inr reply \<Rightarrow>
             (res, if cache then r\<lparr>r_cache := putMsgToCache P ops (now w) q reply (r_cache r)\<rparr> else r))"

text \<open>\<open>ws 0\<close> is the world of the exchange and \<open>ws 1\<close> that of the retry.\<close>

definition exchangeWithoutCache :: "dns_pkgs \<Rightarrow> 'c dnsCache \<Rightarrow> (nat \<Rightarrow> world) \<Rightarrow> msg \<Rightarrow> 'c Resolver \<Rightarrow>
    (string + msg) \<times> 'c Resolver" where
  "exchangeWithoutCache P ops ws m r =
     (let q = hd (Question m);
          (res, r) = exchange_fn P ops (ws 0) q m r
      in case res of
           Inl err \<Rightarrow> (res, snd (exchange_fn P ops (ws 1) q m r))
         | Inr reply \<Rightarrow> (res, r))"

text \<open>The deferred fetch of \<^verbatim>\<open>ExchangeContext\<close> runs in the worlds from 2 on.\<close>

definition ExchangeContext :: "dns_pkgs \<Rightarrow> 'c dnsCache \<Rightarrow> (nat \<Rightarrow> world) \<Rightarrow> msg \<Rightarrow> 'c Resolver \<Rightarrow>
    (string + msg) \<times> 'c Resolver" where
  "ExchangeContext P ops ws m r =
     (if length (Question m) = 0 then (Inl ''should have one question at least'', r)
      else
        let fetch = (\<lambda>r. snd (exchangeWithoutCache P ops (\<lambda>i. ws (i + 2)) m r));
            q = hd (Question m);
            (hit, c) = getMsgFromCache P ops (now (ws 0)) q (r_cache r);
            r = r\<lparr>r_cache := c\<rparr>
        in case hit of
             Some hit \<Rightarrow>
               let (reply, continueFetch) = cached_reply P (now (ws 0)) hit
               in (Inr reply, if continueFetch then fetch r else r)
           | None \<Rightarrow>
               let (res, r) = exchangeWithoutCache P ops ws m r
               in case res of
                    Inl err \<Rightarrow> (res, if timed_out (ws 0) err then fetch r else r)
                  | Inr reply \<Rightarrow> (res, r))"

definition ErrIPNotFound :: string where "ErrIPNotFound = ''couldn't find ip''"

definition ErrIPVersion :: string where "ErrIPVersion = ''ip version error''"

definition ErrIPv6Disabled :: string where "ErrIPv6Disabled = ''ipv6 disabled''"

definition lookupIP :: "dns_pkgs \<Rightarrow> 'c dnsCache \<Rightarrow> (nat \<Rightarrow> world) \<Rightarrow> string \<Rightarrow> 16 word \<Rightarrow> 'c Resolver \<Rightarrow>
    (string + addr list) \<times> 'c Resolver" where
  "lookupIP P ops ws host dnsType r =
     (case ParseAddr host of
        Some ip \<Rightarrow>
          let ip = Unmap ip; isIPv4 = Is4 ip
          in if dnsType = TypeAAAA \<and> \<not> isIPv4 then (Inr [ip], r)
             else if dnsType = TypeA \<and> isIPv4 then (Inr [ip], r)
             else (Inl ErrIPVersion, r)
      | None \<Rightarrow>
          let (res, r) = ExchangeContext P ops ws (SetQuestion P zeroMsg (Fqdn P host) dnsType) r
          in case res of
               Inl err \<Rightarrow> (Inl err, r)
             | Inr m \<Rightarrow> (if length (msgToIP m) = 0 then Inl ErrIPNotFound else Inr (msgToIP m), r))"

text \<open>\<^verbatim>\<open>LookupIPPrimaryIPv4\<close> and \<^verbatim>\<open>LookupIP\<close> ask for both kinds at once and join the results; \<open>six\<close> is
  \<open>None\<close> when the timer fired before the IPv6 addresses came.\<close>

definition LookupIPPrimaryIPv4 :: "string + addr list \<Rightarrow> string + addr list \<Rightarrow> string + addr list" where
  "LookupIPPrimaryIPv4 four six =
     (case four of Inr ips \<Rightarrow> Inr ips | Inl err \<Rightarrow> (case six of Inl e \<Rightarrow> Inl ErrIPNotFound | Inr ip \<Rightarrow> Inr ip))"

definition LookupIP :: "string + addr list \<Rightarrow> (string + addr list) option \<Rightarrow> string + addr list" where
  "LookupIP four six =
     (let ips = (case four of Inr ips \<Rightarrow> ips | Inl err \<Rightarrow> [])
      in case six of
           Some (Inl e) \<Rightarrow> (case four of Inl err \<Rightarrow> Inl ErrIPNotFound | Inr _ \<Rightarrow> Inr ips)
         | Some (Inr ipv6s) \<Rightarrow> Inr (ips @ ipv6s)
         | None \<Rightarrow> Inr ips)"

fun first_ech :: "svcb_value list \<Rightarrow> 8 word list option" where
  "first_ech [] = None"
| "first_ech (SVCBECHConfig ech # vs) = Some ech"
| "first_ech (SVCBOther # vs) = first_ech vs"

fun find_ech :: "rr list \<Rightarrow> 8 word list option" where
  "find_ech [] = None"
| "find_ech (r # rs) =
     (case rdata r of
        RR_HTTPS vs \<Rightarrow> (case first_ech vs of Some ech \<Rightarrow> Some ech | None \<Rightarrow> find_ech rs)
      | _ \<Rightarrow> find_ech rs)"

definition ResolveECH :: "dns_pkgs \<Rightarrow> 'c dnsCache \<Rightarrow> (nat \<Rightarrow> world) \<Rightarrow> string \<Rightarrow> 'c Resolver \<Rightarrow>
    (string + 8 word list) \<times> 'c Resolver" where
  "ResolveECH P ops ws host r =
     (let (res, r) = ExchangeContext P ops ws (SetQuestion P zeroMsg (Fqdn P host) TypeHTTPS) r
      in case res of
           Inl err \<Rightarrow> (Inl err, r)
         | Inr m \<Rightarrow> (case find_ech (Answer m) of
             Some ech \<Rightarrow> (Inr ech, r)
           | None \<Rightarrow> (Inl ''no ECH config found in DNS records'', r)))"

definition Invalid :: "'c Resolver option \<Rightarrow> bool" where
  "Invalid r = (case r of None \<Rightarrow> False | Some r \<Rightarrow> length (main_clients r) > 0)"

definition resolver_ClearCache :: "'c dnsCache \<Rightarrow> 'c Resolver \<Rightarrow> 'c Resolver" where
  "resolver_ClearCache ops r = r\<lparr>r_cache := ClearCache ops (r_cache r)\<rparr>"

section \<open>Building the resolvers\<close>

text \<open>The comparison of two proxies may panic, which counts as different.\<close>

definition NameServer_Equal :: "(nat option \<Rightarrow> nat option \<Rightarrow> bool) \<Rightarrow> NameServer \<Rightarrow> NameServer \<Rightarrow> bool" where
  "NameServer_Equal panics ns ns2 \<longleftrightarrow>
     Net ns = Net ns2 \<and> Addr ns = Addr ns2 \<and> \<not> panics (ProxyAdapter ns) (ProxyAdapter ns2)
     \<and> ProxyAdapter ns = ProxyAdapter ns2 \<and> ProxyName ns = ProxyName ns2
     \<and> map_of (Params ns) = map_of (Params ns2) \<and> PreferH3 ns = PreferH3 ns2"

record dns_policy =
  pol_Domain :: string
  Matcher :: "(string \<Rightarrow> bool) option"
  NameServers :: "NameServer list"

record dns_config =
  Main :: "NameServer list"
  Fallback :: "NameServer list"
  Default :: "NameServer list"
  ProxyServer :: "NameServer list"
  DirectServer :: "NameServer list"
  DirectFollowPolicy :: bool
  IPv6 :: bool
  IPv6Timeout :: nat
  FallbackIPFilter :: "(addr \<Rightarrow> bool) list"
  FallbackDomainFilter :: "(string \<Rightarrow> bool) list"
  Policy :: "dns_policy list"
  ProxyServerPolicy :: "dns_policy list"
  CacheAlgorithm :: string
  CacheMaxSize :: int

type_synonym memo = "(NameServer \<times> dnsClient) list"

text \<open>\<open>None\<close> is the panic of a server entry with an unknown response code.\<close>

fun cacheTransform :: "dns_pkgs \<Rightarrow> (nat option \<Rightarrow> nat option \<Rightarrow> bool) \<Rightarrow> NameServer list \<Rightarrow> memo \<Rightarrow>
    (dnsClient list \<times> memo) option" where
  "cacheTransform P panics [] seen = Some ([], seen)"
| "cacheTransform P panics (ns # nss) seen =
     (case List.find (\<lambda>nsc. NameServer_Equal panics (fst nsc) ns) seen of
        Some nsc \<Rightarrow> map_option (\<lambda>(cs, seen). (snd nsc # cs, seen)) (cacheTransform P panics nss seen)
      | None \<Rightarrow>
          (case transform P [ns] of
             None \<Rightarrow> None
           | Some dc \<Rightarrow>
               if length dc > 0
               then map_option (\<lambda>(cs, seen). (hd dc # cs, seen)) (cacheTransform P panics nss (seen @ [(ns, hd dc)]))
               else cacheTransform P panics nss seen))"

definition flush_trie :: "dnsClient list node option \<Rightarrow> dnsPolicy list \<Rightarrow> dnsPolicy list" where
  "flush_trie t dnsPolicies =
     (case t of None \<Rightarrow> dnsPolicies | Some t \<Rightarrow> dnsPolicies @ [domainTriePolicy (Trie_Optimize t)])"

fun makePolicy :: "dns_pkgs \<Rightarrow> (nat option \<Rightarrow> nat option \<Rightarrow> bool) \<Rightarrow> dns_policy list \<Rightarrow> dnsClient list node option \<Rightarrow>
    dnsPolicy list \<Rightarrow> memo \<Rightarrow> (dnsPolicy list \<times> memo) option" where
  "makePolicy P panics [] triePolicy dnsPolicies seen = Some (flush_trie triePolicy dnsPolicies, seen)"
| "makePolicy P panics (p # ps) triePolicy dnsPolicies seen =
     (case cacheTransform P panics (NameServers p) seen of
        None \<Rightarrow> None
      | Some (cs, seen) \<Rightarrow>
          (case Matcher p of
             Some matcher \<Rightarrow>
               makePolicy P panics ps None (flush_trie triePolicy dnsPolicies @ [domainMatcherPolicy matcher cs]) seen
           | None \<Rightarrow>
               makePolicy P panics ps
                 (Some (insert_rule (case triePolicy of None \<Rightarrow> newNode | Some t \<Rightarrow> t) (pol_Domain p, cs)))
                 dnsPolicies seen))"

record 'c Resolvers =
  rs_Resolver :: "'c Resolver"
  ProxyResolver :: "'c Resolver option"
  DirectResolver :: "'c Resolver option"

definition fresh_resolver :: "'c \<Rightarrow> dns_config \<Rightarrow> dnsClient list \<Rightarrow> dnsPolicy list \<Rightarrow> 'c Resolver" where
  "fresh_resolver c cfg clients pols =
     \<lparr>r_ipv6 = IPv6 cfg, ipv6Timeout = int (IPv6Timeout cfg) * 1000000, main_clients = clients, fallback = [],
      fallbackDomainFilters = [], fallbackIPFilters = [], r_cache = c, policy = pols\<rparr>"

text \<open>The resolver for the servers themselves (\<^verbatim>\<open>config.Default\<close>) is built first and only used inside
  the clients. \<open>c\<close> is a new cache.\<close>

definition NewResolver :: "dns_pkgs \<Rightarrow> (nat option \<Rightarrow> nat option \<Rightarrow> bool) \<Rightarrow> 'c \<Rightarrow> dns_config \<Rightarrow> 'c Resolvers option" where
  "NewResolver P panics c cfg =
     Option.bind (transform P (Default cfg)) (\<lambda>_.
     Option.bind (cacheTransform P panics (Main cfg) []) (\<lambda>(mains, seen).
     Option.bind (makePolicy P panics (Policy cfg) None [] seen) (\<lambda>(pols, seen).
     Option.bind
       (if length (ProxyServer cfg) \<noteq> 0 then
          Option.bind (cacheTransform P panics (ProxyServer cfg) seen) (\<lambda>(cs, seen).
          Option.bind (makePolicy P panics (ProxyServerPolicy cfg) None [] seen) (\<lambda>(ps, seen).
            Some (Some (fresh_resolver c cfg cs ps), seen)))
        else Some (None, seen)) (\<lambda>(proxy, seen).
     Option.bind
       (if length (DirectServer cfg) \<noteq> 0 then
          Option.bind (cacheTransform P panics (DirectServer cfg) seen) (\<lambda>(cs, seen).
            Some (Some (fresh_resolver c cfg cs (if DirectFollowPolicy cfg then pols else [])), seen))
        else Some (None, seen)) (\<lambda>(direct, seen).
     let r = fresh_resolver c cfg mains pols in
     Option.bind
       (if length (Fallback cfg) \<noteq> 0 then
          Option.bind (cacheTransform P panics (Fallback cfg) seen) (\<lambda>(cs, seen).
            Some (r\<lparr>fallback := cs, fallbackIPFilters := FallbackIPFilter cfg,
                     fallbackDomainFilters := FallbackDomainFilter cfg\<rparr>))
        else Some r) (\<lambda>r.
     Some \<lparr>rs_Resolver = r, ProxyResolver = proxy, DirectResolver = direct\<rparr>))))))"

end
