(* ===== verification/DnsResolverLaws.thy ===== *)
theory DnsResolverLaws
  imports DnsCache DnsResolver Hosts
begin

text \<open>
  What a resolver answers: which servers the answer comes from, what the settings of a server keep out
  of it, how old it may be, and which policy chose the servers.
\<close>

section \<open>Asking several servers\<close>

lemma pick_Some: "pick rs = (Some r, e) \<Longrightarrow> Inr r \<in> set rs"
  by (induction rs arbitrary: e) (auto split: prod.splits sum.splits)

lemma pick_None: "pick rs = (None, e) \<Longrightarrow> (\<forall>r\<in>set rs. \<exists>err. r = Inl err) \<and> (rs \<noteq> [] \<longrightarrow> e \<noteq> None)"
proof (induction rs arbitrary: e)
  case (Cons r rs)
  then show ?case by (cases "pick rs"; cases r) auto
qed simp

text \<open>An answer of several servers is one of theirs, and not a failure; no answer means that all failed.\<close>

lemma batch_answers:
  assumes order: "set (race w clients) = {..<length clients}" and none: "\<forall>c\<in>set clients. \<not> is_rcode c"
  shows "snd (batchExchange P w clients m)
    \<and> (case fst (batchExchange P w clients m) of
         Inr r \<Rightarrow> Rcode r \<noteq> RcodeServerFailure \<and> Rcode r \<noteq> RcodeRefused
           \<and> (\<exists>c\<in>set clients. client_exchange P (net w) c m = Inr r)
       | Inl _ \<Rightarrow> \<forall>c\<in>set clients. case client_exchange P (net w) c m of Inl _ \<Rightarrow> True
           | Inr r \<Rightarrow> Rcode r = RcodeServerFailure \<or> Rcode r = RcodeRefused)"
proof -
  let ?rs = "map (\<lambda>i. batch_client P w m (clients ! i)) (race w clients)"
  have f: "List.find is_rcode clients = None" using none by (simp add: find_None)
  have clients: "set clients = (\<lambda>i. clients ! i) ` {..<length clients}" by (auto simp: set_conv_nth)
  have rs: "set ?rs = batch_client P w m ` set clients"
    by (simp add: clients order image_image)
  obtain p e where p: "pick ?rs = (p, e)" by fastforce
  show ?thesis
  proof (cases p)
    case (Some r)
    then obtain c where "c \<in> set clients" "batch_client P w m c = Inr r"
      using pick_Some [of ?rs r e] p unfolding rs by auto
    then show ?thesis using f p Some by (auto simp: batchExchange_def batch_client_def split: sum.splits if_splits)
  next
    case None
    then have "\<forall>c\<in>set clients. \<exists>err. batch_client P w m c = Inl err"
      using pick_None [of ?rs e] p unfolding rs by auto
    then have "\<forall>c\<in>set clients. case client_exchange P (net w) c m of Inl _ \<Rightarrow> True
        | Inr r \<Rightarrow> Rcode r = RcodeServerFailure \<or> Rcode r = RcodeRefused"
      by (fastforce simp: batch_client_def split: sum.splits if_splits)
    then show ?thesis using f p None by (auto simp: batchExchange_def split: option.splits)
  qed
qed

section \<open>Servers with disabled types\<close>

definition has_type :: "16 word \<Rightarrow> msg \<Rightarrow> bool" where
  "has_type t m \<longleftrightarrow> (\<exists>r\<in>set (Answer m) \<union> set (Ns m) \<union> set (Extra m). Rrtype r = t)"

context dns_laws begin

lemma disable_exchange_type:
  assumes "t \<in> set types" "disable_exchange P exchange types m = Inr reply"
  shows "\<not> has_type t reply"
  using assms by (auto simp: disable_exchange_def has_type_def inRR_def DeleteFunc handleMsgWithEmptyAnswer_def SetRcode
      zeroMsg_def split: if_splits sum.splits)

lemma warp_disables:
  assumes "param params ''disable-ipv4'' = ''true'' \<and> t = TypeA \<or> param params ''disable-ipv6'' = ''true'' \<and> t = TypeAAAA"
    and "client_exchange P (net w) (warpClientWithDisableTypes P c params) m = Inr reply"
  shows "\<not> has_type t reply"
proof -
  define types where "types = (if param params ''disable-ipv4'' = ''true'' then [TypeA] else [])
    @ (if param params ''disable-ipv6'' = ''true'' then [TypeAAAA] else []) @ concat (map (qtype_param P) params)"
  have t: "t \<in> set types" using assms(1) by (auto simp: types_def)
  then have "length types > 0" by (cases types) simp_all
  then have "warpClientWithDisableTypes P c params = clientWithDisableTypes c types"
    unfolding warpClientWithDisableTypes_def Let_def types_def [symmetric] by (rule if_P)
  with disable_exchange_type [OF t] assms(2) show ?thesis by simp
qed

section \<open>The fallback servers\<close>

lemma ipExchange_main:
  assumes "matchPolicy r m = []" "fallback r \<noteq> []" "ipExchange P w r m = Inr reply"
  shows "asyncExchange P w (fallback r) m = Inr reply \<or>
    (\<not> shouldOnlyQueryFallback r m \<and> asyncExchange P w (main_clients r) m = Inr reply
     \<and> msgToIP reply \<noteq> [] \<and> (\<forall>ip\<in>set (msgToIP reply). \<not> shouldIPFallback r ip))"
  using assms by (auto simp: ipExchange_def Let_def EveryBy list_all_iff split: if_splits sum.splits)

end

section \<open>Policies\<close>

text \<open>A client made for a server, or for one that counts as equal.\<close>

definition serves :: "dns_pkgs \<Rightarrow> (nat option \<Rightarrow> nat option \<Rightarrow> bool) \<Rightarrow> NameServer \<Rightarrow> dnsClient \<Rightarrow> bool" where
  "serves P panics ns c \<longleftrightarrow>
     (\<exists>ns'. (ns' = ns \<or> NameServer_Equal panics ns' ns) \<and> transform_one P ns' = Some c)"

definition memo_ok :: "dns_pkgs \<Rightarrow> memo \<Rightarrow> bool" where
  "memo_ok P seen \<longleftrightarrow> (\<forall>nsc\<in>set seen. transform_one P (fst nsc) = Some (snd nsc))"

lemma transform_single: "transform P [ns] = Some dc \<Longrightarrow> \<exists>c. dc = [c] \<and> transform_one P ns = Some c"
  by (cases "transform_one P ns") (auto simp: transform_def)

lemma cacheTransform_serves:
  "cacheTransform P panics nss seen = Some (cs, seen') \<Longrightarrow> memo_ok P seen \<Longrightarrow>
   memo_ok P seen' \<and> list_all2 (serves P panics) nss cs"
proof (induction nss arbitrary: seen cs)
  case (Cons ns nss)
  show ?case
  proof (cases "List.find (\<lambda>nsc. NameServer_Equal panics (fst nsc) ns) seen")
    case (Some nsc)
    then have "serves P panics ns (snd nsc)"
      using Cons.prems(2) find_SomeD [OF Some] by (auto simp: serves_def memo_ok_def)
    with Some Cons show ?thesis by auto
  next
    case None
    then obtain dc where dc: "transform P [ns] = Some dc" using Cons.prems(1) by (auto split: option.splits)
    then obtain c where c: "dc = [c]" "transform_one P ns = Some c" using transform_single by blast
    then have "serves P panics ns c" "memo_ok P (seen @ [(ns, c)])"
      using Cons.prems(2) by (auto simp: serves_def memo_ok_def)
    with None Cons dc c show ?thesis by auto
  qed
qed simp

text \<open>The policies behind an entry of the list that \<open>makePolicy\<close> builds, with their clients.\<close>

definition trie_of :: "(dns_policy \<times> dnsClient list) list \<Rightarrow> dnsClient list node" where
  "trie_of es = build (map (\<lambda>(p, cs). (pol_Domain p, cs)) es)"

definition domain_entries :: "(dns_policy \<times> dnsClient list) list \<Rightarrow> bool" where
  "domain_entries es \<longleftrightarrow> (\<forall>e\<in>set es. Matcher (fst e) = None)"

fun stands_for :: "dnsPolicy \<Rightarrow> (dns_policy \<times> dnsClient list) list \<Rightarrow> bool" where
  "stands_for (domainTriePolicy t) es \<longleftrightarrow> t = Trie_Optimize (trie_of es) \<and> domain_entries es"
| "stands_for (domainMatcherPolicy f cs) es \<longleftrightarrow> (\<exists>p. es = [(p, cs)] \<and> Matcher p = Some f)"

lemma trie_of_snoc: "insert_rule (trie_of es) (pol_Domain p, cs) = trie_of (es @ [(p, cs)])"
  by (simp add: trie_of_def build_def)

lemma makePolicy_groups:
  "makePolicy P panics ps t pols seen = Some (pols', seen') \<Longrightarrow> memo_ok P seen \<Longrightarrow>
   (case t of None \<Rightarrow> es = [] | Some t \<Rightarrow> t = trie_of es) \<Longrightarrow> domain_entries es \<Longrightarrow>
   \<exists>new groups css. pols' = pols @ new \<and> list_all2 stands_for new groups \<and> concat groups = es @ zip ps css
     \<and> list_all2 (\<lambda>p cs. list_all2 (serves P panics) (NameServers p) cs) ps css"
proof (induction ps arbitrary: t pols seen es)
  case Nil
  show ?case
  proof (cases t)
    case None
    with Nil show ?thesis by (intro exI [of _ "[]"]) (simp add: flush_trie_def)
  next
    case (Some t')
    with Nil show ?thesis
      by (intro exI [of _ "[domainTriePolicy (Trie_Optimize t')]"] exI [of _ "[es]"] exI [of _ "[]"]) (simp add: flush_trie_def)
  qed
next
  case (Cons p ps)
  obtain cs seen1 where cs: "cacheTransform P panics (NameServers p) seen = Some (cs, seen1)"
    using Cons.prems(1) by (auto split: option.splits)
  note ok = cacheTransform_serves [OF cs Cons.prems(2)]
  show ?case
  proof (cases "Matcher p")
    case None
    have "makePolicy P panics ps (Some (trie_of (es @ [(p, cs)]))) pols seen1 = Some (pols', seen')"
      using Cons.prems(1,3) cs None trie_of_snoc [of es p cs]
      by (auto simp: trie_of_def build_def split: option.splits)
    from Cons.IH [OF this, of "es @ [(p, cs)]"] ok Cons.prems(4) None
    obtain new groups css where h: "pols' = pols @ new" "list_all2 stands_for new groups"
      "concat groups = (es @ [(p, cs)]) @ zip ps css"
      "list_all2 (\<lambda>p cs. list_all2 (serves P panics) (NameServers p) cs) ps css"
      by (auto simp: domain_entries_def)
    with ok show ?thesis by (intro exI [of _ new] exI [of _ groups] exI [of _ "cs # css"]) simp
  next
    case (Some f)
    have "makePolicy P panics ps None (flush_trie t pols @ [domainMatcherPolicy f cs]) seen1 = Some (pols', seen')"
      using Cons.prems(1) cs Some by simp
    from Cons.IH [OF this, of "[]"] ok
    obtain new groups css where h: "pols' = (flush_trie t pols @ [domainMatcherPolicy f cs]) @ new" "list_all2 stands_for new groups"
      "concat groups = zip ps css" "list_all2 (\<lambda>p cs. list_all2 (serves P panics) (NameServers p) cs) ps css"
      by (auto simp: domain_entries_def)
    let ?first = "case t of None \<Rightarrow> [] | Some t \<Rightarrow> [domainTriePolicy (Trie_Optimize t)]"
    let ?groups = "case t of None \<Rightarrow> [] | Some t \<Rightarrow> [es]"
    have "list_all2 stands_for ?first ?groups" "flush_trie t pols = pols @ ?first" "concat ?groups = es"
      using Cons.prems(3,4) by (auto simp: flush_trie_def split: option.splits)
    with h ok Some show ?thesis
      by (intro exI [of _ "?first @ domainMatcherPolicy f cs # new"] exI [of _ "?groups @ [(p, cs)] # groups"] exI [of _ "cs # css"])
        (auto intro: list_all2_appendI)
  qed
qed

definition policy_hits :: "dns_policy \<Rightarrow> string \<Rightarrow> bool" where
  "policy_hits p domain = (case Matcher p of Some f \<Rightarrow> f domain | None \<Rightarrow> hits (pol_Domain p) domain)"

lemma stands_for_Match:
  assumes "stands_for pol es"
  shows "policy_Match pol domain = cs \<Longrightarrow> cs \<noteq> [] \<Longrightarrow> \<exists>p. (p, cs) \<in> set es \<and> policy_hits p domain"
    and "(p, cs) \<in> set es \<Longrightarrow> policy_hits p domain \<Longrightarrow> \<forall>e\<in>set es. policy_hits (fst e) domain \<longrightarrow> snd e \<noteq> [] \<Longrightarrow>
      policy_Match pol domain \<noteq> []"
proof -
  have "(policy_Match pol domain \<noteq> [] \<longrightarrow> (\<exists>p. (p, policy_Match pol domain) \<in> set es \<and> policy_hits p domain))
    \<and> ((p, cs) \<in> set es \<and> policy_hits p domain \<and> (\<forall>e\<in>set es. policy_hits (fst e) domain \<longrightarrow> snd e \<noteq> []) \<longrightarrow> policy_Match pol domain \<noteq> [])" for p cs
  proof (cases pol)
    case (domainTriePolicy t)
    let ?rules = "map (\<lambda>(p, cs). (pol_Domain p, cs)) es"
    have t: "t = Trie_Optimize (build ?rules)" "domain_entries es" using assms domainTriePolicy by (auto simp: trie_of_def)
    have o: "wf_node t" "entries t = rule_map ?rules" using Trie_Optimize_entries [of ?rules] unfolding t(1) by auto
    have found: "\<exists>p cs. (p, cs) \<in> set es \<and> policy_hits p domain \<and> data nd = Some cs" if "Trie_Search t domain = Some nd" for nd
      using Trie_Search_rule [OF o that] t(2) by (force simp: policy_hits_def domain_entries_def)
    have "Trie_Search t domain \<noteq> None" if "(p, cs) \<in> set es" "policy_hits p domain"
      using Trie_Search_hit [OF o, of "(pol_Domain p, cs)" domain] that t(2) by (force simp: policy_hits_def domain_entries_def)
    then show ?thesis using found domainTriePolicy by (cases "Trie_Search t domain") force+
  next
    case (domainMatcherPolicy f ds)
    with assms show ?thesis by (auto simp: policy_hits_def)
  qed
  then show "policy_Match pol domain = cs \<Longrightarrow> cs \<noteq> [] \<Longrightarrow> \<exists>p. (p, cs) \<in> set es \<and> policy_hits p domain"
    and "(p, cs) \<in> set es \<Longrightarrow> policy_hits p domain \<Longrightarrow> \<forall>e\<in>set es. policy_hits (fst e) domain \<longrightarrow> snd e \<noteq> [] \<Longrightarrow>
      policy_Match pol domain \<noteq> []"
    by blast+
qed

lemma first_match_stands:
  "list_all2 stands_for pols groups \<Longrightarrow>
   (first_match pols domain \<noteq> [] \<longrightarrow> (\<exists>p. (p, first_match pols domain) \<in> set (concat groups) \<and> policy_hits p domain))
   \<and> ((\<exists>p cs. (p, cs) \<in> set (concat groups) \<and> policy_hits p domain)
       \<and> (\<forall>e\<in>set (concat groups). policy_hits (fst e) domain \<longrightarrow> snd e \<noteq> []) \<longrightarrow> first_match pols domain \<noteq> [])"
proof (induction rule: list_all2_induct)
  case (Cons pol pols es groups)
  have u: "set (concat (es # groups)) = set es \<union> set (concat groups)" by simp
  show ?case
  proof (cases "policy_Match pol domain = []")
    case True
    have "\<not> policy_hits p domain" if "\<forall>e\<in>set es. policy_hits (fst e) domain \<longrightarrow> snd e \<noteq> []" "(p, cs) \<in> set es" for p cs
      using stands_for_Match(2) [OF Cons(1) that(2) _ that(1)] True by blast
    moreover have "first_match (pol # pols) domain = first_match pols domain" using True by simp
    ultimately show ?thesis using Cons.IH unfolding u by (simp only: Un_iff) blast
  next
    case False
    with stands_for_Match(1) [OF Cons(1) refl False] show ?thesis by auto
  qed
qed simp

lemma policy_selects_lemma:
  assumes "makePolicy P panics ps None [] [] = Some (pols, seen)"
  shows "(first_match pols domain \<noteq> [] \<longrightarrow> (\<exists>p\<in>set ps. policy_hits p domain \<and> NameServers p \<noteq> []
         \<and> list_all2 (serves P panics) (NameServers p) (first_match pols domain)))
    \<and> ((\<exists>p\<in>set ps. policy_hits p domain) \<and> (\<forall>p\<in>set ps. policy_hits p domain \<longrightarrow> NameServers p \<noteq> [])
         \<longrightarrow> first_match pols domain \<noteq> [])"
proof -
  have "memo_ok P []" by (simp add: memo_ok_def)
  from makePolicy_groups [OF assms(1) this, of "[]"]
  obtain groups css where g: "list_all2 stands_for pols groups" "concat groups = zip ps css"
    "list_all2 (\<lambda>p cs. list_all2 (serves P panics) (NameServers p) cs) ps css"
    by (auto simp: domain_entries_def)
  have each: "p \<in> set ps \<and> list_all2 (serves P panics) (NameServers p) cs \<and> (cs = [] \<longleftrightarrow> NameServers p = [])"
    if "(p, cs) \<in> set (zip ps css)" for p cs
  proof -
    have "p \<in> set ps" using that by (rule set_zip_leftD)
    moreover have "list_all2 (serves P panics) (NameServers p) cs" using g(3) that by (auto simp: list_all2_iff)
    ultimately show ?thesis by auto
  qed
  have some: "\<exists>cs. (p, cs) \<in> set (zip ps css)" if "p \<in> set ps" for p
    using that g(3) by (metis in_set_impl_in_set_zip1 list_all2_lengthD)
  note fm = first_match_stands [OF g(1), of domain, unfolded g(2)]
  show ?thesis
  proof (intro conjI impI)
    assume ne: "first_match pols domain \<noteq> []"
    then obtain p where "(p, first_match pols domain) \<in> set (zip ps css)" "policy_hits p domain" using fm by blast
    with each ne show "\<exists>p\<in>set ps. policy_hits p domain \<and> NameServers p \<noteq> []
         \<and> list_all2 (serves P panics) (NameServers p) (first_match pols domain)" by blast
  next
    assume h: "(\<exists>p\<in>set ps. policy_hits p domain) \<and> (\<forall>p\<in>set ps. policy_hits p domain \<longrightarrow> NameServers p \<noteq> [])"
    have "\<forall>e\<in>set (zip ps css). policy_hits (fst e) domain \<longrightarrow> snd e \<noteq> []"
      using each h by (metis prod.collapse)
    with h some fm show "first_match pols domain \<noteq> []" by blast
  qed
qed

section \<open>Where a cached answer comes from\<close>

text \<open>What the servers of a resolver answer in a world, with the flag that the answer may be cached: the part of
  \<open>exchange_fn\<close> before the cache is touched.\<close>

definition server_reply :: "dns_pkgs \<Rightarrow> world \<Rightarrow> 'c Resolver \<Rightarrow> msg \<Rightarrow> (string + msg) \<times> bool" where
  "server_reply P w r m =
     (if isIPRequest (hd (Question m)) then (ipExchange P w r m, True)
      else if length (matchPolicy r m) \<noteq> 0 then batchExchange P w (matchPolicy r m) m
      else batchExchange P w (main_clients r) m)"

lemma server_reply_cache [simp]: "server_reply P w (r\<lparr>r_cache := c\<rparr>) m = server_reply P w r m"
proof -
  have "matchPolicy (r\<lparr>r_cache := c\<rparr>) = matchPolicy r" "shouldOnlyQueryFallback (r\<lparr>r_cache := c\<rparr>) = shouldOnlyQueryFallback r"
    "shouldIPFallback (r\<lparr>r_cache := c\<rparr>) = shouldIPFallback r"
    by (simp_all add: fun_eq_iff matchPolicy_def shouldOnlyQueryFallback_def shouldIPFallback_def Let_def)
  then have "ipExchange P w (r\<lparr>r_cache := c\<rparr>) m = ipExchange P w r m"
    by (simp add: ipExchange_def Let_def split: sum.split)
  with \<open>matchPolicy (r\<lparr>r_cache := c\<rparr>) = matchPolicy r\<close> show ?thesis by (simp add: server_reply_def)
qed

lemma exchange_fn_reply:
  "exchange_fn P ops w (hd (Question m)) m r =
     (case server_reply P w r m of
        (Inl err, _) \<Rightarrow> (Inl err, r)
      | (Inr reply, keep) \<Rightarrow> (Inr reply, if keep
          then r\<lparr>r_cache := putMsgToCache P ops (now w) (hd (Question m)) reply (r_cache r)\<rparr> else r))"
  by (simp add: exchange_fn_def server_reply_def split: prod.splits sum.splits)

text \<open>What happens to a resolver: exchanges, each in its own worlds, and resets of its cache; the latest event first.\<close>

datatype dns_event = Call "nat \<Rightarrow> world" msg | Clear

inductive resolver_run :: "dns_pkgs \<Rightarrow> 'c dnsCache \<Rightarrow> 'c Resolver \<Rightarrow> dns_event list \<Rightarrow> 'c Resolver \<Rightarrow> bool" for P ops r0 where
  start: "resolver_run P ops r0 [] r0"
| exchange: "resolver_run P ops r0 evs r \<Longrightarrow> ExchangeContext P ops ws m r = (res, r') \<Longrightarrow>
    resolver_run P ops r0 (Call ws m # evs) r'"
| clear: "resolver_run P ops r0 evs r \<Longrightarrow> resolver_run P ops r0 (Clear # evs) (resolver_ClearCache ops r)"

text \<open>The exchanges since the last reset, and what the servers answered in the four worlds an exchange may ask them in, of
  what may be cached, with the time and the question.\<close>

fun calls :: "dns_event list \<Rightarrow> ((nat \<Rightarrow> world) \<times> msg) list" where
  "calls [] = []"
| "calls (Clear # evs) = []"
| "calls (Call ws m # evs) = (ws, m) # calls evs"

definition given :: "dns_pkgs \<Rightarrow> 'c Resolver \<Rightarrow> (nat \<Rightarrow> world) \<times> msg \<Rightarrow> (int \<times> question \<times> msg) set" where
  "given P r call = {(now (fst call i), hd (Question (snd call)), reply) | i reply.
     i < 4 \<and> server_reply P (fst call i) r (snd call) = (Inr reply, True)}"

definition learned :: "dns_pkgs \<Rightarrow> 'c Resolver \<Rightarrow> dns_event list \<Rightarrow> (int \<times> question \<times> msg) set" where
  "learned P r evs = \<Union> (given P r ` set (calls evs))"

text \<open>An exchange either answers from the cache or asks the servers.\<close>

lemma ExchangeContext_cases:
  assumes "ExchangeContext P ops ws m r = (res, r')" "Question m \<noteq> []"
  obtains (hit) hit c where "getMsgFromCache P ops (now (ws 0)) (hd (Question m)) (r_cache r) = (Some hit, c)"
      "res = Inr (fst (cached_reply P (now (ws 0)) hit))"
      "r' = r\<lparr>r_cache := c\<rparr> \<or> (\<exists>res'. exchangeWithoutCache P ops (\<lambda>i. ws (i + 2)) m (r\<lparr>r_cache := c\<rparr>) = (res', r'))"
  | (miss) c r1 where "getMsgFromCache P ops (now (ws 0)) (hd (Question m)) (r_cache r) = (None, c)"
      "exchangeWithoutCache P ops ws m (r\<lparr>r_cache := c\<rparr>) = (res, r1)"
      "r' = r1 \<or> (\<exists>res'. exchangeWithoutCache P ops (\<lambda>i. ws (i + 2)) m r1 = (res', r'))"
proof -
  obtain h c where g: "getMsgFromCache P ops (now (ws 0)) (hd (Question m)) (r_cache r) = (h, c)" by fastforce
  show thesis
  proof (cases h)
    case (Some x)
    obtain reply continue where k: "cached_reply P (now (ws 0)) x = (reply, continue)" by fastforce
    have "res = Inr reply" "r' = (if continue then snd (exchangeWithoutCache P ops (\<lambda>i. ws (i + 2)) m (r\<lparr>r_cache := c\<rparr>))
        else r\<lparr>r_cache := c\<rparr>)"
      using assms g k Some by (auto simp: ExchangeContext_def Let_def)
    then show thesis using hit [of x c] g k Some by (metis fst_conv prod.collapse)
  next
    case None
    obtain res1 r1 where e: "exchangeWithoutCache P ops ws m (r\<lparr>r_cache := c\<rparr>) = (res1, r1)" by fastforce
    have "res = res1" "r' = r1 \<or> r' = snd (exchangeWithoutCache P ops (\<lambda>i. ws (i + 2)) m r1)"
      using assms g e None by (auto simp: ExchangeContext_def Let_def split: sum.splits if_splits)
    then show thesis using miss [of c r1] g e None by (metis prod.collapse)
  qed
qed

context cached_dns begin

text \<open>The configuration of a resolver stays as it was, and its cache holds what the servers answered.\<close>

definition fed :: "'c Resolver \<Rightarrow> (int \<times> question \<times> msg) set \<Rightarrow> 'c Resolver \<Rightarrow> bool" where
  "fed r0 H r \<longleftrightarrow> (\<exists>c. r = r0\<lparr>r_cache := c\<rparr>) \<and> explained H (r_cache r)"

lemma fed_cache: "fed r0 H r \<Longrightarrow> explained K c \<Longrightarrow> fed r0 K (r\<lparr>r_cache := c\<rparr>)"
  by (auto simp: fed_def)

lemma fed_reply: "fed r0 H r \<Longrightarrow> server_reply P w r m = server_reply P w r0 m"
  by (auto simp: fed_def)

lemma exchange_fn_fed:
  assumes "fed r0 H r" "exchange_fn P ops (ws i) (hd (Question m)) m r = (res, r')" "given P r0 (ws, m) \<subseteq> H" "i < 4"
  shows "fed r0 H r'"
proof -
  obtain x b where x: "server_reply P (ws i) r m = (x, b)" by fastforce
  show ?thesis
  proof (cases "\<exists>reply. x = Inr reply \<and> b")
    case True
    then obtain reply where reply: "x = Inr reply" "b" by blast
    have "server_reply P (ws i) r0 m = (Inr reply, True)" using x reply fed_reply [OF assms(1), of "ws i" m] by simp
    then have "(now (ws i), hd (Question m), reply) \<in> H" using assms(3,4) unfolding given_def by auto
    then have "explained H (putMsgToCache P ops (now (ws i)) (hd (Question m)) reply (r_cache r))"
      using assms(1) explained_put unfolding fed_def by blast
    from fed_cache [OF assms(1) this] show ?thesis using assms(2) x reply by (simp add: exchange_fn_reply)
  next
    case False
    then have "r' = r" using assms(2) x by (cases x) (auto simp: exchange_fn_reply)
    with assms(1) show ?thesis by simp
  qed
qed

lemma exchangeWithoutCache_fed:
  assumes "fed r0 H r" "exchangeWithoutCache P ops (\<lambda>i. ws (i + j)) m r = (res, r')" "given P r0 (ws, m) \<subseteq> H" "j < 3"
  shows "fed r0 H r' \<and> (\<forall>reply. res = Inr reply \<longrightarrow> fst (server_reply P (ws j) r0 m) = Inr reply)"
proof -
  obtain res1 r1 where 1: "exchange_fn P ops (ws j) (hd (Question m)) m r = (res1, r1)" by fastforce
  have f1: "fed r0 H r1" using exchange_fn_fed [OF assms(1) 1 assms(3)] assms(4) by simp
  have res1: "fst (server_reply P (ws j) r0 m) = res1"
    using 1 fed_reply [OF assms(1), of "ws j" m] by (auto simp: exchange_fn_reply split: prod.splits sum.splits)
  show ?thesis
  proof (cases res1)
    case (Inr reply)
    then have "r' = r1" "res = res1" using assms(2) 1 by (simp_all add: exchangeWithoutCache_def)
    with f1 res1 show ?thesis by simp
  next
    case (Inl err)
    obtain res2 r2 where 2: "exchange_fn P ops (ws (1 + j)) (hd (Question m)) m r1 = (res2, r2)" by fastforce
    have "fed r0 H r2" using exchange_fn_fed [OF f1 2 assms(3)] assms(4) by simp
    moreover have "r' = r2" "res = Inl err" using assms(2) 1 2 Inl by (simp_all add: exchangeWithoutCache_def)
    ultimately show ?thesis by simp
  qed
qed

lemma ExchangeContext_fed:
  assumes f: "fed r0 H r" and e: "ExchangeContext P ops ws m r = (res, r')" and g: "given P r0 (ws, m) \<subseteq> H"
  shows "fed r0 H r'"
proof (cases "Question m = []")
  case True
  then have "r' = r" using e by (simp add: ExchangeContext_def)
  with f show ?thesis by simp
next
  case False
  have fetch: "fed r0 H r2"
    if "fed r0 H r1" "r2 = r1 \<or> (\<exists>res'. exchangeWithoutCache P ops (\<lambda>i. ws (i + 2)) m r1 = (res', r2))" for r1 r2
    using that exchangeWithoutCache_fed [OF that(1) _ g, of 2] by auto
  have get: "fed r0 H (r\<lparr>r_cache := c\<rparr>)" if "getMsgFromCache P ops t q (r_cache r) = (h, c)" for t q h c
    using fed_cache [OF f] explained_get [OF _ that] f unfolding fed_def by blast
  show ?thesis using e False
  proof (cases rule: ExchangeContext_cases)
    case (hit hit c)
    from fetch [OF get [OF hit(1)] hit(3)] show ?thesis .
  next
    case (miss c r1)
    have "exchangeWithoutCache P ops (\<lambda>i. ws (i + 0)) m (r\<lparr>r_cache := c\<rparr>) = (res, r1)" using miss(2) by simp
    from exchangeWithoutCache_fed [OF get [OF miss(1)] this g] have "fed r0 H r1" by simp
    from fetch [OF this miss(3)] show ?thesis .
  qed
qed

lemma resolver_run_fed:
  "resolver_run P ops r0 evs r \<Longrightarrow> ok (r_cache r0) \<Longrightarrow> stored (r_cache r0) = Map.empty \<Longrightarrow> fed r0 (learned P r0 evs) r"
proof (induction rule: resolver_run.induct)
  case start
  then show ?case by (auto simp: fed_def explained_def intro: exI [of _ "r_cache r0"])
next
  case (exchange evs r ws m res r')
  let ?H = "learned P r0 (Call ws m # evs)"
  have more: "learned P r0 evs \<subseteq> ?H" "given P r0 (ws, m) \<subseteq> ?H" by (auto simp: learned_def)
  have "fed r0 (learned P r0 evs) r" using exchange by simp
  then have "fed r0 ?H r" using explained_more [OF _ more(1)] unfolding fed_def by blast
  from ExchangeContext_fed [OF this exchange.hyps(2) more(2)] show ?case .
next
  case (clear evs r)
  then have f: "fed r0 (learned P r0 evs) r" by simp
  then have "explained {} (ClearCache ops (r_cache r))" using explained_clear unfolding fed_def by blast
  from fed_cache [OF f this] show ?case by (simp add: resolver_ClearCache_def learned_def)
qed

text \<open>What may be answered without asking: a message a server gave since the last reset, aged.\<close>

lemma resolver_answer:
  assumes "resolver_run P ops r0 evs r" "ok (r_cache r0)" "stored (r_cache r0) = Map.empty"
    and times: "\<forall>(ws', m')\<in>set (calls evs). \<forall>i<4. now (ws' i) \<le> now (ws 0)"
    and e: "ExchangeContext P ops ws m r = (Inr reply, r')"
  shows "case fst (getMsgFromCache P ops (now (ws 0)) (hd (Question m)) (r_cache r)) of
      None \<Rightarrow> fst (server_reply P (ws 0) r0 m) = Inr reply
    | Some hit \<Rightarrow> \<exists>ws' m' i m0. (ws', m') \<in> set (calls evs) \<and> i < 4
        \<and> server_reply P (ws' i) r0 m' = (Inr m0, True) \<and> QString P (hd (Question m')) = QString P (hd (Question m))
        \<and> aged_msg (now (ws 0) - now (ws' i)) m0 reply"
proof -
  have f: "fed r0 (learned P r0 evs) r" by (rule resolver_run_fed [OF assms(1-3)])
  have past: "\<forall>e\<in>learned P r0 evs. fst e \<le> now (ws 0)"
    using times by (auto simp: learned_def given_def split: prod.splits)
  have "Question m \<noteq> []" using e by (auto simp: ExchangeContext_def)
  with e show ?thesis
  proof (cases rule: ExchangeContext_cases)
    case (hit h c)
    have x: "explained (learned P r0 evs) (r_cache r)" using f by (simp add: fed_def)
    obtain t q m0 where l: "(t, q, m0) \<in> learned P r0 evs" "QString P q = QString P (hd (Question m))"
      "aged_msg (now (ws 0) - t) m0 reply"
      using cached_reply_aged [OF x past hit(1)] hit(2) by auto
    obtain ws' m' i where w: "(ws', m') \<in> set (calls evs)" "i < 4" "t = now (ws' i)" "q = hd (Question m')"
      "server_reply P (ws' i) r0 m' = (Inr m0, True)"
      using l(1) unfolding learned_def given_def by auto
    have "\<exists>ws' m' i m0. (ws', m') \<in> set (calls evs) \<and> i < 4
        \<and> server_reply P (ws' i) r0 m' = (Inr m0, True) \<and> QString P (hd (Question m')) = QString P (hd (Question m))
        \<and> aged_msg (now (ws 0) - now (ws' i)) m0 reply"
      using l w by (intro exI [of _ ws'] exI [of _ m'] exI [of _ i] exI [of _ m0]) simp
    then show ?thesis using hit(1) by simp
  next
    case (miss c r1)
    have "explained (learned P r0 evs) c" using explained_get [OF _ miss(1)] f by (simp add: fed_def)
    from fed_cache [OF f this]
    have k: "fed r0 (learned P r0 evs \<union> given P r0 (ws, m)) (r\<lparr>r_cache := c\<rparr>)"
      using explained_more [of "learned P r0 evs" _ "learned P r0 evs \<union> given P r0 (ws, m)"] unfolding fed_def by blast
    have "exchangeWithoutCache P ops (\<lambda>i. ws (i + 0)) m (r\<lparr>r_cache := c\<rparr>) = (Inr reply, r1)" using miss(2) by simp
    from exchangeWithoutCache_fed [OF k this] miss(1) show ?thesis by simp
  qed
qed

end

end
