(* ===== verification/DnsEnhancer.thy ===== *)
theory DnsEnhancer
  imports DnsResolver FakeIP RuleMatch Hosts
begin

text \<open>
  The DNS service: the enhancer of \<^verbatim>\<open>dns/enhancer.go\<close>, which answers what a fake or mapped address stands
  for, the handlers of \<^verbatim>\<open>dns/middleware.go\<close> and their composition, \<^verbatim>\<open>dns/service.go\<close>, the reply of
  \<^verbatim>\<open>dns/server.go\<close>, the fake-IP filter of \<^verbatim>\<open>component/fakeip/skipper.go\<close> and the functions of
  \<^verbatim>\<open>component/resolver/enhancer.go\<close>.

  The enhancer and the resolver that the handlers share are the state \<open>dns_state\<close>; \<open>dns_setup\<close> holds what
  does not change. A handler may not end, because the search of the static hosts may not: its result is a
  \<open>run\<close>, and a nil pointer or an index out of range is a crash.
\<close>

section \<open>The filter\<close>

datatype FilterMode = FilterBlackList | FilterWhiteList | FilterRule

fun FilterMode_String :: "FilterMode \<Rightarrow> string" where
  "FilterMode_String FilterBlackList = ''blacklist''"
| "FilterMode_String FilterWhiteList = ''whitelist''"
| "FilterMode_String FilterRule = ''rule''"

definition FilterMode_UnmarshalText :: "string \<Rightarrow> FilterMode option" where
  "FilterMode_UnmarshalText text =
     map_of (map (\<lambda>m. (FilterMode_String m, m)) [FilterBlackList, FilterWhiteList, FilterRule]) (to_lower text)"

record Skipper =
  sk_Rules :: "rule list"
  sk_Host :: "(string \<Rightarrow> bool) list"
  sk_Mode :: FilterMode

definition UseFakeIP :: string where "UseFakeIP = ''fake-ip''"

definition UseRealIP :: string where "UseRealIP = ''real-ip''"

definition shouldSkipped :: "Skipper \<Rightarrow> string \<Rightarrow> bool" where
  "shouldSkipped p domain \<longleftrightarrow> list_ex (\<lambda>matcher. matcher domain) (sk_Host p)"

definition no_helper :: helper where
  "no_helper = \<lparr>ResolveIP = None, FindProcess = None, CheckPassRule = None\<rparr>"

fun skip_rules :: "nat \<Rightarrow> env \<Rightarrow> rule list \<Rightarrow> mstate \<Rightarrow> bool run" where
  "skip_rules n env [] st = Done False"
| "skip_rules n env (r # rs) st =
     bind_run (Match n env no_helper r st) (\<lambda>((matched, action), st).
       if matched then Done (action = UseRealIP) else skip_rules n env rs st)"

text \<open>\<open>st\<close> holds the counters of the rules; its metadata is new.\<close>

definition ShouldSkipped :: "nat \<Rightarrow> env \<Rightarrow> mstate \<Rightarrow> Skipper \<Rightarrow> string \<Rightarrow> bool run" where
  "ShouldSkipped n env st p domain =
     (if length (sk_Rules p) > 0
      then skip_rules n env (sk_Rules p) (st\<lparr>md := zeroMetadata\<lparr>Host := domain\<rparr>\<rparr>)
      else
        let should = shouldSkipped p domain
        in Done (if sk_Mode p = FilterWhiteList then \<not> should else should))"

section \<open>The enhancer\<close>

record ('s, 'l, 'h) ResolverEnhancer =
  e_ipv6 :: bool
  e_mode :: DNSMode
  fakeIPPool :: "'s Pool option"
  fakeIPPool6 :: "'s Pool option"
  fakeIPSkipper :: "Skipper option"
  fakeIPTTL :: int
  mapping :: "(addr, string, 'l, 'h) LruCache option"
  useHosts :: bool

definition FakeIPEnabled :: "('s, 'l, 'h) ResolverEnhancer \<Rightarrow> bool" where
  "FakeIPEnabled h \<longleftrightarrow> e_mode h = DNSFakeIP"

definition MappingEnabled :: "('s, 'l, 'h) ResolverEnhancer \<Rightarrow> bool" where
  "MappingEnabled h \<longleftrightarrow> e_mode h = DNSFakeIP \<or> e_mode h = DNSMapping"

definition in_some :: "('s Pool \<Rightarrow> bool) \<Rightarrow> 's Pool option \<Rightarrow> bool" where
  "in_some f pool = (case pool of None \<Rightarrow> False | Some p \<Rightarrow> f p)"

definition IsExistFakeIP :: "'s store \<Rightarrow> ('s, 'l, 'h) ResolverEnhancer \<Rightarrow> addr \<Rightarrow> bool" where
  "IsExistFakeIP st h ip =
     (if \<not> FakeIPEnabled h then False
      else if in_some (pool_Exist st ip) (fakeIPPool h) then True
      else if in_some (pool_Exist st ip) (fakeIPPool6 h) then True
      else False)"

definition fake_of :: "addr \<Rightarrow> 's Pool \<Rightarrow> bool" where
  "fake_of ip pool \<longleftrightarrow> prefix_contains (IPNet pool) ip \<and> ip \<noteq> Gateway pool \<and> ip \<noteq> Broadcast pool"

definition IsFakeIP :: "('s, 'l, 'h) ResolverEnhancer \<Rightarrow> addr \<Rightarrow> bool" where
  "IsFakeIP h ip =
     (if \<not> FakeIPEnabled h then False
      else if in_some (fake_of ip) (fakeIPPool h) then True
      else if in_some (fake_of ip) (fakeIPPool6 h) then True
      else False)"

definition IsFakeBroadcastIP :: "('s, 'l, 'h) ResolverEnhancer \<Rightarrow> addr \<Rightarrow> bool" where
  "IsFakeBroadcastIP h ip =
     (if \<not> FakeIPEnabled h then False
      else if in_some (\<lambda>p. Broadcast p = ip) (fakeIPPool h) then True
      else if in_some (\<lambda>p. Broadcast p = ip) (fakeIPPool6 h) then True
      else False)"

definition pool_find :: "'s store \<Rightarrow> addr \<Rightarrow> 's Pool option \<Rightarrow> string option \<times> 's Pool option" where
  "pool_find st ip pool =
     (case pool of
        None \<Rightarrow> (None, None)
      | Some p \<Rightarrow> let (host, p) = LookBack st ip p in (host, Some p))"

text \<open>The mapping has no age, so its reads do not use the time.\<close>

definition FindHostByIP :: "'s store \<Rightarrow> (addr, string, 'l, 'h) lru_pkg \<Rightarrow> addr \<Rightarrow> ('s, 'l, 'h) ResolverEnhancer \<Rightarrow>
    string option \<times> ('s, 'l, 'h) ResolverEnhancer" where
  "FindHostByIP st pkg ip h =
     (let (host, pool) = pool_find st ip (fakeIPPool h); h = h\<lparr>fakeIPPool := pool\<rparr> in
      case host of
        Some host \<Rightarrow> (Some host, h)
      | None \<Rightarrow>
          let (host, pool6) = pool_find st ip (fakeIPPool6 h); h = h\<lparr>fakeIPPool6 := pool6\<rparr> in
          case host of
            Some host \<Rightarrow> (Some host, h)
          | None \<Rightarrow>
              (case mapping h of
                 None \<Rightarrow> (None, h)
               | Some m \<Rightarrow> let (host, m) = lru_Get pkg 0 ip m in (host, h\<lparr>mapping := Some m\<rparr>)))"

definition InsertHostByIP :: "(addr, string, 'l, 'h) lru_pkg \<Rightarrow> addr \<Rightarrow> string \<Rightarrow> ('s, 'l, 'h) ResolverEnhancer \<Rightarrow>
    ('s, 'l, 'h) ResolverEnhancer" where
  "InsertHostByIP pkg ip host h =
     (case mapping h of None \<Rightarrow> h | Some m \<Rightarrow> h\<lparr>mapping := Some (lru_set pkg 0 ip host m)\<rparr>)"

text \<open>The errors of the two pools are joined.\<close>

definition flush_pool :: "'s store \<Rightarrow> 's Pool option \<Rightarrow> (string list \<times> 's Pool option) run" where
  "flush_pool st pool =
     (case pool of
        None \<Rightarrow> Done ([], None)
      | Some p \<Rightarrow>
          (case FlushFakeIP st p of
             Value p' \<Rightarrow> Done ([], Some p')
           | Error err \<Rightarrow> Done ([err], Some p)
           | Panic \<Rightarrow> Crash))"

definition enhancer_FlushFakeIP :: "'s store \<Rightarrow> ('s, 'l, 'h) ResolverEnhancer \<Rightarrow>
    (string list \<times> ('s, 'l, 'h) ResolverEnhancer) run" where
  "enhancer_FlushFakeIP st h =
     bind_run (flush_pool st (fakeIPPool h)) (\<lambda>(errs, pool).
     bind_run (flush_pool st (fakeIPPool6 h)) (\<lambda>(errs6, pool6).
     Done (errs @ errs6, h\<lparr>fakeIPPool := pool, fakeIPPool6 := pool6\<rparr>)))"

definition StoreFakePoolState :: "'s store \<Rightarrow> ('s, 'l, 'h) ResolverEnhancer \<Rightarrow> ('s, 'l, 'h) ResolverEnhancer" where
  "StoreFakePoolState st h =
     h\<lparr>fakeIPPool := map_option (StoreState st) (fakeIPPool h), fakeIPPool6 := map_option (StoreState st) (fakeIPPool6 h)\<rparr>"

record 's EnhancerConfig =
  c_IPv6 :: bool
  EnhancedMode :: DNSMode
  FakeIPPool :: "'s Pool option"
  FakeIPPool6 :: "'s Pool option"
  FakeIPSkipper :: "Skipper option"
  FakeIPTTL :: int
  UseHosts :: bool

definition NewEnhancer :: "(addr, string, 'l, 'h) lru_pkg \<Rightarrow> 's EnhancerConfig \<Rightarrow> ('s, 'l, 'h) ResolverEnhancer" where
  "NewEnhancer pkg cfg =
     (let e = \<lparr>e_ipv6 = c_IPv6 cfg, e_mode = EnhancedMode cfg, fakeIPPool = None, fakeIPPool6 = None,
            fakeIPSkipper = None, fakeIPTTL = 0, mapping = None, useHosts = UseHosts cfg\<rparr>
      in if EnhancedMode cfg \<noteq> DNSNormal then
           e\<lparr>fakeIPPool := FakeIPPool cfg,
             fakeIPPool6 := (if c_IPv6 cfg then FakeIPPool6 cfg else None),
             fakeIPSkipper := FakeIPSkipper cfg,
             fakeIPTTL := (if FakeIPTTL cfg < 1 then 1 else FakeIPTTL cfg),
             mapping := Some (lru_New pkg 0 4096 False False False)\<rparr>
         else e)"

section \<open>Handlers\<close>

record ('s, 'l, 'h, 'c) dns_setup =
  pkgs :: dns_pkgs
  fake_st :: "'s store"
  map_pkg :: "(addr, string, 'l, 'h) lru_pkg"
  cache_ops :: "'c dnsCache"
  worlds :: "nat \<Rightarrow> world"
  fuel :: nat
  hosts_cfg :: host_settings
  DefaultHosts :: "HostValue node"
  rule_env :: env
  counters :: mstate

record ('s, 'l, 'h, 'c) dns_state =
  mapper :: "('s, 'l, 'h) ResolverEnhancer"
  resolver :: "'c Resolver"
  ctx_type :: string

type_synonym ('s, 'l, 'h, 'c) handler =
  "msg \<Rightarrow> ('s, 'l, 'h, 'c) dns_state \<Rightarrow> ((string + msg) \<times> ('s, 'l, 'h, 'c) dns_state) run"

definition DNSTypeHost :: string where "DNSTypeHost = ''host''"
definition DNSTypeFakeIP :: string where "DNSTypeFakeIP = ''fakeip''"
definition DNSTypeRaw :: string where "DNSTypeRaw = ''raw''"

definition dnsDefaultTTL :: "32 word" where "dnsDefaultTTL = 600"

definition mk_rr :: "string \<Rightarrow> 16 word \<Rightarrow> 32 word \<Rightarrow> rdata \<Rightarrow> rr" where
  "mk_rr name t ttl d = \<lparr>rr_Name = name, Rrtype = t, Class = ClassINET, Ttl = ttl, rdata = d\<rparr>"

text \<open>Storing a mapping for some seconds from now.\<close>

definition map_for :: "('s, 'l, 'h, 'c) dns_setup \<Rightarrow> addr \<Rightarrow> string \<Rightarrow> int \<Rightarrow> (addr, string, 'l, 'h) LruCache \<Rightarrow>
    (addr, string, 'l, 'h) LruCache" where
  "map_for su ip host secs m =
     (let t = now (worlds su 0)
      in setWithExpire (map_pkg su) (t div second) ip host ((t + secs * second) div second) m)"

definition host_step :: "('s, 'l, 'h, 'c) dns_setup \<Rightarrow> question \<Rightarrow> string \<Rightarrow> addr \<Rightarrow>
    rr list \<times> (addr, string, 'l, 'h) LruCache option \<Rightarrow> rr list \<times> (addr, string, 'l, 'h) LruCache option" where
  "host_step su q host ip am =
     (let (ans, m) = am in
      if Is4 ip \<and> Qtype q = TypeA then
        (ans @ [mk_rr (q_Name q) TypeA 10 (RR_A (AsSlice ip))], map_option (map_for su ip host 10) m)
      else if Is6 ip \<and> Qtype q = TypeAAAA then
        (ans @ [mk_rr (q_Name q) TypeAAAA 10 (RR_AAAA (AsSlice ip))], map_option (map_for su ip host 10) m)
      else am)"

definition set_mapping :: "(addr, string, 'l, 'h) LruCache option \<Rightarrow> ('s, 'l, 'h, 'c) dns_state \<Rightarrow> ('s, 'l, 'h, 'c) dns_state" where
  "set_mapping m s = s\<lparr>mapper := (mapper s)\<lparr>mapping := m\<rparr>\<rparr>"

definition finish :: "dns_pkgs \<Rightarrow> msg \<Rightarrow> msg \<Rightarrow> msg" where
  "finish P m r = (SetRcode P m r RcodeSuccess)\<lparr>Authoritative := True, RecursionAvailable := True\<rparr>"

definition cname_rr :: "question \<Rightarrow> string \<Rightarrow> rr" where
  "cname_rr q domain = mk_rr (q_Name q) TypeCNAME 10 (RR_CNAME (domain @ ''.''))"

text \<open>For a question about a CNAME the new record goes to the request, after the reply was copied from
  it: the reply does not hold it, and nothing reads the request's answers afterwards.\<close>

definition withHosts :: "('s, 'l, 'h, 'c) dns_setup \<Rightarrow> ('s, 'l, 'h, 'c) handler \<Rightarrow> ('s, 'l, 'h, 'c) handler" where
  "withHosts su next r s =
     (case Question r of
        [] \<Rightarrow> Crash
      | q # qs \<Rightarrow>
          if \<not> isIPRequest q then next r s
          else
            let host = trim_right ''.'' (q_Name q) in
            bind_run (Hosts_Search (fuel su) (hosts_cfg su) (DefaultHosts su) host (Qtype q \<noteq> TypeA \<and> Qtype q \<noteq> TypeAAAA))
              (\<lambda>(rec, ok).
                 if \<not> ok then
                   (case rec of
                      Some v \<Rightarrow>
                        if IsDomain v then
                          bind_run (next (r\<lparr>Question := q\<lparr>q_Name := HostValue.Domain v @ ''.''\<rparr> # qs\<rparr>) s) (\<lambda>(res, s).
                            case res of
                              Inl err \<Rightarrow> Done (Inl err, s)
                            | Inr resp \<Rightarrow>
                                Done (Inr (resp\<lparr>Id := Id r, Question := Question r,
                                  Answer := cname_rr q (HostValue.Domain v) # Answer resp\<rparr>), s))
                        else next r s
                    | None \<Rightarrow> next r s)
                 else
                   (case rec of
                      None \<Rightarrow> Crash
                    | Some v \<Rightarrow>
                        if Qtype q = TypeA \<or> Qtype q = TypeAAAA then
                          let (ans, m) = fold (host_step su q host) (IPs v) (Answer r, mapping (mapper s))
                          in Done (Inr (finish (pkgs su) (r\<lparr>Answer := ans\<rparr>) r),
                               (set_mapping m s)\<lparr>ctx_type := DNSTypeHost\<rparr>)
                        else if Qtype q = TypeCNAME then
                          let request = r\<lparr>Answer := cname_rr q (HostValue.Domain v) # Answer r\<rparr>
                          in Done (Inr (finish (pkgs su) r request), s\<lparr>ctx_type := DNSTypeHost\<rparr>)
                        else next r s)))"

text \<open>\<^verbatim>\<open>IsGlobalUnicast\<close> of \<^verbatim>\<open>net/netip\<close>.\<close>

definition IsGlobalUnicast :: "addr \<Rightarrow> bool" where
  "IsGlobalUnicast ip \<longleftrightarrow> IsValid ip \<and> ip \<noteq> V4 0 \<and> ip \<noteq> V4 (- 1) \<and> ip \<noteq> V6 0 ''''
     \<and> \<not> IsLoopback ip \<and> \<not> IsMulticast ip \<and> \<not> IsLinkLocalUnicast ip"

definition map_answer :: "('s, 'l, 'h, 'c) dns_setup \<Rightarrow> string \<Rightarrow> rr \<Rightarrow> (addr, string, 'l, 'h) LruCache \<Rightarrow>
    (addr, string, 'l, 'h) LruCache" where
  "map_answer su host ans m =
     (case answer_addr ans of
        None \<Rightarrow> m
      | Some ip \<Rightarrow>
          if \<not> IsValid ip then m
          else if \<not> IsGlobalUnicast ip then m
          else map_for su (Unmap ip) host (uint (if Ttl ans < 1 then 1 else Ttl ans)) m)"

definition has_global :: "rr \<Rightarrow> bool" where
  "has_global ans = (case answer_addr ans of None \<Rightarrow> False | Some ip \<Rightarrow> IsGlobalUnicast ip)"

definition withMapping :: "('s, 'l, 'h, 'c) dns_setup \<Rightarrow> ('s, 'l, 'h, 'c) handler \<Rightarrow> ('s, 'l, 'h, 'c) handler" where
  "withMapping su next r s =
     (case Question r of
        [] \<Rightarrow> Crash
      | q # qs \<Rightarrow>
          if \<not> isIPRequest q then next r s
          else bind_run (next r s) (\<lambda>(res, s).
            case res of
              Inl err \<Rightarrow> Done (Inl err, s)
            | Inr m \<Rightarrow>
                let host = trim_right ''.'' (q_Name q) in
                (case mapping (mapper s) of
                   Some c \<Rightarrow> Done (Inr m, set_mapping (Some (fold (map_answer su host) (Answer m) c)) s)
                 | None \<Rightarrow>
                     if list_ex has_global (Answer m) then Crash else Done (Inr m, s))))"

definition fake_reply :: "dns_pkgs \<Rightarrow> int \<Rightarrow> msg \<Rightarrow> rr \<Rightarrow> msg" where
  "fake_reply P ttl r ans = finish P (setMsgTTL (r\<lparr>Answer := [ans]\<rparr>) (word_of_int ttl)) r"

definition withFakeIP :: "('s, 'l, 'h, 'c) dns_setup \<Rightarrow> ('s, 'l, 'h, 'c) handler \<Rightarrow> ('s, 'l, 'h, 'c) handler" where
  "withFakeIP su next r s =
     (case Question r of
        [] \<Rightarrow> Crash
      | q # qs \<Rightarrow>
          let host = trim_right ''.'' (q_Name q); h = mapper s in
          case fakeIPSkipper h of
            None \<Rightarrow> Crash
          | Some skipper \<Rightarrow>
              bind_run (ShouldSkipped (fuel su) (rule_env su) (counters su) skipper host) (\<lambda>skip.
                if skip then next r s
                else if Qtype q = TypeA then
                  (case fakeIPPool h of
                     None \<Rightarrow> Done (Inr (handleMsgWithEmptyAnswer (pkgs su) r), s)
                   | Some pool \<Rightarrow>
                       let (ip, pool) = Lookup (fake_st su) host pool
                       in Done (Inr (fake_reply (pkgs su) (fakeIPTTL h) r (mk_rr (q_Name q) TypeA dnsDefaultTTL (RR_A (AsSlice ip)))),
                            s\<lparr>mapper := h\<lparr>fakeIPPool := Some pool\<rparr>, ctx_type := DNSTypeFakeIP\<rparr>))
                else if Qtype q = TypeAAAA then
                  (case fakeIPPool6 h of
                     None \<Rightarrow> Done (Inr (handleMsgWithEmptyAnswer (pkgs su) r), s)
                   | Some pool \<Rightarrow>
                       let (ip, pool) = Lookup (fake_st su) host pool
                       in Done (Inr (fake_reply (pkgs su) (fakeIPTTL h) r (mk_rr (q_Name q) TypeAAAA dnsDefaultTTL (RR_AAAA (AsSlice ip)))),
                            s\<lparr>mapper := h\<lparr>fakeIPPool6 := Some pool\<rparr>, ctx_type := DNSTypeFakeIP\<rparr>))
                else if Qtype q = TypeSVCB \<or> Qtype q = TypeHTTPS then
                  Done (Inr (handleMsgWithEmptyAnswer (pkgs su) r), s)
                else next r s))"

definition withResolver :: "('s, 'l, 'h, 'c) dns_setup \<Rightarrow> ('s, 'l, 'h, 'c) handler" where
  "withResolver su r s =
     (let s = s\<lparr>ctx_type := DNSTypeRaw\<rparr> in
      case Question r of
        [] \<Rightarrow> Crash
      | q # qs \<Rightarrow>
          if \<not> e_ipv6 (mapper s) \<and> Qtype q = TypeAAAA then Done (Inr (handleMsgWithEmptyAnswer (pkgs su) r), s)
          else
            let (res, rv) = ExchangeContext (pkgs su) (cache_ops su) (worlds su) r (resolver s);
                s = s\<lparr>resolver := rv\<rparr>
            in case res of
                 Inl err \<Rightarrow> Done (Inl err, s)
               | Inr m \<Rightarrow> Done (Inr ((SetRcode (pkgs su) m r (Rcode m))\<lparr>Authoritative := True\<rparr>), s))"

definition compose :: "(('s, 'l, 'h, 'c) handler \<Rightarrow> ('s, 'l, 'h, 'c) handler) list \<Rightarrow> ('s, 'l, 'h, 'c) handler \<Rightarrow>
    ('s, 'l, 'h, 'c) handler" where
  "compose middlewares endpoint = foldr (\<lambda>m h. m h) middlewares endpoint"

text \<open>The chain depends on the settings of the enhancer, which no handler changes.\<close>

definition newHandler :: "('s, 'l, 'h, 'c) dns_setup \<Rightarrow> bool \<Rightarrow> DNSMode \<Rightarrow> ('s, 'l, 'h, 'c) handler" where
  "newHandler su hosts mode =
     (let middlewares = (if hosts then [withHosts su] else []);
          middlewares = middlewares @ (if mode = DNSFakeIP then [withFakeIP su] else []);
          middlewares = middlewares @ (if mode \<noteq> DNSNormal then [withMapping su] else [])
      in compose middlewares (withResolver su))"

definition ServeMsg :: "('s, 'l, 'h, 'c) dns_setup \<Rightarrow> ('s, 'l, 'h, 'c) handler" where
  "ServeMsg su m s =
     (if length (Question m) = 0 then Done (Inl ''at least one question is required'', s)
      else newHandler su (useHosts (mapper s)) (e_mode (mapper s)) m (s\<lparr>ctx_type := ''''\<rparr>))"

text \<open>What the server writes; the compression of its encoding is left out.\<close>

definition ServeDNS :: "('s, 'l, 'h, 'c) dns_setup \<Rightarrow> msg \<Rightarrow> ('s, 'l, 'h, 'c) dns_state \<Rightarrow> (msg \<times> ('s, 'l, 'h, 'c) dns_state) run" where
  "ServeDNS su r s =
     bind_run (ServeMsg su r s) (\<lambda>(res, s).
       Done (case res of Inl err \<Rightarrow> SetRcode (pkgs su) zeroMsg r RcodeServerFailure | Inr m \<Rightarrow> m, s))"

section \<open>The functions of the resolver package\<close>

text \<open>\<^verbatim>\<open>DefaultHostMapper\<close> may be nil.\<close>

definition resolver_FakeIPEnabled :: "('s, 'l, 'h) ResolverEnhancer option \<Rightarrow> bool" where
  "resolver_FakeIPEnabled mp = (case mp of None \<Rightarrow> False | Some h \<Rightarrow> FakeIPEnabled h)"

definition resolver_MappingEnabled :: "('s, 'l, 'h) ResolverEnhancer option \<Rightarrow> bool" where
  "resolver_MappingEnabled mp = (case mp of None \<Rightarrow> False | Some h \<Rightarrow> MappingEnabled h)"

definition resolver_IsFakeIP :: "('s, 'l, 'h) ResolverEnhancer option \<Rightarrow> addr \<Rightarrow> bool" where
  "resolver_IsFakeIP mp ip = (case mp of None \<Rightarrow> False | Some h \<Rightarrow> IsFakeIP h ip)"

definition resolver_IsFakeBroadcastIP :: "('s, 'l, 'h) ResolverEnhancer option \<Rightarrow> addr \<Rightarrow> bool" where
  "resolver_IsFakeBroadcastIP mp ip = (case mp of None \<Rightarrow> False | Some h \<Rightarrow> IsFakeBroadcastIP h ip)"

definition resolver_IsExistFakeIP :: "'s store \<Rightarrow> ('s, 'l, 'h) ResolverEnhancer option \<Rightarrow> addr \<Rightarrow> bool" where
  "resolver_IsExistFakeIP st mp ip = (case mp of None \<Rightarrow> False | Some h \<Rightarrow> IsExistFakeIP st h ip)"

definition resolver_InsertHostByIP :: "(addr, string, 'l, 'h) lru_pkg \<Rightarrow> addr \<Rightarrow> string \<Rightarrow>
    ('s, 'l, 'h) ResolverEnhancer option \<Rightarrow> ('s, 'l, 'h) ResolverEnhancer option" where
  "resolver_InsertHostByIP pkg ip host mp = map_option (InsertHostByIP pkg ip host) mp"

definition resolver_FindHostByIP :: "'s store \<Rightarrow> (addr, string, 'l, 'h) lru_pkg \<Rightarrow> addr \<Rightarrow>
    ('s, 'l, 'h) ResolverEnhancer option \<Rightarrow> string option \<times> ('s, 'l, 'h) ResolverEnhancer option" where
  "resolver_FindHostByIP st pkg ip mp =
     (case mp of None \<Rightarrow> (None, None) | Some h \<Rightarrow> let (host, h) = FindHostByIP st pkg ip h in (host, Some h))"

definition resolver_FlushFakeIP :: "'s store \<Rightarrow> ('s, 'l, 'h) ResolverEnhancer option \<Rightarrow>
    (string list \<times> ('s, 'l, 'h) ResolverEnhancer option) run" where
  "resolver_FlushFakeIP st mp =
     (case mp of
        None \<Rightarrow> Done ([], None)
      | Some h \<Rightarrow> bind_run (enhancer_FlushFakeIP st h) (\<lambda>(errs, h). Done (errs, Some h)))"

definition resolver_StoreFakePoolState :: "'s store \<Rightarrow> ('s, 'l, 'h) ResolverEnhancer option \<Rightarrow>
    ('s, 'l, 'h) ResolverEnhancer option" where
  "resolver_StoreFakePoolState st mp = map_option (StoreFakePoolState st) mp"

end
