(* ===== verification/EnhancerLaws.thy ===== *)
theory EnhancerLaws
  imports DnsEnhancer DnsCache
begin

text \<open>
  What the handlers of the DNS service keep, whatever they are chained with: the settings of the enhancer,
  and the fake-IP pools up to the calls of their own interface (the locale \<open>dns_handler\<close>, which every
  chain that \<open>newHandler\<close> builds satisfies). With the laws of the pools and of the LRU cache this gives
  what a client of the DNS server and of the tunnel relies on.
\<close>

section \<open>The contract of a handler\<close>

definition pool_evolves :: "'s store \<Rightarrow> 's Pool option \<Rightarrow> 's Pool option \<Rightarrow> bool" where
  "pool_evolves st = rel_option (pool_step st)\<^sup>*\<^sup>*"

definition same_settings :: "('s, 'l, 'h) ResolverEnhancer \<Rightarrow> ('s, 'l, 'h) ResolverEnhancer \<Rightarrow> bool" where
  "same_settings e e' \<longleftrightarrow> e_ipv6 e' = e_ipv6 e \<and> e_mode e' = e_mode e \<and> fakeIPSkipper e' = fakeIPSkipper e
     \<and> fakeIPTTL e' = fakeIPTTL e \<and> useHosts e' = useHosts e"

text \<open>The calls on the mapping.\<close>

inductive map_step :: "('k, 'v, 'l, 'h) lru_pkg \<Rightarrow> ('k, 'v, 'l, 'h) LruCache \<Rightarrow> ('k, 'v, 'l, 'h) LruCache \<Rightarrow> bool" for pkg where
  SetWithExpire: "map_step pkg c (setWithExpire pkg t k v ex c)"
| Set: "map_step pkg c (lru_set pkg t k v c)"
| Get: "lru_Get pkg t k c = (r, c') \<Longrightarrow> map_step pkg c c'"

definition map_evolves :: "('k, 'v, 'l, 'h) lru_pkg \<Rightarrow> ('k, 'v, 'l, 'h) LruCache option \<Rightarrow> ('k, 'v, 'l, 'h) LruCache option \<Rightarrow> bool" where
  "map_evolves pkg = rel_option (map_step pkg)\<^sup>*\<^sup>*"

definition evolves :: "'s store \<Rightarrow> (addr, string, 'l, 'h) lru_pkg \<Rightarrow> ('s, 'l, 'h) ResolverEnhancer \<Rightarrow>
    ('s, 'l, 'h) ResolverEnhancer \<Rightarrow> bool" where
  "evolves st pkg e e' \<longleftrightarrow> same_settings e e' \<and> pool_evolves st (fakeIPPool e) (fakeIPPool e')
     \<and> pool_evolves st (fakeIPPool6 e) (fakeIPPool6 e') \<and> map_evolves pkg (mapping e) (mapping e')"

lemma map_evolves_refl [simp, intro]: "map_evolves pkg p p"
  by (cases p) (simp_all add: map_evolves_def)

lemma map_evolves_trans: "map_evolves pkg p q \<Longrightarrow> map_evolves pkg q r \<Longrightarrow> map_evolves pkg p r"
  by (cases p; cases q; cases r) (simp_all add: map_evolves_def)

lemma map_evolves_step: "map_step pkg p q \<Longrightarrow> map_evolves pkg (Some p) (Some q)"
  by (simp add: map_evolves_def)

lemma pool_evolves_refl [simp, intro]: "pool_evolves st p p"
  by (cases p) (simp_all add: pool_evolves_def)

lemma pool_evolves_trans: "pool_evolves st p q \<Longrightarrow> pool_evolves st q r \<Longrightarrow> pool_evolves st p r"
  by (cases p; cases q; cases r) (simp_all add: pool_evolves_def)

lemma pool_evolves_step: "pool_step st p q \<Longrightarrow> pool_evolves st (Some p) (Some q)"
  by (simp add: pool_evolves_def)

lemma evolves_refl [simp, intro]: "evolves st pkg e e"
  by (simp add: evolves_def same_settings_def)

lemma evolves_trans: "evolves st pkg e e' \<Longrightarrow> evolves st pkg e' e'' \<Longrightarrow> evolves st pkg e e''"
  by (auto simp: evolves_def same_settings_def intro: pool_evolves_trans map_evolves_trans)

lemma evolves_mapping:
  "evolves st pkg e e' \<Longrightarrow> map_evolves pkg (mapping e') m \<Longrightarrow> evolves st pkg e (e'\<lparr>mapping := m\<rparr>)"
  by (auto simp: evolves_def same_settings_def intro: map_evolves_trans)

lemma map_for_step: "map_step (map_pkg su) c (map_for su ip host secs c)"
  by (simp add: map_for_def Let_def map_step.SetWithExpire)

lemma host_steps_evolve:
  "fold (host_step su q host) ips (ans, m) = (ans', m') \<Longrightarrow> map_evolves (map_pkg su) m m'"
proof (induction ips arbitrary: ans m)
  case (Cons ip ips)
  obtain ans1 m1 where 1: "host_step su q host ip (ans, m) = (ans1, m1)" by fastforce
  then have "map_evolves (map_pkg su) m m1"
    using map_evolves_step [OF map_for_step [of su _ ip host 10]] by (cases m) (auto simp: host_step_def split: if_splits)
  moreover have "map_evolves (map_pkg su) m1 m'" using Cons 1 by simp
  ultimately show ?case by (rule map_evolves_trans)
qed simp

lemma answers_evolve: "map_evolves (map_pkg su) (Some c) (Some (fold (map_answer su host) ans c))"
proof (induction ans arbitrary: c)
  case (Cons r ans)
  have "map_evolves (map_pkg su) (Some c) (Some (map_answer su host r c))"
    using map_evolves_step [OF map_for_step] by (auto simp: map_answer_def split: option.split)
  with Cons show ?case by (auto intro: map_evolves_trans)
qed simp

lemma mapper_set_mapping [simp]: "mapper (set_mapping m s) = (mapper s)\<lparr>mapping := m\<rparr>"
  by (simp add: set_mapping_def)

locale dns_handler =
  fixes su :: "('s, 'l, 'h, 'c) dns_setup" and h :: "('s, 'l, 'h, 'c) handler"
  assumes evolves: "h r s = Done (res, s') \<Longrightarrow> evolves (fake_st su) (map_pkg su) (mapper s) (mapper s')"

lemma withResolver_handler: "dns_handler su (withResolver su)"
  by unfold_locales (auto simp: withResolver_def Let_def split: list.splits if_splits prod.splits sum.splits)

context dns_handler begin

lemma hosts_handler: "dns_handler su (withHosts su h)"
proof
  fix r s res s'
  assume a: "withHosts su h r s = Done (res, s')"
  then obtain q qs where q: "Question r = q # qs" by (cases "Question r") (simp_all add: withHosts_def)
  show "evolves (fake_st su) (map_pkg su) (mapper s) (mapper s')"
  proof (cases "isIPRequest q")
    case True
    let ?search = "Hosts_Search (fuel su) (hosts_cfg su) (DefaultHosts su) (trim_right ''.'' (q_Name q))
      (Qtype q \<noteq> TypeA \<and> Qtype q \<noteq> TypeAAAA)"
    obtain rec ok where f: "?search = Done (rec, ok)"
      using a q True by (cases ?search) (auto simp: withHosts_def Let_def)
    show ?thesis
    proof (cases rec)
      case None
      with a q True f show ?thesis by (auto simp: withHosts_def Let_def evolves split: if_splits)
    next
      case (Some v)
      show ?thesis
      proof (cases ok)
        case True
        with Some a q \<open>isIPRequest q\<close> f show ?thesis
          by (auto simp: withHosts_def Let_def evolves split: if_splits prod.splits
              intro!: evolves_mapping dest!: host_steps_evolve)
      next
        case False
        show ?thesis
        proof (cases "IsDomain v")
          case True
          let ?r = "r\<lparr>Question := q\<lparr>q_Name := HostValue.Domain v @ ''.''\<rparr> # qs\<rparr>"
          obtain res1 s1 where h: "h ?r s = Done (res1, s1)"
            using True False Some a q \<open>isIPRequest q\<close> f by (cases "h ?r s") (auto simp: withHosts_def Let_def)
          with True False Some a q \<open>isIPRequest q\<close> f have "s' = s1"
            by (cases res1) (auto simp: withHosts_def Let_def)
          with evolves [OF h] show ?thesis by simp
        next
          case F: False
          with False Some a q \<open>isIPRequest q\<close> f show ?thesis by (auto simp: withHosts_def Let_def evolves)
        qed
      qed
    qed
  qed (use a q in \<open>auto simp: withHosts_def Let_def evolves\<close>)
qed

lemma mapping_handler: "dns_handler su (withMapping su h)"
proof
  fix r s res s'
  assume a: "withMapping su h r s = Done (res, s')"
  then obtain q qs where q: "Question r = q # qs" by (cases "Question r") (simp_all add: withMapping_def)
  show "evolves (fake_st su) (map_pkg su) (mapper s) (mapper s')"
  proof (cases "isIPRequest q")
    case True
    then obtain res1 s1 where h: "h r s = Done (res1, s1)"
      using a q by (cases "h r s") (auto simp: withMapping_def)
    note e = evolves [OF this]
    show ?thesis
    proof (cases res1)
      case (Inl err)
      with a q h True e show ?thesis by (simp add: withMapping_def)
    next
      case (Inr m)
      with a q h True e show ?thesis
        by (cases "mapping (mapper s1)") (auto simp: withMapping_def Let_def answers_evolve intro!: evolves_mapping split: if_splits)
    qed
  qed (use a q in \<open>auto simp: withMapping_def evolves\<close>)
qed

lemma fakeip_handler: "dns_handler su (withFakeIP su h)"
proof
  fix r s res s'
  assume a: "withFakeIP su h r s = Done (res, s')"
  have step: "pool_evolves (fake_st su) (Some p) (Some p')" if "Lookup (fake_st su) host p = (ip, p')" for host p ip p'
    by (rule pool_evolves_step) (rule pool_step.Lookup [OF that])
  show "evolves (fake_st su) (map_pkg su) (mapper s) (mapper s')"
    using a by (auto simp: withFakeIP_def Let_def bind_run_Done_eq evolves
        split: list.splits if_splits prod.splits option.splits)
      (auto simp: evolves_def same_settings_def step)
qed

end

lemma newHandler_handler: "dns_handler su (newHandler su hosts mode)"
  by (auto simp: newHandler_def compose_def Let_def
      intro!: withResolver_handler dns_handler.mapping_handler dns_handler.fakeip_handler dns_handler.hosts_handler)

interpretation service: dns_handler su "newHandler su hosts mode" for su hosts mode
  by (rule newHandler_handler)

text \<open>The calls that the DNS server and the tunnel make.\<close>

inductive dns_step :: "('s, 'l, 'h, 'c) dns_setup \<Rightarrow> ('s, 'l, 'h, 'c) dns_state \<Rightarrow> ('s, 'l, 'h, 'c) dns_state \<Rightarrow> bool" where
  serve: "ServeMsg (su\<lparr>worlds := ws\<rparr>) m s = Done (res, s') \<Longrightarrow> dns_step su s s'"
| find: "FindHostByIP (fake_st su) (map_pkg su) ip (mapper s) = (host, e) \<Longrightarrow> dns_step su s (s\<lparr>mapper := e\<rparr>)"
| insert: "dns_step su s (s\<lparr>mapper := InsertHostByIP (map_pkg su) ip host (mapper s)\<rparr>)"
| flush: "enhancer_FlushFakeIP (fake_st su) (mapper s) = Done (errs, e) \<Longrightarrow> dns_step su s (s\<lparr>mapper := e\<rparr>)"

lemma pool_find_evolves: "pool_find st ip pool = (host, pool') \<Longrightarrow> pool_evolves st pool pool'"
  by (cases pool) (auto simp: pool_find_def intro!: pool_evolves_step intro: pool_step.LookBack split: prod.splits)

lemma flush_pool_evolves: "flush_pool st pool = Done (errs, pool') \<Longrightarrow> pool_evolves st pool pool'"
  by (cases pool) (auto simp: flush_pool_def intro!: pool_evolves_step intro: pool_step.Flush split: outcome.splits)

lemma FindHostByIP_evolves: "FindHostByIP st pkg ip e = (host, e') \<Longrightarrow> evolves st pkg e e'"
  by (auto simp: FindHostByIP_def Let_def evolves_def same_settings_def dest!: pool_find_evolves
      intro!: map_evolves_step intro: map_step.Get split: prod.splits option.splits)

lemma ServeMsg_evolves: "ServeMsg su m s = Done (res, s') \<Longrightarrow> evolves (fake_st su) (map_pkg su) (mapper s) (mapper s')"
  by (auto simp: ServeMsg_def dest!: service.evolves split: if_splits)

lemma dns_step_evolves: "dns_step su s s' \<Longrightarrow> evolves (fake_st su) (map_pkg su) (mapper s) (mapper s')"
proof (induction rule: dns_step.induct)
  case (serve su ws m s res s')
  from ServeMsg_evolves [OF this] show ?case by simp
next
  case (find su ip s host e)
  then show ?case by (auto dest: FindHostByIP_evolves)
next
  case (insert su s ip host)
  then show ?case
    by (auto simp: InsertHostByIP_def evolves_def same_settings_def intro!: map_evolves_step map_step.Set split: option.split)
next
  case (flush su s errs e)
  then show ?case
    by (auto simp: enhancer_FlushFakeIP_def bind_run_Done_eq evolves_def same_settings_def dest!: flush_pool_evolves)
qed

lemma dns_steps_evolve: "(dns_step su)\<^sup>*\<^sup>* s s' \<Longrightarrow> evolves (fake_st su) (map_pkg su) (mapper s) (mapper s')"
  by (induction rule: rtranclp_induct) (auto dest: dns_step_evolves intro: evolves_trans)

section \<open>Addresses in answers\<close>

lemma mod_split: "u mod (256 * b) = (u div b) mod 256 * b + u mod b" for u b :: nat
  by (simp add: mod_mult2_eq mult.commute add.commute)

lemma foldl_word_bytes:
  "foldl (\<lambda>n b. n * 256 + unat b) a (word_bytes n w) = a * 256 ^ n + unat w mod 256 ^ n"
proof (induction n arbitrary: a)
  case (Suc n)
  have w: "word_bytes (Suc n) w = ucast (drop_bit (8 * n) w) # word_bytes n w" by (simp add: word_bytes_def)
  have p: "(2::nat) ^ (8 * n) = 256 ^ n" by (simp add: power_mult)
  have "unat (drop_bit (8 * n) w) = unat w div 256 ^ n"
    unfolding unat_drop_bit_eq by (simp only: drop_bit_eq_div p)
  then have "unat (ucast (drop_bit (8 * n) w) :: 8 word) = unat w div 256 ^ n mod 256"
    by (simp add: unsigned_ucast_eq take_bit_eq_mod)
  then show ?case using Suc mod_split [of "unat w" "256 ^ n"] by (simp add: w algebra_simps)
qed (simp add: word_bytes_def)

lemma foldl_word:
  "foldl (\<lambda>w b. w * 256 + ucast b) (word_of_nat a :: 'w::len word) bs = word_of_nat (foldl (\<lambda>n b. n * 256 + unat b) a bs)"
  for bs :: "8 word list"
proof (induction bs arbitrary: a)
  case (Cons b bs)
  have b: "(word_of_nat a :: 'w word) * 256 + ucast b = word_of_nat (a * 256 + unat b)" by simp
  show ?case unfolding foldl_Cons b by (rule Cons)
qed simp

lemma AddrFromSlice_AsSlice: "AddrFromSlice (AsSlice (V4 w)) = V4 w" "AddrFromSlice (AsSlice (V6 v [])) = V6 v []"
proof -
  have "unat w < 256 ^ 4" "unat v < 256 ^ 16" using unsigned_less [of w] unsigned_less [of v] by simp_all
  then show "AddrFromSlice (AsSlice (V4 w)) = V4 w" "AddrFromSlice (AsSlice (V6 v [])) = V6 v []"
    using foldl_word [of 0 "word_bytes 4 w", where 'w = 32] foldl_word [of 0 "word_bytes 16 v", where 'w = 128]
    by (simp_all add: AddrFromSlice_def AsSlice_def foldl_word_bytes)
qed

section \<open>Fake addresses\<close>

definition not_in_hosts :: "('s, 'l, 'h, 'c) dns_setup \<Rightarrow> ('s, 'l, 'h, 'c) dns_state \<Rightarrow> question \<Rightarrow> bool" where
  "not_in_hosts su s q \<longleftrightarrow> \<not> useHosts (mapper s)
     \<or> Hosts_Search (fuel su) (hosts_cfg su) (DefaultHosts su) (trim_right ''.'' (q_Name q))
         (Qtype q \<noteq> TypeA \<and> Qtype q \<noteq> TypeAAAA) = Done (None, False)"

lemma withHosts_absent:
  "Question r = q # qs \<Longrightarrow> not_in_hosts su s q \<Longrightarrow> useHosts (mapper s) \<Longrightarrow> mapper s' = mapper s \<Longrightarrow>
   withHosts su h r s' = h r s'"
  by (auto simp: withHosts_def not_in_hosts_def Let_def)

definition not_skipped :: "('s, 'l, 'h, 'c) dns_setup \<Rightarrow> ('s, 'l, 'h, 'c) dns_state \<Rightarrow> string \<Rightarrow> bool" where
  "not_skipped su s host \<longleftrightarrow> (\<exists>sk. fakeIPSkipper (mapper s) = Some sk
     \<and> ShouldSkipped (fuel su) (rule_env su) (counters su) sk host = Done False)"

lemma withFakeIP_A:
  assumes "Question r = q # qs" "Qtype q = TypeA" "not_skipped su s (trim_right ''.'' (q_Name q))"
    and "fakeIPPool (mapper s) = Some p" "Lookup (fake_st su) (trim_right ''.'' (q_Name q)) p = (ip, p')"
  shows "withFakeIP su h r s =
     Done (Inr (fake_reply (pkgs su) (fakeIPTTL (mapper s)) r (mk_rr (q_Name q) TypeA dnsDefaultTTL (RR_A (AsSlice ip)))),
       s\<lparr>mapper := (mapper s)\<lparr>fakeIPPool := Some p'\<rparr>, ctx_type := DNSTypeFakeIP\<rparr>)"
  using assms by (auto simp: withFakeIP_def not_skipped_def Let_def)

lemma ServeMsg_fake:
  assumes q: "Question r = q # qs" "Qtype q = TypeA" and mode: "e_mode (mapper s) = DNSFakeIP"
    and free: "not_in_hosts su s q" "not_skipped su s (trim_right ''.'' (q_Name q))"
    and p: "fakeIPPool (mapper s) = Some p" "Lookup (fake_st su) (trim_right ''.'' (q_Name q)) p = (ip, p')"
  shows "ServeMsg su r s =
     Done (Inr (fake_reply (pkgs su) (fakeIPTTL (mapper s)) r (mk_rr (q_Name q) TypeA dnsDefaultTTL (RR_A (AsSlice ip)))),
       s\<lparr>mapper := (mapper s)\<lparr>fakeIPPool := Some p'\<rparr>, ctx_type := DNSTypeFakeIP\<rparr>)"
proof -
  let ?s = "s\<lparr>ctx_type := ''''\<rparr>"
  have "not_skipped su ?s (trim_right ''.'' (q_Name q))" "fakeIPPool (mapper ?s) = Some p"
    using free(2) p(1) by (simp_all add: not_skipped_def)
  note f = withFakeIP_A [OF q this p(2)]
  have "withHosts su (withFakeIP su h) r ?s = withFakeIP su h r ?s" if "useHosts (mapper s)" for h
    using withHosts_absent [OF q(1) free(1) that] by simp
  then show ?thesis using f mode q(1) by (simp add: ServeMsg_def newHandler_def compose_def Let_def)
qed

lemma FindHostByIP_pool:
  assumes "fakeIPPool e = Some p" "fst (LookBack st ip p) = Some host"
  shows "fst (FindHostByIP st pkg ip e) = Some host"
  using assms by (auto simp: FindHostByIP_def pool_find_def Let_def split: prod.splits)

text \<open>The service after a new pool was put into an enhancer in fake-IP mode.\<close>

definition fake_service :: "('s, 'l, 'h, 'c) dns_setup \<Rightarrow> 's Pool \<Rightarrow> ('s, 'l, 'h, 'c) dns_state \<Rightarrow> bool" where
  "fake_service su p0 s \<longleftrightarrow> (\<exists>s0 cfg. mapper s0 = NewEnhancer (map_pkg su) cfg \<and> EnhancedMode cfg = DNSFakeIP
     \<and> FakeIPPool cfg = Some p0 \<and> (dns_step su)\<^sup>*\<^sup>* s0 s)"

lemma fake_service_pool:
  assumes "fake_service su p0 s"
  obtains p where "e_mode (mapper s) = DNSFakeIP" "fakeIPPool (mapper s) = Some p" "(pool_step (fake_st su))\<^sup>*\<^sup>* p0 p"
proof -
  obtain s0 cfg where c: "mapper s0 = NewEnhancer (map_pkg su) cfg" "EnhancedMode cfg = DNSFakeIP"
    "FakeIPPool cfg = Some p0" "(dns_step su)\<^sup>*\<^sup>* s0 s"
    using assms unfolding fake_service_def by (elim exE conjE) (rule that)
  then have s0: "e_mode (mapper s0) = DNSFakeIP" "fakeIPPool (mapper s0) = Some p0" "(dns_step su)\<^sup>*\<^sup>* s0 s"
    by (simp_all add: NewEnhancer_def Let_def)
  have e: "evolves (fake_st su) (map_pkg su) (mapper s0) (mapper s)" by (rule dns_steps_evolve [OF s0(3)])
  with s0 obtain p where "fakeIPPool (mapper s) = Some p" "(pool_step (fake_st su))\<^sup>*\<^sup>* p0 p"
    by (cases "fakeIPPool (mapper s)") (auto simp: evolves_def pool_evolves_def)
  with s0 e that show thesis by (simp add: evolves_def same_settings_def)
qed

context dns_laws begin

lemma fake_reply_answer: "Answer (fake_reply P ttl r ans) = [ans\<lparr>Ttl := word_of_int ttl\<rparr>]"
  by (simp add: fake_reply_def finish_def SetRcode setMsgTTL_def)

end

lemma fake_dns:
  assumes laws: "list_laws p1 e1 o1" "list_laws p2 e2 o2" "dns_laws (pkgs su)"
    and su: "fake_st su = memory_store p1 p2"
    and pool: "prefix_contains pfx (lastIP pfx)" "Is4 (prefix_addr pfx)"
      "pool_New lastIP (memory_store p1 p2) (newMemoryStore p1 p2 n) pfx = Value p0" "fake_service su p0 s"
    and q: "Question r = q # qs" "Qtype q = TypeA"
    and free: "not_in_hosts su s q" "not_skipped su s (trim_right ''.'' (q_Name q))"
  shows "\<exists>reply s' ip. ServeMsg su r s = Done (Inr reply, s') \<and> Is4 ip \<and> answer_ips (Answer reply) = [ip]
     \<and> Answer reply = [mk_rr (q_Name q) TypeA (word_of_int (fakeIPTTL (mapper s))) (RR_A (AsSlice ip))]
     \<and> IsFakeIP (mapper s') ip \<and> MappingEnabled (mapper s')
     \<and> fst (FindHostByIP (fake_st su) (map_pkg su) ip (mapper s')) = Some (to_lower (trim_right ''.'' (q_Name q)))"
proof -
  let ?host = "trim_right ''.'' (q_Name q)"
  obtain p where p: "e_mode (mapper s) = DNSFakeIP" "fakeIPPool (mapper s) = Some p"
    "(pool_step (memory_store p1 p2))\<^sup>*\<^sup>* p0 p"
    using fake_service_pool [OF pool(4)] unfolding su by metis
  obtain ip p' where l: "Lookup (memory_store p1 p2) ?host p = (ip, p')" by fastforce
  have mc: "memory_caches p1 e1 o1 p2 e2 o2" using laws by (simp add: memory_caches_def lru_list_def)
  obtain six h k where r0: "pool_holds (mem_ok e1 o1 e2 o2) (mem_bind e1) six h k p0" "ipnet p0 = pfx"
    "\<forall>ip. in_pool six h k ip \<longrightarrow> prefix_contains pfx ip"
    by (rule memory_caches.New_inv [OF mc pool(1,3)])
  have p1: "pool_holds (mem_ok e1 o1 e2 o2) (mem_bind e1) six h k p" "ipnet p = pfx"
    using memory_caches.mem_pool_facts(1) [OF mc p(3) r0(1)] r0(2) by simp_all
  have f: "in_pool six h k ip" "pool_range six h k p'" "fst (LookBack (memory_store p1 p2) ip p') = Some (to_lower ?host)"
    using memory_caches.mem_pool_facts(2) [OF mc p1(1) l] by blast+
  have pfx: "ipnet p' = pfx" using pool_step_ipnet [OF pool_step.Lookup [OF l]] p1(2) by simp
  have c: "prefix_contains pfx ip" using f(1) r0(3) by blast
  then obtain w where w: "ip = V4 w" using pool(2) by (auto simp: prefix_contains_def Is4_def split: addr.splits)
  let ?e = "(mapper s)\<lparr>fakeIPPool := Some p'\<rparr>"
  have "IsFakeIP ?e ip" "MappingEnabled ?e"
    using c pfx in_pool_apart [OF f(2,1)] p(1)
    by (auto simp: IsFakeIP_def FakeIPEnabled_def MappingEnabled_def in_some_def fake_of_def IPNet_def Gateway_def Broadcast_def)
  moreover have "fst (FindHostByIP (fake_st su) (map_pkg su) ip ?e) = Some (to_lower ?host)"
    using f(3) unfolding su by (intro FindHostByIP_pool) simp_all
  moreover have "Answer (fake_reply (pkgs su) ttl r ans) = [ans\<lparr>Ttl := word_of_int ttl\<rparr>]" for ttl ans
    by (rule dns_laws.fake_reply_answer [OF laws(3)])
  moreover have "ServeMsg su r s =
     Done (Inr (fake_reply (pkgs su) (fakeIPTTL (mapper s)) r (mk_rr (q_Name q) TypeA dnsDefaultTTL (RR_A (AsSlice ip)))),
       s\<lparr>mapper := ?e, ctx_type := DNSTypeFakeIP\<rparr>)"
    using ServeMsg_fake [OF q p(1) free p(2)] l unfolding su by blast
  ultimately show ?thesis
    using w by (simp add: mk_rr_def answer_addr_def AddrFromSlice_AsSlice Is4_def Unmap_def)
qed

section \<open>Mapped addresses\<close>

text \<open>The \<open>j\<close> most recent entries hold all keys of \<open>S\<close>, with one value.\<close>

definition all_recent :: "'k set \<Rightarrow> 'v \<Rightarrow> nat \<Rightarrow> ('k, 'v) entry list \<Rightarrow> bool" where
  "all_recent S v j es \<longleftrightarrow> (\<exists>xs ys. es = xs @ ys \<and> S \<subseteq> key ` set ys \<and> (\<forall>e\<in>set ys. val e = v) \<and> length ys \<le> j)"

lemma all_recent_set:
  assumes "all_recent S v j es" "int j < cap"
  shows "all_recent (insert k S) v (Suc j) (spec_set 0 cap stale t k v ex es)"
proof -
  let ?e = "\<lparr>key = k, val = v, expires = ex\<rparr>"
  obtain xs ys where es: "es = xs @ ys" "S \<subseteq> key ` set ys" "\<forall>e\<in>set ys. val e = v" "length ys \<le> j"
    using assms(1) unfolding all_recent_def by blast
  let ?ys = "remove_key k ys @ [?e]"
  have ys: "insert k S \<subseteq> key ` set ?ys" "\<forall>e\<in>set ?ys. val e = v" "length ?ys \<le> Suc j"
    using es(2-4) le_trans [OF length_filter_le es(4)] by (auto simp: remove_key_def)
  have "\<exists>xs'. spec_set 0 cap stale t k v ex es = xs' @ ?ys"
  proof (cases "lookup_key k es = None \<and> cap > 0 \<and> int (length (remove_key k es @ [?e])) > cap")
    case True
    then have "remove_key k xs \<noteq> []" using ys(3) assms(2) es(1) by (auto simp: remove_key_def)
    then have "spec_set 0 cap stale t k v ex es = tl (remove_key k xs) @ ?ys"
      using True es(1) by (simp add: spec_set_def spec_oldest_def Let_def remove_key_def)
    then show ?thesis by blast
  next
    case False
    then have "spec_set 0 cap stale t k v ex es = remove_key k xs @ ?ys"
      using es(1) by (simp only: spec_set_def spec_oldest_def Let_def if_not_P) (simp add: remove_key_def)
    then show ?thesis by blast
  qed
  with ys show ?thesis unfolding all_recent_def by blast
qed

lemma all_recent_lookup:
  assumes "all_recent S v j es" "k \<in> S" "distinct (map key es)"
  shows "\<exists>e. lookup_key k es = Some e \<and> val e = v"
proof -
  obtain xs ys e where es: "es = xs @ ys" "e \<in> set ys" "key e = k" "val e = v"
    using assms(1,2) unfolding all_recent_def by blast
  have "lookup_key (key e) zs = Some e" if "e \<in> set zs" "distinct (map key zs)" for zs
    using that by (induction zs) auto
  with es assms(3) show ?thesis by auto
qed

context lru_list begin

lemma map_step_keeps: "map_step pkg c c' \<Longrightarrow> linked c \<Longrightarrow> linked c' \<and> cfg c' = cfg c"
proof (induction rule: map_step.induct)
  case (SetWithExpire c t k v ex)
  then show ?case using setWithExpire_cfg by blast
next
  case (Set c t k v)
  then show ?case using lru_set_cfg by blast
next
  case (Get t k c r c')
  then show ?case using lru_get_cfg [of c t k] by (auto simp: lru_Get_def split: prod.splits)
qed

lemma map_steps_keep: "(map_step pkg)\<^sup>*\<^sup>* c c' \<Longrightarrow> linked c \<Longrightarrow> linked c' \<and> cfg c' = cfg c"
  by (induction rule: rtranclp_induct) (auto dest: map_step_keeps)

lemma recent_Get:
  assumes "linked c" "maxAge c = 0" "all_recent S v j (view c)" "k \<in> S"
  shows "fst (lru_Get pkg t k c) = Some v"
proof -
  have d: "distinct (map key (view c))" using assms(1) by (simp add: linked_def view_def o_def)
  obtain e where "lookup_key k (view c) = Some e" "val e = v" using all_recent_lookup [OF assms(3,4) d] by blast
  then show ?thesis using lru_get_cfg [OF assms(1), of t k] assms(2)
    by (auto simp: lru_Get_def cfg_def spec_get_def split: prod.splits)
qed

end

locale host_map = lru_list pkg elems ok
  for pkg :: "(addr, string, 'l, 'h) lru_pkg" and elems ok
begin

lemma map_answers_recent:
  fixes su :: "('s, 'l, 'h, 'c) dns_setup"
  assumes su: "map_pkg su = pkg" and "linked c" "maxAge c = 0" "int (j + length ans) \<le> maxSize c"
    and "all_recent S host j (view c)"
  shows "\<exists>S'. S \<subseteq> S' \<and> (\<forall>r\<in>set ans. \<forall>ip. answer_addr r = Some ip \<longrightarrow> IsGlobalUnicast ip \<longrightarrow> Unmap ip \<in> S')
    \<and> all_recent S' host (j + length ans) (view (fold (map_answer su host) ans c))
    \<and> linked (fold (map_answer su host) ans c) \<and> maxAge (fold (map_answer su host) ans c) = 0"
  using assms(2-)
proof (induction ans arbitrary: c S j)
  case (Cons r ans)
  have more: "all_recent S host (Suc j) (view c)"
    using Cons.prems(4) unfolding all_recent_def by (meson le_SucI)
  show ?case
  proof (cases "\<exists>ip. answer_addr r = Some ip \<and> IsGlobalUnicast ip")
    case False
    then have "map_answer su host r c = c" by (auto simp: map_answer_def split: option.split)
    moreover have sz: "int (Suc j + length ans) \<le> maxSize c" using Cons.prems(3) by simp
    from Cons.IH [OF Cons.prems(1,2) sz more] obtain S' where "S \<subseteq> S'"
      "\<forall>r\<in>set ans. \<forall>ip. answer_addr r = Some ip \<longrightarrow> IsGlobalUnicast ip \<longrightarrow> Unmap ip \<in> S'"
      "all_recent S' host (Suc j + length ans) (view (fold (map_answer su host) ans c))"
      "linked (fold (map_answer su host) ans c)" "maxAge (fold (map_answer su host) ans c) = 0"
      by (elim exE conjE) (rule that)
    ultimately show ?thesis using False by (intro exI [of _ S']) auto
  next
    case True
    then obtain ip where ip: "answer_addr r = Some ip" "IsGlobalUnicast ip" by blast
    let ?c = "map_answer su host r c"
    have "IsValid ip" using ip(2) by (simp add: IsGlobalUnicast_def)
    then obtain t ex where c: "?c = setWithExpire pkg t (Unmap ip) host ex c"
      using ip by (auto simp: map_answer_def map_for_def su Let_def)
    have k: "linked ?c" "cfg ?c = cfg c" "view ?c = spec_set 0 (maxSize c) (staleReturn c) t (Unmap ip) host ex (view c)"
      using setWithExpire_cfg [OF Cons.prems(1), of t "Unmap ip" host ex] Cons.prems(2) by (simp_all add: c cfg_def)
    have rec: "all_recent (insert (Unmap ip) S) host (Suc j) (view ?c)"
      unfolding k(3) using Cons.prems(3,4) by (intro all_recent_set) simp_all
    have sz: "maxAge ?c = 0" "int (Suc j + length ans) \<le> maxSize ?c" using k(2) Cons.prems(2,3) by (simp_all add: cfg_def)
    from Cons.IH [OF k(1) sz rec] obtain S' where S': "insert (Unmap ip) S \<subseteq> S'"
      "\<forall>r\<in>set ans. \<forall>ip. answer_addr r = Some ip \<longrightarrow> IsGlobalUnicast ip \<longrightarrow> Unmap ip \<in> S'"
      "all_recent S' host (Suc j + length ans) (view (fold (map_answer su host) ans ?c))"
      "linked (fold (map_answer su host) ans ?c)" "maxAge (fold (map_answer su host) ans ?c) = 0"
      by (elim exE conjE) (rule that)
    with ip(1) show ?thesis by (intro exI [of _ S']) auto
  qed
qed auto

text \<open>What is kept of a mapping that \<open>NewEnhancer\<close> made.\<close>

lemma new_map_evolves:
  assumes "map_evolves pkg (Some (lru_New pkg 0 n False False False)) m"
  obtains c where "m = Some c" "linked c" "maxAge c = 0" "maxSize c = n"
proof -
  obtain c where c: "m = Some c" "(map_step pkg)\<^sup>*\<^sup>* (lru_New pkg 0 n False False False) c"
    using assms by (cases m) (auto simp: map_evolves_def)
  have "linked c \<and> cfg c = cfg (lru_New pkg 0 n False False False)"
    using map_steps_keep [OF c(2)] lru_New_cfg by blast
  with lru_New_cfg [of 0 n False False False] c(1) that show thesis by (auto simp: cfg_def)
qed

end

interpretation slice_map: host_map slice_pkg snd slice_ok
  by unfold_locales

text \<open>The service in mapping mode, without fake addresses.\<close>

definition mapping_service :: "('s, 'l, 'h, 'c) dns_setup \<Rightarrow> ('s, 'l, 'h, 'c) dns_state \<Rightarrow> bool" where
  "mapping_service su s \<longleftrightarrow> (\<exists>s0 cfg. mapper s0 = NewEnhancer (map_pkg su) cfg \<and> EnhancedMode cfg = DNSMapping
     \<and> FakeIPPool cfg = None \<and> FakeIPPool6 cfg = None \<and> (dns_step su)\<^sup>*\<^sup>* s0 s)"

lemma mapping_service_state:
  assumes "mapping_service su s" "evolves (fake_st su) (map_pkg su) (mapper s) e"
  shows "e_mode e = DNSMapping" "fakeIPPool e = None" "fakeIPPool6 e = None"
    "map_evolves (map_pkg su) (Some (lru_New (map_pkg su) 0 4096 False False False)) (mapping e)"
proof -
  obtain s0 cfg where c: "mapper s0 = NewEnhancer (map_pkg su) cfg" "EnhancedMode cfg = DNSMapping"
    "FakeIPPool cfg = None" "FakeIPPool6 cfg = None" "(dns_step su)\<^sup>*\<^sup>* s0 s"
    using assms(1) unfolding mapping_service_def by (elim exE conjE) (rule that)
  have "evolves (fake_st su) (map_pkg su) (mapper s0) e"
    using evolves_trans [OF dns_steps_evolve [OF c(5)] assms(2)] .
  with c show "e_mode e = DNSMapping" "fakeIPPool e = None" "fakeIPPool6 e = None"
    "map_evolves (map_pkg su) (Some (lru_New (map_pkg su) 0 4096 False False False)) (mapping e)"
    by (auto simp: evolves_def same_settings_def pool_evolves_def NewEnhancer_def Let_def split: if_splits)
qed

text \<open>What the static hosts make of a question: they answer it, or the question goes on, perhaps under another name.\<close>

definition hosts_found :: "('s, 'l, 'h, 'c) dns_setup \<Rightarrow> question \<Rightarrow> (HostValue option \<times> bool) run" where
  "hosts_found su q = Hosts_Search (fuel su) (hosts_cfg su) (DefaultHosts su) (trim_right ''.'' (q_Name q))
     (Qtype q \<noteq> TypeA \<and> Qtype q \<noteq> TypeAAAA)"

definition hosts_answer :: "('s, 'l, 'h, 'c) dns_setup \<Rightarrow> ('s, 'l, 'h, 'c) dns_state \<Rightarrow> question \<Rightarrow> bool" where
  "hosts_answer su s q \<longleftrightarrow> useHosts (mapper s) \<and> (\<exists>rec. hosts_found su q = Done (rec, True))"

definition asked_name :: "('s, 'l, 'h, 'c) dns_setup \<Rightarrow> ('s, 'l, 'h, 'c) dns_state \<Rightarrow> question \<Rightarrow> string" where
  "asked_name su s q =
     (if useHosts (mapper s) then
        (case hosts_found su q of
           Done (Some v, False) \<Rightarrow> if IsDomain v then HostValue.Domain v @ ''.'' else q_Name q
         | _ \<Rightarrow> q_Name q)
      else q_Name q)"

lemma isIPRequest_name [simp]: "isIPRequest (q\<lparr>q_Name := name\<rparr>) = isIPRequest q"
  by (simp add: isIPRequest_def)

lemma withMapping_maps:
  assumes "withMapping su (withResolver su) r s = Done (Inr reply, s')" "Question r = q # qs" "isIPRequest q"
  obtains s1 where "withResolver su r s = Done (Inr reply, s1)"
    "\<forall>c. mapping (mapper s1) = Some c \<longrightarrow> s' = set_mapping (Some (fold (map_answer su (trim_right ''.'' (q_Name q))) (Answer reply) c)) s1"
proof -
  obtain res1 s1 where r1: "withResolver su r s = Done (res1, s1)"
    using assms by (cases "withResolver su r s") (auto simp: withMapping_def)
  show thesis
  proof (cases res1)
    case (Inl err)
    with assms r1 show thesis by (simp add: withMapping_def)
  next
    case (Inr x)
    with assms r1 have "x = reply" by (cases "mapping (mapper s1)") (auto simp: withMapping_def Let_def split: if_splits)
    with Inr assms r1 show thesis
      by (intro that [of s1]) (auto simp: withMapping_def Let_def)
  qed
qed

text \<open>A question that the static hosts do not answer goes on under the name they give it.\<close>

lemma withHosts_asks:
  assumes "withHosts su next r s = Done (Inr reply, s')" "Question r = q # qs" "isIPRequest q" "\<not> hosts_answer su s q"
    and "useHosts (mapper s)"
  shows "\<exists>resp. next (r\<lparr>Question := q\<lparr>q_Name := asked_name su s q\<rparr> # qs\<rparr>) s = Done (Inr resp, s')
    \<and> (Answer reply = Answer resp \<or> (\<exists>d. Answer reply = cname_rr q d # Answer resp))"
proof -
  have same: "r\<lparr>Question := q\<lparr>q_Name := q_Name q\<rparr> # qs\<rparr> = r" using assms(2) by simp
  obtain rec ok where f: "hosts_found su q = Done (rec, ok)"
    using assms(1-3) by (cases "hosts_found su q") (auto simp: withHosts_def hosts_found_def Let_def)
  have ok: "\<not> ok" using assms(4,5) f by (auto simp: hosts_answer_def)
  note found = f [unfolded hosts_found_def]
  show ?thesis
  proof (cases "\<exists>v. rec = Some v \<and> IsDomain v")
    case False
    then have "asked_name su s q = q_Name q" using f ok by (auto simp: asked_name_def split: option.split)
    moreover have "next r s = Done (Inr reply, s')"
      using assms(1-3) found ok False by (auto simp: withHosts_def Let_def split: option.splits)
    ultimately show ?thesis using same by (intro exI [of _ reply]) simp
  next
    case True
    then obtain v where v: "rec = Some v" "IsDomain v" by blast
    then have n: "asked_name su s q = HostValue.Domain v @ ''.''" using f ok assms(5) by (simp add: asked_name_def)
    let ?r = "r\<lparr>Question := q\<lparr>q_Name := HostValue.Domain v @ ''.''\<rparr> # qs\<rparr>"
    have run: "bind_run (next ?r s) (\<lambda>(res, s). case res of Inl err \<Rightarrow> Done (Inl err, s)
        | Inr resp \<Rightarrow> Done (Inr (resp\<lparr>Id := Id r, Question := Question r,
            Answer := cname_rr q (HostValue.Domain v) # Answer resp\<rparr>), s)) = Done (Inr reply, s')"
      using assms(1-3) found ok v by (simp add: withHosts_def Let_def)
    obtain res s1 where h: "next ?r s = Done (res, s1)" using run by (cases "next ?r s") auto
    show ?thesis unfolding n using run h by (cases res) auto
  qed
qed

lemma ServeMsg_mapped:
  assumes q: "Question r = q # qs" "isIPRequest q" "\<not> hosts_answer su s q" and mode: "e_mode (mapper s) = DNSMapping"
    and a: "ServeMsg su r s = Done (Inr reply, s')"
  obtains r' resp s1 where "withResolver su r' (s\<lparr>ctx_type := []\<rparr>) = Done (Inr resp, s1)"
    "\<forall>c. mapping (mapper s1) = Some c \<longrightarrow>
       s' = set_mapping (Some (fold (map_answer su (trim_right ''.'' (asked_name su s q))) (Answer resp) c)) s1"
    "Answer reply = Answer resp \<or> (\<exists>d. Answer reply = cname_rr q d # Answer resp)"
proof -
  let ?s = "s\<lparr>ctx_type := []\<rparr>" and ?q = "q\<lparr>q_Name := asked_name su s q\<rparr>"
  let ?r = "r\<lparr>Question := ?q # qs\<rparr>"
  have "\<exists>resp. withMapping su (withResolver su) ?r ?s = Done (Inr resp, s')
    \<and> (Answer reply = Answer resp \<or> (\<exists>d. Answer reply = cname_rr q d # Answer resp))"
  proof (cases "useHosts (mapper s)")
    case True
    then have "withHosts su (withMapping su (withResolver su)) r ?s = Done (Inr reply, s')"
      using a mode q(1) by (simp add: ServeMsg_def newHandler_def compose_def)
    moreover have "\<not> hosts_answer su ?s q" "asked_name su ?s q = asked_name su s q"
      using q(3) by (simp_all add: hosts_answer_def asked_name_def)
    ultimately show ?thesis using withHosts_asks [of su _ r ?s reply s' q qs] q True by simp
  next
    case False
    then have "?r = r" using q(1) by (simp add: asked_name_def)
    then show ?thesis using a mode q(1) False by (intro exI [of _ reply]) (simp add: ServeMsg_def newHandler_def compose_def)
  qed
  then obtain resp where resp: "withMapping su (withResolver su) ?r ?s = Done (Inr resp, s')"
    "Answer reply = Answer resp \<or> (\<exists>d. Answer reply = cname_rr q d # Answer resp)" by blast
  obtain s1 where "withResolver su ?r ?s = Done (Inr resp, s1)"
    "\<forall>c. mapping (mapper s1) = Some c \<longrightarrow> s' = set_mapping (Some (fold (map_answer su (trim_right ''.'' (q_Name ?q))) (Answer resp) c)) s1"
    by (rule withMapping_maps [OF resp(1), of ?q qs]) (use q in simp_all)
  with resp(2) show thesis by (intro that [of ?r resp s1]) simp_all
qed

lemma mapped_dns:
  assumes laws: "list_laws (map_pkg su) elems ok" and s: "mapping_service su s"
    and q: "Question r = q # qs" "isIPRequest q" "\<not> hosts_answer su s q"
    and a: "ServeMsg su r s = Done (Inr reply, s')" "length (Answer reply) \<le> 4096"
    and ip: "ans \<in> set (Answer reply)" "answer_addr ans = Some ip" "IsGlobalUnicast ip"
  shows "fst (FindHostByIP (fake_st su) (map_pkg su) (Unmap ip) (mapper s')) = Some (trim_right ''.'' (asked_name su s q))"
proof -
  let ?host = "trim_right ''.'' (asked_name su s q)"
  have hm: "host_map (map_pkg su) elems ok" using laws by (simp add: host_map_def lru_list_def)
  note st = mapping_service_state [OF s]
  obtain r' resp s1 where s1: "withResolver su r' (s\<lparr>ctx_type := []\<rparr>) = Done (Inr resp, s1)"
    "\<forall>c. mapping (mapper s1) = Some c \<longrightarrow> s' = set_mapping (Some (fold (map_answer su ?host) (Answer resp) c)) s1"
    "Answer reply = Answer resp \<or> (\<exists>d. Answer reply = cname_rr q d # Answer resp)"
    by (rule ServeMsg_mapped [OF q st(1) [OF evolves_refl] a(1)])
  have "answer_addr (cname_rr q d) = None" for d by (simp add: cname_rr_def mk_rr_def answer_addr_def)
  then have resp: "ans \<in> set (Answer resp)" "length (Answer resp) \<le> 4096" using s1(3) ip a(2) by auto
  have "evolves (fake_st su) (map_pkg su) (mapper s) (mapper s1)"
    using dns_handler.evolves [OF withResolver_handler s1(1)] by simp
  note st1 = st [OF this]
  obtain c where c: "mapping (mapper s1) = Some c" "lru_linked elems ok c" "maxAge c = 0" "maxSize c = 4096"
    by (rule host_map.new_map_evolves [OF hm st1(4)])
  let ?c = "fold (map_answer su ?host) (Answer resp) c"
  have none: "all_recent {} ?host 0 (lru_view elems c)"
    unfolding all_recent_def by (intro exI [of _ "lru_view elems c"] exI [of _ "[]"]) simp
  obtain S where S: "\<forall>r\<in>set (Answer resp). \<forall>ip. answer_addr r = Some ip \<longrightarrow> IsGlobalUnicast ip \<longrightarrow> Unmap ip \<in> S"
    "all_recent S ?host (0 + length (Answer resp)) (lru_view elems ?c)" "lru_linked elems ok ?c" "maxAge ?c = 0"
    using host_map.map_answers_recent [OF hm refl c(2,3) _ none, of "Answer resp"] resp(2) c(4) by auto
  have "Unmap ip \<in> S" using S(1) ip resp(1) by blast
  then have "fst (lru_Get (map_pkg su) 0 (Unmap ip) ?c) = Some ?host"
    using lru_list.recent_Get [OF _ S(3,4,2)] hm by (simp add: host_map_def)
  moreover have "s' = set_mapping (Some ?c) s1" using s1(2) c(1) by simp
  ultimately show ?thesis using st1(2,3)
    by (cases "lru_Get (map_pkg su) 0 (Unmap ip) ?c") (simp add: FindHostByIP_def pool_find_def Let_def)
qed

section \<open>Static hosts\<close>

lemma host_steps_A:
  "Qtype q = TypeA \<Longrightarrow>
   fst (fold (host_step su q host) ips (ans, m)) =
     ans @ map (\<lambda>ip. mk_rr (q_Name q) TypeA 10 (RR_A (AsSlice ip))) (filter Is4 ips)"
  by (induction ips arbitrary: ans m) (simp_all add: host_step_def)

lemma answer_ips_A:
  "list_all Is4 ips \<Longrightarrow> answer_ips (map (\<lambda>ip. mk_rr name TypeA ttl (RR_A (AsSlice ip))) ips) = ips"
proof (induction ips)
  case (Cons ip ips)
  then obtain w where "ip = V4 w" by (cases ip) (auto simp: Is4_def)
  with Cons show ?case by (simp add: mk_rr_def answer_addr_def AddrFromSlice_AsSlice Unmap_def)
qed simp

lemma static_hosts_answer:
  assumes P: "dns_laws (pkgs su)" and q: "Question r = q # qs" "isIPRequest q" "Qtype q = TypeA" "Answer r = []"
    and on: "useHosts (mapper s)"
    and found: "Hosts_Search (fuel su) (hosts_cfg su) (DefaultHosts su) (trim_right ''.'' (q_Name q)) False = Done (Some v, True)"
  shows "\<exists>reply s'. ServeMsg su r s = Done (Inr reply, s') \<and> ctx_type s' = DNSTypeHost \<and> Rcode reply = RcodeSuccess
    \<and> Id reply = Id r \<and> resolver s' = resolver s \<and> answer_ips (Answer reply) = filter Is4 (IPs v)
    \<and> (\<forall>a\<in>set (Answer reply). Ttl a = 10 \<and> rr_Name a = q_Name q)"
proof -
  let ?host = "trim_right ''.'' (q_Name q)"
  obtain ans m where f: "fold (host_step su q ?host) (IPs v) ([], mapping (mapper s)) = (ans, m)" by fastforce
  have ans: "ans = map (\<lambda>ip. mk_rr (q_Name q) TypeA 10 (RR_A (AsSlice ip))) (filter Is4 (IPs v))"
    using host_steps_A [OF q(3), of su ?host "IPs v" "[]" "mapping (mapper s)"] f by simp
  have "withHosts su h r (s\<lparr>ctx_type := []\<rparr>) =
      Done (Inr (finish (pkgs su) (r\<lparr>Answer := ans\<rparr>) r), (set_mapping m (s\<lparr>ctx_type := []\<rparr>))\<lparr>ctx_type := DNSTypeHost\<rparr>)" for h
    using q found f by (simp add: withHosts_def Let_def)
  then have "ServeMsg su r s =
      Done (Inr (finish (pkgs su) (r\<lparr>Answer := ans\<rparr>) r), (set_mapping m (s\<lparr>ctx_type := []\<rparr>))\<lparr>ctx_type := DNSTypeHost\<rparr>)"
    using on q(1) by (simp add: ServeMsg_def newHandler_def compose_def Let_def)
  moreover have "answer_ips ans = filter Is4 (IPs v)" unfolding ans by (rule answer_ips_A) (simp add: list_all_iff)
  moreover have "\<forall>a\<in>set ans. Ttl a = 10 \<and> rr_Name a = q_Name q" unfolding ans by (auto simp: mk_rr_def)
  ultimately show ?thesis
    by (simp add: finish_def set_mapping_def dns_laws.SetRcode [OF P])
qed

text \<open>A question about a CNAME that the static hosts answer: the reply has the request's answers only.\<close>

lemma static_cname_lost:
  assumes P: "dns_laws (pkgs su)" and q: "Question r = q # qs" "isIPRequest q" "Qtype q = TypeCNAME" "Answer r = []"
    and on: "useHosts (mapper s)"
    and found: "Hosts_Search (fuel su) (hosts_cfg su) (DefaultHosts su) (trim_right ''.'' (q_Name q)) True = Done (Some v, True)"
  shows "\<exists>reply s'. ServeMsg su r s = Done (Inr reply, s') \<and> ctx_type s' = DNSTypeHost \<and> Rcode reply = RcodeSuccess
    \<and> Answer reply = []"
  using assms by (simp add: ServeMsg_def newHandler_def compose_def withHosts_def Let_def finish_def dns_laws.SetRcode [OF P])

end
