(* ===== verification/DnsLaws.thy ===== *)
theory DnsLaws
  imports DnsResolverLaws EnhancerLaws TunnelLaws
begin

text \<open>
  The properties of the DNS service, and of the tunnel that asks it what an address stands for.
\<close>

section \<open>The client subnet of a query\<close>

definition carries_subnet :: "prefix \<Rightarrow> msg \<Rightarrow> bool" where
  "carries_subnet p m \<longleftrightarrow> (\<exists>r\<in>set (Extra m). \<exists>os s. rdata r = RR_OPT os \<and> Subnet s \<in> set os
     \<and> sn_Code s = EDNS0SUBNET \<and> sn_Family s = (if Is4 (prefix_addr p) then 1 else 2)
     \<and> sn_SourceNetmask s = word_of_nat (prefix_bits p) \<and> sn_Address s = AsSlice (prefix_addr p))"

lemma find_option_Some: "find_option j os = Some k \<Longrightarrow> j \<le> k \<and> k < j + length os \<and> (\<exists>s. os ! (k - j) = Subnet s)"
proof (induction j os rule: find_option.induct)
  case (3 j os)
  then have "Suc j \<le> k \<and> k < Suc j + length os \<and> (\<exists>s. os ! (k - Suc j) = Subnet s)" by simp
  then show ?case by (auto simp: nth_Cons' Suc_diff_Suc)
qed auto

text \<open>The position found is the one given, or that of an OPT record; an option found is a subnet.\<close>

definition opt_at :: "rr list \<Rightarrow> nat \<Rightarrow> nat option \<Rightarrow> bool" where
  "opt_at rs a j \<longleftrightarrow> a < length rs \<and> (\<exists>os. rdata (rs ! a) = RR_OPT os
     \<and> (\<forall>k. j = Some k \<longrightarrow> k < length os \<and> (\<exists>s. os ! k = Subnet s)))"

lemma opt_at_Suc: "opt_at (r # rs) (Suc a) j \<longleftrightarrow> opt_at rs a j"
  by (simp add: opt_at_def)

lemma findExists_at:
  "findExists i rs opt = (x, j) \<Longrightarrow>
   (x = opt \<and> j = None) \<or> (x = None \<and> j = None) \<or> (\<exists>a. x = Some (i + a) \<and> opt_at rs a j)"
proof (induction i rs opt rule: findExists.induct)
  case (2 i r rs opt)
  have later: "\<exists>a. x = Some (i + a) \<and> opt_at (r # rs) a j" if "\<exists>a. x = Some (Suc i + a) \<and> opt_at rs a j"
    using that by (elim exE conjE) (rule exI, rule conjI [OF _ opt_at_Suc [THEN iffD2]], simp_all)
  show ?case
  proof (cases "\<exists>os. rdata r = RR_OPT os")
    case True
    then obtain os where os: "rdata r = RR_OPT os" by blast
    show ?thesis
    proof (cases "find_option 0 os")
      case None
      with 2 os later show ?thesis by (auto simp: opt_at_def intro: exI [of _ 0])
    next
      case (Some k)
      with 2 os find_option_Some [OF Some] show ?thesis by (auto simp: opt_at_def intro!: exI [of _ 0])
    qed
  next
    case False
    with 2 have "(x = None \<and> j = None) \<or> (\<exists>a. x = Some (Suc i + a) \<and> opt_at rs a j)"
      by (cases "rdata r") auto
    with later show ?thesis by blast
  qed
qed simp

lemma set_option_carries:
  assumes "opt_at rs a j" "s = old\<lparr>sn_Code := EDNS0SUBNET, sn_Family := if Is4 (prefix_addr p) then 1 else 2,
      sn_SourceNetmask := word_of_nat (prefix_bits p), sn_Address := AsSlice (prefix_addr p)\<rparr>"
  shows "carries_subnet p (m\<lparr>Extra := rs[a := set_option (Subnet s) j (rs ! a)]\<rparr>)"
proof -
  obtain os where os: "a < length rs" "rdata (rs ! a) = RR_OPT os" "\<forall>k. j = Some k \<longrightarrow> k < length os"
    using assms(1) unfolding opt_at_def by blast
  let ?r = "set_option (Subnet s) j (rs ! a)"
  have "\<exists>os'. rdata ?r = RR_OPT os' \<and> Subnet s \<in> set os'"
    using os(2,3) by (cases j) (auto simp: set_option_def set_update_memI)
  moreover have "?r \<in> set (rs[a := ?r])" using os(1) by (rule set_update_memI)
  ultimately show ?thesis unfolding carries_subnet_def assms(2) by fastforce
qed

lemma subnet_set:
  assumes "setEdns0Subnet m p ov = (m', sent)"
  shows "(sent \<longrightarrow> carries_subnet p m') \<and> (\<not> sent \<longrightarrow> m' = m \<and> \<not> ov)"
proof -
  obtain i j where f: "findExists 0 (Extra m) None = (i, j)" by fastforce
  show ?thesis
  proof (cases "j \<noteq> None \<and> \<not> ov")
    case True
    then show ?thesis using assms f by (simp add: setEdns0Subnet_def)
  next
    case False
    let ?new = "\<lparr>rr_Name = ''.'', Rrtype = TypeOPT, Class = 0, Ttl = 0, rdata = RR_OPT []\<rparr>"
    have at: "opt_at (case i of None \<Rightarrow> Extra m @ [?new] | Some i \<Rightarrow> Extra m) (case i of None \<Rightarrow> length (Extra m) | Some i \<Rightarrow> i) j"
      using findExists_at [OF f] by (auto simp: opt_at_def)
    have "carries_subnet p m'" "sent"
      using assms f False set_option_carries [OF at refl]
      by (auto simp: setEdns0Subnet_def Let_def split: option.splits)
    then show ?thesis by simp
  qed
qed

section \<open>A small service\<close>

definition demo_query :: "string \<Rightarrow> 16 word \<Rightarrow> msg" where
  "demo_query name t = zeroMsg\<lparr>Id := 7, Question := [\<lparr>q_Name = name, Qtype = t, Qclass = ClassINET\<rparr>]\<rparr>"

definition demo_server :: "string \<Rightarrow> NameServer" where
  "demo_server a = \<lparr>Net = '''', Addr = a, ProxyAdapter = None, ProxyName = '''', Params = [], PreferH3 = False\<rparr>"

definition demo_world :: "int \<Rightarrow> (string \<Rightarrow> addr) \<Rightarrow> world" where
  "demo_world t ips =
     \<lparr>now = t * second,
      net = (\<lambda>s m. Inr (m\<lparr>Response := True, Answer := [mk_rr (q_Name (hd (Question m))) TypeA 300 (RR_A (AsSlice (ips (Addr s))))]\<rparr>)),
      race = (\<lambda>cs. [0..<length cs]), timed_out = (\<lambda>e. False)\<rparr>"

definition demo_cache :: "(string, msg, nat \<times> (nat \<times> (string, msg) entry) list, nat) LruCache" where
  "demo_cache = lru_New slice_pkg 0 4096 False True False"

definition demo_resolver :: "(string, msg, nat \<times> (nat \<times> (string, msg) entry) list, nat) LruCache Resolver" where
  "demo_resolver =
     \<lparr>r_ipv6 = True, ipv6Timeout = 0, main_clients = [networkClient (demo_server ''main'')],
      fallback = [networkClient (demo_server ''fallback'')], fallbackDomainFilters = [],
      fallbackIPFilters = [\<lambda>ip. ip = V4 0x7f000001], r_cache = demo_cache, policy = []\<rparr>"

lemma demo_cache_ok: "dns_ok snd slice_ok demo_cache" "dns_stored snd demo_cache = Map.empty"
proof -
  have v: "lru_view snd demo_cache = []" "lru_linked snd slice_ok demo_cache"
    unfolding demo_cache_def using slice_lru.lru_New_cfg by blast+
  then show "dns_stored snd demo_cache = Map.empty" by (simp add: dns_stored_def fun_eq_iff)
  show "dns_ok snd slice_ok demo_cache" using v by (simp add: dns_ok_def demo_cache_def lru_New_def)
qed

text \<open>C14. After any exchanges and resets of the cache, a resolver that started with an empty cache answers a question that
  its cache has nothing for with what the servers reply now. Otherwise the answer is a message that the
  servers gave in one of the exchanges since the last reset, for the same question and of a kind that may be cached: the
  same message without its OPT records, and no record's time to live exceeds what that record had left,
  when the message is no server failure (one second is the least).\<close>

theorem cached_answers_age:
  assumes "dns_laws P" "dns_cache ops ok stored" "ok (r_cache r0)" "stored (r_cache r0) = Map.empty"
    and "resolver_run P ops r0 evs r" "\<forall>(ws', m')\<in>set (calls evs). \<forall>i<4. now (ws' i) \<le> now (ws 0)"
    and "ExchangeContext P ops ws m r = (Inr reply, r')"
  shows "case fst (getMsgFromCache P ops (now (ws 0)) (hd (Question m)) (r_cache r)) of
      None \<Rightarrow> fst (server_reply P (ws 0) r0 m) = Inr reply
    | Some hit \<Rightarrow> \<exists>ws' m' i m0. (ws', m') \<in> set (calls evs) \<and> i < 4
        \<and> server_reply P (ws' i) r0 m' = (Inr m0, True) \<and> QString P (hd (Question m')) = QString P (hd (Question m))
        \<and> aged_msg (now (ws 0) - now (ws' i)) m0 reply"
proof -
  have "cached_dns P ops ok stored" using assms(1,2) by (simp add: cached_dns_def)
  from cached_dns.resolver_answer [OF this assms(5,3,4,6,7)] show ?thesis .
qed

definition demo_ips :: "string \<Rightarrow> addr" where
  "demo_ips a = (if a = ''main'' then V4 0x08080808 else V4 0x01010101)"

definition demo_after :: "(string, msg, nat \<times> (nat \<times> (string, msg) entry) list, nat) LruCache Resolver" where
  "demo_after = snd (ExchangeContext list_pkgs (lru_dns slice_pkg) (\<lambda>i. demo_world 0 demo_ips) (demo_query ''b.io.'' TypeA) demo_resolver)"

text \<open>One exchange, and the same question a hundred seconds later.\<close>

theorem cached_answers_age_witness:
  "\<exists>reply m0. fst (ExchangeContext list_pkgs (lru_dns slice_pkg) (\<lambda>i. demo_world 100 demo_ips) (demo_query ''b.io.'' TypeA) demo_after) = Inr reply
     \<and> map Ttl (Answer reply) = [200]
     \<and> server_reply list_pkgs (demo_world 0 demo_ips) demo_resolver (demo_query ''b.io.'' TypeA) = (Inr m0, True)
     \<and> aged_msg (100 * second) m0 reply"
proof -
  let ?ws = "\<lambda>i :: nat. demo_world 100 demo_ips" and ?q = "demo_query ''b.io.'' TypeA"
  have "(case fst (ExchangeContext list_pkgs (lru_dns slice_pkg) ?ws ?q demo_after) of
      Inr reply \<Rightarrow> map Ttl (Answer reply) = [200] | Inl _ \<Rightarrow> False)" by code_simp
  then obtain reply r' where e: "ExchangeContext list_pkgs (lru_dns slice_pkg) ?ws ?q demo_after = (Inr reply, r')"
    "map Ttl (Answer reply) = [200]"
    by (cases "ExchangeContext list_pkgs (lru_dns slice_pkg) ?ws ?q demo_after") (auto split: sum.splits)
  have run: "resolver_run list_pkgs (lru_dns slice_pkg) demo_resolver [Call (\<lambda>i. demo_world 0 demo_ips) ?q] demo_after"
    unfolding demo_after_def by (rule resolver_run.exchange [OF resolver_run.start]) (rule prod.collapse [symmetric])
  have c: "r_cache demo_resolver = demo_cache" by (simp add: demo_resolver_def)
  have past: "\<forall>(ws', m')\<in>set (calls [Call (\<lambda>i. demo_world 0 demo_ips) ?q]). \<forall>i<4. now (ws' i) \<le> now (?ws 0)"
    by (simp add: demo_world_def)
  have hit: "fst (getMsgFromCache list_pkgs (lru_dns slice_pkg) (now (demo_world 100 demo_ips)) (hd (Question ?q)) (r_cache demo_after)) \<noteq> None"
    by code_simp
  have t: "now (demo_world 100 demo_ips) - now (demo_world 0 demo_ips) = 100 * second" by (simp add: demo_world_def)
  from cached_answers_age [OF pkgs.dns_laws_axioms slice_dns.dns_cache_axioms demo_cache_ok [folded c] run past e(1)] hit
  obtain m0 where "server_reply list_pkgs (demo_world 0 demo_ips) demo_resolver ?q = (Inr m0, True)"
    "aged_msg (100 * second) m0 reply"
    unfolding t [symmetric] by (auto split: option.splits)
  then show ?thesis using e by (intro exI [of _ reply] exI [of _ m0]) simp
qed

text \<open>C15. With fallback servers and no policy for the name, an answer to an address question is either one of the
  fallback servers or holds addresses that no fallback filter matches: a filtered address from the main
  servers never gets through.\<close>

theorem fallback_not_poisoned:
  assumes "dns_laws P" "matchPolicy r m = []" "fallback r \<noteq> []" "ipExchange P w r m = Inr reply"
  shows "asyncExchange P w (fallback r) m = Inr reply \<or>
    (\<not> shouldOnlyQueryFallback r m \<and> asyncExchange P w (main_clients r) m = Inr reply
     \<and> msgToIP reply \<noteq> [] \<and> (\<forall>ip\<in>set (msgToIP reply). \<not> shouldIPFallback r ip))"
  by (rule dns_laws.ipExchange_main [OF assms])

definition poisoned_ips :: "string \<Rightarrow> addr" where
  "poisoned_ips a = (if a = ''main'' then V4 0x7f000001 else V4 0x01010101)"

theorem fallback_not_poisoned_witness:
  "\<exists>reply. ipExchange list_pkgs (demo_world 0 poisoned_ips) demo_resolver (demo_query ''b.io.'' TypeA) = Inr reply
     \<and> msgToIP reply = [V4 0x01010101]
     \<and> (asyncExchange list_pkgs (demo_world 0 poisoned_ips) (fallback demo_resolver) (demo_query ''b.io.'' TypeA) = Inr reply \<or>
        \<not> shouldIPFallback demo_resolver (V4 0x01010101))"
proof -
  let ?w = "demo_world 0 poisoned_ips" and ?q = "demo_query ''b.io.'' TypeA"
  have "(case ipExchange list_pkgs ?w demo_resolver ?q of Inr reply \<Rightarrow> msgToIP reply = [V4 0x01010101] | Inl _ \<Rightarrow> False)"
    by code_simp
  then obtain reply where e: "ipExchange list_pkgs ?w demo_resolver ?q = Inr reply" "msgToIP reply = [V4 0x01010101]"
    by (cases "ipExchange list_pkgs ?w demo_resolver ?q") simp_all
  have "matchPolicy demo_resolver ?q = []" "fallback demo_resolver \<noteq> []" by (simp_all add: matchPolicy_def demo_resolver_def)
  from fallback_not_poisoned [OF pkgs.dns_laws_axioms this e(1)] e show ?thesis by auto
qed

text \<open>C16. The policies: when the resolver's list, built from the configured policies, has servers for a name, they are the
  clients of the servers of a policy that matches the name; and it has some for every name that a policy matches, when
  each policy that matches the name has servers. A policy may have none: it matches and gives nothing, and in the trie
  it may hide another domain that matches.\<close>

theorem policy_selects:
  assumes "makePolicy P panics ps None [] [] = Some (pols, seen)"
  shows "(first_match pols domain \<noteq> [] \<longrightarrow> (\<exists>p\<in>set ps. policy_hits p domain \<and> NameServers p \<noteq> []
         \<and> list_all2 (serves P panics) (NameServers p) (first_match pols domain)))
    \<and> ((\<exists>p\<in>set ps. policy_hits p domain) \<and> (\<forall>p\<in>set ps. policy_hits p domain \<longrightarrow> NameServers p \<noteq> [])
         \<longrightarrow> first_match pols domain \<noteq> [])"
  by (rule policy_selects_lemma [OF assms])

definition demo_policies :: "dns_policy list" where
  "demo_policies =
     [\<lparr>pol_Domain = ''+.b.io'', Matcher = None, NameServers = [demo_server ''one'']\<rparr>,
      \<lparr>pol_Domain = '''', Matcher = Some (\<lambda>d. d = ''c.io''), NameServers = [demo_server ''two'']\<rparr>]"

theorem policy_selects_witness:
  "\<exists>pols seen. makePolicy list_pkgs (\<lambda>a b. False) demo_policies None [] [] = Some (pols, seen)
     \<and> first_match pols ''c.io'' \<noteq> []"
proof -
  have "makePolicy list_pkgs (\<lambda>a b. False) demo_policies None [] [] \<noteq> None"
    by (simp add: demo_policies_def transform_def transform_one_def demo_server_def warpClientWithEdns0Subnet_def
        warpClientWithDisableTypes_def param_def NameServer_Equal_def split: option.split)
  then obtain pols seen where m: "makePolicy list_pkgs (\<lambda>a b. False) demo_policies None [] [] = Some (pols, seen)" by auto
  from policy_selects [OF m, of "''c.io''"] m show ?thesis by (auto simp: demo_policies_def policy_hits_def)
qed

text \<open>A server with \<^verbatim>\<open>disable-ipv4\<close> or \<^verbatim>\<open>disable-ipv6\<close> never gives a message with a record of that type, in any section,
  whatever the server behind it sends.\<close>

theorem disabled_types_filtered:
  assumes "dns_laws P"
    and "param params ''disable-ipv4'' = ''true'' \<and> t = TypeA \<or> param params ''disable-ipv6'' = ''true'' \<and> t = TypeAAAA"
    and "client_exchange P (net w) (warpClientWithDisableTypes P c params) m = Inr reply"
  shows "\<not> has_type t reply"
  by (rule dns_laws.warp_disables [OF assms])

theorem disabled_types_filtered_witness:
  "\<exists>reply. client_exchange list_pkgs (net (demo_world 0 demo_ips)) (warpClientWithDisableTypes list_pkgs
       (networkClient (demo_server ''main'')) [(''disable-ipv4'', ''true'')]) (demo_query ''b.io.'' TypeHTTPS) = Inr reply
     \<and> \<not> has_type TypeA reply"
proof -
  let ?x = "client_exchange list_pkgs (net (demo_world 0 demo_ips)) (warpClientWithDisableTypes list_pkgs
       (networkClient (demo_server ''main'')) [(''disable-ipv4'', ''true'')]) (demo_query ''b.io.'' TypeHTTPS)"
  have "(case ?x of Inr reply \<Rightarrow> True | Inl _ \<Rightarrow> False)" by code_simp
  then obtain reply where e: "?x = Inr reply" by (cases ?x) simp_all
  have "param [(''disable-ipv4'', ''true'')] ''disable-ipv4'' = ''true'' \<and> TypeA = TypeA
    \<or> param [(''disable-ipv4'', ''true'')] ''disable-ipv6'' = ''true'' \<and> TypeA = TypeAAAA" by (simp add: param_def)
  from disabled_types_filtered [OF pkgs.dns_laws_axioms this e] e show ?thesis by blast
qed

text \<open>The client subnet: either the query carries the configured subnet afterwards, or it had one of its own, is left
  alone, and overriding is off.\<close>

theorem subnet_sent:
  "case setEdns0Subnet m p ov of (m', sent) \<Rightarrow> (if sent then carries_subnet p m' else m' = m \<and> \<not> ov)"
  using subnet_set [of m p ov] by (cases "setEdns0Subnet m p ov") auto

text \<open>When another record follows the OPT record, it is not found, and the query gets a second one.\<close>

lemma second_opt:
  "map Rrtype (Extra (fst (setEdns0Subnet (zeroMsg\<lparr>Extra := [\<lparr>rr_Name = ''.'', Rrtype = TypeOPT, Class = 0, Ttl = 0, rdata = RR_OPT []\<rparr>,
       mk_rr ''a.'' TypeA 0 (RR_A [])]\<rparr>) \<lparr>prefix_addr = V4 0, prefix_bits = 24\<rparr> False))) = [TypeOPT, TypeA, TypeOPT]"
  by code_simp

text \<open>The difference subtracted from the times to live is that of each section: 100 seconds after the answer was put, a
  record of the authority section with 3600 seconds has 200 left.\<close>

lemma sections_age_apart:
  "(let m = updateMsgTTL list_pkgs (zeroMsg\<lparr>Answer := [mk_rr ''a.'' TypeA 300 RR_Other], Ns := [mk_rr ''a.'' TypeA 3600 RR_Other]\<rparr>) 200
    in (map Ttl (Answer m), map Ttl (Ns m))) = ([200], [200])"
  by code_simp

text \<open>The lookup of both kinds succeeds without an address when IPv4 failed and IPv6 is late.\<close>

lemma late_lookup_empty: "LookupIP (Inl err) None = Inr []"
  by (simp add: LookupIP_def)

section \<open>The service\<close>

definition demo_setup :: "int \<Rightarrow> HostValue node \<Rightarrow> ((nat \<times> (nat \<times> (string, addr) entry) list, nat,
    nat \<times> (nat \<times> (addr, string) entry) list, nat) memoryStore, nat \<times> (nat \<times> (addr, string) entry) list, nat,
    (string, msg, nat \<times> (nat \<times> (string, msg) entry) list, nat) LruCache) dns_setup" where
  "demo_setup t hosts =
     \<lparr>pkgs = list_pkgs, fake_st = memory_store slice_pkg slice_pkg, map_pkg = slice_pkg, cache_ops = lru_dns slice_pkg,
      worlds = (\<lambda>i. demo_world t demo_ips), fuel = 3,
      hosts_cfg = \<lparr>DisableSystemHosts = True, UseSystemHosts = False, LookupStaticHost = (\<lambda>_. [])\<rparr>,
      DefaultHosts = hosts, rule_env = empty_env, counters = demo_state zeroMetadata\<rparr>"

definition demo_config :: "DNSMode \<Rightarrow> bool \<Rightarrow> 's Pool option \<Rightarrow> 's EnhancerConfig" where
  "demo_config m hosts pool =
     \<lparr>c_IPv6 = False, EnhancedMode = m, FakeIPPool = pool, FakeIPPool6 = None,
      FakeIPSkipper = Some \<lparr>sk_Rules = [], sk_Host = [\<lambda>d. d = ''lan''], sk_Mode = FilterBlackList\<rparr>,
      FakeIPTTL = 1, UseHosts = hosts\<rparr>"

definition demo_dns where
  "demo_dns cfg = \<lparr>mapper = NewEnhancer slice_pkg cfg, resolver = demo_resolver, ctx_type = ''''\<rparr>"

text \<open>Static hosts: a question for the IPv4 addresses of a static host is answered with the host's IPv4 addresses, in order,
  with a time to live of ten seconds, and without asking the resolver.\<close>

theorem static_hosts_answered:
  assumes "dns_laws (pkgs su)" "Question r = q # qs" "isIPRequest q" "Qtype q = TypeA" "Answer r = []" "useHosts (mapper s)"
    and "Hosts_Search (fuel su) (hosts_cfg su) (DefaultHosts su) (trim_right ''.'' (q_Name q)) False = Done (Some v, True)"
  shows "\<exists>reply s'. ServeMsg su r s = Done (Inr reply, s') \<and> ctx_type s' = DNSTypeHost \<and> Rcode reply = RcodeSuccess
    \<and> Id reply = Id r \<and> resolver s' = resolver s \<and> answer_ips (Answer reply) = filter Is4 (IPs v)
    \<and> (\<forall>a\<in>set (Answer reply). Ttl a = 10 \<and> rr_Name a = q_Name q)"
  by (rule static_hosts_answer [OF assms])

definition demo_hosts_tree :: "HostValue node" where
  "demo_hosts_tree = build [(''h.io'', \<lparr>IsDomain = False, IPs = [V4 1, V6 2 '''', V4 3], Domain = ''''\<rparr>)]"

theorem static_hosts_answered_witness:
  "\<exists>reply s'. ServeMsg (demo_setup 0 demo_hosts_tree) (demo_query ''h.io.'' TypeA) (demo_dns (demo_config DNSNormal True None)) = Done (Inr reply, s')
     \<and> answer_ips (Answer reply) = [V4 1, V4 3]"
proof -
  let ?su = "demo_setup 0 demo_hosts_tree" and ?s = "demo_dns (demo_config DNSNormal True None)"
  let ?v = "\<lparr>IsDomain = False, IPs = [V4 1, V6 2 '''', V4 3], Domain = ''''\<rparr>"
  let ?q = "\<lparr>q_Name = ''h.io.'', Qtype = TypeA, Qclass = ClassINET\<rparr>"
  have "Hosts_Search 3 \<lparr>DisableSystemHosts = True, UseSystemHosts = False, LookupStaticHost = (\<lambda>_. [])\<rparr> demo_hosts_tree ''h.io'' False
      = Done (Some ?v, True)" by code_simp
  moreover have "trim_right ''.'' ''h.io.'' = ''h.io''" by code_simp
  ultimately have h: "Hosts_Search (fuel ?su) (hosts_cfg ?su) (DefaultHosts ?su) (trim_right ''.'' (q_Name ?q)) False = Done (Some ?v, True)"
    by (simp add: demo_setup_def)
  have "Question (demo_query ''h.io.'' TypeA) = ?q # []" "isIPRequest ?q" "Qtype ?q = TypeA"
    "Answer (demo_query ''h.io.'' TypeA) = []" "useHosts (mapper ?s)"
    by (simp_all add: demo_query_def isIPRequest_def zeroMsg_def demo_dns_def demo_config_def NewEnhancer_def)
  from static_hosts_answered [OF _ this h] pkgs.dns_laws_axioms show ?thesis
    by (auto simp: demo_setup_def Is4_def)
qed

text \<open>C22. In mapping mode, after a question for addresses was answered and not by the static hosts, every address of the
  answer that is a global unicast address leads back to the name the servers were asked for, when the answer has no more
  records than the mapping holds. That is the name of the question, unless the static hosts map it to another domain that
  they have no address for: then the question goes on under that domain, and the address leads back to it.\<close>

theorem mapped_answers:
  assumes "list_laws (map_pkg su) elems ok" "mapping_service su s"
    and "Question r = q # qs" "isIPRequest q" "\<not> hosts_answer su s q"
    and "ServeMsg su r s = Done (Inr reply, s')" "length (Answer reply) \<le> 4096"
    and "ans \<in> set (Answer reply)" "answer_addr ans = Some ip" "IsGlobalUnicast ip"
  shows "fst (FindHostByIP (fake_st su) (map_pkg su) (Unmap ip) (mapper s')) = Some (trim_right ''.'' (asked_name su s q))"
  by (rule mapped_dns [OF assms])

text \<open>A static host that is mapped to another name: the address leads back to that name.\<close>

definition demo_alias_tree :: "HostValue node" where
  "demo_alias_tree = build [(''a.io'', \<lparr>IsDomain = True, IPs = [], Domain = ''b.io''\<rparr>)]"

theorem mapped_answers_witness:
  "\<exists>reply s'. ServeMsg (demo_setup 0 demo_alias_tree) (demo_query ''a.io.'' TypeA) (demo_dns (demo_config DNSMapping True None)) = Done (Inr reply, s')
     \<and> fst (FindHostByIP (memory_store slice_pkg slice_pkg) slice_pkg (V4 0x08080808) (mapper s')) = Some ''b.io''"
proof -
  let ?su = "demo_setup 0 demo_alias_tree" and ?s = "demo_dns (demo_config DNSMapping True None)" and ?r = "demo_query ''a.io.'' TypeA"
  let ?q = "\<lparr>q_Name = ''a.io.'', Qtype = TypeA, Qclass = ClassINET\<rparr>"
  have "(case ServeMsg ?su ?r ?s of Done (Inr reply, s') \<Rightarrow>
      map answer_addr (Answer reply) = [None, Some (V4 0x08080808)] | _ \<Rightarrow> False)" by code_simp
  then obtain reply s' where e: "ServeMsg ?su ?r ?s = Done (Inr reply, s')"
    "map answer_addr (Answer reply) = [None, Some (V4 0x08080808)]"
    by (cases "ServeMsg ?su ?r ?s") (auto split: prod.splits sum.splits)
  then obtain c ans where ans: "Answer reply = [c, ans]" "answer_addr ans = Some (V4 0x08080808)" by auto
  have "Hosts_Search 3 \<lparr>DisableSystemHosts = True, UseSystemHosts = False, LookupStaticHost = (\<lambda>_. [])\<rparr> demo_alias_tree ''a.io'' False
      = Done (Some \<lparr>IsDomain = True, IPs = [], Domain = ''b.io''\<rparr>, False)" by code_simp
  moreover have "trim_right ''.'' ''a.io.'' = ''a.io''" by code_simp
  ultimately have f: "hosts_found ?su ?q = Done (Some \<lparr>IsDomain = True, IPs = [], Domain = ''b.io''\<rparr>, False)"
    by (simp add: hosts_found_def demo_setup_def)
  have "mapping_service ?su ?s" unfolding mapping_service_def
    by (intro exI [of _ ?s] exI [of _ "demo_config DNSMapping True None"]) (simp add: demo_dns_def demo_setup_def demo_config_def)
  moreover have "Question ?r = ?q # []" "isIPRequest ?q" by (simp_all add: demo_query_def isIPRequest_def)
  moreover have "\<not> hosts_answer ?su ?s ?q" by (simp add: hosts_answer_def f)
  moreover have "list_laws (map_pkg ?su) snd slice_ok" using slice.list_laws_axioms by (simp add: demo_setup_def)
  moreover have "IsGlobalUnicast (V4 0x08080808)" by code_simp
  ultimately have "fst (FindHostByIP (fake_st ?su) (map_pkg ?su) (Unmap (V4 0x08080808)) (mapper s')) = Some (trim_right ''.'' (asked_name ?su ?s ?q))"
    using ans by (intro mapped_answers [OF _ _ _ _ _ e(1)]) simp_all
  moreover have "useHosts (mapper ?s)" by (simp add: demo_dns_def demo_config_def NewEnhancer_def)
  then have "asked_name ?su ?s ?q = ''b.io.''" by (simp add: asked_name_def f)
  moreover have "trim_right ''.'' ''b.io.'' = ''b.io''" by code_simp
  ultimately show ?thesis using e(1) by (simp add: demo_setup_def Unmap_def)
qed

section \<open>From the answer to the connection\<close>

text \<open>The tunnel asks the enhancer of the service.\<close>

definition asks_enhancer :: "'p services \<Rightarrow> ('s, 'l, 'h, 'c) dns_setup \<Rightarrow> ('s, 'l, 'h) ResolverEnhancer \<Rightarrow> bool" where
  "asks_enhancer sv su h \<longleftrightarrow> mappingEnabled sv = resolver_MappingEnabled (Some h)
     \<and> isFakeIP sv = resolver_IsFakeIP (Some h)
     \<and> findHostByIP sv = (\<lambda>ip. fst (resolver_FindHostByIP (fake_st su) (map_pkg su) ip (Some h)))"

lemma fake_dialled:
  assumes "asks_enhancer sv su h" "IsFakeIP h ip" "MappingEnabled h" "IsValid ip"
    and "fst (FindHostByIP (fake_st su) (map_pkg su) ip h) = Some host"
  shows "preHandleMetadata k sv (m\<lparr>Host := '''', DstIP := ip\<rparr>) =
     Done (Inr (m\<lparr>Host := host, DstIP := NoAddr, DNSMode := DNSFakeIP\<rparr>))"
  using assms by (simp add: preHandleMetadata_def needLookupIP_def asks_enhancer_def resolver_MappingEnabled_def
      resolver_IsFakeIP_def resolver_FindHostByIP_def case_prod_unfold Let_def)

text \<open>C2. From the answer to the connection, in fake-IP mode: after any use of the service, a question for the IPv4 addresses of a
  name that is neither in the static hosts nor filtered is answered with one address, with the configured time to
  live, and a connection to that address reaches the tunnel's rules with the name, in lower case, as its
  host and without the fake address.\<close>

theorem fake_answer_dialled:
  assumes "list_laws p1 e1 o1" "list_laws p2 e2 o2" "dns_laws (pkgs su)" and "fake_st su = memory_store p1 p2"
    and "prefix_contains pfx (lastIP pfx)" "Is4 (prefix_addr pfx)"
    and "pool_New lastIP (memory_store p1 p2) (newMemoryStore p1 p2 n) pfx = Value p0" "fake_service su p0 s"
    and "Question r = q # qs" "Qtype q = TypeA"
    and "not_in_hosts su s q" "not_skipped su s (trim_right ''.'' (q_Name q))"
  shows "\<exists>reply s' ip. ServeMsg su r s = Done (Inr reply, s') \<and> answer_ips (Answer reply) = [ip]
     \<and> map Ttl (Answer reply) = [word_of_int (fakeIPTTL (mapper s))]
     \<and> (\<forall>(sv :: 'p services) k m. asks_enhancer sv su (mapper s') \<longrightarrow> preHandleMetadata k sv (m\<lparr>Host := '''', DstIP := ip\<rparr>) =
          Done (Inr (m\<lparr>Host := to_lower (trim_right ''.'' (q_Name q)), DstIP := NoAddr, DNSMode := DNSFakeIP\<rparr>)))"
proof -
  obtain reply s' ip where f: "ServeMsg su r s = Done (Inr reply, s')" "Is4 ip" "answer_ips (Answer reply) = [ip]"
    "Answer reply = [mk_rr (q_Name q) TypeA (word_of_int (fakeIPTTL (mapper s))) (RR_A (AsSlice ip))]"
    "IsFakeIP (mapper s') ip" "MappingEnabled (mapper s')"
    "fst (FindHostByIP (fake_st su) (map_pkg su) ip (mapper s')) = Some (to_lower (trim_right ''.'' (q_Name q)))"
    using fake_dns [OF assms] by blast
  have "IsValid ip" using f(2) by (cases ip) (simp_all add: Is4_def)
  then have dial: "asks_enhancer sv su (mapper s') \<Longrightarrow> preHandleMetadata k sv (m\<lparr>Host := '''', DstIP := ip\<rparr>) =
      Done (Inr (m\<lparr>Host := to_lower (trim_right ''.'' (q_Name q)), DstIP := NoAddr, DNSMode := DNSFakeIP\<rparr>))" for sv :: "'p services" and k m
    using fake_dialled [OF _ f(5,6) _ f(7)] by blast
  have ttl: "map Ttl (Answer reply) = [word_of_int (fakeIPTTL (mapper s))]" unfolding f(4) by (simp add: mk_rr_def)
  show ?thesis by (intro exI conjI allI impI, rule f(1), rule f(3), rule ttl, rule dial)
qed

definition demo_pool where
  "demo_pool = \<lparr>gateway = V4 1, first = V4 4, last_ip = V4 15, offset = V4 3, cycle = False,
     ipnet = \<lparr>prefix_addr = V4 0, prefix_bits = 28\<rparr>, pool_store = newMemoryStore slice_pkg slice_pkg 5\<rparr>"

theorem fake_answer_dialled_witness:
  "\<exists>reply s' ip. ServeMsg (demo_setup 0 newNode) (demo_query ''B.io.'' TypeA) (demo_dns (demo_config DNSFakeIP False (Some demo_pool))) = Done (Inr reply, s')
     \<and> answer_ips (Answer reply) = [ip] \<and> map Ttl (Answer reply) = [1]
     \<and> preHandleMetadata 0
          (demo_services\<lparr>mappingEnabled := True, isFakeIP := resolver_IsFakeIP (Some (mapper s')),
             findHostByIP := (\<lambda>ip. fst (resolver_FindHostByIP (memory_store slice_pkg slice_pkg) slice_pkg ip (Some (mapper s'))))\<rparr>)
          (zeroMetadata\<lparr>Host := '''', DstIP := ip\<rparr>) =
        Done (Inr (zeroMetadata\<lparr>Host := ''b.io'', DstIP := NoAddr, DNSMode := DNSFakeIP\<rparr>))"
proof -
  let ?su = "demo_setup 0 newNode" and ?s = "demo_dns (demo_config DNSFakeIP False (Some demo_pool))" and ?r = "demo_query ''B.io.'' TypeA"
  let ?q = "\<lparr>q_Name = ''B.io.'', Qtype = TypeA, Qclass = ClassINET\<rparr>" and ?pfx = "\<lparr>prefix_addr = V4 0, prefix_bits = 28\<rparr>"
  have su: "fake_st ?su = memory_store slice_pkg slice_pkg" "map_pkg ?su = slice_pkg" "pkgs ?su = list_pkgs"
    by (simp_all add: demo_setup_def)
  have new: "pool_New (\<lambda>_. V4 15) (memory_store slice_pkg slice_pkg) (newMemoryStore slice_pkg slice_pkg 5) ?pfx = Value demo_pool"
    by (simp add: pool_New_def masked_addr_def prefix_valid_def Next_def Prev_def IsValid_def restoreState_def memory_store_def demo_pool_def)
  have pfx: "prefix_contains ?pfx ((\<lambda>_. V4 15) ?pfx)" "Is4 (prefix_addr ?pfx)" by (simp_all add: prefix_contains_def drop_bit_eq_div Is4_def)
  have service: "fake_service ?su demo_pool ?s" unfolding fake_service_def
    by (intro exI [of _ ?s] exI [of _ "demo_config DNSFakeIP False (Some demo_pool)"]) (simp add: demo_dns_def su demo_config_def)
  have host: "trim_right ''.'' (q_Name ?q) = ''B.io''" "to_lower ''B.io'' = ''b.io''" by code_simp+
  have free: "not_in_hosts ?su ?s ?q" "not_skipped ?su ?s (trim_right ''.'' (q_Name ?q))"
    unfolding host by (simp_all add: not_in_hosts_def not_skipped_def demo_dns_def demo_config_def NewEnhancer_def Let_def
        ShouldSkipped_def shouldSkipped_def)
  have q: "Question ?r = ?q # []" "Qtype ?q = TypeA" by (simp_all add: demo_query_def)
  have "\<exists>reply s' ip. ServeMsg ?su ?r ?s = Done (Inr reply, s') \<and> answer_ips (Answer reply) = [ip]
      \<and> map Ttl (Answer reply) = [word_of_int (fakeIPTTL (mapper ?s))]
      \<and> (\<forall>(sv :: string services) k m. asks_enhancer sv ?su (mapper s') \<longrightarrow> preHandleMetadata k sv (m\<lparr>Host := '''', DstIP := ip\<rparr>) =
          Done (Inr (m\<lparr>Host := to_lower (trim_right ''.'' (q_Name ?q)), DstIP := NoAddr, DNSMode := DNSFakeIP\<rparr>)))"
    by (rule fake_answer_dialled [OF slice.list_laws_axioms slice.list_laws_axioms pkgs.dns_laws_axioms [folded su(3)] su(1)
        pfx new service q free])
  then obtain reply s' ip where f: "ServeMsg ?su ?r ?s = Done (Inr reply, s')" "answer_ips (Answer reply) = [ip]"
    "map Ttl (Answer reply) = [word_of_int (fakeIPTTL (mapper ?s))]"
    "\<forall>(sv :: string services) k m. asks_enhancer sv ?su (mapper s') \<longrightarrow> preHandleMetadata k sv (m\<lparr>Host := '''', DstIP := ip\<rparr>) =
          Done (Inr (m\<lparr>Host := to_lower (trim_right ''.'' (q_Name ?q)), DstIP := NoAddr, DNSMode := DNSFakeIP\<rparr>))"
    by (elim exE conjE) (rule that)
  let ?sv = "demo_services\<lparr>mappingEnabled := True, isFakeIP := resolver_IsFakeIP (Some (mapper s')),
             findHostByIP := (\<lambda>ip. fst (resolver_FindHostByIP (memory_store slice_pkg slice_pkg) slice_pkg ip (Some (mapper s'))))\<rparr>"
  have "e_mode (mapper s') = e_mode (mapper ?s)"
    using ServeMsg_evolves [OF f(1)] by (simp add: evolves_def same_settings_def)
  then have "asks_enhancer ?sv ?su (mapper s')"
    by (simp add: asks_enhancer_def su resolver_MappingEnabled_def MappingEnabled_def demo_dns_def demo_config_def NewEnhancer_def)
  with f(4) have "preHandleMetadata 0 ?sv (zeroMetadata\<lparr>Host := '''', DstIP := ip\<rparr>) =
      Done (Inr (zeroMetadata\<lparr>Host := ''b.io'', DstIP := NoAddr, DNSMode := DNSFakeIP\<rparr>))" unfolding host by blast
  moreover have "fakeIPTTL (mapper ?s) = 1" by (simp add: demo_dns_def demo_config_def NewEnhancer_def Let_def)
  ultimately show ?thesis using f(1-3) by auto
qed

end
