(* ===== verification/HostLookup.thy ===== *)
theory HostLookup
  imports Hosts DnsResolver
begin

text \<open>
  The lookups of \<^verbatim>\<open>component/resolver/resolver.go\<close>: an address of a name from the static hosts, from the name
  itself when it is an address, from a given resolver or from the system's. A resolver is the record of the
  functions of the interface \<^verbatim>\<open>Resolver\<close> that are called here; \<open>None\<close> is nil. The number drawn for the choice
  of an address is an argument, and a draw from no address is a crash.
\<close>

record host_resolver =
  can_use :: bool
  lookup_both :: "string \<Rightarrow> string + addr list"
  lookup_v4 :: "string \<Rightarrow> string + addr list"
  lookup_v6 :: "string \<Rightarrow> string + addr list"

record lookup_env =
  lk_fuel :: nat
  lk_cfg :: host_settings
  lk_hosts :: "HostValue node"
  SystemResolver :: host_resolver
  DisableIPv6 :: bool
  lk_drawn :: nat

definition usable_resolver :: "host_resolver option \<Rightarrow> bool" where
  "usable_resolver r = (case r of None \<Rightarrow> False | Some r \<Rightarrow> can_use r)"

text \<open>The addresses of a static host, if the search finds one.\<close>

definition static_ips :: "lookup_env \<Rightarrow> string \<Rightarrow> addr list option run" where
  "static_ips e host =
     bind_run (Hosts_Search (lk_fuel e) (lk_cfg e) (lk_hosts e) host False) (\<lambda>(node', ok).
       if ok then (case node' of None \<Rightarrow> Crash | Some v \<Rightarrow> Done (Some (IPs v))) else Done None)"

definition LookupIPv4WithResolver :: "lookup_env \<Rightarrow> string \<Rightarrow> host_resolver option \<Rightarrow> (string + addr list) run" where
  "LookupIPv4WithResolver e host r =
     bind_run (static_ips e host) (\<lambda>ips.
       let addrs = filter Is4 (case ips of None \<Rightarrow> [] | Some ips \<Rightarrow> ips) in
       if length addrs > 0 then Done (Inr addrs)
       else case ParseAddr host of
              Some ip \<Rightarrow> let ip = Unmap ip in Done (if Is4 ip then Inr [ip] else Inl ErrIPVersion)
            | None \<Rightarrow>
                if usable_resolver r then Done (lookup_v4 (the r) host)
                else Done (lookup_v4 (SystemResolver e) host))"

definition LookupIPv6WithResolver :: "lookup_env \<Rightarrow> string \<Rightarrow> host_resolver option \<Rightarrow> (string + addr list) run" where
  "LookupIPv6WithResolver e host r =
     (if DisableIPv6 e then Done (Inl ErrIPv6Disabled)
      else bind_run (static_ips e host) (\<lambda>ips.
       let addrs = filter Is6 (case ips of None \<Rightarrow> [] | Some ips \<Rightarrow> ips) in
       if length addrs > 0 then Done (Inr addrs)
       else case ParseAddr host of
              Some ip \<Rightarrow> let ip = Unmap ip in Done (if Is6 ip then Inr [ip] else Inl ErrIPVersion)
            | None \<Rightarrow>
                if usable_resolver r then Done (lookup_v6 (the r) host)
                else Done (lookup_v6 (SystemResolver e) host)))"

definition LookupIPWithResolver :: "lookup_env \<Rightarrow> string \<Rightarrow> host_resolver option \<Rightarrow> (string + addr list) run" where
  "LookupIPWithResolver e host r =
     bind_run (static_ips e host) (\<lambda>ips.
       case ips of
         Some ips \<Rightarrow> Done (Inr ips)
       | None \<Rightarrow>
           if usable_resolver r then
             (if DisableIPv6 e then Done (lookup_v4 (the r) host) else Done (lookup_both (the r) host))
           else if DisableIPv6 e then LookupIPv4WithResolver e host r
           else case ParseAddr host of
                  Some ip \<Rightarrow> Done (Inr [Unmap ip])
                | None \<Rightarrow> Done (lookup_both (SystemResolver e) host))"

definition SortationAddr :: "addr list \<Rightarrow> addr list \<times> addr list" where
  "SortationAddr ips = (filter (\<lambda>v. Is4 (Unmap v)) ips, filter (\<lambda>v. \<not> Is4 (Unmap v)) ips)"

definition draw :: "nat \<Rightarrow> addr list \<Rightarrow> addr run" where
  "draw k ips = (if ips = [] then Crash else Done (ips ! (k mod length ips)))"

definition not_found :: "string \<Rightarrow> string" where
  "not_found host = ErrIPNotFound @ '': '' @ host"

definition resolve_any :: "lookup_env \<Rightarrow> string \<Rightarrow> (string + addr list) run \<Rightarrow> (string + addr) run" where
  "resolve_any e host looked =
     bind_run looked (\<lambda>r. case r of
       Inl err \<Rightarrow> Done (Inl err)
     | Inr ips \<Rightarrow>
         if length ips = 0 then Done (Inl (not_found host))
         else bind_run (draw (lk_drawn e) ips) (\<lambda>ip. Done (Inr ip)))"

definition ResolveIPv4WithResolver :: "lookup_env \<Rightarrow> string \<Rightarrow> host_resolver option \<Rightarrow> (string + addr) run" where
  "ResolveIPv4WithResolver e host r = resolve_any e host (LookupIPv4WithResolver e host r)"

definition ResolveIPv6WithResolver :: "lookup_env \<Rightarrow> string \<Rightarrow> host_resolver option \<Rightarrow> (string + addr) run" where
  "ResolveIPv6WithResolver e host r = resolve_any e host (LookupIPv6WithResolver e host r)"

definition ResolveIPWithResolver :: "lookup_env \<Rightarrow> string \<Rightarrow> host_resolver option \<Rightarrow> (string + addr) run" where
  "ResolveIPWithResolver e host r =
     bind_run (LookupIPWithResolver e host r) (\<lambda>r. case r of
       Inl err \<Rightarrow> Done (Inl err)
     | Inr ips \<Rightarrow>
         if length ips = 0 then Done (Inl (not_found host))
         else let (ipv4s, ipv6s) = SortationAddr ips in
              bind_run (draw (lk_drawn e) (if length ipv4s > 0 then ipv4s else ipv6s)) (\<lambda>ip. Done (Inr ip)))"

definition ResolveIPPrefer6WithResolver :: "lookup_env \<Rightarrow> string \<Rightarrow> host_resolver option \<Rightarrow> (string + addr) run" where
  "ResolveIPPrefer6WithResolver e host r =
     bind_run (LookupIPWithResolver e host r) (\<lambda>r. case r of
       Inl err \<Rightarrow> Done (Inl err)
     | Inr ips \<Rightarrow>
         if length ips = 0 then Done (Inl (not_found host))
         else let (ipv4s, ipv6s) = SortationAddr ips in
              bind_run (draw (lk_drawn e) (if length ipv6s > 0 then ipv6s else ipv4s)) (\<lambda>ip. Done (Inr ip)))"

section \<open>Properties\<close>

lemma draw_in: "ips \<noteq> [] \<Longrightarrow> \<exists>ip. draw k ips = Done ip \<and> ip \<in> set ips"
  by (simp add: draw_def)

lemma SortationAddr_none: "ips \<noteq> [] \<Longrightarrow> SortationAddr ips = (a, b) \<Longrightarrow> a \<noteq> [] \<or> b \<noteq> []"
  by (auto simp: SortationAddr_def filter_empty_conv)

text \<open>Resolving a name never fails once addresses were looked up: the address is one of them, and of the
  preferred family when there is one of it.\<close>

theorem resolved_prefers:
  assumes "LookupIPWithResolver e host r = Done (Inr ips)" "ips \<noteq> []"
  shows "\<exists>a b. ResolveIPWithResolver e host r = Done (Inr a) \<and> ResolveIPPrefer6WithResolver e host r = Done (Inr b)
    \<and> a \<in> set ips \<and> b \<in> set ips
    \<and> (Is4 (Unmap a) \<longleftrightarrow> (\<exists>ip\<in>set ips. Is4 (Unmap ip)))
    \<and> (\<not> Is4 (Unmap b) \<longleftrightarrow> (\<exists>ip\<in>set ips. \<not> Is4 (Unmap ip)))"
proof -
  let ?v4 = "filter (\<lambda>v. Is4 (Unmap v)) ips" and ?v6 = "filter (\<lambda>v. \<not> Is4 (Unmap v)) ips"
  have ne: "?v4 \<noteq> [] \<or> ?v6 \<noteq> []" using SortationAddr_none [OF assms(2)] by (simp add: SortationAddr_def)
  define as where "as = (if length ?v4 > 0 then ?v4 else ?v6)"
  define bs where "bs = (if length ?v6 > 0 then ?v6 else ?v4)"
  have "as \<noteq> []" "bs \<noteq> []" using ne by (auto simp: as_def bs_def)
  then obtain a b where d: "draw (lk_drawn e) as = Done a" "a \<in> set as" "draw (lk_drawn e) bs = Done b" "b \<in> set bs"
    using draw_in [of as "lk_drawn e"] draw_in [of bs "lk_drawn e"] by blast
  have "ResolveIPWithResolver e host r = Done (Inr a)" "ResolveIPPrefer6WithResolver e host r = Done (Inr b)"
    using assms d(1,3) by (simp_all add: ResolveIPWithResolver_def ResolveIPPrefer6WithResolver_def SortationAddr_def as_def bs_def)
  moreover have "a \<in> set ips \<and> (Is4 (Unmap a) \<longleftrightarrow> (\<exists>ip\<in>set ips. Is4 (Unmap ip)))"
    using d(2) by (auto simp: as_def filter_empty_conv split: if_splits)
  moreover have "b \<in> set ips \<and> (\<not> Is4 (Unmap b) \<longleftrightarrow> (\<exists>ip\<in>set ips. \<not> Is4 (Unmap ip)))"
    using d(4) by (auto simp: bs_def filter_empty_conv split: if_splits)
  ultimately show ?thesis by blast
qed

definition demo_lookup :: lookup_env where
  "demo_lookup =
     \<lparr>lk_fuel = 3, lk_cfg = \<lparr>DisableSystemHosts = True, UseSystemHosts = False, LookupStaticHost = (\<lambda>_. [])\<rparr>,
      lk_hosts = newNode,
      SystemResolver = \<lparr>can_use = True, lookup_both = (\<lambda>h. Inr [V6 1 '''', V4 7]), lookup_v4 = (\<lambda>h. Inr [V4 7]),
        lookup_v6 = (\<lambda>h. Inr [V6 1 ''''])\<rparr>, DisableIPv6 = False, lk_drawn = 3\<rparr>"

theorem resolved_prefers_witness:
  "ResolveIPWithResolver demo_lookup ''b.io'' None = Done (Inr (V4 7))
   \<and> ResolveIPPrefer6WithResolver demo_lookup ''b.io'' None = Done (Inr (V6 1 ''''))"
proof -
  have "LookupIPWithResolver demo_lookup ''b.io'' None = Done (Inr [V6 1 '''', V4 7])" by code_simp
  from resolved_prefers [OF this] show ?thesis
    by (auto simp: Is4_def Unmap_def Is4In6_def split: if_splits)
qed

end
