(* ===== verification/Spec2Isabelle.thy ===== *)
theory Spec2Isabelle
  imports RuleParseLaws Wildcard Trie TunnelLaws Lru FakeIP Bridge_Steps GroupLaws LoadBalance SniffedTunnel QuicLaws
    GroupParseLaws DnsLaws HostLookup
begin

text \<open>
  A proxy client for OpenHarmony: an ArkTS user interface calls, through a small C layer, the
  exported functions of \<^verbatim>\<open>openharmony_bridge/main.go\<close>, and these drive the proxy kernel under
  \<^verbatim>\<open>src/core/mihomo\<close>. This library models the kernel's decisions: which rule and which proxy a
  connection gets, which server a proxy group chooses, which address a name stands for and what a
  question to the DNS service is answered, and when the bridge may stop.
  All paths are below \<^verbatim>\<open>src/core/mihomo\<close>.

  \<^bold>\<open>How the parts interact.\<close> An application asks the DNS service for a name (\<open>DnsEnhancer\<close>), which
  answers from the static hosts (\<open>Hosts\<close>), with a fake address (\<open>FakeIP\<close>) or with what a server
  replied (\<open>DnsResolver\<close>). The connection to that address comes to the tunnel (\<open>Tunnel\<close>), which asks
  the enhancer what the address stands for, may read a name from the first bytes (\<open>Sniffer\<close>, \<open>Quic\<close>),
  and matches the rules (\<open>RuleMatch\<close>) that were parsed from the configuration (\<open>RuleParse\<close>). The
  rule names a proxy or a group (\<open>GroupParse\<close>), which chooses by what the health checks found
  (\<open>HealthChecks\<close>, \<open>ProxyState\<close>, \<open>ProxyGroups\<close>, \<open>LoadBalance\<close>). The bridge starts and stops all of it.

  \<^bold>\<open>Theories and code: names and rules.\<close>

  \<^item> \<open>Prelude\<close>: results of fallible code (\<open>outcome\<close>: a value, an error, a panic; \<open>run\<close>: a value, a
    panic, or fuel used up) and the parts of \<^verbatim>\<open>strings\<close> and \<^verbatim>\<open>strconv\<close> the code calls.
  \<^item> \<open>Netip\<close>: \<^verbatim>\<open>net/netip\<close>: addresses and prefixes, their tests, order, successor, and texts.
  \<^item> \<open>Ranges\<close>: \<^verbatim>\<open>common/utils/range.go\<close> and \<^verbatim>\<open>ranges.go\<close>, at the width of their type.
  \<^item> \<open>Wildcard\<close>: \<^verbatim>\<open>component/wildcard\<close>, the matcher with its backtracking loop.
  \<^item> \<open>Trie\<close>: \<^verbatim>\<open>component/trie/node.go\<close> and \<^verbatim>\<open>domain.go\<close>; a node has one child or a map of children.
  \<^item> \<open>Metadata\<close>: \<^verbatim>\<open>constant/metadata.go\<close>, the enumerations of \<^verbatim>\<open>constant/dns.go\<close> and \<^verbatim>\<open>rule.go\<close>.
  \<^item> \<open>RuleMatch\<close>: the \<^verbatim>\<open>Match\<close> of every rule of \<^verbatim>\<open>rules/common\<close>, of \<^verbatim>\<open>rules/logic\<close>, \<^verbatim>\<open>rules/provider\<close>
    and \<^verbatim>\<open>rules/wrapper\<close>, over a state with the metadata, the flags of the helper's closures and the
    counters of the wrappers. \<open>RuleLaws\<close>: fuel, termination, frames, and the check for circular
    sub-rules of \<^verbatim>\<open>config/config.go\<close>.
  \<^item> \<open>RuleParse\<close>: \<^verbatim>\<open>rules/parser.go\<close>, every constructor it calls, the payloads of logic rules, and
    the loops of \<^verbatim>\<open>config/config.go\<close> over rules and sub-rules. \<open>RuleParseLaws\<close>: what parsed rules
    guarantee when they are matched.
  \<^item> \<open>Hosts\<close>: \<^verbatim>\<open>component/resolver/host.go\<close> and the entries of \<^verbatim>\<open>parseHosts\<close>. \<open>HostLookup\<close>: the
    lookups of \<^verbatim>\<open>component/resolver/resolver.go\<close> over the hosts and a resolver.

  \<^bold>\<open>Theories and code: connections.\<close>

  \<^item> \<open>Tunnel\<close>: \<^verbatim>\<open>tunnel/tunnel.go\<close>, \<^verbatim>\<open>mode.go\<close>, \<^verbatim>\<open>status.go\<close>: the handling of a connection from its
    metadata to the dial. \<open>TunnelLaws\<close>: which rule decides, what handling may change.
  \<^item> \<open>TlsSniffer\<close>: \<^verbatim>\<open>component/sniffer/tls_sniffer.go\<close> with every index checked. \<open>Sniffer\<close>: the HTTP
    reader, the buffered connection and the dispatcher with its list of failed destinations.
    \<open>SniffedTunnel\<close>: the dispatcher as the sniffer of the tunnel.
  \<^item> \<open>Quic\<close>: \<^verbatim>\<open>component/sniffer/quic_sniffer.go\<close>, from the packet to the reassembly buffer.
    \<open>QuicLaws\<close>: that frames in any order, cut and repeated, give the client's bytes.
  \<^item> \<open>Bridge\<close>: the exported functions of \<^verbatim>\<open>openharmony_bridge/main.go\<close> as functions on the state
    behind \<^verbatim>\<open>stateMu\<close>. \<open>Bridge_Steps\<close>: their sections interleaved, as a step relation.

  \<^bold>\<open>Theories and code: proxies and groups.\<close>

  \<^item> \<open>ProxyState\<close>: the delay histories of \<^verbatim>\<open>adapter/adapter.go\<close> and the queue of \<^verbatim>\<open>common/queue\<close>.
  \<^item> \<open>ProxyGroups\<close>: \<^verbatim>\<open>adapter/outboundgroup\<close> (\<^verbatim>\<open>groupbase.go\<close>, \<^verbatim>\<open>selector.go\<close>, \<^verbatim>\<open>fallback.go\<close>,
    \<^verbatim>\<open>urltest.go\<close>) and \<^verbatim>\<open>common/singledo\<close>. \<open>GroupLaws\<close>: the members of a group and its choice.
  \<^item> \<open>LoadBalance\<close>: \<^verbatim>\<open>loadbalance.go\<close>, with the jump hash in double precision written out.
  \<^item> \<open>HealthChecks\<close>: \<^verbatim>\<open>adapter/provider/healthcheck.go\<close> and the registration of tasks.
  \<^item> \<open>GroupDag\<close>: the sorting of groups and the check of dialers in \<^verbatim>\<open>config/utils.go\<close> and
    \<^verbatim>\<open>config/config.go\<close>. \<open>GroupParse\<close>: \<^verbatim>\<open>ParseProxyGroup\<close> and \<^verbatim>\<open>parseProxies\<close>. \<open>GroupDagLaws\<close> and
    \<open>GroupParseLaws\<close>: that a loop is refused, and what the tables refer to.

  \<^bold>\<open>Theories and code: addresses and the DNS service.\<close>

  \<^item> \<open>Lru\<close>: \<^verbatim>\<open>common/lru\<close> over a list package. \<open>LruMemory\<close>: what a client may rely on.
  \<^item> \<open>FakeIP\<close>: \<^verbatim>\<open>component/fakeip\<close>, the pool over a store.
  \<^item> \<open>DnsMessage\<close>: messages and \<^verbatim>\<open>dns/util.go\<close>: times to live, the cache, the subnet option
    (\<^verbatim>\<open>edns0_subnet.go\<close>), the wrapping clients, \<^verbatim>\<open>rcode.go\<close>. \<open>DnsCache\<close>: the age of cached answers.
  \<^item> \<open>DnsResolver\<close>: \<^verbatim>\<open>dns/resolver.go\<close> and \<^verbatim>\<open>policy.go\<close>: policies, fallback servers, the exchange with
    its cache, and the construction of the resolvers. \<open>DnsResolverLaws\<close>: whose answer is used.
  \<^item> \<open>DnsEnhancer\<close>: \<^verbatim>\<open>dns/enhancer.go\<close>, the chain of handlers of \<^verbatim>\<open>middleware.go\<close>, the service, and
    the filter of \<^verbatim>\<open>component/fakeip/skipper.go\<close>. \<open>EnhancerLaws\<close>: what every handler keeps.
    \<open>DnsLaws\<close>: the properties of the service and of the tunnel that asks it.

  \<^bold>\<open>Interfaces.\<close> Wherever a component rests on another, what it uses is a locale:

  \<^item> \<open>list_laws\<close> (in \<open>Lru\<close>) is what the linked list package promises; \<open>lru_list\<close> proves over it that
    the cache refines a list in the order of use. It is interpreted on a list of handles, and
    carries over to its clients: \<open>memory_caches\<close>, \<open>dns_lru\<close> and \<open>host_map\<close> extend it.
  \<^item> \<open>fake_store\<close> (in \<open>FakeIP\<close>) is what the pool needs of its store; \<open>memory_caches\<close>, the memory store
    on two caches, is a sublocale of it.
  \<^item> \<open>dns_laws\<close> (in \<open>DnsMessage\<close>) states what the message package and the list helpers do;
    \<open>dns_cache\<close> is the resolver's cache interface, which the LRU cache provides (\<open>dns_lru\<close>), and
    \<open>cached_dns\<close> joins the two.
  \<^item> \<open>dns_handler\<close> (in \<open>EnhancerLaws\<close>) is what every chain of handlers keeps of the enhancer; it is
    interpreted on the chain that \<open>newHandler\<close> builds, for every mode. \<open>host_map\<close> is its mapping.
  \<^item> \<open>match_frame\<close> (in \<open>RuleLaws\<close>) says what the helper's closures may change; the tunnel's closures
    are its interpretation.
  \<^item> \<open>counter\<close> (in \<open>GroupDagLaws\<close>) is one of the two degrees of a group graph, with an
    interpretation for each. \<open>buf_laws\<close> (in \<open>Quic\<close>) is what the cursor package does.

  \<^bold>\<open>Groups of lemmas.\<close> Each component has its functional laws on every branch; the caches and
  the pool have a refinement of an abstract list of pairs; the bridge has invariants over all
  interleavings; the resolver and the service have invariants over all histories of calls. Loops of
  the code that may not end are given fuel, and their theorems say that enough fuel gives a result
  and that the result does not depend on it. Where the code goes wrong, a theorem shows the
  behaviour on the model: its text says that something is accepted, forgotten, lost, skipped or
  never answered.

  \<^bold>\<open>Fuel.\<close> \<open>Match\<close> and \<open>Hosts_Search\<close> take fuel because the code recurses along names:
  \<open>Match_terminates\<close> and \<open>Hosts_Search_total\<close> give enough of it for checked configurations, and
  \<open>self_referring_provider_diverges\<close> and \<open>self_mapped_host_diverges\<close> show that without the
  check none is enough. The functions that call them pass the fuel on. The loops of \<open>Lru\<close>,
  \<open>Wildcard\<close>, \<open>LoadBalance\<close> and \<open>Quic\<close> are bounded by a length that the definitions name: the entries
  of the cache, the pattern and the text, the proxies, the bytes of the payload.

  \<^bold>\<open>Parameters.\<close> Third-party packages and the network are arguments: the list package of the
  caches, the regular expression compiler, the geo databases, the public suffix list, the seeded
  string hash, the ciphers and the cursor package of QUIC, the DNS message package and the slice
  helpers (\<open>dns_pkgs\<close>), the YAML package with its decoded options, the parsers of single outbounds
  and providers, the process lookup, and the engine behind the bridge. The replies of DNS servers and
  the order in which they finish are a \<open>world\<close>; the order in which Go iterates a map is an argument.
  Time is an argument where the code reads it.

  \<^bold>\<open>Not modelled.\<close> Protocol implementations (\<^verbatim>\<open>transport\<close>, \<^verbatim>\<open>adapter/outbound\<close>, \<^verbatim>\<open>listener\<close>): their
  contract is with remote peers and with cryptographic packages. The network stack under
  \<^verbatim>\<open>openharmony_shims\<close>, which is a copy of a third-party module. The connections to DNS servers, and
  the sharing of one exchange between callers (\<^verbatim>\<open>common/singleflight\<close>): a call of the resolver is one
  step. \<^verbatim>\<open>CloneTo\<close>, \<^verbatim>\<open>CloneFrom\<close> and \<^verbatim>\<open>PatchFrom\<close>, after which two caches share entries. Downloads,
  the REST interface, the process lookup of each platform, log texts, and the user interface in
  ArkTS and C++.
\<close>

end
